(* ===== verification/Prelude.thy ===== *)
theory Prelude
  imports Main "HOL-Library.Word" "HOL-Library.Monad_Syntax"
begin

unbundle bit_operations_syntax

text \<open>
  Shared ground of the development: the machine types of the C code, \<open>size_t\<close>
  arithmetic with its wrap-around written out, the result convention of functions
  that return an \<open>int\<close> flag and change a state, overwriting a slice of a buffer,
  and big-endian numbers.  The lemmas here are generic: no definition of this theory
  models a function of the repository.
\<close>

section \<open>Machine types\<close>

type_synonym u8 = "8 word"
type_synonym u16 = "16 word"
type_synonym u32 = "32 word"
type_synonym u64 = "64 word"

text \<open>
  A \<open>size_t\<close> is a natural number below \<open>2 ^ 64\<close>; every sum or product of the
  code that may wrap is written with \<open>size_add\<close> or \<open>size_mul\<close>.
\<close>

type_synonym size_t = nat

definition size_max :: nat where
  "size_max = 2 ^ 64 - 1"

definition size_add :: "size_t \<Rightarrow> size_t \<Rightarrow> size_t" where
  "size_add a b = (a + b) mod 2 ^ 64"

definition size_mul :: "size_t \<Rightarrow> size_t \<Rightarrow> size_t" where
  "size_mul a b = (a * b) mod 2 ^ 64"

definition size_sub :: "size_t \<Rightarrow> size_t \<Rightarrow> size_t" where
  "size_sub a b = (a + (2 ^ 64 - b)) mod 2 ^ 64"

definition int_max :: nat where
  "int_max = 2 ^ 31 - 1"

named_theorems size_arith \<open>unfolding of the \<open>size_t\<close> operations\<close>
named_theorems byte_simps \<open>words as natural numbers\<close>

declare size_add_def [size_arith] size_mul_def [size_arith] size_max_def [size_arith]
  int_max_def [size_arith]

lemma size_add_exact: "a + b < 2 ^ 64 \<Longrightarrow> size_add a b = a + b"
  by (simp add: size_add_def)

lemma size_sub_exact: "a < 2 ^ 64 \<Longrightarrow> b \<le> a \<Longrightarrow> size_sub a b = a - b"
  by (simp add: size_sub_def mod_if)

lemma size_mul_exact: "a * b < 2 ^ 64 \<Longrightarrow> size_mul a b = a * b"
  by (simp add: size_mul_def)

text \<open>The overflow test \<open>a + b < a\<close> of the code is exactly \<open>a + b \<ge> 2 ^ 64\<close>.\<close>

lemma size_add_less_iff:
  assumes "a < 2 ^ 64" "b < 2 ^ 64"
  shows "size_add a b < a \<longleftrightarrow> 2 ^ 64 \<le> a + b"
proof (cases "a + b < 2 ^ 64")
  case True
  then show ?thesis by (simp add: size_add_def)
next
  case False
  with assms have "(a + b) mod 2 ^ 64 = a + b - 2 ^ 64"
    by (subst le_mod_geq) simp_all
  with False assms show ?thesis by (simp add: size_add_def)
qed

section \<open>Flag and state results\<close>

text \<open>
  A C function that returns an \<open>int\<close> flag and changes the object it is given is a
  function into \<open>bool \<times> 's\<close>.  The short-circuit \<open>f && g\<close> of the code is
  \<open>andthen\<close>: the second operation runs on the state the first one left, and only
  if the first one succeeded.
\<close>

definition andthen :: "bool \<times> 's \<Rightarrow> ('s \<Rightarrow> bool \<times> 's) \<Rightarrow> bool \<times> 's" where
  "andthen r f = (if fst r then f (snd r) else (False, snd r))"

lemma andthen_simps [simp]:
  "andthen (True, s) f = f s"
  "andthen (False, s) f = (False, s)"
  by (simp_all add: andthen_def)

lemma andthen_ok:
  "andthen r f = (True, t) \<longleftrightarrow> (\<exists>s. r = (True, s) \<and> f s = (True, t))"
  by (cases r) (auto simp: andthen_def)

lemma andthen_assoc: "andthen (andthen r f) g = andthen r (\<lambda>s. andthen (f s) g)"
  by (cases r) (auto simp: andthen_def)

lemma andthen_invariant:
  assumes "P (snd r)" "\<And>s. P s \<Longrightarrow> P (snd (f s))"
  shows "P (snd (andthen r f))"
  using assms by (cases r) (auto simp: andthen_def)

lemma option_ext: "(\<And>y. a = Some y \<longleftrightarrow> b = Some y) \<Longrightarrow> a = b"
  by (cases a; cases b) auto

section \<open>Overwriting a slice\<close>

text \<open>\<open>blit b off xs\<close> is \<open>memcpy(b + off, xs, length xs)\<close> on the list \<open>b\<close>.\<close>

definition blit :: "'a list \<Rightarrow> nat \<Rightarrow> 'a list \<Rightarrow> 'a list" where
  "blit b off xs = take off b @ xs @ drop (off + length xs) b"

lemma length_blit [simp]: "off + length xs \<le> length b \<Longrightarrow> length (blit b off xs) = length b"
  by (simp add: blit_def)

lemma blit_Nil [simp]: "blit b off [] = b"
  by (simp add: blit_def)

lemma take_blit_before: "n \<le> off \<Longrightarrow> off \<le> length b \<Longrightarrow> take n (blit b off xs) = take n b"
  by (simp add: blit_def min_def)

lemma take_blit_end:
  "off + length xs \<le> length b \<Longrightarrow> take (off + length xs) (blit b off xs) = take off b @ xs"
  by (simp add: blit_def)

lemma blit_single: "off < length b \<Longrightarrow> blit b off [x] = b[off := x]"
  by (simp add: blit_def upd_conv_take_nth_drop)

lemma blit_at: "length xs = off \<Longrightarrow> length ys = length zs \<Longrightarrow> blit (xs @ ys @ r) off zs = xs @ zs @ r"
  by (simp add: blit_def)

lemma blit_update_end:
  assumes "off + length xs < length b"
  shows "blit (b[off + length xs := x]) off xs = blit b off (xs @ [x])"
proof -
  have "drop (off + length xs) (b[off + length xs := x]) = x # drop (Suc (off + length xs)) b"
    using assms by (simp add: drop_update_swap Cons_nth_drop_Suc [symmetric])
  then show ?thesis by (simp add: blit_def)
qed

section \<open>Memory\<close>

text \<open>
  The outcomes of the allocations to come, in order; allocations beyond the end of the list
  succeed.  An operation that allocates takes the list and, where others follow, returns
  what is left of it.
\<close>

definition mem_next :: "bool list \<Rightarrow> bool \<times> bool list" where
  "mem_next mem = (case mem of [] \<Rightarrow> (True, []) | m # ms \<Rightarrow> (m, ms))"

definition granted :: "bool list \<Rightarrow> bool" where
  "granted mem \<longleftrightarrow> (\<forall>ok\<in>set mem. ok)"

lemma granted_next:
  assumes "granted mem"
  shows "fst (mem_next mem)" "granted (snd (mem_next mem))"
  using assms by (auto simp: granted_def mem_next_def split: list.splits)

lemma granted_Nil [simp]: "granted []"
  by (simp add: granted_def)

lemma length_concat_same:
  "(\<And>x. x \<in> set xs \<Longrightarrow> length (f x) = d) \<Longrightarrow> length (concat (map f xs)) = d * length xs"
  by (induction xs) simp_all

text \<open>Cutting \<open>L\<close> into pieces of \<open>d\<close>: the last may be shorter.\<close>

lemma ceil_div_step:
  assumes "0 < L" "0 < (d :: nat)"
  shows "(L + d - 1) div d = Suc ((L - min L d + d - 1) div d)"
proof (cases "L < d")
  case True
  have "L + d - 1 = (L - 1) + d" using assms by simp
  then have "(L + d - 1) div d = (L - 1) div d + 1" using assms(2) by (simp only: div_add_self2)
  moreover have "(L - 1) div d = 0" "L - min L d = 0" "(d - 1) div d = 0" using True assms by auto
  ultimately show ?thesis by simp
next
  case False
  then have "L + d - 1 = (L - d + d - 1) + d" "min L d = d" using assms by simp_all
  then show ?thesis using assms(2) by (simp only: div_add_self2 Suc_eq_plus1)
qed

lemma ceil_div_enough: "0 < d \<Longrightarrow> L \<le> d * ((L + d - 1) div (d :: nat))"
proof -
  assume "0 < d"
  then have "L + d - 1 < d * ((L + d - 1) div d) + d" using dividend_less_times_div [of d "L + d - 1"] by simp
  then show ?thesis by linarith
qed

section \<open>Big-endian numbers\<close>

definition be_nat :: "u8 list \<Rightarrow> nat" where
  "be_nat bs = foldl (\<lambda>n b. n * 256 + unat b) 0 bs"

fun be_bytes :: "nat \<Rightarrow> nat \<Rightarrow> u8 list" where
  "be_bytes 0 n = []"
| "be_bytes (Suc k) n = be_bytes k (n div 256) @ [of_nat n]"

lemma be_bytes_numeral:
  "be_bytes (numeral k) n = be_bytes (pred_numeral k) (n div 256) @ [of_nat n]"
  by (simp only: numeral_eq_Suc be_bytes.simps)

lemma be_nat_simps [simp]:
  "be_nat [] = 0"
  "be_nat (bs @ [b]) = be_nat bs * 256 + unat b"
  by (simp_all add: be_nat_def)

lemma be_nat_single [simp]: "be_nat [b] = unat b"
  by (simp add: be_nat_def)

lemma pow_256: "(256 :: nat) ^ k = 2 ^ (k * 8)"
proof -
  have "(256 :: nat) ^ k = (2 ^ 8) ^ k" by simp
  then show ?thesis by (simp only: power_mult [symmetric] mult.commute)
qed

lemma unat_u8_less [simp]: "unat (b :: u8) < 256"
  using unsigned_less [of b, where ?'a = nat] by simp

lemma unat_u8_le [simp]: "unat (b :: u8) \<le> 255"
  using unat_u8_less [of b] by linarith

lemma be_nat_less: "be_nat bs < 256 ^ length bs"
proof (induction bs rule: rev_induct)
  case (snoc b bs)
  have "be_nat bs * 256 + unat b < (be_nat bs + 1) * 256"
    using unat_u8_less [of b] by simp
  also have "\<dots> \<le> 256 ^ length bs * 256"
    using snoc by (intro mult_le_mono1) simp
  finally show ?case by simp
qed simp

lemma be_nat_append: "be_nat (xs @ ys) = be_nat xs * 256 ^ length ys + be_nat ys"
proof (induction ys rule: rev_induct)
  case (snoc y ys)
  have "be_nat (xs @ ys @ [y]) = be_nat ((xs @ ys) @ [y])" by simp
  also have "\<dots> = be_nat xs * 256 ^ length (ys @ [y]) + be_nat (ys @ [y])"
    by (simp only: be_nat_simps snoc) (simp add: algebra_simps)
  finally show ?case .
qed simp

lemma be_nat_Cons: "be_nat (b # bs) = unat b * 256 ^ length bs + be_nat bs"
  using be_nat_append [of "[b]" bs] by simp

lemma length_be_bytes [simp]: "length (be_bytes k n) = k"
  by (induction k arbitrary: n) simp_all

lemma unat_of_nat_u8 [byte_simps]: "unat (of_nat n :: u8) = n mod 256"
  by (simp add: unat_of_nat)

lemma be_nat_be_bytes: "be_nat (be_bytes k n) = n mod 256 ^ k"
proof (induction k arbitrary: n)
  case (Suc k)
  have "be_nat (be_bytes (Suc k) n) = (n div 256 mod 256 ^ k) * 256 + n mod 256"
    by (simp add: Suc unat_of_nat_u8)
  also have "\<dots> = n mod 256 ^ Suc k"
    by (simp add: mod_mult2_eq mult.commute)
  finally show ?case .
qed simp

lemma be_nat_be_bytes_exact: "n < 256 ^ k \<Longrightarrow> be_nat (be_bytes k n) = n"
  by (simp add: be_nat_be_bytes)

lemma be_bytes_be_nat: "be_bytes (length bs) (be_nat bs) = bs"
proof (induction bs rule: rev_induct)
  case (snoc b bs)
  have "(be_nat bs * 256 + unat b) div 256 = be_nat bs"
    using unat_u8_less [of b] by simp
  moreover have "(of_nat (be_nat bs * 256 + unat b) :: u8) = b"
    by (simp add: word_unat_eq_iff unat_of_nat_u8 del: of_nat_add of_nat_mult)
  ultimately show ?case using snoc by (simp del: of_nat_add of_nat_mult)
qed simp

lemma be_nat_inj: "length xs = length ys \<Longrightarrow> be_nat xs = be_nat ys \<Longrightarrow> xs = ys"
  by (metis be_bytes_be_nat)

lemma be_bytes_mod: "256 ^ k dvd m \<Longrightarrow> be_bytes k (n mod m) = be_bytes k n"
  by (rule be_nat_inj) (simp_all add: be_nat_be_bytes mod_mod_cancel)

section \<open>Words as numbers\<close>

text \<open>
  The accumulation step \<open>v = (v << k) | x\<close> of the readers, where \<open>x\<close> fits in the
  \<open>k\<close> bits that the shift cleared, is \<open>v * 2 ^ k + x\<close> modulo the width.
\<close>

lemma or_shift_add:
  fixes v :: "'a::len word"
  assumes "unat x < 2 ^ k"
  shows "push_bit k v OR x = push_bit k v + x"
proof -
  have "x = take_bit k x"
    using assms by (simp add: word_unat_eq_iff unsigned_take_bit_eq take_bit_nat_eq_self)
  then have "\<not> bit x n" if "k \<le> n" for n
    using that by (metis bit_take_bit_iff not_le)
  then have "push_bit k v AND x = 0"
    by (intro bit_word_eqI) (auto simp: bit_simps)
  then show ?thesis by (simp add: disjunctive_add_eq_or)
qed

lemma unat_or_shift:
  fixes v :: "'a::len word"
  assumes "unat x < 2 ^ k" "unat v * 2 ^ k + unat x < 2 ^ LENGTH('a)"
  shows "unat (push_bit k v OR x) = unat v * 2 ^ k + unat x"
proof -
  have "unat (push_bit k v) = unat v * 2 ^ k"
    using assms(2) by (simp add: unsigned_push_bit_eq push_bit_nat_def take_bit_nat_eq_self)
  then show ?thesis
    using assms by (simp add: or_shift_add unat_add_lem [THEN iffD1])
qed

lemma unat_take_bit: "unat (take_bit k v) = unat v mod 2 ^ k"
  by (simp add: unsigned_take_bit_eq take_bit_nat_def)

lemma unat_and_mask: "unat (v AND mask k) = unat v mod 2 ^ k"
  by (simp add: unat_take_bit flip: take_bit_eq_mask)

lemma unat_drop: "unat (drop_bit k v) = unat v div 2 ^ k"
  by (simp add: unat_drop_bit_eq drop_bit_nat_def)

lemma unat_push:
  fixes v :: "'a::len word"
  shows "unat v * 2 ^ k < 2 ^ LENGTH('a) \<Longrightarrow> unat (push_bit k v) = unat v * 2 ^ k"
  by (simp add: unsigned_push_bit_eq push_bit_nat_def take_bit_nat_eq_self)

lemma unat_ucast_up:
  fixes v :: "'a::len word"
  assumes "LENGTH('a) \<le> LENGTH('b)"
  shows "unat (ucast v :: 'b::len word) = unat v"
proof -
  have "unat v < 2 ^ LENGTH('b)"
    using assms unsigned_less [of v, where ?'a = nat]
    by (meson less_le_trans one_le_numeral power_increasing)
  then show ?thesis by (simp add: unsigned_ucast_eq take_bit_nat_eq_self)
qed

lemma unat_ucast_mod: "unat (ucast v :: 'b::len word) = unat v mod 2 ^ LENGTH('b)"
  by (simp add: unsigned_ucast_eq take_bit_nat_def)

lemma ucast_ucast_up:
  fixes v :: "'a::len word"
  assumes "LENGTH('a) \<le> LENGTH('b)"
  shows "ucast (ucast v :: 'b::len word) = v"
  using assms unsigned_less [of v, where ?'a = nat]
  by (simp add: word_unat_eq_iff unat_ucast_mod mod_mod_cancel le_imp_power_dvd)

end
