(* ===== verification/Codec.thy ===== *)
theory Codec
  imports Prelude
begin

text \<open>
  The interfaces the components share.  A reader takes a value from the front of a
  byte string and leaves the rest (\<open>prefix_parser\<close>); a reader and a writer that are
  inverse to each other form a \<open>codec\<close>.  What the clients need, loops over a whole
  string included, is proved once here; the components interpret the locales on
  their own readers and writers.
\<close>

type_synonym 'a parser = "u8 list \<Rightarrow> ('a \<times> u8 list) option"

text \<open>
  \<open>while (CBS_len(&s) != 0) { if (!p(&s)) return 0; ... }\<close>, the values collected in
  order.  The test on the lengths is what makes the recursion well-founded for an
  arbitrary \<open>p\<close>; for a \<open>prefix_parser\<close> it always holds (\<open>parse_many_step\<close>).
\<close>

function parse_many :: "'a parser \<Rightarrow> u8 list \<Rightarrow> 'a list option" where
  "parse_many p s =
     (if s = [] then Some []
      else case p s of
             None \<Rightarrow> None
           | Some (a, r) \<Rightarrow>
               if length r < length s then map_option ((#) a) (parse_many p r) else None)"
  by pat_completeness auto
termination
  by (relation "measure (\<lambda>(p, s). length s)") auto

declare parse_many.simps [simp del]

lemma parse_many_Nil [simp]: "parse_many p [] = Some []"
  by (simp add: parse_many.simps)

section \<open>Readers\<close>

locale prefix_parser =
  fixes p :: "'a parser"
  assumes consumes: "p s = Some (a, r) \<Longrightarrow> \<exists>w. w \<noteq> [] \<and> s = w @ r"
begin

lemma shorter: "p s = Some (a, r) \<Longrightarrow> length r < length s"
  using consumes by force

lemma not_empty: "p [] = None"
  using shorter [of "[]"] by (cases "p []") auto

lemma parse_many_step:
  "s \<noteq> [] \<Longrightarrow>
   parse_many p s = Option.bind (p s) (\<lambda>(a, r). map_option ((#) a) (parse_many p r))"
  by (auto simp: parse_many.simps [of p s] shorter split: option.splits)

end

section \<open>Readers with a writer\<close>

locale codec =
  fixes p :: "'a parser" and enc :: "'a \<Rightarrow> u8 list" and valid :: "'a \<Rightarrow> bool"
  assumes parse_enc: "valid a \<Longrightarrow> p (enc a @ r) = Some (a, r)"
    and parse_only: "p s = Some (a, r) \<Longrightarrow> valid a \<and> s = enc a @ r"
    and enc_nonempty: "valid a \<Longrightarrow> enc a \<noteq> []"
begin

lemma parse_iff: "p s = Some (a, r) \<longleftrightarrow> valid a \<and> s = enc a @ r"
  using parse_enc parse_only by blast

lemma parse_whole: "valid a \<Longrightarrow> p (enc a) = Some (a, [])"
  using parse_enc [of a "[]"] by simp

lemma enc_prefix_free:
  "valid a \<Longrightarrow> valid b \<Longrightarrow> enc a @ r = enc b @ t \<Longrightarrow> a = b \<and> r = t"
  by (metis option.inject parse_enc prod.inject)

lemma enc_inj: "valid a \<Longrightarrow> valid b \<Longrightarrow> enc a = enc b \<Longrightarrow> a = b"
  using enc_prefix_free [of a b "[]" "[]"] by simp

lemma canonical: "p s = Some (a, r) \<Longrightarrow> p t = Some (a, r) \<Longrightarrow> s = t"
  using parse_only by blast

end

sublocale codec \<subseteq> prefix_parser p
  by unfold_locales (use parse_only enc_nonempty in blast)

context codec begin

lemma parse_many_enc:
  "list_all valid as \<Longrightarrow> parse_many p (concat (map enc as)) = Some as"
proof (induction as)
  case (Cons a as)
  then have "enc a @ concat (map enc as) \<noteq> []" using enc_nonempty by simp
  with Cons show ?case by (simp add: parse_many_step parse_enc)
qed simp

lemma parse_many_only:
  "parse_many p s = Some as \<Longrightarrow> list_all valid as \<and> s = concat (map enc as)"
proof (induction s arbitrary: as rule: length_induct)
  case (1 s)
  show ?case
  proof (cases "s = []")
    case False
    with "1.prems" obtain a r as' where pr: "p s = Some (a, r)"
      and "parse_many p r = Some as'" "as = a # as'"
      by (auto simp: parse_many_step bind_eq_Some_conv)
    moreover have "\<forall>x. parse_many p r = Some x \<longrightarrow> list_all valid x \<and> r = concat (map enc x)"
      using "1.IH" shorter [OF pr] by blast
    ultimately show ?thesis using parse_only [OF pr] by auto
  qed (use "1.prems" in simp)
qed

lemma parse_many_iff:
  "parse_many p s = Some as \<longleftrightarrow> list_all valid as \<and> s = concat (map enc as)"
  using parse_many_enc parse_many_only by blast

end

end
