(* ===== verification/Cbs.thy ===== *)
theory Cbs
  imports Codec
begin

text \<open>
  The reader of \<open>crypto/bytestring/cbs.c\<close>.  A \<open>CBS\<close> is a pointer and a length into
  memory the reader never writes: the model is the list of the bytes it views.  A
  function that returns zero is \<open>None\<close>; one that returns one gives its outputs and
  the advanced \<open>CBS\<close>.  (What is left in a \<open>CBS\<close> after a failure is not modelled: no
  caller of the repository's byte-string code reads it.)
\<close>

type_synonym CBS = "u8 list"

section \<open>Fixed-size reads\<close>

definition CBS_init :: "u8 list \<Rightarrow> size_t \<Rightarrow> CBS" where
  "CBS_init data len = take len data"

definition cbs_get :: "CBS \<Rightarrow> size_t \<Rightarrow> (u8 list \<times> CBS) option" where
  "cbs_get cbs n = (if length cbs < n then None else Some (take n cbs, drop n cbs))"

definition CBS_skip :: "CBS \<Rightarrow> size_t \<Rightarrow> CBS option" where
  "CBS_skip cbs len = map_option snd (cbs_get cbs len)"

definition CBS_data :: "CBS \<Rightarrow> u8 list" where
  "CBS_data cbs = cbs"

definition CBS_len :: "CBS \<Rightarrow> size_t" where
  "CBS_len cbs = length cbs"

text \<open>
  \<open>CBS_stow\<close> and \<open>CBS_strdup\<close> copy into fresh memory; \<open>mem_ok\<close> says whether the
  allocator grants the request of the given size.
\<close>

definition CBS_stow :: "(size_t \<Rightarrow> bool) \<Rightarrow> CBS \<Rightarrow> bool \<times> u8 list option \<times> size_t" where
  "CBS_stow mem_ok cbs =
     (if CBS_len cbs = 0 then (True, None, 0)
      else if mem_ok (CBS_len cbs) then (True, Some (CBS_data cbs), CBS_len cbs)
      else (False, None, 0))"

definition CBS_contains_zero_byte :: "CBS \<Rightarrow> bool" where
  "CBS_contains_zero_byte cbs \<longleftrightarrow> 0 \<in> set (CBS_data cbs)"

fun CRYPTO_memcmp_loop :: "u8 \<Rightarrow> u8 list \<Rightarrow> u8 list \<Rightarrow> u8" where
  "CRYPTO_memcmp_loop x (a # as) (b # bs) = CRYPTO_memcmp_loop (x OR (a XOR b)) as bs"
| "CRYPTO_memcmp_loop x _ _ = x"

definition CRYPTO_memcmp :: "u8 list \<Rightarrow> u8 list \<Rightarrow> size_t \<Rightarrow> nat" where
  "CRYPTO_memcmp in_a in_b len = unat (CRYPTO_memcmp_loop 0 (take len in_a) (take len in_b))"

definition CBS_mem_equal :: "CBS \<Rightarrow> u8 list \<Rightarrow> size_t \<Rightarrow> bool" where
  "CBS_mem_equal cbs data len =
     (if len \<noteq> CBS_len cbs then False else CRYPTO_memcmp (CBS_data cbs) data len = 0)"

fun cbs_get_u_loop :: "u64 \<Rightarrow> u8 list \<Rightarrow> u64" where
  "cbs_get_u_loop result [] = result"
| "cbs_get_u_loop result (b # data) = cbs_get_u_loop (push_bit 8 result OR ucast b) data"

definition cbs_get_u :: "CBS \<Rightarrow> size_t \<Rightarrow> (u64 \<times> CBS) option" where
  "cbs_get_u cbs len = do {
     (data, cbs) \<leftarrow> cbs_get cbs len;
     Some (cbs_get_u_loop 0 data, cbs)
   }"

definition CBS_get_u8 :: "CBS \<Rightarrow> (u8 \<times> CBS) option" where
  "CBS_get_u8 cbs = do {
     (v, cbs) \<leftarrow> cbs_get cbs 1;
     Some (hd v, cbs)
   }"

definition CBS_get_u16 :: "CBS \<Rightarrow> (u16 \<times> CBS) option" where
  "CBS_get_u16 cbs = do { (v, cbs) \<leftarrow> cbs_get_u cbs 2; Some (ucast v, cbs) }"

definition CBS_get_u24 :: "CBS \<Rightarrow> (u32 \<times> CBS) option" where
  "CBS_get_u24 cbs = do { (v, cbs) \<leftarrow> cbs_get_u cbs 3; Some (ucast v, cbs) }"

definition CBS_get_u32 :: "CBS \<Rightarrow> (u32 \<times> CBS) option" where
  "CBS_get_u32 cbs = do { (v, cbs) \<leftarrow> cbs_get_u cbs 4; Some (ucast v, cbs) }"

definition CBS_get_u64 :: "CBS \<Rightarrow> (u64 \<times> CBS) option" where
  "CBS_get_u64 cbs = cbs_get_u cbs 8"

text \<open>The byte swaps of \<open>crypto/internal.h\<close>.\<close>

definition CRYPTO_bswap2 :: "u16 \<Rightarrow> u16" where
  "CRYPTO_bswap2 x = drop_bit 8 x OR push_bit 8 x"

definition CRYPTO_bswap4 :: "u32 \<Rightarrow> u32" where
  "CRYPTO_bswap4 x =
     (let x = drop_bit 16 x OR push_bit 16 x
      in drop_bit 8 (x AND 0xff00ff00) OR push_bit 8 (x AND 0x00ff00ff))"

definition CRYPTO_bswap8 :: "u64 \<Rightarrow> u64" where
  "CRYPTO_bswap8 x =
     ucast (CRYPTO_bswap4 (ucast (drop_bit 32 x))) OR
     push_bit 32 (ucast (CRYPTO_bswap4 (ucast x)))"

definition CBS_get_u16le :: "CBS \<Rightarrow> (u16 \<times> CBS) option" where
  "CBS_get_u16le cbs = do { (v, cbs) \<leftarrow> CBS_get_u16 cbs; Some (CRYPTO_bswap2 v, cbs) }"

definition CBS_get_u32le :: "CBS \<Rightarrow> (u32 \<times> CBS) option" where
  "CBS_get_u32le cbs = do { (v, cbs) \<leftarrow> CBS_get_u32 cbs; Some (CRYPTO_bswap4 v, cbs) }"

definition CBS_get_u64le :: "CBS \<Rightarrow> (u64 \<times> CBS) option" where
  "CBS_get_u64le cbs = do { (v, cbs) \<leftarrow> cbs_get_u cbs 8; Some (CRYPTO_bswap8 v, cbs) }"

definition CBS_get_last_u8 :: "CBS \<Rightarrow> (u8 \<times> CBS) option" where
  "CBS_get_last_u8 cbs =
     (if CBS_len cbs = 0 then None
      else Some (CBS_data cbs ! (CBS_len cbs - 1), take (CBS_len cbs - 1) cbs))"

definition CBS_get_bytes :: "CBS \<Rightarrow> size_t \<Rightarrow> (CBS \<times> CBS) option" where
  "CBS_get_bytes cbs len = do { (v, cbs) \<leftarrow> cbs_get cbs len; Some (CBS_init v len, cbs) }"

definition CBS_copy_bytes :: "CBS \<Rightarrow> u8 list \<Rightarrow> size_t \<Rightarrow> (u8 list \<times> CBS) option" where
  "CBS_copy_bytes cbs out len = do { (v, cbs) \<leftarrow> cbs_get cbs len; Some (blit out 0 v, cbs) }"

definition cbs_get_length_prefixed :: "CBS \<Rightarrow> size_t \<Rightarrow> (CBS \<times> CBS) option" where
  "cbs_get_length_prefixed cbs len_len = do {
     (len, cbs) \<leftarrow> cbs_get_u cbs len_len;
     CBS_get_bytes cbs (unat len)
   }"

definition CBS_get_u8_length_prefixed :: "CBS \<Rightarrow> (CBS \<times> CBS) option" where
  "CBS_get_u8_length_prefixed cbs = cbs_get_length_prefixed cbs 1"

definition CBS_get_u16_length_prefixed :: "CBS \<Rightarrow> (CBS \<times> CBS) option" where
  "CBS_get_u16_length_prefixed cbs = cbs_get_length_prefixed cbs 2"

definition CBS_get_u24_length_prefixed :: "CBS \<Rightarrow> (CBS \<times> CBS) option" where
  "CBS_get_u24_length_prefixed cbs = cbs_get_length_prefixed cbs 3"

section \<open>Fixed-size reads: lemmas\<close>

lemma cbs_get_iff: "cbs_get s n = Some (a, r) \<longleftrightarrow> s = a @ r \<and> length a = n"
  by (auto simp: cbs_get_def)

lemma cbs_get_append [simp]: "length a = n \<Longrightarrow> cbs_get (a @ r) n = Some (a, r)"
  by (simp add: cbs_get_iff)

lemma CBS_get_bytes_iff: "CBS_get_bytes s n = Some (a, r) \<longleftrightarrow> s = a @ r \<and> length a = n"
  by (auto simp: CBS_get_bytes_def CBS_init_def bind_eq_Some_conv cbs_get_iff)

lemma CBS_get_bytes_append [simp]: "length a = n \<Longrightarrow> CBS_get_bytes (a @ r) n = Some (a, r)"
  by (simp add: CBS_get_bytes_iff)

lemma CBS_skip_iff: "CBS_skip s n = Some r \<longleftrightarrow> n \<le> length s \<and> r = drop n s"
  by (auto simp: CBS_skip_def cbs_get_def)

lemma CBS_get_u8_simps [simp]:
  "CBS_get_u8 [] = None"
  "CBS_get_u8 (b # s) = Some (b, s)"
  by (simp_all add: CBS_get_u8_def cbs_get_def)

lemma CBS_get_u8_Some: "CBS_get_u8 s = Some (b, r) \<longleftrightarrow> s = b # r"
  by (cases s) auto

lemma cbs_get_u_loop_append:
  "cbs_get_u_loop v (xs @ ys) = cbs_get_u_loop (cbs_get_u_loop v xs) ys"
  by (induction xs arbitrary: v) simp_all

lemma unat_cbs_get_u_loop:
  "length bs \<le> 8 \<Longrightarrow> unat (cbs_get_u_loop 0 bs) = be_nat bs"
proof (induction bs rule: rev_induct)
  case (snoc b bs)
  have "be_nat (bs @ [b]) < 256 ^ length (bs @ [b])" by (rule be_nat_less)
  also have "\<dots> \<le> 256 ^ 8" using snoc.prems by (intro power_increasing) simp_all
  finally have "be_nat bs * 256 + unat b < 2 ^ 64" by simp
  with snoc show ?case
    by (simp add: cbs_get_u_loop_append unat_or_shift unat_ucast_up)
qed simp

lemma cbs_get_u_Some:
  assumes "n \<le> 8"
  shows "cbs_get_u s n = Some (v, r) \<longleftrightarrow> unat v < 256 ^ n \<and> s = be_bytes n (unat v) @ r"
proof
  assume "cbs_get_u s n = Some (v, r)"
  then obtain d where d: "s = d @ r" "length d = n" "v = cbs_get_u_loop 0 d"
    by (auto simp: cbs_get_u_def bind_eq_Some_conv cbs_get_iff)
  with assms have "unat v = be_nat d" by (simp add: unat_cbs_get_u_loop)
  with d show "unat v < 256 ^ n \<and> s = be_bytes n (unat v) @ r"
    using be_nat_less [of d] be_bytes_be_nat [of d] by simp
next
  assume "unat v < 256 ^ n \<and> s = be_bytes n (unat v) @ r"
  moreover from this assms have "cbs_get_u_loop 0 (be_bytes n (unat v)) = v"
    by (simp add: word_unat_eq_iff unat_cbs_get_u_loop be_nat_be_bytes)
  ultimately show "cbs_get_u s n = Some (v, r)"
    by (simp add: cbs_get_u_def)
qed

lemma cbs_get_u_bytes:
  "length d \<le> 8 \<Longrightarrow> cbs_get_u (d @ r) (length d) = Some (of_nat (be_nat d), r)"
  by (simp add: cbs_get_u_def word_unat_eq_iff unat_cbs_get_u_loop flip: unat_cbs_get_u_loop)

text \<open>Each fixed-width reader is a codec with the big-endian writer of its width.\<close>

definition u16_enc :: "u16 \<Rightarrow> u8 list" where "u16_enc v = be_bytes 2 (unat v)"
definition u24_enc :: "u32 \<Rightarrow> u8 list" where "u24_enc v = be_bytes 3 (unat v)"
definition u32_enc :: "u32 \<Rightarrow> u8 list" where "u32_enc v = be_bytes 4 (unat v)"
definition u64_enc :: "u64 \<Rightarrow> u8 list" where "u64_enc v = be_bytes 8 (unat v)"


interpretation u16: codec CBS_get_u16 u16_enc "\<lambda>_. True"
proof unfold_locales
  fix a r show "CBS_get_u16 (u16_enc a @ r) = Some (a, r)"
    using cbs_get_u_Some [of 2 "u16_enc a @ r" "ucast a" r] unsigned_less [of a, where ?'a = nat]
    by (simp add: CBS_get_u16_def u16_enc_def unat_ucast_up ucast_ucast_up)
next
  fix s a r assume "CBS_get_u16 s = Some (a, r)"
  then show "True \<and> s = u16_enc a @ r"
    by (auto simp: CBS_get_u16_def u16_enc_def bind_eq_Some_conv cbs_get_u_Some unat_ucast_mod)
qed (simp add: u16_enc_def flip: length_greater_0_conv)

interpretation u24: codec CBS_get_u24 u24_enc "\<lambda>v. unat v < 2 ^ 24"
proof unfold_locales
  fix a :: u32 and r assume "unat a < 2 ^ 24"
  then show "CBS_get_u24 (u24_enc a @ r) = Some (a, r)"
    using cbs_get_u_Some [of 3 "u24_enc a @ r" "ucast a" r]
    by (simp add: CBS_get_u24_def u24_enc_def unat_ucast_up ucast_ucast_up)
next
  fix s a r assume "CBS_get_u24 s = Some (a, r)"
  then show "unat a < 2 ^ 24 \<and> s = u24_enc a @ r"
    by (auto simp: CBS_get_u24_def u24_enc_def bind_eq_Some_conv cbs_get_u_Some unat_ucast_mod)
qed (simp add: u24_enc_def flip: length_greater_0_conv)

interpretation u32: codec CBS_get_u32 u32_enc "\<lambda>_. True"
proof unfold_locales
  fix a r show "CBS_get_u32 (u32_enc a @ r) = Some (a, r)"
    using cbs_get_u_Some [of 4 "u32_enc a @ r" "ucast a" r] unsigned_less [of a, where ?'a = nat]
    by (simp add: CBS_get_u32_def u32_enc_def unat_ucast_up ucast_ucast_up)
next
  fix s a r assume "CBS_get_u32 s = Some (a, r)"
  then show "True \<and> s = u32_enc a @ r"
    by (auto simp: CBS_get_u32_def u32_enc_def bind_eq_Some_conv cbs_get_u_Some unat_ucast_mod)
qed (simp add: u32_enc_def flip: length_greater_0_conv)

interpretation u64: codec CBS_get_u64 u64_enc "\<lambda>_. True"
proof unfold_locales
  fix a r show "CBS_get_u64 (u64_enc a @ r) = Some (a, r)"
    using cbs_get_u_Some [of 8 "u64_enc a @ r" a r] unsigned_less [of a, where ?'a = nat]
    by (simp add: CBS_get_u64_def u64_enc_def)
next
  fix s a r assume "CBS_get_u64 s = Some (a, r)"
  then show "True \<and> s = u64_enc a @ r"
    by (auto simp: CBS_get_u64_def u64_enc_def cbs_get_u_Some)
qed (simp add: u64_enc_def flip: length_greater_0_conv)

text \<open>The byte swaps reverse the bytes.\<close>

lemma be_bytes_word: "be_bytes k (unat x) = rev (map (\<lambda>i. ucast (drop_bit (8 * i) x)) [0..<k])"
proof -
  have "be_bytes k (unat (drop_bit j x)) = rev (map (\<lambda>i. ucast (drop_bit (8 * i + j) x)) [0..<k])"
    for j
  proof (induction k arbitrary: j)
    case (Suc k)
    have "unat (drop_bit j x) div 256 = unat (drop_bit (8 + j) x)"
      by (simp add: unat_drop div_mult2_eq power_add mult.commute)
    moreover have "(of_nat (unat (drop_bit j x)) :: u8) = ucast (drop_bit j x)"
      by (simp add: word_unat_eq_iff unat_of_nat_u8 unat_ucast_mod)
    ultimately show ?case
      by (simp add: Suc upt_conv_Cons algebra_simps del: upt_Suc flip: map_Suc_upt)
  qed simp
  from this [of 0] show ?thesis by simp
qed

lemma bswap2_bytes: "u16_enc (CRYPTO_bswap2 x) = rev (u16_enc x)"
proof -
  have "ucast (CRYPTO_bswap2 x) = (ucast (drop_bit 8 x) :: u8)"
    "ucast (drop_bit 8 (CRYPTO_bswap2 x)) = (ucast x :: u8)"
    by (rule bit_word_eqI; auto simp: CRYPTO_bswap2_def bit_simps dest: bit_imp_le_length)+
  then show ?thesis by (simp add: u16_enc_def be_bytes_word numeral_2_eq_2)
qed

lemma bswap4_masks:
  "\<forall>m < 32. bit (0xff00ff00 :: u32) m = odd (m div 8)"
  "\<forall>m < 32. bit (0x00ff00ff :: u32) m = even (m div 8)"
  by code_simp+

lemma bswap4_bit:
  assumes "j < 8"
  shows "bit (CRYPTO_bswap4 x) j = bit x (24 + j)"
    "bit (CRYPTO_bswap4 x) (8 + j) = bit x (16 + j)"
    "bit (CRYPTO_bswap4 x) (16 + j) = bit x (8 + j)"
    "bit (CRYPTO_bswap4 x) (24 + j) = bit x j"
proof -
  have "j div 8 = 0" "(8 + j) div 8 = 1" "(16 + j) div 8 = 2" "(24 + j) div 8 = 3"
    using assms by simp_all
  moreover have "\<not> bit x (32 + j)" "\<not> bit x (40 + j)" "\<not> bit x (48 + j)"
    by (auto dest: bit_imp_le_length)
  ultimately show "bit (CRYPTO_bswap4 x) j = bit x (24 + j)"
    "bit (CRYPTO_bswap4 x) (8 + j) = bit x (16 + j)"
    "bit (CRYPTO_bswap4 x) (16 + j) = bit x (8 + j)"
    "bit (CRYPTO_bswap4 x) (24 + j) = bit x j"
    using assms bswap4_masks by (auto simp: CRYPTO_bswap4_def bit_simps Let_def)
qed

lemma bswap4_bytes: "u32_enc (CRYPTO_bswap4 x) = rev (u32_enc x)"
proof -
  have *: "[0..<4] = [0, 1, 2, 3]" by (simp add: upt_rec)
  have "ucast (CRYPTO_bswap4 x) = (ucast (drop_bit 24 x) :: u8)"
    "ucast (drop_bit 8 (CRYPTO_bswap4 x)) = (ucast (drop_bit 16 x) :: u8)"
    "ucast (drop_bit 16 (CRYPTO_bswap4 x)) = (ucast (drop_bit 8 x) :: u8)"
    "ucast (drop_bit 24 (CRYPTO_bswap4 x)) = (ucast x :: u8)"
    by (rule bit_word_eqI; auto simp: bit_simps bswap4_bit dest: bit_imp_le_length)+
  then show ?thesis by (simp add: u32_enc_def be_bytes_word *)
qed

lemma u64_enc_split: "u64_enc x = u32_enc (ucast (drop_bit 32 x)) @ u32_enc (ucast x)"
proof (rule be_nat_inj)
  show "be_nat (u64_enc x) = be_nat (u32_enc (ucast (drop_bit 32 x)) @ u32_enc (ucast x))"
    using unsigned_less [of x, where ?'a = nat]
    by (simp add: u64_enc_def u32_enc_def be_nat_append be_nat_be_bytes unat_ucast_mod unat_drop)
qed (simp add: u64_enc_def u32_enc_def)

lemma bswap8_bytes: "u64_enc (CRYPTO_bswap8 x) = rev (u64_enc x)"
proof -
  have "ucast (drop_bit 32 (CRYPTO_bswap8 x)) = CRYPTO_bswap4 (ucast x)"
    "ucast (CRYPTO_bswap8 x) = CRYPTO_bswap4 (ucast (drop_bit 32 x))"
    by (rule bit_word_eqI; auto simp: CRYPTO_bswap8_def bit_simps dest: bit_imp_le_length)+
  then show ?thesis by (simp add: u64_enc_split bswap4_bytes)
qed

text \<open>So the little-endian readers read the reversed bytes.\<close>

lemma CBS_get_u16le_Some: "CBS_get_u16le s = Some (v, r) \<longleftrightarrow> s = rev (u16_enc v) @ r"
  by (auto simp: CBS_get_u16le_def bind_eq_Some_conv u16.parse_iff)
     (metis bswap2_bytes rev_rev_ident u16.enc_inj)+

lemma CBS_get_u32le_Some: "CBS_get_u32le s = Some (v, r) \<longleftrightarrow> s = rev (u32_enc v) @ r"
  by (auto simp: CBS_get_u32le_def bind_eq_Some_conv u32.parse_iff)
     (metis bswap4_bytes rev_rev_ident u32.enc_inj)+

lemma CBS_get_u64le_Some: "CBS_get_u64le s = Some (v, r) \<longleftrightarrow> s = rev (u64_enc v) @ r"
  by (auto simp: CBS_get_u64le_def bind_eq_Some_conv u64.parse_iff simp flip: CBS_get_u64_def)
     (metis bswap8_bytes rev_rev_ident u64.enc_inj)+

text \<open>Comparison in constant time is equality.\<close>

lemma memcmp_loop_zero:
  "length as = length bs \<Longrightarrow> CRYPTO_memcmp_loop x as bs = 0 \<longleftrightarrow> x = 0 \<and> as = bs"
proof (induction x as bs rule: CRYPTO_memcmp_loop.induct)
  case (1 x a as b bs)
  have "x OR (a XOR b) = 0 \<longleftrightarrow> x = 0 \<and> a = b"
    by (auto simp: or_eq_0_iff xor_self_eq) (metis xor.right_neutral xor.assoc xor_self_eq)
  with 1 show ?case by auto
qed auto

lemma CRYPTO_memcmp_zero:
  "len \<le> length a \<Longrightarrow> len \<le> length b \<Longrightarrow>
   CRYPTO_memcmp a b len = 0 \<longleftrightarrow> take len a = take len b"
  by (simp add: CRYPTO_memcmp_def memcmp_loop_zero unat_eq_0)

end
