(* ===== verification/Cbs_Asn1.thy ===== *)
theory Cbs_Asn1
  imports Cbs
begin

text \<open>
  The ASN.1 half of \<open>crypto/bytestring/cbs.c\<close>: base-128 integers, tags, element
  headers (DER, and BER where the caller allows it), and the typed readers on top.
  The tags are \<open>unsigned\<close> (32 bits) with class and constructed bit on top of a
  29-bit number, as in \<open>include/openssl/bytestring.h\<close>.
\<close>

section \<open>Tags\<close>

definition CBS_ASN1_TAG_SHIFT :: nat where "CBS_ASN1_TAG_SHIFT = 24"
definition CBS_ASN1_CONSTRUCTED :: u32 where "CBS_ASN1_CONSTRUCTED = 0x20000000"
definition CBS_ASN1_TAG_NUMBER_MASK :: u32 where "CBS_ASN1_TAG_NUMBER_MASK = 0x1fffffff"
definition CBS_ASN1_BOOLEAN :: u32 where "CBS_ASN1_BOOLEAN = 0x1"
definition CBS_ASN1_INTEGER :: u32 where "CBS_ASN1_INTEGER = 0x2"
definition CBS_ASN1_OCTETSTRING :: u32 where "CBS_ASN1_OCTETSTRING = 0x4"

fun parse_base128_integer_loop :: "u64 \<Rightarrow> CBS \<Rightarrow> (u64 \<times> CBS) option" where
  "parse_base128_integer_loop v [] = None"
| "parse_base128_integer_loop v (b # cbs) =
     (if drop_bit (64 - 7) v \<noteq> 0 then None
      else if v = 0 \<and> b = 0x80 then None
      else let v = push_bit 7 v OR ucast (b AND 0x7f)
           in if b AND 0x80 \<noteq> 0 then parse_base128_integer_loop v cbs else Some (v, cbs))"

definition parse_base128_integer :: "CBS \<Rightarrow> (u64 \<times> CBS) option" where
  "parse_base128_integer cbs = parse_base128_integer_loop 0 cbs"

definition parse_asn1_tag :: "CBS \<Rightarrow> (u32 \<times> CBS) option" where
  "parse_asn1_tag cbs = do {
     (tag_byte, cbs) \<leftarrow> CBS_get_u8 cbs;
     let tag = push_bit CBS_ASN1_TAG_SHIFT (ucast tag_byte AND 0xe0 :: u32);
     let tag_number = (ucast (tag_byte AND 0x1f) :: u32);
     if tag_number = 0x1f then do {
       (v, cbs) \<leftarrow> parse_base128_integer cbs;
       if v > ucast CBS_ASN1_TAG_NUMBER_MASK \<or> v < 0x1f then None
       else Some (tag OR ucast v, cbs)
     }
     else Some (tag OR tag_number, cbs)
   }"

section \<open>Elements\<close>

text \<open>
  The outputs are the element (header included), its tag and the length of its
  header; a caller that passes \<open>NULL\<close> ignores the output.
\<close>

definition cbs_get_any_asn1_element ::
    "CBS \<Rightarrow> bool \<Rightarrow> ((CBS \<times> u32 \<times> size_t) \<times> CBS) option" where
  "cbs_get_any_asn1_element cbs ber_ok = do {
     (tag, header) \<leftarrow> parse_asn1_tag cbs;
     (length_byte, header) \<leftarrow> CBS_get_u8 header;
     let header_len = CBS_len cbs - CBS_len header;
     if length_byte AND 0x80 = 0 then do {
       let len = size_add (unat length_byte) header_len;
       (out, cbs) \<leftarrow> CBS_get_bytes cbs len;
       Some ((out, tag, header_len), cbs)
     }
     else do {
       let num_bytes = unat (length_byte AND 0x7f);
       if ber_ok \<and> tag AND CBS_ASN1_CONSTRUCTED \<noteq> 0 \<and> num_bytes = 0 then do {
         (out, cbs) \<leftarrow> CBS_get_bytes cbs header_len;
         Some ((out, tag, header_len), cbs)
       }
       else if num_bytes = 0 \<or> num_bytes > 4 then None
       else do {
         (len64, header) \<leftarrow> cbs_get_u header num_bytes;
         if len64 < 128 then None
         else if drop_bit ((num_bytes - 1) * 8) len64 = 0 then None
         else do {
           let len = unat len64;
           if size_add (size_add len header_len) num_bytes < len then None
           else do {
             (out, cbs) \<leftarrow> CBS_get_bytes cbs (size_add len (size_add header_len num_bytes));
             Some ((out, tag, size_add header_len num_bytes), cbs)
           }
         }
       }
     }
   }"

definition CBS_get_any_asn1_element :: "CBS \<Rightarrow> ((CBS \<times> u32 \<times> size_t) \<times> CBS) option" where
  "CBS_get_any_asn1_element cbs = cbs_get_any_asn1_element cbs False"

definition CBS_get_any_ber_asn1_element :: "CBS \<Rightarrow> ((CBS \<times> u32 \<times> size_t) \<times> CBS) option" where
  "CBS_get_any_ber_asn1_element cbs = cbs_get_any_asn1_element cbs True"

definition CBS_get_any_asn1 :: "CBS \<Rightarrow> ((CBS \<times> u32) \<times> CBS) option" where
  "CBS_get_any_asn1 cbs = do {
     ((out, tag, header_len), cbs) \<leftarrow> CBS_get_any_asn1_element cbs;
     out \<leftarrow> CBS_skip out header_len;
     Some ((out, tag), cbs)
   }"

definition cbs_get_asn1 :: "CBS \<Rightarrow> u32 \<Rightarrow> bool \<Rightarrow> (CBS \<times> CBS) option" where
  "cbs_get_asn1 cbs tag_value skip_header = do {
     ((out, tag, header_len), cbs) \<leftarrow> CBS_get_any_asn1_element cbs;
     if tag \<noteq> tag_value then None
     else if skip_header then do { out \<leftarrow> CBS_skip out header_len; Some (out, cbs) }
     else Some (out, cbs)
   }"

definition CBS_get_asn1 :: "CBS \<Rightarrow> u32 \<Rightarrow> (CBS \<times> CBS) option" where
  "CBS_get_asn1 cbs tag_value = cbs_get_asn1 cbs tag_value True"

definition CBS_get_asn1_element :: "CBS \<Rightarrow> u32 \<Rightarrow> (CBS \<times> CBS) option" where
  "CBS_get_asn1_element cbs tag_value = cbs_get_asn1 cbs tag_value False"

definition CBS_peek_asn1_tag :: "CBS \<Rightarrow> u32 \<Rightarrow> bool" where
  "CBS_peek_asn1_tag cbs tag_value =
     (if CBS_len cbs < 1 then False
      else case parse_asn1_tag cbs of
             None \<Rightarrow> False
           | Some (actual_tag, _) \<Rightarrow> tag_value = actual_tag)"

section \<open>Typed readers\<close>

fun asn1_uint64_loop :: "u64 \<Rightarrow> u8 list \<Rightarrow> u64 option" where
  "asn1_uint64_loop out [] = Some out"
| "asn1_uint64_loop out (b # data) =
     (if drop_bit 56 out \<noteq> 0 then None
      else asn1_uint64_loop (push_bit 8 out OR ucast b) data)"

definition CBS_get_asn1_uint64 :: "CBS \<Rightarrow> (u64 \<times> CBS) option" where
  "CBS_get_asn1_uint64 cbs = do {
     (bytes, cbs) \<leftarrow> CBS_get_asn1 cbs CBS_ASN1_INTEGER;
     let data = CBS_data bytes;
     let len = CBS_len bytes;
     if len = 0 then None
     else if data ! 0 AND 0x80 \<noteq> 0 then None
     else if data ! 0 = 0 \<and> len > 1 \<and> data ! 1 AND 0x80 = 0 then None
     else do { out \<leftarrow> asn1_uint64_loop 0 data; Some (out, cbs) }
   }"

text \<open>
  The \<open>union\<close> of an \<open>int64_t\<close> with its bytes, on a little-endian machine: byte \<open>i\<close> has
  weight \<open>256 ^ i\<close>.  An \<open>int64_t\<close> is a 64-bit word read with \<open>sint\<close>.
\<close>

definition int64_of_bytes :: "u8 list \<Rightarrow> u64" where
  "int64_of_bytes bytes = of_nat (be_nat (rev bytes))"

definition int64_to_bytes :: "u64 \<Rightarrow> u8 list" where
  "int64_to_bytes i = rev (be_bytes 8 (unat i))"

fun int64_fill :: "u8 list \<Rightarrow> nat \<Rightarrow> u8 list \<Rightarrow> u8 list" where
  "int64_fill data 0 u_bytes = u_bytes"
| "int64_fill data (Suc i) u_bytes =
     (int64_fill data i u_bytes)[i := data ! (length data - i - 1)]"

definition CBS_get_asn1_int64 :: "CBS \<Rightarrow> (u64 \<times> CBS) option" where
  "CBS_get_asn1_int64 cbs = do {
     (bytes, cbs) \<leftarrow> CBS_get_asn1 cbs CBS_ASN1_INTEGER;
     let data = CBS_data bytes;
     let len = CBS_len bytes;
     if len = 0 \<or> len > 8 then None
     else if len > 1 \<and> data ! 0 = 0 \<and> data ! 1 AND 0x80 = 0 then None
     else if len > 1 \<and> data ! 0 = 0xff \<and> data ! 1 AND 0x80 \<noteq> 0 then None
     else do {
       let is_negative = data ! 0 AND 0x80 \<noteq> 0;
       let u_bytes = int64_fill data len (replicate 8 (if is_negative then 0xff else 0));
       Some (int64_of_bytes u_bytes, cbs)
     }
   }"

definition CBS_get_asn1_bool :: "CBS \<Rightarrow> (int \<times> CBS) option" where
  "CBS_get_asn1_bool cbs = do {
     (bytes, cbs) \<leftarrow> CBS_get_asn1 cbs CBS_ASN1_BOOLEAN;
     if CBS_len bytes \<noteq> 1 then None
     else do {
       let v = hd (CBS_data bytes);
       if v \<noteq> 0 \<and> v \<noteq> 0xff then None else Some (if v \<noteq> 0 then 1 else 0, cbs)
     }
   }"

text \<open>
  The optional readers: \<open>out_present\<close> is whether the inner \<open>option\<close> holds a value.
\<close>

definition CBS_get_optional_asn1 :: "CBS \<Rightarrow> u32 \<Rightarrow> (CBS option \<times> CBS) option" where
  "CBS_get_optional_asn1 cbs tag =
     (if CBS_peek_asn1_tag cbs tag
      then do { (out, cbs) \<leftarrow> CBS_get_asn1 cbs tag; Some (Some out, cbs) }
      else Some (None, cbs))"

definition CBS_get_optional_asn1_octet_string :: "CBS \<Rightarrow> u32 \<Rightarrow> ((CBS \<times> bool) \<times> CBS) option" where
  "CBS_get_optional_asn1_octet_string cbs tag = do {
     (child, cbs) \<leftarrow> CBS_get_optional_asn1 cbs tag;
     case child of
       Some child \<Rightarrow> do {
         (out, child) \<leftarrow> CBS_get_asn1 child CBS_ASN1_OCTETSTRING;
         if CBS_len child \<noteq> 0 then None else Some ((out, True), cbs)
       }
     | None \<Rightarrow> Some ((CBS_init [] 0, False), cbs)
   }"

definition CBS_get_optional_asn1_uint64 :: "CBS \<Rightarrow> u32 \<Rightarrow> u64 \<Rightarrow> (u64 \<times> CBS) option" where
  "CBS_get_optional_asn1_uint64 cbs tag default_value = do {
     (child, cbs) \<leftarrow> CBS_get_optional_asn1 cbs tag;
     case child of
       Some child \<Rightarrow> do {
         (out, child) \<leftarrow> CBS_get_asn1_uint64 child;
         if CBS_len child \<noteq> 0 then None else Some (out, cbs)
       }
     | None \<Rightarrow> Some (default_value, cbs)
   }"

definition CBS_get_optional_asn1_bool :: "CBS \<Rightarrow> u32 \<Rightarrow> int \<Rightarrow> (int \<times> CBS) option" where
  "CBS_get_optional_asn1_bool cbs tag default_value = do {
     (child, cbs) \<leftarrow> CBS_get_optional_asn1 cbs tag;
     case child of
       Some child \<Rightarrow> do {
         (child2, child) \<leftarrow> CBS_get_asn1 child CBS_ASN1_BOOLEAN;
         if CBS_len child2 \<noteq> 1 \<or> CBS_len child \<noteq> 0 then None
         else do {
           let boolean = hd (CBS_data child2);
           if boolean = 0 then Some (0, cbs)
           else if boolean = 0xff then Some (1, cbs)
           else None
         }
       }
     | None \<Rightarrow> Some (default_value, cbs)
   }"

definition CBS_is_valid_asn1_bitstring :: "CBS \<Rightarrow> bool" where
  "CBS_is_valid_asn1_bitstring cbs =
     (case CBS_get_u8 cbs of
        None \<Rightarrow> False
      | Some (num_unused_bits, in') \<Rightarrow>
          if num_unused_bits > 7 then False
          else if num_unused_bits = 0 then True
          else case CBS_get_last_u8 in' of
                 None \<Rightarrow> False
               | Some (last_byte, _) \<Rightarrow> last_byte AND (push_bit (unat num_unused_bits) 1 - 1) = 0)"

definition CBS_asn1_bitstring_has_bit :: "CBS \<Rightarrow> u32 \<Rightarrow> bool" where
  "CBS_asn1_bitstring_has_bit cbs b =
     (if \<not> CBS_is_valid_asn1_bitstring cbs then False
      else let byte_num = unat (drop_bit 3 b) + 1; bit_num = 7 - unat (b AND 7)
           in byte_num < CBS_len cbs \<and> CBS_data cbs ! byte_num AND push_bit bit_num 1 \<noteq> 0)"

section \<open>Bytes as numbers\<close>

lemma and_0x80: "b AND 0x80 = 0 \<longleftrightarrow> unat (b :: u8) < 128"
proof -
  have half: "n div 128 = (if n < 128 then 0 else 1)" if "n < 256" for n :: nat
    using that by (auto intro: div_nat_eqI)
  have "b AND 0x80 = 0 \<longleftrightarrow> \<not> bit b 7"
    using and_exp_eq_0_iff_not_bit [of b 7] by simp
  also have "bit b 7 \<longleftrightarrow> bit (unat b) 7"
    by (simp add: bit_unsigned_iff)
  also have "\<dots> \<longleftrightarrow> odd (unat b div 128)"
    by (simp add: bit_iff_odd)
  also have "unat b div 128 = (if unat b < 128 then 0 else 1)"
    using half [OF unat_u8_less [of b]] by simp
  finally show ?thesis by auto
qed

lemma unat_and_0x7f: "unat (b AND 0x7f :: u8) = unat b mod 128"
  using unat_and_mask [of b 7] by (simp add: mask_eq_exp_minus_1)

lemma drop_bit_zero_iff: "drop_bit k v = 0 \<longleftrightarrow> unat v < 2 ^ k"
proof -
  have "drop_bit k v = 0 \<longleftrightarrow> unat (drop_bit k v) = 0"
    by (simp add: unat_eq_0)
  then show ?thesis by (simp add: unat_drop div_eq_0_iff)
qed

section \<open>Base-128 integers\<close>

text \<open>
  The reference encoding: groups of seven bits, most significant first, the top bit
  set on all bytes but the last, no leading empty group.
\<close>

fun base128_high :: "nat \<Rightarrow> u8 list" where
  "base128_high n =
     (if n = 0 then [] else base128_high (n div 128) @ [of_nat (n mod 128 + 128)])"

declare base128_high.simps [simp del]

definition base128_enc :: "nat \<Rightarrow> u8 list" where
  "base128_enc n = base128_high (n div 128) @ [of_nat (n mod 128)]"

lemma base128_high_0 [simp]: "base128_high 0 = []"
  by (simp add: base128_high.simps)

lemma base128_enc_nonempty [simp]: "base128_enc n \<noteq> []"
  by (simp add: base128_enc_def)

lemma base128_step:
  assumes "unat v < 2 ^ 57"
  shows "unat (push_bit 7 v OR ucast (b AND 0x7f :: u8) :: u64) = unat v * 128 + unat b mod 128"
proof -
  have "unat (ucast (b AND 0x7f :: u8) :: u64) = unat b mod 128"
    by (simp add: unat_ucast_up unat_and_0x7f)
  moreover have "unat v * 128 + unat b mod 128 < 2 ^ 64"
    using assms mod_less_divisor [of 128 "unat b"] by simp
  ultimately show ?thesis
    using unat_or_shift [of "ucast (b AND 0x7f)" 7 v] by simp
qed

lemma parse_base128_high:
  assumes "unat v < 2 ^ 57"
  shows "parse_base128_integer_loop 0 (base128_high (unat v) @ s) = parse_base128_integer_loop v s"
  using assms
proof (induction "unat v" arbitrary: v s rule: less_induct)
  case less
  show ?case
  proof (cases "v = 0")
    case False
    define w where "w = drop_bit 7 v"
    define b where "b = (of_nat (unat v mod 128 + 128) :: u8)"
    have w: "unat w = unat v div 128" by (simp add: w_def unat_drop)
    have b: "unat b = unat v mod 128 + 128"
      unfolding b_def by (simp add: unat_of_nat_u8 del: of_nat_add)
    have vpos: "unat v > 0" using False by (simp add: unat_gt_0)
    have "parse_base128_integer_loop 0 (base128_high (unat v) @ s)
        = parse_base128_integer_loop w (b # s)"
      using less.hyps [of w "b # s"] less.prems vpos w
      by (simp add: base128_high.simps [of "unat v"] flip: b_def
        del: parse_base128_integer_loop.simps of_nat_add)
    also have "\<dots> = parse_base128_integer_loop (push_bit 7 w OR ucast (b AND 0x7f)) s"
    proof -
      have "drop_bit 57 w = 0" using w less.prems by (simp add: drop_bit_zero_iff)
      moreover have "\<not> (w = 0 \<and> b = 0x80)"
      proof
        assume "w = 0 \<and> b = 0x80"
        then have "unat v div 128 = 0" "unat v mod 128 = 0" using w b by auto
        with vpos show False by (simp add: div_eq_0_iff)
      qed
      moreover have "b AND 0x80 \<noteq> 0" using b by (simp add: and_0x80)
      ultimately show ?thesis by (auto simp: Let_def)
    qed
    also have "push_bit 7 w OR ucast (b AND 0x7f) = v"
      using w b less.prems by (simp add: word_unat_eq_iff base128_step)
    finally show ?thesis .
  qed simp
qed

lemma parse_base128_enc:
  "parse_base128_integer (base128_enc (unat v) @ s) = Some (v, s)"
proof -
  define w where "w = drop_bit 7 v"
  define b where "b = (of_nat (unat v mod 128) :: u8)"
  have w: "unat w = unat v div 128" by (simp add: w_def unat_drop)
  have b: "unat b = unat v mod 128"
    unfolding b_def by (simp add: unat_of_nat_u8 )
  have w57: "unat w < 2 ^ 57" using w unsigned_less [of v, where ?'a = nat] by simp
  have "parse_base128_integer (base128_enc (unat v) @ s) = parse_base128_integer_loop w (b # s)"
    using parse_base128_high [OF w57] w
    by (simp add: parse_base128_integer_def base128_enc_def b_def)
  also have "\<dots> = Some (push_bit 7 w OR ucast (b AND 0x7f), s)"
  proof -
    have "drop_bit 57 w = 0" using w57 by (simp add: drop_bit_zero_iff)
    moreover have "b AND 0x80 = 0" using b by (simp add: and_0x80)
    moreover have "b \<noteq> 0x80" using b by (auto simp: word_unat_eq_iff)
    ultimately show ?thesis by (simp add: Let_def)
  qed
  also have "push_bit 7 w OR ucast (b AND 0x7f) = v"
    using w b w57 by (simp add: word_unat_eq_iff base128_step)
  finally show ?thesis .
qed

lemma parse_base128_loop_only:
  "parse_base128_integer_loop v s = Some (w, r) \<Longrightarrow>
   base128_high (unat v) @ s = base128_enc (unat w) @ r"
proof (induction v s rule: parse_base128_integer_loop.induct)
  case (2 v b s)
  define v' where "v' = push_bit 7 v OR ucast (b AND 0x7f)"
  from "2.prems" have v57: "unat v < 2 ^ 57" and nz: "\<not> (v = 0 \<and> b = 0x80)"
    and rest: "(if b AND 0x80 \<noteq> 0 then parse_base128_integer_loop v' s else Some (v', s)) = Some (w, r)"
    by (auto simp: drop_bit_zero_iff v'_def Let_def split: if_splits)
  have v': "unat v' = unat v * 128 + unat b mod 128"
    using v57 by (simp add: v'_def base128_step)
  then have vdiv: "unat v' div 128 = unat v" and vmod: "unat v' mod 128 = unat b mod 128"
    by simp_all
  show ?case
  proof (cases "b AND 0x80 = 0")
    case True
    then have "unat b mod 128 = unat b" by (simp add: and_0x80)
    then have "base128_enc (unat v') = base128_high (unat v) @ [b]"
      by (simp add: base128_enc_def vdiv vmod )
    with True rest show ?thesis by simp
  next
    case False
    moreover have "unat b - 128 < 128" using unat_u8_less [of b] by linarith
    ultimately have b128: "unat b mod 128 + 128 = unat b"
      by (simp add: and_0x80 le_mod_geq)
    have "unat v' \<noteq> 0"
    proof
      assume "unat v' = 0"
      with v' have "unat v = 0" "unat b mod 128 = 0" by simp_all
      with b128 nz show False by (simp add: word_unat_eq_iff)
    qed
    then have "base128_high (unat v') = base128_high (unat v) @ [b]"
      by (simp add: base128_high.simps [of "unat v'"] vdiv vmod b128 del: of_nat_add)
    with False rest "2.IH" v57 nz show ?thesis
      by (simp add: v'_def drop_bit_zero_iff)
  qed
qed simp

lemma parse_base128_only:
  "parse_base128_integer s = Some (v, r) \<Longrightarrow> s = base128_enc (unat v) @ r"
  using parse_base128_loop_only [of 0 s v r] by (simp add: parse_base128_integer_def)

interpretation base128: codec parse_base128_integer "\<lambda>v. base128_enc (unat v)" "\<lambda>_. True"
  by unfold_locales (simp_all add: parse_base128_enc parse_base128_only)

section \<open>Tags, encoded\<close>

text \<open>
  The reference encoding of a tag (X.690, 8.1.2): low-tag-number form for numbers
  below 31, high-tag-number form with a base-128 number otherwise.
\<close>

definition asn1_tag_enc :: "u32 \<Rightarrow> u8 list" where
  "asn1_tag_enc tag =
     (let tag_bits = ucast (drop_bit 24 tag) AND 0xe0;
          tag_number = tag AND CBS_ASN1_TAG_NUMBER_MASK
      in if tag_number \<ge> 0x1f then (tag_bits OR 0x1f) # base128_enc (unat tag_number)
         else [tag_bits OR ucast tag_number])"

lemma tag_masks:
  "(0xe0 :: u8) = push_bit 5 (mask 3)" "(0xe0 :: u32) = push_bit 5 (mask 3)"
  "(0x1f :: u8) = mask 5" "CBS_ASN1_TAG_NUMBER_MASK = mask 29"
  by (simp_all add: mask_eq_exp_minus_1 CBS_ASN1_TAG_NUMBER_MASK_def)

lemma tag_split:
  "push_bit 24 (ucast (ucast (drop_bit 24 tag) AND 0xe0 :: u8) AND 0xe0) OR
     (tag AND CBS_ASN1_TAG_NUMBER_MASK) = (tag :: u32)"
  by (rule bit_word_eqI) (auto simp: tag_masks bit_simps)

lemma small_word:
  fixes x :: "'a::len word"
  assumes "unat x < 2 ^ k"
  shows "take_bit k x = x"
  using assms by (simp add: word_unat_eq_iff unat_take_bit)

lemma tag_byte_split:
  fixes bits low :: u8
  assumes "unat low < 32"
  shows "(bits AND 0xe0 OR low) AND 0x1f = low"
    "(ucast (bits AND 0xe0 OR low) AND 0xe0 :: u32) = ucast (bits AND 0xe0) AND 0xe0"
proof -
  have "low = take_bit 5 low" using small_word [of low 5] assms by simp
  then have hi: "\<not> bit low n" if "5 \<le> n" for n using that by (metis bit_take_bit_iff not_le)
  have lo: "bit low n \<Longrightarrow> n < 5" for n using hi by (meson not_le)
  show "(bits AND 0xe0 OR low) AND 0x1f = low"
    by (rule bit_word_eqI) (auto simp: tag_masks bit_simps dest: lo)
  show "(ucast (bits AND 0xe0 OR low) AND 0xe0 :: u32) = ucast (bits AND 0xe0) AND 0xe0"
    by (rule bit_word_eqI) (auto simp: tag_masks bit_simps dest: lo)
qed

lemma tag_number_less: "unat (tag AND CBS_ASN1_TAG_NUMBER_MASK) < 2 ^ 29"
  unfolding tag_masks unat_and_mask by simp

lemma parse_asn1_tag_enc: "parse_asn1_tag (asn1_tag_enc tag @ s) = Some (tag, s)"
proof -
  define bits where "bits = (ucast (drop_bit 24 tag) :: u8)"
  define num where "num = tag AND CBS_ASN1_TAG_NUMBER_MASK"
  have num29: "unat num < 2 ^ 29" using tag_number_less [of tag] by (simp add: num_def)
  have whole: "push_bit 24 (ucast (bits AND 0xe0) AND 0xe0) OR num = tag"
    using tag_split [of tag] by (simp only: bits_def num_def)
  show ?thesis
  proof (cases "num \<ge> 0x1f")
    case True
    define v where "v = (ucast num :: u64)"
    have v: "unat v = unat num" by (simp add: v_def unat_ucast_up)
    have uc: "ucast v = num" by (simp add: v_def ucast_ucast_up)
    have "\<not> v > ucast CBS_ASN1_TAG_NUMBER_MASK" "\<not> v < 0x1f"
      using True num29 v
      by (simp_all add: word_less_nat_alt word_le_nat_alt unat_ucast_up CBS_ASN1_TAG_NUMBER_MASK_def)
    moreover have "parse_base128_integer (base128_enc (unat num) @ s) = Some (v, s)"
      using base128.parse_enc [of v s] v by simp
    ultimately show ?thesis
      using True whole uc tag_byte_split [of "0x1f" bits]
      by (simp add: asn1_tag_enc_def parse_asn1_tag_def CBS_ASN1_TAG_SHIFT_def Let_def
          del: push_bit_and flip: bits_def num_def)
  next
    case False
    then have num: "unat num < 31" by (simp add: word_le_nat_alt)
    then have low: "unat (ucast num :: u8) = unat num" by (simp add: unat_ucast_mod)
    then have "ucast (ucast num :: u8) = num"
      by (simp add: word_unat_eq_iff unat_ucast_up)
    moreover have "num \<noteq> 0x1f" using num by (auto simp: word_unat_eq_iff)
    ultimately show ?thesis
      using False whole num low tag_byte_split [of "ucast num" bits]
      by (simp add: asn1_tag_enc_def parse_asn1_tag_def CBS_ASN1_TAG_SHIFT_def Let_def
          del: push_bit_and flip: bits_def num_def)
  qed
qed

lemma tag_join:
  fixes tb :: u8 and num :: u32
  assumes "unat num < 2 ^ 29"
  defines "tag \<equiv> push_bit 24 (ucast tb AND 0xe0) OR num"
  shows "tag AND CBS_ASN1_TAG_NUMBER_MASK = num"
    "ucast (drop_bit 24 tag) AND 0xe0 = tb AND 0xe0"
proof -
  have "num = take_bit 29 num" using small_word [of num 29] assms by simp
  then have lo: "bit num n \<Longrightarrow> n < 29" for n by (metis bit_take_bit_iff)
  show "tag AND CBS_ASN1_TAG_NUMBER_MASK = num"
    by (rule bit_word_eqI) (auto simp: tag_def tag_masks bit_simps dest: lo)
  show "ucast (drop_bit 24 tag) AND 0xe0 = tb AND 0xe0"
    by (rule bit_word_eqI) (auto simp: tag_def tag_masks bit_simps dest: lo)
qed

lemma byte_join: "(tb AND 0xe0) OR (tb AND 0x1f) = (tb :: u8)"
  by (rule bit_word_eqI) (auto simp: tag_masks bit_simps)

lemma parse_asn1_tag_only:
  assumes "parse_asn1_tag s = Some (tag, r)"
  shows "s = asn1_tag_enc tag @ r"
proof -
  from assms obtain tb s' where s: "s = tb # s'"
    by (auto simp: parse_asn1_tag_def bind_eq_Some_conv CBS_get_u8_Some)
  show ?thesis
  proof (cases "tb AND 0x1f = 0x1f")
    case True
    with assms s obtain v where v: "parse_base128_integer s' = Some (v, r)"
      and range: "\<not> v > ucast CBS_ASN1_TAG_NUMBER_MASK" "\<not> v < 0x1f"
      and tag: "tag = push_bit 24 (ucast tb AND 0xe0) OR ucast v"
      by (auto simp: parse_asn1_tag_def bind_eq_Some_conv CBS_ASN1_TAG_SHIFT_def Let_def
          split: if_splits)
    have v29: "unat v < 2 ^ 29" "31 \<le> unat v"
      using range by (simp_all add: word_less_nat_alt CBS_ASN1_TAG_NUMBER_MASK_def unat_ucast_up)
    then have num: "unat (ucast v :: u32) = unat v" by (simp add: unat_ucast_mod)
    have "s' = base128_enc (unat v) @ r" using v base128.parse_only by blast
    moreover have "tb AND 0xe0 OR 0x1f = tb" using byte_join [of tb] True by simp
    ultimately show ?thesis
      using tag_join [of "ucast v" tb] v29 num s tag
      by (simp add: asn1_tag_enc_def Let_def word_le_nat_alt del: push_bit_and)
  next
    case False
    define num where "num = (ucast (tb AND 0x1f) :: u32)"
    have low: "unat (tb AND 0x1f) < 32"
      using unat_and_mask [of tb 5] by (simp add: tag_masks)
    then have num: "unat num = unat (tb AND 0x1f)" by (simp add: num_def unat_ucast_up)
    have "unat (tb AND 0x1f) \<noteq> 31" using False by (simp add: word_unat_eq_iff)
    moreover have neq: "num \<noteq> 0x1f"
      using num calculation by (auto simp: word_unat_eq_iff)
    moreover have tag: "tag = push_bit 24 (ucast tb AND 0xe0) OR num" "s' = r"
      using assms s neq
      by (auto simp: parse_asn1_tag_def bind_eq_Some_conv CBS_ASN1_TAG_SHIFT_def Let_def num_def
          split: if_splits)
    moreover have "ucast num = tb AND 0x1f" by (simp add: num_def ucast_ucast_up)
    ultimately show ?thesis
      using tag_join [of num tb] low num s byte_join [of tb]
      by (simp add: asn1_tag_enc_def Let_def word_le_nat_alt del: push_bit_and)
  qed
qed

interpretation asn1_tag: codec parse_asn1_tag asn1_tag_enc "\<lambda>_. True"
  by unfold_locales
    (use parse_asn1_tag_enc parse_asn1_tag_only in \<open>auto simp: asn1_tag_enc_def Let_def\<close>)

section \<open>DER elements\<close>

text \<open>
  The reference encoding of a definite length in the minimal number of octets, and of
  an element: tag, length, contents.
\<close>

definition der_len_enc :: "nat \<Rightarrow> u8 list" where
  "der_len_enc n =
     (if n \<le> 0x7f then [of_nat n]
      else if n \<le> 0xff then 0x81 # be_bytes 1 n
      else if n \<le> 0xffff then 0x82 # be_bytes 2 n
      else if n \<le> 0xffffff then 0x83 # be_bytes 3 n
      else 0x84 # be_bytes 4 n)"

definition der_header :: "u32 \<Rightarrow> nat \<Rightarrow> u8 list" where
  "der_header tag n = asn1_tag_enc tag @ der_len_enc n"

definition der_element :: "u32 \<Rightarrow> u8 list \<Rightarrow> u8 list" where
  "der_element tag c = der_header tag (length c) @ c"

lemma der_len_enc_long:
  assumes "128 \<le> n" "1 \<le> k" "k \<le> 4" "256 ^ (k - 1) \<le> n" "n < 256 ^ k"
  shows "der_len_enc n = of_nat (128 + k) # be_bytes k n"
proof -
  from assms consider "k = 1" | "k = 2" | "k = 3" | "k = 4" by linarith
  then show ?thesis by cases (use assms in \<open>simp_all add: der_len_enc_def\<close>)
qed

lemma der_len_octets:
  fixes n :: nat
  assumes "128 \<le> n" "n < 2 ^ 32"
  obtains k where "1 \<le> k" "k \<le> 4" "256 ^ (k - 1) \<le> n" "n < 256 ^ k"
proof -
  consider "n < 256" | "256 \<le> n" "n < 65536" | "65536 \<le> n" "n < 16777216" | "16777216 \<le> n"
    by linarith
  then show thesis
    by cases (use assms that [of 1] that [of 2] that [of 3] that [of 4] in simp_all)
qed

lemma length_base128_high: "n < 128 ^ k \<Longrightarrow> length (base128_high n) \<le> k"
proof (induction k arbitrary: n)
  case (Suc k)
  then have "length (base128_high (n div 128)) \<le> k"
    by (simp add: div_less_iff_less_mult mult.commute)
  then show ?case by (simp add: base128_high.simps [of n])
qed simp

lemma length_asn1_tag_enc: "length (asn1_tag_enc tag) \<le> 6"
proof -
  have "length (base128_high (unat (tag AND CBS_ASN1_TAG_NUMBER_MASK) div 128)) \<le> 4"
    using tag_number_less [of tag] by (intro length_base128_high) simp
  then show ?thesis by (simp add: asn1_tag_enc_def base128_enc_def Let_def)
qed

lemma asn1_tag_enc_nonempty [simp]: "asn1_tag_enc tag \<noteq> []"
  by (simp add: asn1_tag_enc_def Let_def)

lemma length_der_len_enc: "length (der_len_enc n) \<le> 5"
  by (simp add: der_len_enc_def)

lemma length_der_header: "length (der_header tag n) \<le> 11"
  using length_asn1_tag_enc [of tag] length_der_len_enc [of n] by (simp add: der_header_def)

lemma length_byte_long:
  assumes "b AND 0x80 \<noteq> (0 :: u8)"
  shows "unat b = 128 + unat (b AND 0x7f)"
proof -
  have "unat b - 128 < 128" using unat_u8_less [of b] by linarith
  with assms show ?thesis by (simp add: and_0x80 unat_and_0x7f le_mod_geq not_less)
qed

text \<open>Every DER element with contents below 4 GiB is read back, whichever mode is used.\<close>

lemma get_any_element_enc:
  assumes "length c < 2 ^ 32"
  shows "cbs_get_any_asn1_element (der_element tag c @ r) ber_ok =
    Some ((der_element tag c, tag, length (der_header tag (length c))), r)"
proof (cases "length c < 128")
  case True
  define b where "b = (of_nat (length c) :: u8)"
  have b: "unat b = length c" using True by (simp add: b_def unat_of_nat_u8)
  then have "b AND 0x80 = 0" using True by (simp add: and_0x80)
  moreover have el: "der_element tag c = asn1_tag_enc tag @ b # c"
    using True by (simp add: der_element_def der_header_def der_len_enc_def b_def)
  moreover have "size_add (unat b) (length (der_header tag (length c))) = length (der_element tag c)"
    using True b length_der_header [of tag "length c"]
    by (simp add: size_add_exact der_element_def)
  ultimately show ?thesis
    using True b CBS_get_bytes_append [of "der_element tag c" _ r]
    by (simp add: cbs_get_any_asn1_element_def asn1_tag.parse_enc CBS_len_def der_header_def
        der_len_enc_def Let_def)
next
  case False
  with assms obtain k where k: "1 \<le> k" "k \<le> 4" "256 ^ (k - 1) \<le> length c" "length c < 256 ^ k"
    using der_len_octets [of "length c"] by auto
  define b where "b = (of_nat (128 + k) :: u8)"
  define n64 where "n64 = (of_nat (length c) :: u64)"
  have b: "unat b = 128 + k" using k by (simp add: b_def unat_of_nat_u8 del: of_nat_add)
  then have b80: "b AND 0x80 \<noteq> 0" by (simp add: and_0x80)
  with b have b7f: "unat (b AND 0x7f) = k" using length_byte_long [of b] by simp
  have n64: "unat n64 = length c" using assms by (simp add: n64_def unat_of_nat)
  have lenc: "der_len_enc (length c) = b # be_bytes k (length c)"
    unfolding b_def using False k by (intro der_len_enc_long) simp_all
  then have el: "der_element tag c = asn1_tag_enc tag @ b # be_bytes k (length c) @ c"
    by (simp add: der_element_def der_header_def)
  have "cbs_get_u (be_bytes k (length c) @ c @ r) k = Some (n64, c @ r)"
    using k n64 by (subst cbs_get_u_Some) simp_all
  moreover have "\<not> n64 < 128" using False n64 by (simp add: word_less_nat_alt)
  moreover have "drop_bit ((k - 1) * 8) n64 \<noteq> 0"
    using k n64 by (simp add: drop_bit_zero_iff flip: pow_256)
  moreover have "size_add (length c) (size_add (length (asn1_tag_enc tag) + 1) k)
      = length (der_element tag c)"
    "size_add (length (asn1_tag_enc tag) + 1) k = length (der_header tag (length c))"
    "\<not> size_add (size_add (length c) (length (asn1_tag_enc tag) + 1)) k < length c"
    using assms k length_asn1_tag_enc [of tag] lenc
    by (simp_all add: size_add_exact el der_header_def)
  ultimately show ?thesis
    using k b80 b7f n64 CBS_get_bytes_append [of "der_element tag c" _ r]
    by (simp add: cbs_get_any_asn1_element_def asn1_tag.parse_enc el CBS_len_def Let_def)
qed

lemma length_der_element: "length (der_element tag c) = length (der_header tag (length c)) + length c"
  by (simp add: der_element_def)

text \<open>
  Conversely, whatever the reader accepts is such an element, or, in BER mode only,
  the header of an indefinite-length constructed element.
\<close>

lemma get_any_element_only:
  assumes "cbs_get_any_asn1_element s ber_ok = Some ((out, tag, hl), r)"
  shows "s = out @ r \<and>
    ((\<exists>c. length c < 2 ^ 32 \<and> out = der_element tag c \<and> hl = length (der_header tag (length c))) \<or>
     (ber_ok \<and> tag AND CBS_ASN1_CONSTRUCTED \<noteq> 0 \<and> out = asn1_tag_enc tag @ [0x80] \<and> hl = length out))"
proof -
  from assms obtain b h where s: "s = asn1_tag_enc tag @ b # h"
    by (auto simp: cbs_get_any_asn1_element_def bind_eq_Some_conv asn1_tag.parse_iff CBS_get_u8_Some
        Let_def split: if_splits)
  define hl0 where "hl0 = length (asn1_tag_enc tag) + 1"
  have hl0: "CBS_len s - CBS_len h = hl0" "hl0 \<le> 7"
    using length_asn1_tag_enc [of tag] by (simp_all add: s CBS_len_def hl0_def)
  have parse: "parse_asn1_tag s = Some (tag, b # h)"
    by (simp add: s asn1_tag.parse_enc)
  note eq = assms [unfolded cbs_get_any_asn1_element_def parse Option.bind.simps
      CBS_get_u8_simps split_conv hl0(1) Let_def]
  show ?thesis
  proof (cases "b AND 0x80 = 0")
    case True
    then have b: "unat b < 128" by (simp add: and_0x80)
    with hl0 have add: "size_add (unat b) hl0 = hl0 + unat b" by (simp add: size_add_exact)
    from eq True have res: "s = out @ r" "length out = hl0 + unat b" "hl = hl0"
      by (auto simp: add CBS_get_bytes_iff bind_eq_Some_conv)
    from res have "out = take (hl0 + unat b) s" by simp
    then have out: "out = asn1_tag_enc tag @ b # take (unat b) h" by (simp add: s hl0_def)
    define c where "c = take (unat b) h"
    have len: "length c = unat b" using res(2) by (simp add: out c_def hl0_def)
    then have "der_len_enc (length c) = [b]"
      using b by (simp add: der_len_enc_def word_unat_eq_iff unat_of_nat_u8)
    then have "out = der_element tag c" "hl = length (der_header tag (length c))"
      by (simp_all add: out der_element_def der_header_def c_def res(3) hl0_def)
    moreover have "length c < 2 ^ 32" using b len by simp
    ultimately show ?thesis using res(1) by blast
  next
    case False
    define k where "k = unat (b AND 0x7f)"
    have b: "unat b = 128 + k" using length_byte_long [OF False] by (simp add: k_def)
    show ?thesis
    proof (cases "ber_ok \<and> tag AND CBS_ASN1_CONSTRUCTED \<noteq> 0 \<and> k = 0")
      case True
      with eq False have res: "s = out @ r" "length out = hl0" "hl = hl0"
        by (auto simp: CBS_get_bytes_iff bind_eq_Some_conv k_def)
      from res have "out = take hl0 s" by simp
      then have "out = asn1_tag_enc tag @ [b]" by (simp add: s hl0_def)
      moreover have "b = 0x80" using b True by (simp add: word_unat_eq_iff)
      ultimately show ?thesis using True res by simp
    next
      case indef: False
      with eq False obtain n64 h' where k: "k \<noteq> 0" "k \<le> 4"
        and u: "cbs_get_u h k = Some (n64, h')" and ge: "\<not> n64 < 128"
        and top: "drop_bit ((k - 1) * 8) n64 \<noteq> 0"
        and rest: "CBS_get_bytes s (size_add (unat n64) (size_add hl0 k)) = Some (out, r)"
        and hl: "hl = size_add hl0 k"
        by (auto simp: bind_eq_Some_conv k_def split: if_splits)
      have h: "h = be_bytes k (unat n64) @ h'" and n: "unat n64 < 256 ^ k"
        using u k cbs_get_u_Some [of k h n64 h'] by auto
      have "(256 :: nat) ^ k \<le> 256 ^ 4" using k by (intro power_increasing) simp_all
      with n have n32: "unat n64 < 2 ^ 32" by simp
      have nge: "128 \<le> unat n64" "256 ^ (k - 1) \<le> unat n64"
        using ge top by (simp_all add: word_less_nat_alt not_less drop_bit_zero_iff pow_256)
      then have lenc: "der_len_enc (unat n64) = b # be_bytes k (unat n64)"
        using der_len_enc_long [of "unat n64" k] n k b
        by (simp add: word_unat_eq_iff unat_of_nat_u8 del: of_nat_add)
      define c where "c = take (unat n64) h'"
      have hl': "hl = length (der_header tag (unat n64))"
        using k hl0 by (simp add: hl size_add_exact der_header_def lenc hl0_def)
      have "size_add (unat n64) (size_add hl0 k) = hl + unat n64"
        using k hl0 n32 by (simp add: hl size_add_exact)
      with rest have res: "s = out @ r" "length out = hl + unat n64"
        by (simp_all add: CBS_get_bytes_iff)
      from res have "out = take (hl + unat n64) s" by simp
      then have out: "out = der_header tag (unat n64) @ c"
        by (simp add: s hl' der_header_def lenc h c_def)
      then have "length c = unat n64" using res(2) hl' by simp
      with out hl' n32 have "length c < 2 ^ 32" "out = der_element tag c"
        "hl = length (der_header tag (length c))"
        by (simp_all add: der_element_def)
      with res(1) show ?thesis by blast
    qed
  qed
qed

text \<open>
  So the DER reader accepts exactly the minimal encodings: as a reader of a tag and
  contents it is a codec with \<open>der_element\<close>.
\<close>

lemma CBS_get_any_asn1_element_iff:
  "CBS_get_any_asn1_element s = Some ((out, tag, hl), r) \<longleftrightarrow>
   (\<exists>c. length c < 2 ^ 32 \<and> out = der_element tag c \<and> hl = length (der_header tag (length c)) \<and>
      s = der_element tag c @ r)"
  using get_any_element_only [of s False out tag hl r] get_any_element_enc [of _ tag r False]
  by (auto simp: CBS_get_any_asn1_element_def)

lemma drop_der_header: "drop (length (der_header tag (length c))) (der_element tag c) = c"
  by (simp add: der_element_def)

lemma CBS_get_any_asn1_iff:
  "CBS_get_any_asn1 s = Some ((c, tag), r) \<longleftrightarrow> length c < 2 ^ 32 \<and> s = der_element tag c @ r"
  (is "?l \<longleftrightarrow> ?r")
proof
  show "?l \<Longrightarrow> ?r"
    by (auto simp: CBS_get_any_asn1_def bind_eq_Some_conv CBS_get_any_asn1_element_iff CBS_skip_iff
        drop_der_header)
  assume ?r
  then have "CBS_get_any_asn1_element s =
      Some ((der_element tag c, tag, length (der_header tag (length c))), r)"
    by (auto simp: CBS_get_any_asn1_element_iff)
  then show ?l
    by (simp add: CBS_get_any_asn1_def CBS_skip_def cbs_get_def drop_der_header length_der_element)
qed

lemma der_element_nonempty [simp]: "der_element tag c \<noteq> []"
  by (simp add: der_element_def der_header_def)

interpretation any_asn1: codec CBS_get_any_asn1 "\<lambda>(c, tag). der_element tag c"
  "\<lambda>(c, tag). length c < 2 ^ 32"
  by unfold_locales (auto simp: CBS_get_any_asn1_iff)

lemma CBS_get_asn1_iff:
  "CBS_get_asn1 s tag = Some (c, r) \<longleftrightarrow> length c < 2 ^ 32 \<and> s = der_element tag c @ r"
  (is "?l \<longleftrightarrow> ?r")
proof
  show "?l \<Longrightarrow> ?r"
    by (auto simp: CBS_get_asn1_def cbs_get_asn1_def bind_eq_Some_conv CBS_get_any_asn1_element_iff
        CBS_skip_iff drop_der_header split: if_splits)
  assume ?r
  then have "CBS_get_any_asn1_element s =
      Some ((der_element tag c, tag, length (der_header tag (length c))), r)"
    by (auto simp: CBS_get_any_asn1_element_iff)
  then show ?l
    by (simp add: CBS_get_asn1_def cbs_get_asn1_def CBS_skip_def cbs_get_def drop_der_header
        length_der_element)
qed

lemma CBS_get_asn1_element_eq:
  "CBS_get_asn1_element s tag =
   map_option (\<lambda>(c, r). (der_element tag c, r)) (CBS_get_asn1 s tag)"
proof (cases "CBS_get_any_asn1_element s")
  case (Some q)
  obtain out tag' hl r where q: "q = ((out, tag', hl), r)" by (metis prod.exhaust)
  with Some obtain c where "out = der_element tag' c" "hl = length (der_header tag' (length c))"
    by (auto simp: CBS_get_any_asn1_element_iff)
  with Some q show ?thesis
    by (auto simp: CBS_get_asn1_element_def CBS_get_asn1_def cbs_get_asn1_def CBS_skip_def
        cbs_get_def drop_der_header length_der_element)
qed (simp add: CBS_get_asn1_element_def CBS_get_asn1_def cbs_get_asn1_def)

interpretation asn1: codec "\<lambda>s. CBS_get_asn1 s tag" "der_element tag" "\<lambda>c. length c < 2 ^ 32" for tag
  by unfold_locales (auto simp: CBS_get_asn1_iff)

end
