(* ===== verification/Cbb.thy ===== *)
theory Cbb
  imports Cbs_Asn1
begin

text \<open>
  The builder of \<open>crypto/bytestring/cbb.c\<close>.  A top-level \<open>CBB\<close> owns a growable buffer;
  a length-prefixed element under construction is a child \<open>CBB\<close> that shares the buffer,
  and every \<open>CBB\<close> has at most one live child.  The model keeps the buffer and the chain
  of live children, outermost first; the \<open>CBB\<close> an operation is called on is its depth in
  that chain (0 is the top-level object).  A depth beyond the chain is a child that has
  been flushed, whose \<open>base\<close> pointer the code has set to \<open>NULL\<close>.

  The allocator is outside the program: \<open>b_mem\<close> lists the outcomes of the coming
  allocations (when it runs out, they succeed), \<open>b_fresh\<close> is what uninitialised memory
  holds.
\<close>

section \<open>State\<close>

record cbb_buffer =
  b_buf :: "u8 list"
  b_len :: size_t
  b_cap :: size_t
  b_can_resize :: bool
  b_error :: bool
  b_mem :: "bool list"
  b_fresh :: "nat \<Rightarrow> u8"

record cbb_child =
  c_offset :: size_t
  c_pending_len_len :: nat
  c_pending_is_asn1 :: bool

record CBB =
  cbb_base :: "cbb_buffer option"
  cbb_chain :: "cbb_child list"

section \<open>Creation and release\<close>

definition CBB_zero :: CBB where
  "CBB_zero = \<lparr>cbb_base = None, cbb_chain = []\<rparr>"

definition cbb_init :: "u8 list \<Rightarrow> size_t \<Rightarrow> bool list \<Rightarrow> (nat \<Rightarrow> u8) \<Rightarrow> bool \<times> CBB" where
  "cbb_init buf cap mem fresh =
     (case mem_next mem of (ok, mem) \<Rightarrow>
        if \<not> ok then (False, CBB_zero)
        else (True, \<lparr>cbb_base = Some \<lparr>b_buf = buf, b_len = 0, b_cap = cap, b_can_resize = True,
                        b_error = False, b_mem = mem, b_fresh = fresh\<rparr>,
                     cbb_chain = []\<rparr>))"

definition CBB_init :: "bool list \<Rightarrow> (nat \<Rightarrow> u8) \<Rightarrow> size_t \<Rightarrow> bool \<times> CBB" where
  "CBB_init mem fresh initial_capacity =
     (case mem_next mem of (ok, mem) \<Rightarrow>
        if initial_capacity > 0 \<and> \<not> ok then (False, CBB_zero)
        else cbb_init (map fresh [0..<initial_capacity]) initial_capacity mem fresh)"

definition CBB_init_fixed :: "bool list \<Rightarrow> (nat \<Rightarrow> u8) \<Rightarrow> u8 list \<Rightarrow> bool \<times> CBB" where
  "CBB_init_fixed mem fresh buf =
     (case cbb_init buf (length buf) mem fresh of (ok, cbb) \<Rightarrow>
        if \<not> ok then (False, cbb)
        else (True, cbb\<lparr>cbb_base := map_option (b_can_resize_update (\<lambda>_. False)) (cbb_base cbb)\<rparr>))"

definition CBB_cleanup :: "CBB \<Rightarrow> CBB" where
  "CBB_cleanup cbb = cbb\<lparr>cbb_base := None\<rparr>"

section \<open>The buffer\<close>

definition cbb_buffer_err :: "cbb_buffer \<Rightarrow> bool \<times> cbb_buffer" where
  "cbb_buffer_err base = (False, base\<lparr>b_error := True\<rparr>)"

text \<open>The output pointer is always \<open>buf + len\<close> of the state before the call.\<close>

definition cbb_buffer_reserve :: "cbb_buffer \<Rightarrow> size_t \<Rightarrow> bool \<times> cbb_buffer" where
  "cbb_buffer_reserve base n =
     (let newlen = size_add (b_len base) n
      in if newlen < b_len base then cbb_buffer_err base
         else if newlen > b_cap base then
           (let newcap = size_mul (b_cap base) 2
            in if \<not> b_can_resize base then cbb_buffer_err base
               else let newcap = (if newcap < b_cap base \<or> newcap < newlen then newlen else newcap)
                    in case mem_next (b_mem base) of (ok, mem) \<Rightarrow>
                         if \<not> ok then cbb_buffer_err (base\<lparr>b_mem := mem\<rparr>)
                         else (True, base\<lparr>b_buf := take newcap (b_buf base) @
                                             map (b_fresh base) [b_cap base..<newcap],
                                          b_cap := newcap, b_mem := mem\<rparr>))
         else (True, base))"

definition cbb_buffer_add :: "cbb_buffer \<Rightarrow> size_t \<Rightarrow> bool \<times> cbb_buffer" where
  "cbb_buffer_add base n =
     (case cbb_buffer_reserve base n of (ok, base) \<Rightarrow>
        if \<not> ok then (False, base)
        else (True, base\<lparr>b_len := size_add (b_len base) n\<rparr>))"

text \<open>
  The loop \<open>for (i = n - 1; i < n; i--) { buf[off + i] = v; v >>= 8; }\<close> of the integer and
  length-prefix writers; the value left over is the second result.
\<close>

fun cbb_write_be :: "u8 list \<Rightarrow> nat \<Rightarrow> nat \<Rightarrow> nat \<Rightarrow> u8 list \<times> nat" where
  "cbb_write_be buf off 0 v = (buf, v)"
| "cbb_write_be buf off (Suc i) v = cbb_write_be (buf[off + i := of_nat v]) off i (v div 256)"

definition cbb_buffer_add_u :: "cbb_buffer \<Rightarrow> u64 \<Rightarrow> size_t \<Rightarrow> bool \<times> cbb_buffer" where
  "cbb_buffer_add_u base v len_len =
     (if len_len = 0 then (True, base)
      else case cbb_buffer_add base len_len of (ok, base') \<Rightarrow>
        if \<not> ok then (False, base')
        else case cbb_write_be (b_buf base') (b_len base) len_len (unat v) of (buf, rest) \<Rightarrow>
          (if rest \<noteq> 0 then cbb_buffer_err (base'\<lparr>b_buf := buf\<rparr>)
           else (True, base'\<lparr>b_buf := buf\<rparr>)))"

text \<open>Run a buffer operation on the buffer the \<open>CBB\<close>s of a chain share.\<close>

definition on_base :: "(cbb_buffer \<Rightarrow> bool \<times> cbb_buffer) \<Rightarrow> CBB \<Rightarrow> bool \<times> CBB" where
  "on_base f cbb =
     (case cbb_base cbb of
        None \<Rightarrow> (False, cbb)
      | Some base \<Rightarrow> (case f base of (ok, base) \<Rightarrow> (ok, cbb\<lparr>cbb_base := Some base\<rparr>)))"

section \<open>Flushing\<close>

text \<open>
  The part of \<open>CBB_flush\<close> after the recursive call: the length of the child's contents
  goes into the pending prefix; an ASN.1 prefix may need more room than the one byte kept
  for it, and then the contents move along.
\<close>

definition cbb_flush_prefix :: "cbb_child \<Rightarrow> size_t \<Rightarrow> cbb_buffer \<Rightarrow> bool \<times> cbb_buffer" where
  "cbb_flush_prefix child child_start base =
     (let n = b_len base - child_start
      in if c_pending_is_asn1 child then
           if n > 0xfffffffe then cbb_buffer_err base
           else
             let (len_len, initial_length_byte, rest) =
                   (if n > 0xffffff then (5, 0x80 OR 4, n)
                    else if n > 0xffff then (4, 0x80 OR 3, n)
                    else if n > 0xff then (3, 0x80 OR 2, n)
                    else if n > 0x7f then (2, 0x80 OR 1, n)
                    else (1, of_nat n, 0));
                 extra_bytes = len_len - 1;
                 (ok, base) = (if len_len \<noteq> 1 then cbb_buffer_add base extra_bytes else (True, base))
             in if \<not> ok then cbb_buffer_err base
                else
                  let buf = (if len_len \<noteq> 1
                             then blit (b_buf base) (child_start + extra_bytes)
                                    (take rest (drop child_start (b_buf base)))
                             else b_buf base);
                      buf = buf[c_offset child := initial_length_byte];
                      (buf, rest) = cbb_write_be buf (c_offset child + 1) (len_len - 1) rest
                  in if rest \<noteq> 0 then cbb_buffer_err (base\<lparr>b_buf := buf\<rparr>)
                     else (True, base\<lparr>b_buf := buf\<rparr>)
         else
           let (buf, rest) = cbb_write_be (b_buf base) (c_offset child) (c_pending_len_len child) n
           in if rest \<noteq> 0 then cbb_buffer_err (base\<lparr>b_buf := buf\<rparr>)
              else (True, base\<lparr>b_buf := buf\<rparr>))"

function CBB_flush :: "nat \<Rightarrow> CBB \<Rightarrow> bool \<times> CBB" where
  "CBB_flush d cbb =
     (case cbb_base cbb of
        None \<Rightarrow> (False, cbb)
      | Some base \<Rightarrow>
          if length (cbb_chain cbb) < d then (False, cbb)
          else if b_error base then (False, cbb)
          else if length (cbb_chain cbb) = d then (True, cbb)
          else
            let child = cbb_chain cbb ! d
            in if c_pending_len_len child = 0 then (True, cbb)
               else
                 let child_start = size_add (c_offset child) (c_pending_len_len child);
                     (ok, cbb) = CBB_flush (Suc d) cbb
                 in if \<not> ok then on_base cbb_buffer_err cbb
                    else andthen
                      (on_base (\<lambda>base.
                         if child_start < c_offset child \<or> b_len base < child_start
                         then cbb_buffer_err base
                         else cbb_flush_prefix child child_start base) cbb)
                      (\<lambda>cbb. (True, cbb\<lparr>cbb_chain := take d (cbb_chain cbb)\<rparr>)))"
  by pat_completeness auto
termination
  by (relation "measure (\<lambda>(d, cbb). length (cbb_chain cbb) - d)") auto

declare CBB_flush.simps [simp del]

text \<open>
  \<open>outs\<close>: whether the caller passes both output pointers.  The result is what they receive,
  the \<open>out_len\<close> bytes at \<open>out_data\<close>.
\<close>

definition CBB_finish :: "nat \<Rightarrow> bool \<Rightarrow> CBB \<Rightarrow> u8 list option \<times> CBB" where
  "CBB_finish d outs cbb =
     (if d > 0 then (None, cbb)
      else case CBB_flush 0 cbb of (ok, cbb) \<Rightarrow>
        if \<not> ok then (None, cbb)
        else case cbb_base cbb of
          None \<Rightarrow> (None, cbb)
        | Some base \<Rightarrow>
            if b_can_resize base \<and> \<not> outs then (None, cbb)
            else (Some (take (b_len base) (b_buf base)), CBB_cleanup cbb))"

text \<open>The place where the contents of the \<open>CBB\<close> at depth \<open>d\<close> begin.\<close>

definition cbb_start :: "nat \<Rightarrow> CBB \<Rightarrow> size_t" where
  "cbb_start d cbb =
     (case d of
        0 \<Rightarrow> 0
      | Suc i \<Rightarrow> c_offset (cbb_chain cbb ! i) + c_pending_len_len (cbb_chain cbb ! i))"

text \<open>Both are fatal errors on a \<open>CBB\<close> with a live child.\<close>

definition CBB_data :: "nat \<Rightarrow> CBB \<Rightarrow> u8 list option" where
  "CBB_data d cbb =
     (case cbb_base cbb of
        None \<Rightarrow> None
      | Some base \<Rightarrow>
          if length (cbb_chain cbb) = d
          then Some (drop (cbb_start d cbb) (take (b_len base) (b_buf base))) else None)"

definition CBB_len :: "nat \<Rightarrow> CBB \<Rightarrow> size_t option" where
  "CBB_len d cbb =
     (case cbb_base cbb of
        None \<Rightarrow> None
      | Some base \<Rightarrow>
          if length (cbb_chain cbb) = d \<and> cbb_start d cbb \<le> b_len base
          then Some (b_len base - cbb_start d cbb) else None)"

section \<open>Length-prefixed children\<close>

definition cbb_len :: "CBB \<Rightarrow> size_t" where
  "cbb_len cbb = (case cbb_base cbb of None \<Rightarrow> 0 | Some base \<Rightarrow> b_len base)"

definition cbb_add_length_prefixed :: "nat \<Rightarrow> nat \<Rightarrow> CBB \<Rightarrow> bool \<times> CBB" where
  "cbb_add_length_prefixed d len_len cbb =
     andthen (CBB_flush d cbb) (\<lambda>cbb.
       let offset = cbb_len cbb
       in andthen (on_base (\<lambda>base. cbb_buffer_add base len_len) cbb) (\<lambda>cbb.
         andthen (on_base (\<lambda>base.
             (True, base\<lparr>b_buf := blit (b_buf base) offset (replicate len_len 0)\<rparr>)) cbb) (\<lambda>cbb.
           (True, cbb\<lparr>cbb_chain := cbb_chain cbb @
              [\<lparr>c_offset = offset, c_pending_len_len = len_len, c_pending_is_asn1 = False\<rparr>]\<rparr>))))"

definition CBB_add_u8_length_prefixed :: "nat \<Rightarrow> CBB \<Rightarrow> bool \<times> CBB" where
  "CBB_add_u8_length_prefixed d cbb = cbb_add_length_prefixed d 1 cbb"

definition CBB_add_u16_length_prefixed :: "nat \<Rightarrow> CBB \<Rightarrow> bool \<times> CBB" where
  "CBB_add_u16_length_prefixed d cbb = cbb_add_length_prefixed d 2 cbb"

definition CBB_add_u24_length_prefixed :: "nat \<Rightarrow> CBB \<Rightarrow> bool \<times> CBB" where
  "CBB_add_u24_length_prefixed d cbb = cbb_add_length_prefixed d 3 cbb"

section \<open>Fixed-size writes\<close>

definition CBB_add_bytes :: "nat \<Rightarrow> u8 list \<Rightarrow> CBB \<Rightarrow> bool \<times> CBB" where
  "CBB_add_bytes d data cbb =
     andthen (CBB_flush d cbb) (\<lambda>cbb.
       let dest = cbb_len cbb
       in andthen (on_base (\<lambda>base. cbb_buffer_add base (length data)) cbb) (\<lambda>cbb.
         on_base (\<lambda>base. (True, base\<lparr>b_buf := blit (b_buf base) dest data\<rparr>)) cbb))"

definition CBB_add_space :: "nat \<Rightarrow> size_t \<Rightarrow> CBB \<Rightarrow> bool \<times> CBB" where
  "CBB_add_space d n cbb =
     andthen (CBB_flush d cbb) (on_base (\<lambda>base. cbb_buffer_add base n))"

definition CBB_reserve :: "nat \<Rightarrow> size_t \<Rightarrow> CBB \<Rightarrow> bool \<times> CBB" where
  "CBB_reserve d n cbb =
     andthen (CBB_flush d cbb) (on_base (\<lambda>base. cbb_buffer_reserve base n))"

definition CBB_did_write :: "nat \<Rightarrow> size_t \<Rightarrow> CBB \<Rightarrow> bool \<times> CBB" where
  "CBB_did_write d n cbb =
     on_base (\<lambda>base.
       let newlen = size_add (b_len base) n
       in if length (cbb_chain cbb) \<noteq> d \<or> newlen < b_len base \<or> newlen > b_cap base
          then (False, base)
          else (True, base\<lparr>b_len := newlen\<rparr>)) cbb"

definition CBB_add_u8 :: "nat \<Rightarrow> u8 \<Rightarrow> CBB \<Rightarrow> bool \<times> CBB" where
  "CBB_add_u8 d v cbb =
     andthen (CBB_flush d cbb) (on_base (\<lambda>base. cbb_buffer_add_u base (ucast v) 1))"

definition CBB_add_u16 :: "nat \<Rightarrow> u16 \<Rightarrow> CBB \<Rightarrow> bool \<times> CBB" where
  "CBB_add_u16 d v cbb =
     andthen (CBB_flush d cbb) (on_base (\<lambda>base. cbb_buffer_add_u base (ucast v) 2))"

definition CBB_add_u16le :: "nat \<Rightarrow> u16 \<Rightarrow> CBB \<Rightarrow> bool \<times> CBB" where
  "CBB_add_u16le d v cbb = CBB_add_u16 d (CRYPTO_bswap2 v) cbb"

definition CBB_add_u24 :: "nat \<Rightarrow> u32 \<Rightarrow> CBB \<Rightarrow> bool \<times> CBB" where
  "CBB_add_u24 d v cbb =
     andthen (CBB_flush d cbb) (on_base (\<lambda>base. cbb_buffer_add_u base (ucast v) 3))"

definition CBB_add_u32 :: "nat \<Rightarrow> u32 \<Rightarrow> CBB \<Rightarrow> bool \<times> CBB" where
  "CBB_add_u32 d v cbb =
     andthen (CBB_flush d cbb) (on_base (\<lambda>base. cbb_buffer_add_u base (ucast v) 4))"

definition CBB_add_u32le :: "nat \<Rightarrow> u32 \<Rightarrow> CBB \<Rightarrow> bool \<times> CBB" where
  "CBB_add_u32le d v cbb = CBB_add_u32 d (CRYPTO_bswap4 v) cbb"

definition CBB_add_u64 :: "nat \<Rightarrow> u64 \<Rightarrow> CBB \<Rightarrow> bool \<times> CBB" where
  "CBB_add_u64 d v cbb =
     andthen (CBB_flush d cbb) (on_base (\<lambda>base. cbb_buffer_add_u base v 8))"

definition CBB_add_u64le :: "nat \<Rightarrow> u64 \<Rightarrow> CBB \<Rightarrow> bool \<times> CBB" where
  "CBB_add_u64le d v cbb = CBB_add_u64 d (CRYPTO_bswap8 v) cbb"

definition CBB_discard_child :: "nat \<Rightarrow> CBB \<Rightarrow> CBB" where
  "CBB_discard_child d cbb =
     (if length (cbb_chain cbb) \<le> d then cbb
      else cbb\<lparr>cbb_base := map_option (b_len_update (\<lambda>_. c_offset (cbb_chain cbb ! d))) (cbb_base cbb),
               cbb_chain := take d (cbb_chain cbb)\<rparr>)"

end
