(* ===== verification/Cbb_Spec.thy ===== *)
theory Cbb_Spec
  imports Cbb
begin

text \<open>
  What the builder of \<open>Cbb\<close> promises.  The abstract builder is a stack of byte
  strings, one per open level, with the kind of length prefix each child will get;
  flushing a level closes the children above it, innermost first, by putting the prefix
  for the child's length and the child's contents at the end of its parent.  The buffer
  model refines it: every operation keeps the representation invariant \<open>cbb_wf\<close>, and an
  operation that succeeds does on \<open>cbb_view\<close> what its abstract counterpart does.
\<close>

section \<open>The abstract builder\<close>

datatype prefix = Fixed nat | Der

text \<open>\<open>all_fit\<close>: so far every length has fitted its prefix.\<close>

record builder =
  open_levels :: "u8 list list"
  open_kinds :: "prefix list"
  all_fit :: bool

fun prefix_enc :: "prefix \<Rightarrow> nat \<Rightarrow> u8 list" where
  "prefix_enc (Fixed k) n = be_bytes k n"
| "prefix_enc Der n = der_len_enc n"

fun prefix_fits :: "prefix \<Rightarrow> nat \<Rightarrow> bool" where
  "prefix_fits (Fixed k) n = (n < 256 ^ k)"
| "prefix_fits Der n = (n \<le> 0xfffffffe)"

definition app_last :: "u8 list list \<Rightarrow> u8 list \<Rightarrow> u8 list list" where
  "app_last ls xs = butlast ls @ [last ls @ xs]"

definition put_bytes :: "u8 list \<Rightarrow> builder \<Rightarrow> builder" where
  "put_bytes xs v = v\<lparr>open_levels := app_last (open_levels v) xs\<rparr>"

definition open_child :: "prefix \<Rightarrow> builder \<Rightarrow> builder" where
  "open_child k v = v\<lparr>open_levels := open_levels v @ [[]], open_kinds := open_kinds v @ [k]\<rparr>"

definition close_child :: "builder \<Rightarrow> builder" where
  "close_child v =
     (let n = length (last (open_levels v)); k = last (open_kinds v)
      in \<lparr>open_levels = app_last (butlast (open_levels v)) (prefix_enc k n @ last (open_levels v)),
          open_kinds = butlast (open_kinds v),
          all_fit = (all_fit v \<and> prefix_fits k n)\<rparr>)"

definition require :: "bool \<Rightarrow> builder \<Rightarrow> builder" where
  "require P v = v\<lparr>all_fit := all_fit v \<and> P\<rparr>"

definition close_to :: "nat \<Rightarrow> builder \<Rightarrow> builder" where
  "close_to d v = (close_child ^^ (length (open_kinds v) - d)) v"

lemma app_last_app [simp]: "app_last (app_last ls xs) ys = app_last ls (xs @ ys)"
  by (simp add: app_last_def)

lemma put_bytes_put_bytes [simp]: "put_bytes ys (put_bytes xs v) = put_bytes (xs @ ys) v"
  by (simp add: put_bytes_def)

lemma put_bytes_simps [simp]:
  "open_kinds (put_bytes xs v) = open_kinds v" "all_fit (put_bytes xs v) = all_fit v"
  "open_levels (put_bytes xs v) = app_last (open_levels v) xs"
  by (simp_all add: put_bytes_def)

lemma require_simps [simp]:
  "open_kinds (require P v) = open_kinds v" "open_levels (require P v) = open_levels v"
  "all_fit (require P v) = (all_fit v \<and> P)" "require True v = v"
  "put_bytes xs (require P v) = require P (put_bytes xs v)"
  "require P (require Q v) = require (Q \<and> P) v"
  by (simp_all add: require_def put_bytes_def)

lemma close_child_open_put:
  "open_levels v \<noteq> [] \<Longrightarrow>
   close_child (put_bytes xs (open_child k v)) =
   require (prefix_fits k (length xs)) (put_bytes (prefix_enc k (length xs) @ xs) v)"
  by (simp add: close_child_def put_bytes_def open_child_def app_last_def require_def Let_def)

lemma close_to_same: "length (open_kinds v) \<le> d \<Longrightarrow> close_to d v = v"
  by (simp add: close_to_def)

lemma length_close_child_pow [simp]:
  "length (open_kinds ((close_child ^^ n) v)) = length (open_kinds v) - n"
  by (induction n) (simp_all add: close_child_def Let_def)

lemma length_close_to [simp]: "length (open_kinds (close_to d v)) = min d (length (open_kinds v))"
  by (simp add: close_to_def)

lemma close_to_close_to: "d \<le> e \<Longrightarrow> close_to d (close_to e v) = close_to d v"
proof (cases "e \<le> length (open_kinds v)")
  case True
  assume "d \<le> e"
  with True have "length (open_kinds v) - d = (e - d) + (length (open_kinds v) - e)" by simp
  then have "(close_child ^^ (length (open_kinds v) - d)) v =
      (close_child ^^ (e - d)) ((close_child ^^ (length (open_kinds v) - e)) v)"
    by (simp add: funpow_add)
  with True show ?thesis by (simp add: close_to_def min_def)
qed (simp add: close_to_same)

lemma close_to_Suc:
  "length (open_kinds v) > d \<Longrightarrow> close_to d v = close_child (close_to (Suc d) v)"
proof -
  assume "length (open_kinds v) > d"
  then have "length (open_kinds v) - d = Suc (length (open_kinds v) - Suc d)" by simp
  then show ?thesis by (simp add: close_to_def)
qed

section \<open>Representation invariant and abstraction\<close>

definition buffer_wf :: "cbb_buffer \<Rightarrow> bool" where
  "buffer_wf b \<longleftrightarrow> length (b_buf b) = b_cap b \<and> b_len b \<le> b_cap b \<and> b_cap b < 2 ^ 64"

definition child_wf :: "cbb_child \<Rightarrow> bool" where
  "child_wf f \<longleftrightarrow> 0 < c_pending_len_len f \<and> c_pending_len_len f < 256 \<and>
     (c_pending_is_asn1 f \<longrightarrow> c_pending_len_len f = 1)"

definition child_end :: "cbb_child \<Rightarrow> nat" where
  "child_end f = c_offset f + c_pending_len_len f"

text \<open>The children lie one inside the other: each begins after the prefix of its parent.\<close>

fun chain_wf :: "nat \<Rightarrow> cbb_child list \<Rightarrow> nat \<Rightarrow> bool" where
  "chain_wf s [] n \<longleftrightarrow> s \<le> n"
| "chain_wf s (f # fs) n \<longleftrightarrow> s \<le> c_offset f \<and> child_wf f \<and> chain_wf (child_end f) fs n"

definition cbb_wf :: "CBB \<Rightarrow> bool" where
  "cbb_wf c \<longleftrightarrow>
     (case cbb_base c of
        None \<Rightarrow> True
      | Some b \<Rightarrow> buffer_wf b \<and> (\<not> b_error b \<longrightarrow> chain_wf 0 (cbb_chain c) (b_len b)))"

definition b_written :: "cbb_buffer \<Rightarrow> u8 list" where
  "b_written b = take (b_len b) (b_buf b)"

fun levels :: "nat \<Rightarrow> cbb_child list \<Rightarrow> u8 list \<Rightarrow> u8 list list" where
  "levels s [] w = [drop s w]"
| "levels s (f # fs) w = drop s (take (c_offset f) w) # levels (child_end f) fs w"

definition child_kind :: "cbb_child \<Rightarrow> prefix" where
  "child_kind f = (if c_pending_is_asn1 f then Der else Fixed (c_pending_len_len f))"

definition view :: "cbb_child list \<Rightarrow> u8 list \<Rightarrow> builder" where
  "view fs w = \<lparr>open_levels = levels 0 fs w, open_kinds = map child_kind fs, all_fit = True\<rparr>"

definition cbb_view :: "CBB \<Rightarrow> builder" where
  "cbb_view c =
     (case cbb_base c of None \<Rightarrow> \<lparr>open_levels = [], open_kinds = [], all_fit = True\<rparr>
     | Some b \<Rightarrow> view (cbb_chain c) (b_written b))"

text \<open>A state in which operations can still succeed.\<close>

definition cbb_live :: "CBB \<Rightarrow> bool" where
  "cbb_live c \<longleftrightarrow> (\<exists>b. cbb_base c = Some b \<and> \<not> b_error b)"

lemma length_b_written: "buffer_wf b \<Longrightarrow> length (b_written b) = b_len b"
  by (simp add: b_written_def buffer_wf_def)

lemma levels_nonempty [simp]: "levels s fs w \<noteq> []"
  by (cases fs) simp_all

text \<open>The last child of a chain: where its parent ends, what its own contents are.\<close>

lemma chain_wf_snoc:
  "chain_wf s (fs @ [f]) n \<longleftrightarrow> chain_wf s fs (c_offset f) \<and> child_wf f \<and> child_end f \<le> n"
  by (induction fs arbitrary: s) auto

lemma chain_wf_mono: "chain_wf s fs n \<Longrightarrow> n \<le> m \<Longrightarrow> chain_wf s fs m"
  by (induction fs arbitrary: s) auto

lemma chain_wf_le: "chain_wf s fs n \<Longrightarrow> s \<le> n"
proof (induction fs arbitrary: s)
  case (Cons f fs)
  then have "child_end f \<le> n" by simp
  with Cons.prems show ?case by (simp add: child_end_def)
qed simp

lemma chain_wf_take: "chain_wf s fs n \<Longrightarrow> chain_wf s (take d fs) n"
proof (induction fs arbitrary: s d)
  case (Cons f fs)
  then show ?case using chain_wf_le [OF Cons.prems] by (cases d) auto
qed simp

lemma levels_snoc:
  "chain_wf s fs (c_offset f) \<Longrightarrow>
   levels s (fs @ [f]) w = levels s fs (take (c_offset f) w) @ [drop (child_end f) w]"
proof (induction fs arbitrary: s)
  case (Cons g fs)
  then have "c_offset g \<le> c_offset f"
    using chain_wf_le [of "child_end g" fs "c_offset f"] by (simp add: child_end_def)
  with Cons show ?case by (simp add: min_def)
qed simp

lemma levels_append:
  "chain_wf s fs (length w) \<Longrightarrow> levels s fs (w @ x) = app_last (levels s fs w) x"
proof (induction fs arbitrary: s)
  case (Cons f fs)
  then have "c_offset f \<le> length w"
    using chain_wf_le [of "child_end f" fs "length w"] by (simp add: child_end_def)
  with Cons show ?case by (simp add: app_last_def)
qed (simp add: app_last_def)

lemma view_append:
  "chain_wf 0 fs (length w) \<Longrightarrow> view fs (w @ x) = put_bytes x (view fs w)"
  by (simp add: view_def put_bytes_def levels_append)

lemma view_close:
  assumes "chain_wf 0 (fs @ [f]) (length w)"
    and "prefix_fits (child_kind f) (length (drop (child_end f) w))"
  shows "close_child (view (fs @ [f]) w) =
    view fs (take (c_offset f) w @ prefix_enc (child_kind f) (length (drop (child_end f) w)) @
      drop (child_end f) w)"
proof -
  from assms(1) have f: "chain_wf 0 fs (c_offset f)" "child_end f \<le> length w"
    by (simp_all add: chain_wf_snoc)
  then have "chain_wf 0 fs (length (take (c_offset f) w))"
    by (simp add: child_end_def min_absorb2)
  then show ?thesis
    using f assms(2)
    by (simp add: close_child_def view_def levels_snoc levels_append butlast_append Let_def)
qed

section \<open>The buffer\<close>

lemma buffer_wf_error [simp]: "buffer_wf (b\<lparr>b_error := e\<rparr>) = buffer_wf b"
  "b_written (b\<lparr>b_error := e\<rparr>) = b_written b"
  by (simp_all add: buffer_wf_def b_written_def)

lemma cbb_buffer_err_simps [simp]:
  "fst (cbb_buffer_err b) = False" "snd (cbb_buffer_err b) = b\<lparr>b_error := True\<rparr>"
  by (simp_all add: cbb_buffer_err_def)

text \<open>
  Reserving room keeps what was written and never shrinks the buffer; it fails only with
  the sticky error set, and a fixed buffer is never replaced.
\<close>

lemma cbb_buffer_reserve_spec:
  assumes "buffer_wf b" "n < 2 ^ 64" "cbb_buffer_reserve b n = (ok, b')"
  shows "buffer_wf b' \<and> b_written b' = b_written b \<and> b_len b' = b_len b \<and>
    b_can_resize b' = b_can_resize b \<and> (\<not> b_can_resize b \<longrightarrow> b_cap b' = b_cap b) \<and>
    (if ok then b_len b + n \<le> b_cap b' \<and> b_error b' = b_error b else b_error b')"
proof -
  have cap: "b_cap b < 2 ^ 64" "b_len b < 2 ^ 64" "length (b_buf b) = b_cap b" "b_len b \<le> b_cap b"
    using assms(1) by (simp_all add: buffer_wf_def)
  show ?thesis
  proof (cases "size_add (b_len b) n < b_len b")
    case True
    with assms show ?thesis
      by (auto simp: cbb_buffer_reserve_def cbb_buffer_err_def)
  next
    case False
    then have add: "size_add (b_len b) n = b_len b + n"
      using size_add_less_iff [of "b_len b" n] cap assms(2) by (simp add: size_add_exact)
    have small: "b_len b + n < 2 ^ 64"
      using add by (metis mod_less_divisor size_add_def zero_less_numeral zero_less_power)
    define newcap where "newcap = (let c = size_mul (b_cap b) 2
      in if c < b_cap b \<or> c < b_len b + n then b_len b + n else c)"
    have mul: "size_mul (b_cap b) 2 < 2 ^ 64" by (simp add: size_mul_def)
    have nc: "b_len b + n \<le> newcap" "newcap < 2 ^ 64"
      using small mul by (auto simp: newcap_def Let_def)
    have nc2: "b_cap b \<le> newcap" if "b_cap b < b_len b + n"
      using that by (auto simp: newcap_def Let_def)
    obtain m ms where next_mem: "mem_next (b_mem b) = (m, ms)" by force
    have keep: "take (b_len b) (take newcap (b_buf b) @ t) = b_written b"
      if "b_cap b < b_len b + n" for t
      using nc2 [OF that] cap by (simp add: b_written_def)
    from assms(1,3) False nc nc2 keep cap next_mem show ?thesis
      by (auto simp: cbb_buffer_reserve_def add Let_def newcap_def cbb_buffer_err_def buffer_wf_def
          b_written_def split: if_splits)
  qed
qed

lemma cbb_buffer_add_spec:
  assumes "buffer_wf b" "n < 2 ^ 64" "cbb_buffer_add b n = (ok, b')"
  shows "buffer_wf b' \<and> b_can_resize b' = b_can_resize b \<and>
    (\<not> b_can_resize b \<longrightarrow> b_cap b' = b_cap b) \<and>
    (if ok then b_len b' = b_len b + n \<and> take (b_len b) (b_buf b') = b_written b \<and>
       b_error b' = b_error b else b_error b')"
proof -
  obtain ok1 b1 where r: "cbb_buffer_reserve b n = (ok1, b1)" by force
  note spec = cbb_buffer_reserve_spec [OF assms(1,2) r]
  show ?thesis
  proof (cases ok1)
    case True
    with spec have "b_len b + n < 2 ^ 64" by (simp add: buffer_wf_def)
    with True spec assms(3) r show ?thesis
      by (auto simp: cbb_buffer_add_def size_add_exact buffer_wf_def b_written_def)
  qed (use spec assms(3) r in \<open>auto simp: cbb_buffer_add_def\<close>)
qed

lemma cbb_write_be_eq:
  "off + k \<le> length buf \<Longrightarrow>
   cbb_write_be buf off k v = (blit buf off (be_bytes k v), v div 256 ^ k)"
proof (induction k arbitrary: buf v)
  case (Suc k)
  then have "cbb_write_be buf off (Suc k) v =
      (blit (buf[off + k := of_nat v]) off (be_bytes k (v div 256)), v div 256 div 256 ^ k)"
    by simp
  also have "blit (buf[off + k := of_nat v]) off (be_bytes k (v div 256)) =
      blit buf off (be_bytes (Suc k) v)"
    using Suc.prems blit_update_end [of off "be_bytes k (v div 256)" buf] by simp
  finally show ?case by (simp add: div_mult2_eq mult.commute)
qed simp

lemma cbb_buffer_add_u_spec:
  assumes "buffer_wf b" "k < 2 ^ 64" "cbb_buffer_add_u b v k = (ok, b')"
  shows "buffer_wf b' \<and> b_can_resize b' = b_can_resize b \<and>
    (\<not> b_can_resize b \<longrightarrow> b_cap b' = b_cap b) \<and>
    (if ok then b_written b' = b_written b @ (if k = 0 then [] else be_bytes k (unat v)) \<and>
       (k \<noteq> 0 \<longrightarrow> unat v < 256 ^ k) \<and> b_error b' = b_error b
     else b_error b')"
proof (cases "k = 0")
  case False
  obtain ok1 b1 where a: "cbb_buffer_add b k = (ok1, b1)" by force
  note spec = cbb_buffer_add_spec [OF assms(1,2) a]
  show ?thesis
  proof (cases ok1)
    case True
    with spec have len: "b_len b + k \<le> length (b_buf b1)" by (simp add: buffer_wf_def)
    have "take (b_len b + k) (blit (b_buf b1) (b_len b) (be_bytes k (unat v))) =
        b_written b @ be_bytes k (unat v)"
      using True spec take_blit_end [of "b_len b" "be_bytes k (unat v)" "b_buf b1"] len by simp
    with True spec assms(3) a False len show ?thesis
      by (auto simp: cbb_buffer_add_u_def cbb_write_be_eq cbb_buffer_err_def buffer_wf_def
          b_written_def div_eq_0_iff split: if_splits)
  qed (use spec assms(3) a False in \<open>auto simp: cbb_buffer_add_u_def\<close>)
qed (use assms in \<open>auto simp: cbb_buffer_add_u_def\<close>)

section \<open>Flushing\<close>

text \<open>Splice a prefix of \<open>k\<close> more bytes before the contents that end the buffer.\<close>

lemma splice_prefix:
  assumes B: "B = p @ x # c @ t" and k: "k \<le> length t"
  shows "take (length p + 1 + k + length c)
      (blit ((blit B (length p + 1 + k) (take (length c) (drop (length p + 1) B)))[length p := y])
         (length p + 1) (be_bytes k n)) = p @ y # be_bytes k n @ c"
proof -
  have c: "take (length c) (drop (length p + 1) B) = c" by (simp add: B)
  have "blit B (length p + 1 + k) c = p @ x # take k (c @ t) @ c @ drop k t"
    using k by (simp add: blit_def B)
  then have "(blit B (length p + 1 + k) c)[length p := y] =
      (p @ [y]) @ take k (c @ t) @ c @ drop k t"
    by (simp add: list_update_append)
  then have "blit ((blit B (length p + 1 + k) c)[length p := y]) (length p + 1) (be_bytes k n) =
      (p @ [y]) @ be_bytes k n @ c @ drop k t"
    using k by (simp only:) (rule blit_at, simp_all)
  then show ?thesis by (simp only: c) simp
qed

lemma der_len_enc_split:
  assumes "n \<le> 0xfffffffe"
  obtains k init rest where
    "(if n > 0xffffff then (5, 0x80 OR 4, n)
      else if n > 0xffff then (4, 0x80 OR 3, n)
      else if n > 0xff then (3, 0x80 OR 2, n)
      else if n > 0x7f then (2, 0x80 OR 1, n)
      else (1 :: nat, of_nat n :: u8, 0)) = (k + 1, init, rest)"
    "der_len_enc n = init # be_bytes k n" "k \<le> 4" "rest = (if k = 0 then 0 else n)"
    "n < 256 ^ k \<or> k = 0"
proof -
  consider "n > 0xffffff" | "n > 0xffff" "n \<le> 0xffffff" | "n > 0xff" "n \<le> 0xffff"
    | "n > 0x7f" "n \<le> 0xff" | "n \<le> 0x7f" by linarith
  then show thesis
  proof cases
    case 1 then show ?thesis
      using assms by (intro that [of 4 "0x84" n]) (simp_all add: der_len_enc_def)
  next
    case 2 then show ?thesis by (intro that [of 3 "0x83" n]) (simp_all add: der_len_enc_def)
  next
    case 3 then show ?thesis by (intro that [of 2 "0x82" n]) (simp_all add: der_len_enc_def)
  next
    case 4 then show ?thesis by (intro that [of 1 "0x81" n]) (simp_all add: der_len_enc_def)
  next
    case 5 then show ?thesis by (intro that [of 0 "of_nat n" 0]) (simp_all add: der_len_enc_def)
  qed
qed

text \<open>What the writer of a pending prefix promises.\<close>

definition prefix_written :: "cbb_child \<Rightarrow> cbb_buffer \<Rightarrow> bool \<times> cbb_buffer \<Rightarrow> bool" where
  "prefix_written f b r \<longleftrightarrow>
     (let c = drop (child_end f) (b_written b); b' = snd r
      in buffer_wf b' \<and> b_can_resize b' = b_can_resize b \<and>
         (\<not> b_can_resize b \<longrightarrow> b_cap b' = b_cap b) \<and>
         (if fst r
          then b_written b' = take (c_offset f) (b_written b) @
                 prefix_enc (child_kind f) (length c) @ c \<and> b_error b' = b_error b \<and>
               prefix_fits (child_kind f) (length c)
          else b_error b'))"

lemma cbb_flush_prefix_fixed:
  assumes b: "buffer_wf b" "child_end f \<le> b_len b" and f: "\<not> c_pending_is_asn1 f"
  shows "prefix_written f b (cbb_flush_prefix f (child_end f) b)"
proof -
  define k where "k = c_pending_len_len f"
  define c where "c = drop (child_end f) (b_written b)"
  have lens: "c_offset f + k \<le> b_len b" "b_len b \<le> length (b_buf b)"
    using b by (simp_all add: k_def child_end_def buffer_wf_def)
  have c: "length c = b_len b - child_end f" by (simp add: c_def length_b_written b)
  have "take (b_len b) (blit (b_buf b) (c_offset f) (be_bytes k n)) =
      take (c_offset f) (b_written b) @ be_bytes k n @ c" for n
    using lens by (simp add: blit_def b_written_def c_def k_def child_end_def take_drop
        min_absorb2)
  then show ?thesis
    using b f lens
    by (auto simp: cbb_flush_prefix_def Let_def cbb_write_be_eq k_def [symmetric] c [symmetric]
        prefix_written_def c_def [symmetric] buffer_wf_def child_kind_def cbb_buffer_err_def
        div_eq_0_iff b_written_def [of "b\<lparr>b_buf := _\<rparr>"])
qed

lemma cbb_flush_prefix_der:
  assumes b: "buffer_wf b" "child_end f \<le> b_len b"
    and f: "c_pending_is_asn1 f" "c_pending_len_len f = 1"
  shows "prefix_written f b (cbb_flush_prefix f (child_end f) b)"
proof -
  define w where "w = b_written b"
  define p where "p = take (c_offset f) w"
  define c where "c = drop (child_end f) w"
  have end_f: "child_end f = c_offset f + 1" by (simp add: child_end_def f)
  have lw: "length w = b_len b" by (simp add: w_def length_b_written b)
  have lp: "length p = c_offset f" using b by (simp add: p_def lw end_f)
  have lc: "b_len b - child_end f = length c" by (simp add: c_def lw)
  have w: "w = p @ w ! c_offset f # c"
    using b by (simp add: p_def c_def end_f lw id_take_nth_drop)
  show ?thesis
  proof (cases "length c > 0xfffffffe")
    case True
    then show ?thesis
      using b f by (simp add: cbb_flush_prefix_def prefix_written_def lc Let_def cbb_buffer_err_def)
  next
    case False
    then obtain k init rest where enc:
      "(if length c > 0xffffff then (5, 0x80 OR 4, length c)
        else if length c > 0xffff then (4, 0x80 OR 3, length c)
        else if length c > 0xff then (3, 0x80 OR 2, length c)
        else if length c > 0x7f then (2, 0x80 OR 1, length c)
        else (1 :: nat, of_nat (length c) :: u8, 0)) = (k + 1, init, rest)"
      and der: "der_len_enc (length c) = init # be_bytes k (length c)"
      and k: "k \<le> 4" "rest = (if k = 0 then 0 else length c)" "length c < 256 ^ k \<or> k = 0"
      using der_len_enc_split [of "length c"] by auto
    obtain ok b1 where add: "(if k + 1 \<noteq> 1 then cbb_buffer_add b k else (True, b)) = (ok, b1)"
      by force
    have spec: "buffer_wf b1 \<and> b_can_resize b1 = b_can_resize b \<and>
      (\<not> b_can_resize b \<longrightarrow> b_cap b1 = b_cap b) \<and>
      (if ok then b_len b1 = b_len b + k \<and> take (b_len b) (b_buf b1) = w \<and>
         b_error b1 = b_error b else b_error b1)"
      using add b(1) cbb_buffer_add_spec [of b k ok b1] k
      by (auto simp: w_def b_written_def split: if_splits)
    show ?thesis
    proof (cases ok)
      case False
      then have "k \<noteq> 0" "cbb_buffer_add b k = (False, b1)" using add by (auto split: if_splits)
      then have "cbb_flush_prefix f (child_end f) b = cbb_buffer_err b1"
        using f enc \<open>\<not> length c > 0xfffffffe\<close>
        by (simp add: cbb_flush_prefix_def lc)
      then show ?thesis using spec False by (simp add: prefix_written_def Let_def)
    next
      case True
      define B where "B = b_buf b1"
      define B2 where "B2 = (if k + 1 \<noteq> 1
        then blit B (child_end f + k) (take rest (drop (child_end f) B)) else B)"
      define B3 where "B3 = B2[c_offset f := init]"
      have B: "B = p @ w ! c_offset f # c @ drop (b_len b) B"
        using spec True append_take_drop_id [of "b_len b" B] w by (simp add: B_def) (metis append.assoc append_Cons)
      have lB: "b_len b + k \<le> length B" "length B = b_cap b1"
        using spec True by (simp_all add: B_def buffer_wf_def)
      have B2: "B2 = blit B (child_end f + k) (take (length c) (drop (child_end f) B))"
      proof (cases "k = 0")
        case True
        have "take (length c) (drop (child_end f) B) = c"
          by (subst B) (simp add: end_f lp)
        moreover have "blit B (child_end f) c = B"
          by (subst (1 2) B) (simp add: blit_def end_f lp)
        ultimately show ?thesis using True by (simp add: B2_def)
      qed (simp add: B2_def k)
      have l3: "length B3 = b_cap b1"
        using lB lc b by (simp add: B3_def B2)
      have fits: "c_offset f + 1 + k \<le> length B3"
        using lB b l3 by (simp add: end_f)
      have res: "take (b_len b + k) (blit B3 (c_offset f + 1) (be_bytes k n)) =
          p @ init # be_bytes k n @ c" for n
      proof -
        have "b_len b = length p + 1 + length c" using b lc by (simp add: end_f lp)
        then have len: "b_len b + k = length p + 1 + k + length c" by simp
        have "k \<le> length (drop (b_len b) B)" using lB by simp
        from splice_prefix [OF B this, of init n] show ?thesis
          unfolding len B3_def B2 end_f by (simp only: lp)
      qed
      have bytes: "be_bytes k rest = be_bytes k (length c)" using k by simp
      have "rest div 256 ^ k = 0" using k by auto
      then have "cbb_flush_prefix f (child_end f) b =
          (True, b1\<lparr>b_buf := blit B3 (c_offset f + 1) (be_bytes k (length c))\<rparr>)"
      proof (cases "k = 0")
        case True
        with add have "b1 = b" by simp
        with True k show ?thesis
          using f enc \<open>\<not> length c > 0xfffffffe\<close>
          by (simp add: cbb_flush_prefix_def lc B_def B2_def B3_def)
      next
        case False
        then have "cbb_buffer_add b k = (True, b1)" using add \<open>ok\<close> by simp
        with False show ?thesis
          using f enc \<open>\<not> length c > 0xfffffffe\<close> fits \<open>rest div 256 ^ k = 0\<close> bytes
          by (simp add: cbb_flush_prefix_def lc Let_def cbb_write_be_eq B_def B2_def B3_def)
      qed
      then show ?thesis
        using spec True res fits l3 f der \<open>\<not> length c > 0xfffffffe\<close>
        by (simp add: prefix_written_def buffer_wf_def Let_def child_kind_def p_def c_def
            b_written_def [of "b1\<lparr>b_buf := _\<rparr>"] flip: w_def)
    qed
  qed
qed

lemma cbb_flush_prefix_spec:
  assumes "buffer_wf b" "child_end f \<le> b_len b" "child_wf f"
  shows "prefix_written f b (cbb_flush_prefix f (child_end f) b)"
  using assms cbb_flush_prefix_der [of b f] cbb_flush_prefix_fixed [of b f]
  by (cases "c_pending_is_asn1 f") (simp_all add: child_wf_def)

text \<open>No operation changes whether the buffer may grow, and a fixed buffer keeps its size.\<close>

definition keeps :: "CBB \<Rightarrow> CBB \<Rightarrow> bool" where
  "keeps c c' \<longleftrightarrow>
     (case (cbb_base c, cbb_base c') of
        (None, None) \<Rightarrow> True
      | (Some b, Some b') \<Rightarrow> b_can_resize b' = b_can_resize b \<and>
          (\<not> b_can_resize b \<longrightarrow> b_cap b' = b_cap b)
      | _ \<Rightarrow> False)"

lemma keeps_refl [simp]: "keeps c c"
  by (simp add: keeps_def split: option.splits)

lemma keeps_trans: "keeps a b \<Longrightarrow> keeps b c \<Longrightarrow> keeps a c"
  by (auto simp: keeps_def split: option.splits)

lemma keeps_chain [simp]: "keeps c (c'\<lparr>cbb_chain := fs\<rparr>) = keeps c c'"
  by (simp add: keeps_def)

lemma kinds_cbb_view: "cbb_base c = Some b \<Longrightarrow> length (open_kinds (cbb_view c)) = length (cbb_chain c)"
  by (simp add: cbb_view_def view_def)

lemma on_base_err_wf: "cbb_wf c \<Longrightarrow> cbb_wf (snd (on_base cbb_buffer_err c))"
  by (auto simp: on_base_def cbb_wf_def cbb_buffer_err_def split: option.splits)

lemma on_base_err_dead [simp]: "\<not> cbb_live (snd (on_base cbb_buffer_err c))"
  "fst (on_base cbb_buffer_err c) = False" "keeps c (snd (on_base cbb_buffer_err c))"
  by (auto simp: on_base_def cbb_live_def cbb_buffer_err_def keeps_def split: option.splits)

definition flushed :: "nat \<Rightarrow> CBB \<Rightarrow> bool \<times> CBB \<Rightarrow> bool" where
  "flushed d c r \<longleftrightarrow> cbb_wf (snd r) \<and> keeps c (snd r) \<and>
     (if fst r then cbb_live c \<and> cbb_live (snd r) \<and> d \<le> length (cbb_chain c) \<and>
        cbb_chain (snd r) = take d (cbb_chain c) \<and>
        cbb_view (snd r) = close_to d (cbb_view c)
      else \<not> cbb_live (snd r) \<or> length (cbb_chain c) < d)"

lemma flush_last_child:
  assumes c: "cbb_wf c" "cbb_base c = Some b" "\<not> b_error b" "cbb_chain c = fs @ [f]"
  defines "r \<equiv> andthen
     (on_base (\<lambda>base. if child_end f < c_offset f \<or> b_len base < child_end f
                 then cbb_buffer_err base else cbb_flush_prefix f (child_end f) base) c)
     (\<lambda>c. (True, c\<lparr>cbb_chain := take (length fs) (cbb_chain c)\<rparr>))"
  shows "cbb_wf (snd r) \<and> keeps c (snd r) \<and>
    (if fst r then cbb_live (snd r) \<and> cbb_chain (snd r) = fs \<and>
       cbb_view (snd r) = close_child (cbb_view c)
     else \<not> cbb_live (snd r))"
proof -
  have wf: "buffer_wf b" "chain_wf 0 (fs @ [f]) (b_len b)"
    using c by (simp_all add: cbb_wf_def)
  then have f: "child_wf f" "child_end f \<le> b_len b" "chain_wf 0 fs (c_offset f)"
    by (simp_all add: chain_wf_snoc)
  obtain ok b' where p: "cbb_flush_prefix f (child_end f) b = (ok, b')" by force
  define w where "w = b_written b"
  have lw: "length w = b_len b" by (simp add: w_def length_b_written wf)
  have le: "c_offset f \<le> b_len b" using f by (simp add: child_end_def)
  have spec: "prefix_written f b (ok, b')"
    using cbb_flush_prefix_spec [OF wf(1) f(2,1)] p by simp
  have r: "r = (if ok then (True, c\<lparr>cbb_base := Some b', cbb_chain := fs\<rparr>)
                else (False, c\<lparr>cbb_base := Some b'\<rparr>))"
    using c f p by (simp add: r_def on_base_def child_end_def)
  show ?thesis
  proof (cases ok)
    case True
    have "b_len b' = length (b_written b')"
      using spec by (simp add: prefix_written_def Let_def length_b_written)
    also have "\<dots> \<ge> c_offset f"
      using spec True le lw by (simp add: prefix_written_def Let_def w_def)
    finally have "chain_wf 0 fs (b_len b')" using f chain_wf_mono by blast
    moreover have "view fs (b_written b') = close_child (view (fs @ [f]) w)"
      using view_close [of fs f w] wf spec True
      by (simp add: length_b_written [OF wf(1)] prefix_written_def w_def Let_def)
    ultimately show ?thesis
      using True spec c by (simp add: r cbb_wf_def cbb_live_def cbb_view_def keeps_def
          prefix_written_def Let_def w_def)
  next
    case False
    then show ?thesis
      using spec c by (simp add: r cbb_wf_def cbb_live_def keeps_def prefix_written_def Let_def)
  qed
qed

lemma CBB_flush_spec: "cbb_wf c \<Longrightarrow> flushed d c (CBB_flush d c)"
proof (induction d c rule: CBB_flush.induct)
  case (1 d c)
  show ?case
  proof (cases "cbb_base c")
    case None
    then show ?thesis using "1.prems"
      by (simp add: CBB_flush.simps [of d c] flushed_def cbb_live_def)
  next
    case (Some b)
    consider "length (cbb_chain c) < d" | "d \<le> length (cbb_chain c)" "b_error b"
      | "length (cbb_chain c) = d" "\<not> b_error b" | "d < length (cbb_chain c)" "\<not> b_error b"
      by linarith
    then show ?thesis
    proof cases
      case 1
      then show ?thesis using Some "1.prems" by (simp add: CBB_flush.simps [of d c] flushed_def)
    next
      case 2
      then show ?thesis using Some "1.prems"
        by (simp add: CBB_flush.simps [of d c] flushed_def cbb_live_def)
    next
      case 3
      then show ?thesis using Some "1.prems"
        by (simp add: CBB_flush.simps [of d c] flushed_def cbb_live_def close_to_same kinds_cbb_view)
    next
      case 4
      define f where "f = cbb_chain c ! d"
      define fs where "fs = take d (cbb_chain c)"
      have fs: "take (Suc d) (cbb_chain c) = fs @ [f]" "length fs = d"
        using 4 by (simp_all add: fs_def f_def take_Suc_conv_app_nth)
      have wf: "chain_wf 0 (cbb_chain c) (b_len b)" "buffer_wf b"
        using Some 4 "1.prems" by (simp_all add: cbb_wf_def)
      then have "chain_wf 0 (fs @ [f]) (b_len b)" using chain_wf_take fs by metis
      then have f: "child_wf f" "child_end f \<le> b_len b" by (simp_all add: chain_wf_snoc)
      then have nz: "c_pending_len_len f \<noteq> 0" by (simp add: child_wf_def)
      have start: "size_add (c_offset f) (c_pending_len_len f) = child_end f"
        using f wf by (simp add: size_add_exact child_end_def buffer_wf_def)
      obtain ok c1 where rec: "CBB_flush (Suc d) c = (ok, c1)" by force
      have IH: "flushed (Suc d) c (ok, c1)"
        using "1.IH" [OF Some] 4 nz "1.prems" rec by (simp add: f_def)
      have eq: "CBB_flush d c =
          (if \<not> ok then on_base cbb_buffer_err c1
           else andthen
             (on_base (\<lambda>base. if child_end f < c_offset f \<or> b_len base < child_end f
                then cbb_buffer_err base else cbb_flush_prefix f (child_end f) base) c1)
             (\<lambda>c. (True, c\<lparr>cbb_chain := take d (cbb_chain c)\<rparr>)))"
        using Some 4 nz rec by (simp add: CBB_flush.simps [of d c] Let_def start flip: f_def)
      show ?thesis
      proof (cases ok)
        case False
        with IH eq show ?thesis
          using on_base_err_wf [of c1] by (auto simp: flushed_def intro: keeps_trans)
      next
        case True
        with IH obtain b1 where b1: "cbb_base c1 = Some b1" "\<not> b_error b1" "cbb_wf c1"
          and c1: "cbb_chain c1 = fs @ [f]" "cbb_view c1 = close_to (Suc d) (cbb_view c)"
          by (auto simp: flushed_def cbb_live_def fs)
        have "close_to d (cbb_view c) = close_child (close_to (Suc d) (cbb_view c))"
          using Some 4 by (intro close_to_Suc) (simp add: kinds_cbb_view)
        with flush_last_child [OF b1(3,1,2) c1(1)] fs(2) eq True IH c1 Some 4 show ?thesis
          by (auto simp: flushed_def cbb_live_def fs_def intro: keeps_trans)
      qed
    qed
  qed
qed

section \<open>The contract of an operation\<close>

text \<open>
  \<open>m\<close>, an operation of the \<open>CBB\<close> at depth \<open>d\<close>, implements the abstract operation \<open>f\<close>: it
  keeps the invariant in any case; when it succeeds the handle was live, the state is
  still usable, and the abstract builder did \<open>f\<close>.
\<close>

definition implements :: "nat \<Rightarrow> (builder \<Rightarrow> builder) \<Rightarrow> (CBB \<Rightarrow> bool \<times> CBB) \<Rightarrow> bool" where
  "implements d f m \<longleftrightarrow>
     (\<forall>c. cbb_wf c \<longrightarrow> cbb_wf (snd (m c)) \<and> keeps c (snd (m c)) \<and>
        (fst (m c) \<longrightarrow> cbb_live c \<and> cbb_live (snd (m c)) \<and> d \<le> length (cbb_chain c) \<and>
           cbb_view (snd (m c)) = f (cbb_view c)))"

definition builder_wf :: "builder \<Rightarrow> bool" where
  "builder_wf v \<longleftrightarrow> length (open_levels v) = Suc (length (open_kinds v))"

lemma length_levels [simp]: "length (levels s fs w) = Suc (length fs)"
  by (induction fs arbitrary: s) simp_all

lemma cbb_live_view:
  assumes "cbb_live c"
  shows "builder_wf (cbb_view c)" "length (open_kinds (cbb_view c)) = length (cbb_chain c)"
  using assms by (auto simp: cbb_live_def cbb_view_def view_def builder_wf_def)

lemma builder_wf_ops [simp]:
  "builder_wf v \<Longrightarrow> builder_wf (put_bytes xs v)"
  "builder_wf v \<Longrightarrow> builder_wf (open_child k v)"
  by (auto simp: builder_wf_def put_bytes_def open_child_def app_last_def)

lemma builder_wf_close_child: "builder_wf v \<Longrightarrow> open_kinds v \<noteq> [] \<Longrightarrow> builder_wf (close_child v)"
  by (auto simp: builder_wf_def close_child_def app_last_def Let_def)

lemma builder_wf_close_pow:
  "builder_wf v \<Longrightarrow> n \<le> length (open_kinds v) \<Longrightarrow> builder_wf ((close_child ^^ n) v)"
proof (induction n)
  case (Suc n)
  moreover from Suc.prems have "open_kinds ((close_child ^^ n) v) \<noteq> []"
    using length_close_child_pow [of n v] by (metis Suc_le_lessD length_greater_0_conv zero_less_diff)
  ultimately show ?case by (simp add: builder_wf_close_child)
qed simp

lemma builder_wf_close_to [simp]: "builder_wf v \<Longrightarrow> builder_wf (close_to d v)"
  by (simp add: close_to_def builder_wf_close_pow)

lemma implementsI:
  assumes "\<And>c. cbb_wf c \<Longrightarrow> cbb_wf (snd (m c))" "\<And>c. cbb_wf c \<Longrightarrow> keeps c (snd (m c))"
    and "\<And>c. cbb_wf c \<Longrightarrow> fst (m c) \<Longrightarrow> cbb_live c \<and> cbb_live (snd (m c)) \<and>
      d \<le> length (cbb_chain c) \<and> cbb_view (snd (m c)) = f (cbb_view c)"
  shows "implements d f m"
  using assms by (auto simp: implements_def)

lemma implementsD:
  assumes "implements d f m" "cbb_wf c"
  shows "cbb_wf (snd (m c))" "keeps c (snd (m c))"
    and "fst (m c) \<Longrightarrow> cbb_live c" "fst (m c) \<Longrightarrow> cbb_live (snd (m c))"
    and "fst (m c) \<Longrightarrow> d \<le> length (cbb_chain c)"
    and "fst (m c) \<Longrightarrow> cbb_view (snd (m c)) = f (cbb_view c)"
  using assms by (auto simp: implements_def)

lemma implements_cong:
  assumes "implements d f m" "\<And>v. builder_wf v \<Longrightarrow> d \<le> length (open_kinds v) \<Longrightarrow> f v = g v"
  shows "implements d g m"
  using assms by (auto simp: implements_def cbb_live_view)

lemma implements_andthen:
  assumes "implements d f m" "implements e g n"
  shows "implements d (\<lambda>v. g (f v)) (\<lambda>c. andthen (m c) n)"
proof (rule implementsI)
  fix c assume c: "cbb_wf c"
  note m = implementsD [OF assms(1) c]
  note n = implementsD [OF assms(2) m(1)]
  show "cbb_wf (snd (andthen (m c) n))" "keeps c (snd (andthen (m c) n))"
    using m n by (auto simp: andthen_def intro: keeps_trans)
  assume "fst (andthen (m c) n)"
  then show "cbb_live c \<and> cbb_live (snd (andthen (m c) n)) \<and> d \<le> length (cbb_chain c) \<and>
      cbb_view (snd (andthen (m c) n)) = g (f (cbb_view c))"
    using m n by (auto simp: andthen_def split: if_splits)
qed

lemma CBB_flush_implements: "implements d (close_to d) (CBB_flush d)"
  by (rule implementsI) (use CBB_flush_spec [of _ d] in \<open>auto simp: flushed_def\<close>)

text \<open>An operation that first flushes works on a state whose innermost level is its own.\<close>

lemma implements_after_flush:
  assumes "\<And>c. cbb_wf c \<Longrightarrow> cbb_live c \<Longrightarrow> length (cbb_chain c) = d \<Longrightarrow>
      cbb_wf (snd (g c)) \<and> keeps c (snd (g c)) \<and>
      (fst (g c) \<longrightarrow> cbb_live (snd (g c)) \<and> cbb_view (snd (g c)) = f (cbb_view c))"
  shows "implements d (\<lambda>v. f (close_to d v)) (\<lambda>c. andthen (CBB_flush d c) g)"
proof (rule implementsI)
  fix c assume c: "cbb_wf c"
  have fl: "flushed d c (CBB_flush d c)" using c by (rule CBB_flush_spec)
  show "cbb_wf (snd (andthen (CBB_flush d c) g))"
    using fl assms [of "snd (CBB_flush d c)"] by (auto simp: flushed_def andthen_def)
  show "keeps c (snd (andthen (CBB_flush d c) g))"
    using fl assms [of "snd (CBB_flush d c)"]
    by (auto simp: flushed_def andthen_def min_absorb2 intro: keeps_trans)
  assume "fst (andthen (CBB_flush d c) g)"
  then show "cbb_live c \<and> cbb_live (snd (andthen (CBB_flush d c) g)) \<and> d \<le> length (cbb_chain c) \<and>
      cbb_view (snd (andthen (CBB_flush d c) g)) = f (close_to d (cbb_view c))"
    using fl assms [of "snd (CBB_flush d c)"]
    by (auto simp: flushed_def andthen_def min_absorb2 split: if_splits)
qed

end
