(* ===== verification/Cbb_Ops.thy ===== *)
theory Cbb_Ops
  imports Cbb_Spec
begin

text \<open>
  The operations of \<open>Cbb\<close> against the contract of \<open>Cbb_Spec\<close>: the writers append, the
  length-prefixed children open a level, finishing closes all levels.
\<close>

section \<open>Appending\<close>

definition appends :: "u8 list \<Rightarrow> (cbb_buffer \<Rightarrow> bool \<times> cbb_buffer) \<Rightarrow> bool" where
  "appends xs g \<longleftrightarrow>
     (\<forall>b. buffer_wf b \<longrightarrow> buffer_wf (snd (g b)) \<and> b_can_resize (snd (g b)) = b_can_resize b \<and>
        (\<not> b_can_resize b \<longrightarrow> b_cap (snd (g b)) = b_cap b) \<and>
        (if fst (g b) then b_error (snd (g b)) = b_error b \<and> b_written (snd (g b)) = b_written b @ xs
         else b_error (snd (g b)) \<or> b_len b \<le> b_len (snd (g b))))"

lemma appends_on_base:
  assumes "appends xs g" "cbb_wf c" "cbb_live c"
  shows "cbb_wf (snd (on_base g c))" "keeps c (snd (on_base g c))"
    and "cbb_chain (snd (on_base g c)) = cbb_chain c"
    and "fst (on_base g c) \<Longrightarrow> cbb_live (snd (on_base g c)) \<and>
      cbb_view (snd (on_base g c)) = put_bytes xs (cbb_view c)"
proof -
  obtain b where b: "cbb_base c = Some b" "\<not> b_error b" using assms by (auto simp: cbb_live_def)
  then have wf: "buffer_wf b" "chain_wf 0 (cbb_chain c) (b_len b)"
    using assms(2) by (simp_all add: cbb_wf_def)
  obtain ok b' where g: "g b = (ok, b')" by force
  have "buffer_wf b' \<and> b_can_resize b' = b_can_resize b \<and>
      (\<not> b_can_resize b \<longrightarrow> b_cap b' = b_cap b) \<and>
      (if ok then b_error b' = b_error b \<and> b_written b' = b_written b @ xs
       else b_error b' \<or> b_len b \<le> b_len b')"
    using assms(1) [unfolded appends_def, rule_format, OF wf(1)]
    unfolding g fst_conv snd_conv .
  then have spec: "buffer_wf b'" "b_can_resize b' = b_can_resize b"
    "\<not> b_can_resize b \<longrightarrow> b_cap b' = b_cap b"
    "if ok then b_error b' = b_error b \<and> b_written b' = b_written b @ xs
     else b_error b' \<or> b_len b \<le> b_len b'"
    by blast+
  have len: "b_len b \<le> b_len b'" if "\<not> b_error b'"
    using that spec(4) by (auto simp flip: length_b_written [OF wf(1)] length_b_written [OF spec(1)]
        split: if_splits)
  show "cbb_wf (snd (on_base g c))"
    using b g spec wf len chain_wf_mono by (auto simp: on_base_def cbb_wf_def)
  show "keeps c (snd (on_base g c))" "cbb_chain (snd (on_base g c)) = cbb_chain c"
    using b g spec by (simp_all add: on_base_def keeps_def)
  assume "fst (on_base g c)"
  with b g spec wf show "cbb_live (snd (on_base g c)) \<and>
      cbb_view (snd (on_base g c)) = put_bytes xs (cbb_view c)"
    by (simp add: on_base_def cbb_live_def cbb_view_def view_append length_b_written)
qed

lemma appends_implements:
  assumes "appends xs g"
  shows "implements d (\<lambda>v. put_bytes xs (close_to d v)) (\<lambda>c. andthen (CBB_flush d c) (on_base g))"
  by (rule implements_after_flush) (use appends_on_base [OF assms] in blast)

lemma appends_add_u:
  "0 < k \<Longrightarrow> k < 2 ^ 64 \<Longrightarrow> appends (be_bytes k (unat v)) (\<lambda>b. cbb_buffer_add_u b v k)"
  unfolding appends_def
proof (intro allI impI)
  fix b assume k: "0 < k" "k < 2 ^ 64" and wf: "buffer_wf b"
  obtain ok b' where a: "cbb_buffer_add_u b v k = (ok, b')" by force
  from cbb_buffer_add_u_spec [OF wf k(2) a] k a
  show "buffer_wf (snd (cbb_buffer_add_u b v k)) \<and>
      b_can_resize (snd (cbb_buffer_add_u b v k)) = b_can_resize b \<and>
      (\<not> b_can_resize b \<longrightarrow> b_cap (snd (cbb_buffer_add_u b v k)) = b_cap b) \<and>
      (if fst (cbb_buffer_add_u b v k)
       then b_error (snd (cbb_buffer_add_u b v k)) = b_error b \<and>
         b_written (snd (cbb_buffer_add_u b v k)) = b_written b @ be_bytes k (unat v)
       else b_error (snd (cbb_buffer_add_u b v k)) \<or>
         b_len b \<le> b_len (snd (cbb_buffer_add_u b v k)))"
    by (auto split: if_splits)
qed

text \<open>Reserve room for \<open>xs\<close>, then fill it: what \<open>CBB_add_bytes\<close> does, and a child's prefix.\<close>

definition add_filled :: "u8 list \<Rightarrow> cbb_buffer \<Rightarrow> bool \<times> cbb_buffer" where
  "add_filled xs b =
     (case cbb_buffer_add b (length xs) of (ok, b') \<Rightarrow>
        if ok then (True, b'\<lparr>b_buf := blit (b_buf b') (b_len b) xs\<rparr>) else (False, b'))"

lemma appends_add_filled:
  assumes "length xs < 2 ^ 64"
  shows "appends xs (add_filled xs)"
  unfolding appends_def
proof (intro allI impI)
  fix b assume wf: "buffer_wf b"
  obtain ok b' where a: "cbb_buffer_add b (length xs) = (ok, b')" by force
  note spec = cbb_buffer_add_spec [OF wf assms a]
  have "take (b_len b + length xs) (blit (b_buf b') (b_len b) xs) = b_written b @ xs" if ok
    using that spec take_blit_end [of "b_len b" xs "b_buf b'"] by (simp add: buffer_wf_def)
  with spec a show "buffer_wf (snd (add_filled xs b)) \<and>
        b_can_resize (snd (add_filled xs b)) = b_can_resize b \<and>
        (\<not> b_can_resize b \<longrightarrow> b_cap (snd (add_filled xs b)) = b_cap b) \<and>
        (if fst (add_filled xs b)
         then b_error (snd (add_filled xs b)) = b_error b \<and>
           b_written (snd (add_filled xs b)) = b_written b @ xs
         else b_error (snd (add_filled xs b)) \<or> b_len b \<le> b_len (snd (add_filled xs b)))"
    by (auto simp: add_filled_def buffer_wf_def b_written_def [of "b'\<lparr>b_buf := _\<rparr>"])
qed

lemma on_base_andthen:
  "andthen (on_base f c) (on_base g) = on_base (\<lambda>b. andthen (f b) g) c"
  by (auto simp: on_base_def andthen_def split: option.splits prod.splits)

lemma on_base_add_filled:
  "andthen (on_base (\<lambda>b. cbb_buffer_add b (length xs)) c)
     (on_base (\<lambda>b. (True, b\<lparr>b_buf := blit (b_buf b) (cbb_len c) xs\<rparr>))) = on_base (add_filled xs) c"
  by (auto simp: on_base_def andthen_def add_filled_def cbb_len_def split: option.splits prod.splits)

section \<open>The writers\<close>

lemma CBB_add_bytes_implements:
  "length xs < 2 ^ 64 \<Longrightarrow> implements d (\<lambda>v. put_bytes xs (close_to d v)) (CBB_add_bytes d xs)"
  unfolding CBB_add_bytes_def Let_def on_base_add_filled
  by (intro appends_implements appends_add_filled)

lemma CBB_add_u8_implements:
  "implements d (\<lambda>v. put_bytes [x] (close_to d v)) (CBB_add_u8 d x)"
proof -
  have "be_bytes 1 (unat (ucast x :: u64)) = [x]" by (simp add: unat_ucast_up)
  then show ?thesis
    unfolding CBB_add_u8_def using appends_implements [OF appends_add_u [of 1 "ucast x"]] by simp
qed

lemma CBB_add_u16_implements:
  "implements d (\<lambda>v. put_bytes (be_bytes 2 (unat x)) (close_to d v)) (CBB_add_u16 d x)"
  unfolding CBB_add_u16_def
  using appends_implements [OF appends_add_u [of 2 "ucast x"]] by (simp add: unat_ucast_up)

lemma CBB_add_u24_implements:
  "implements d (\<lambda>v. put_bytes (be_bytes 3 (unat x)) (close_to d v)) (CBB_add_u24 d x)"
  unfolding CBB_add_u24_def
  using appends_implements [OF appends_add_u [of 3 "ucast x"]] by (simp add: unat_ucast_up)

lemma CBB_add_u32_implements:
  "implements d (\<lambda>v. put_bytes (be_bytes 4 (unat x)) (close_to d v)) (CBB_add_u32 d x)"
  unfolding CBB_add_u32_def
  using appends_implements [OF appends_add_u [of 4 "ucast x"]] by (simp add: unat_ucast_up)

lemma CBB_add_u64_implements:
  "implements d (\<lambda>v. put_bytes (be_bytes 8 (unat x)) (close_to d v)) (CBB_add_u64 d x)"
  unfolding CBB_add_u64_def using appends_implements [OF appends_add_u [of 8 x]] by simp

lemma bytes_of_word [simp]:
  "be_bytes 2 (unat x) = u16_enc x" "be_bytes 4 (unat y) = u32_enc y" "be_bytes 8 (unat z) = u64_enc z"
  by (simp_all add: u16_enc_def u32_enc_def u64_enc_def)

lemma CBB_add_le_implements:
  "implements d (\<lambda>v. put_bytes (rev (u16_enc x)) (close_to d v)) (CBB_add_u16le d x)"
  "implements d (\<lambda>v. put_bytes (rev (u32_enc y)) (close_to d v)) (CBB_add_u32le d y)"
  "implements d (\<lambda>v. put_bytes (rev (u64_enc z)) (close_to d v)) (CBB_add_u64le d z)"
  using CBB_add_u16_implements [of d "CRYPTO_bswap2 x"] CBB_add_u32_implements [of d "CRYPTO_bswap4 y"]
    CBB_add_u64_implements [of d "CRYPTO_bswap8 z"]
  by (simp_all add: CBB_add_u16le_def [abs_def] CBB_add_u32le_def [abs_def] CBB_add_u64le_def [abs_def]
      bswap2_bytes bswap4_bytes bswap8_bytes)

section \<open>Opening a child\<close>

lemma open_child_step:
  assumes c: "cbb_wf c" "cbb_live c" and g: "appends xs g" "on_base g c = (True, c1)"
    and f: "child_wf f" "c_offset f = cbb_len c" "c_pending_len_len f = length xs"
  defines "c2 \<equiv> c1\<lparr>cbb_chain := cbb_chain c1 @ [f]\<rparr>"
  shows "cbb_wf c2" "keeps c c2" "cbb_live c2"
    and "cbb_view c2 = open_child (child_kind f) (cbb_view c)"
proof -
  note spec = appends_on_base [OF g(1) c, unfolded g(2) snd_conv fst_conv]
  obtain b b1 where b: "cbb_base c = Some b" "cbb_base c1 = Some b1" "\<not> b_error b" "\<not> b_error b1"
    using c spec by (auto simp: cbb_live_def)
  have chain: "cbb_chain c1 = cbb_chain c" using spec(3) .
  have wf: "buffer_wf b" "chain_wf 0 (cbb_chain c) (b_len b)" "buffer_wf b1"
    using c spec(1) b by (simp_all add: cbb_wf_def)
  have "g b = (True, b1)" using g(2) b by (auto simp: on_base_def split: prod.splits)
  then have w: "b_written b1 = b_written b @ xs"
    using g(1) wf(1) unfolding appends_def by (metis fst_conv snd_conv)
  then have len: "b_len b1 = b_len b + length xs"
    using length_b_written [OF wf(1)] length_b_written [OF wf(3)] by simp
  have off: "c_offset f = b_len b" "child_end f = b_len b1"
    using f b len by (simp_all add: cbb_len_def child_end_def)
  show "cbb_wf c2" "cbb_live c2"
    using b chain wf f off by (simp_all add: c2_def cbb_wf_def chain_wf_snoc cbb_live_def)
  show "keeps c c2" using spec by (simp add: c2_def)
  have "levels 0 (cbb_chain c @ [f]) (b_written b1) = levels 0 (cbb_chain c) (b_written b) @ [[]]"
    using wf off w len by (simp add: levels_snoc length_b_written)
  then show "cbb_view c2 = open_child (child_kind f) (cbb_view c)"
    using b chain by (simp add: c2_def cbb_view_def view_def open_child_def)
qed

lemma close_to_put_close [simp]:
  "close_to d (put_bytes xs (close_to d v)) = put_bytes xs (close_to d v)"
  by (rule close_to_same) simp

lemma CBB_flush_same:
  "cbb_live c \<Longrightarrow> length (cbb_chain c) = d \<Longrightarrow> CBB_flush d c = (True, c)"
  by (auto simp: CBB_flush.simps [of d c] cbb_live_def)

text \<open>Open a child of the current level, the room for its prefix being filled by \<open>g\<close>.\<close>

lemma implements_open:
  assumes m: "implements d f m"
    and kinds: "\<And>v. d \<le> length (open_kinds v) \<Longrightarrow> length (open_kinds (f v)) = d"
    and g: "\<And>c. cbb_live c \<Longrightarrow> length (cbb_chain c) = d \<Longrightarrow> g' c = on_base g c" "appends xs g"
    and f: "\<And>n. child_wf (mk n) \<and> c_offset (mk n) = n \<and> c_pending_len_len (mk n) = length xs \<and>
      child_kind (mk n) = k"
  shows "implements d (\<lambda>v. open_child k (f v))
    (\<lambda>c. andthen (m c) (\<lambda>c. andthen (g' c) (\<lambda>c1.
       (True, c1\<lparr>cbb_chain := cbb_chain c1 @ [mk (cbb_len c)]\<rparr>))))"
proof (rule implementsI)
  fix c assume c: "cbb_wf c"
  define r where "r = andthen (m c) (\<lambda>c. andthen (g' c) (\<lambda>c1.
    (True, c1\<lparr>cbb_chain := cbb_chain c1 @ [mk (cbb_len c)]\<rparr>)))"
  note spec = implementsD [OF m c]
  have "cbb_wf (snd r) \<and> keeps c (snd r) \<and> (fst r \<longrightarrow> cbb_live c \<and> cbb_live (snd r) \<and>
      d \<le> length (cbb_chain c) \<and> cbb_view (snd r) = open_child k (f (cbb_view c)))"
  proof (cases "m c")
    case (Pair ok c1)
    show ?thesis
    proof (cases ok)
      case True
      with Pair spec have c1: "cbb_wf c1" "cbb_live c1" "keeps c c1" "cbb_live c"
        "d \<le> length (cbb_chain c)" "cbb_view c1 = f (cbb_view c)" by auto
      then have "length (cbb_chain c1) = d"
        using kinds [of "cbb_view c"] cbb_live_view(2) by metis
      then have g1: "g' c1 = on_base g c1" using g(1) c1 by blast
      obtain ok2 c2 where r2: "on_base g c1 = (ok2, c2)" by force
      note spec2 = appends_on_base [OF g(2) c1(1,2), unfolded r2 fst_conv snd_conv]
      show ?thesis
      proof (cases ok2)
        case True
        with open_child_step [OF c1(1,2) g(2), of c2 "mk (cbb_len c1)"] f r2
        show ?thesis using c1 Pair \<open>ok\<close> g1 by (auto simp: r_def intro: keeps_trans)
      qed (use spec2 r2 Pair \<open>ok\<close> g1 c1 in \<open>auto simp: r_def intro: keeps_trans\<close>)
    qed (use spec Pair in \<open>simp add: r_def\<close>)
  qed
  then show "cbb_wf (snd r)" "keeps c (snd r)" "fst r \<Longrightarrow> cbb_live c \<and> cbb_live (snd r) \<and>
      d \<le> length (cbb_chain c) \<and> cbb_view (snd r) = open_child k (f (cbb_view c))"
    by blast+
qed

lemma cbb_add_length_prefixed_implements:
  assumes "0 < k" "k < 256"
  shows "implements d (\<lambda>v. open_child (Fixed k) (close_to d v)) (cbb_add_length_prefixed d k)"
proof -
  let ?mk = "\<lambda>n. \<lparr>c_offset = n, c_pending_len_len = k, c_pending_is_asn1 = False\<rparr>"
  have "cbb_add_length_prefixed d k = (\<lambda>c. andthen (CBB_flush d c) (\<lambda>c.
      andthen (on_base (add_filled (replicate k 0)) c) (\<lambda>c1.
        (True, c1\<lparr>cbb_chain := cbb_chain c1 @ [?mk (cbb_len c)]\<rparr>))))"
    using on_base_add_filled [of "replicate k 0"]
    by (simp add: cbb_add_length_prefixed_def [abs_def] Let_def andthen_assoc [symmetric])
  moreover have "appends (replicate k 0) (add_filled (replicate k 0))"
    using assms by (intro appends_add_filled) simp
  ultimately show ?thesis
    using implements_open [OF CBB_flush_implements, of d
        "on_base (add_filled (replicate k 0))" "add_filled (replicate k 0)" "replicate k 0" ?mk "Fixed k"]
      assms by (simp add: child_wf_def child_kind_def)
qed

text \<open>What a successful operation tells about lengths that had to fit.\<close>

lemma implements_require:
  assumes "implements d (\<lambda>v. require P (f v)) m"
  shows "implements d f m"
proof (rule implementsI)
  fix c assume c: "cbb_wf c"
  note spec = implementsD [OF assms c]
  show "cbb_wf (snd (m c))" "keeps c (snd (m c))" using spec by blast+
  assume ok: "fst (m c)"
  have "all_fit (cbb_view (snd (m c)))"
    by (simp add: cbb_view_def view_def split: option.splits)
  with spec(6) [OF ok] have P by simp
  with spec ok show "cbb_live c \<and> cbb_live (snd (m c)) \<and> d \<le> length (cbb_chain c) \<and>
      cbb_view (snd (m c)) = f (cbb_view c)" by simp
qed

section \<open>Creation and finishing\<close>

lemma CBB_init_spec:
  assumes "CBB_init mem fresh cap = (True, c)" "cap < 2 ^ 64"
  shows "cbb_wf c" "cbb_live c" "cbb_view c = \<lparr>open_levels = [[]], open_kinds = [], all_fit = True\<rparr>" "cbb_chain c = []"
  using assms
  by (auto simp: CBB_init_def cbb_init_def cbb_wf_def cbb_live_def cbb_view_def view_def
      buffer_wf_def b_written_def split: prod.splits if_splits)

lemma CBB_init_fixed_spec:
  assumes "CBB_init_fixed mem fresh buf = (True, c)" "length buf < 2 ^ 64"
  shows "cbb_wf c" "cbb_live c" "cbb_view c = \<lparr>open_levels = [[]], open_kinds = [], all_fit = True\<rparr>" "cbb_chain c = []"
  using assms
  by (auto simp: CBB_init_fixed_def cbb_init_def cbb_wf_def cbb_live_def cbb_view_def view_def
      buffer_wf_def b_written_def split: prod.splits if_splits)

lemma CBB_finish_view:
  assumes "cbb_wf c" "CBB_finish d outs c = (Some out, c')"
  shows "d = 0" "close_to 0 (cbb_view c) = \<lparr>open_levels = [out], open_kinds = [], all_fit = True\<rparr>" "cbb_base c' = None"
proof -
  have "flushed 0 c (CBB_flush 0 c)" using assms(1) by (rule CBB_flush_spec)
  moreover from assms(2) obtain c1 b where "d = 0" "CBB_flush 0 c = (True, c1)"
    "cbb_base c1 = Some b" "out = b_written b" "c' = CBB_cleanup c1"
    by (auto simp: CBB_finish_def b_written_def split: if_splits prod.splits option.splits)
  ultimately show "d = 0" "close_to 0 (cbb_view c) = \<lparr>open_levels = [out], open_kinds = [], all_fit = True\<rparr>" "cbb_base c' = None"
    by (auto simp: flushed_def cbb_view_def view_def CBB_cleanup_def)
qed

end
