(* ===== verification/Asn1_Ints.thy ===== *)
theory Asn1_Ints
  imports Cbs_Asn1
begin

text \<open>
  What the typed readers of \<open>crypto/bytestring/cbs.c\<close> accept: reference encodings of
  ASN.1 INTEGER (unsigned and two's complement), BOOLEAN and BIT STRING contents, and
  the proof that each reader is a codec with its reference encoding.
\<close>

section \<open>Unsigned integers\<close>

text \<open>The big-endian bytes of a number without leading zeros.\<close>

fun be_min :: "nat \<Rightarrow> u8 list" where
  "be_min n = (if n = 0 then [] else be_min (n div 256) @ [of_nat n])"

declare be_min.simps [simp del]

lemma be_min_0 [simp]: "be_min 0 = []"
  by (simp add: be_min.simps)

lemma be_min_eq_Nil [simp]: "be_min n = [] \<longleftrightarrow> n = 0"
  by (cases "n = 0") (simp_all add: be_min.simps [of n])

lemma be_nat_be_min [simp]: "be_nat (be_min n) = n"
proof (induction n rule: be_min.induct)
  case (1 n)
  then show ?case by (cases "n = 0") (simp_all add: be_min.simps [of n] unat_of_nat_u8)
qed

lemma hd_be_min: "n \<noteq> 0 \<Longrightarrow> hd (be_min n) \<noteq> 0"
proof (induction n rule: be_min.induct)
  case (1 n)
  show ?case
  proof (cases "n div 256 = 0")
    case True
    then have "unat (of_nat n :: u8) = n" by (simp add: unat_of_nat_u8 div_eq_0_iff)
    then show ?thesis using 1 True by (auto simp: be_min.simps [of n])
  next
    case False
    with 1 show ?thesis by (simp add: be_min.simps [of n])
  qed
qed

lemma be_min_be_nat: "bs = [] \<or> hd bs \<noteq> 0 \<Longrightarrow> be_min (be_nat bs) = bs"
proof (induction bs rule: rev_induct)
  case (snoc b bs)
  define n where "n = be_nat bs * 256 + unat b"
  have n: "n div 256 = be_nat bs" "(of_nat n :: u8) = b"
    using unat_u8_less [of b] by (simp_all add: n_def word_unat_eq_iff unat_of_nat_u8
        del: of_nat_add of_nat_mult)
  have IH: "be_min (be_nat bs) = bs" using snoc by (cases bs) auto
  have "n \<noteq> 0"
  proof (cases "bs = []")
    case True
    with snoc.prems show ?thesis by (simp add: n_def unat_eq_0)
  next
    case False
    with IH have "be_nat bs \<noteq> 0" by (metis be_min_0)
    then show ?thesis by (simp add: n_def)
  qed
  then have "be_min n = bs @ [b]" by (simp add: be_min.simps [of n] n IH)
  then show ?case by (simp add: n_def)
qed simp

lemma length_be_min: "n < 256 ^ k \<Longrightarrow> length (be_min n) \<le> k"
proof (induction k arbitrary: n)
  case (Suc k)
  then have "length (be_min (n div 256)) \<le> k"
    by (simp add: div_less_iff_less_mult mult.commute)
  then show ?case by (simp add: be_min.simps [of n])
qed simp

definition asn1_uint_contents :: "nat \<Rightarrow> u8 list" where
  "asn1_uint_contents n =
     (let bs = be_min n
      in if bs = [] then [0] else if hd bs AND 0x80 \<noteq> 0 then 0 # bs else bs)"

text \<open>The form the readers insist on: at least one octet, and no redundant leading octet.\<close>

definition minimal_int :: "u8 list \<Rightarrow> bool" where
  "minimal_int d \<longleftrightarrow> d \<noteq> [] \<and>
     \<not> (length d > 1 \<and> d ! 0 = 0 \<and> d ! 1 AND 0x80 = 0) \<and>
     \<not> (length d > 1 \<and> d ! 0 = 0xff \<and> d ! 1 AND 0x80 \<noteq> 0)"

definition int_negative :: "u8 list \<Rightarrow> bool" where
  "int_negative d \<longleftrightarrow> d ! 0 AND 0x80 \<noteq> 0"

lemma be_nat_0_Cons [simp]: "be_nat (0 # bs) = be_nat bs"
  by (simp add: be_nat_Cons)

lemma asn1_uint_contents_value [simp]: "be_nat (asn1_uint_contents n) = n"
  by (simp add: asn1_uint_contents_def Let_def)

lemma ff_and_0x80: "(0xff :: u8) AND 0x80 \<noteq> 0" "(0 :: u8) AND 0x80 = 0"
  by simp_all

lemma asn1_uint_contents_minimal:
  "minimal_int (asn1_uint_contents n) \<and> \<not> int_negative (asn1_uint_contents n)"
proof (cases "n = 0")
  case False
  obtain b bs where bs: "be_min n = b # bs" using False by (metis be_min_eq_Nil list.exhaust)
  with False hd_be_min [of n] have "b \<noteq> 0" by simp
  with bs show ?thesis
    by (auto simp: asn1_uint_contents_def minimal_int_def int_negative_def Let_def)
qed (simp add: asn1_uint_contents_def minimal_int_def int_negative_def)

lemma asn1_uint_contents_unique:
  assumes "minimal_int d" "\<not> int_negative d"
  shows "asn1_uint_contents (be_nat d) = d"
proof (cases d)
  case (Cons b bs)
  show ?thesis
  proof (cases "b = 0")
    case True
    show ?thesis
    proof (cases bs)
      case Nil
      with Cons True show ?thesis by (simp add: asn1_uint_contents_def)
    next
      case (Cons b' bs')
      with assms True \<open>d = b # bs\<close> have b': "b' AND 0x80 \<noteq> 0"
        by (auto simp: minimal_int_def)
      then have "b' \<noteq> 0" by auto
      then have "be_min (be_nat bs) = bs" using Cons by (simp add: be_min_be_nat)
      with Cons b' True \<open>d = b # bs\<close> show ?thesis by (simp add: asn1_uint_contents_def)
    qed
  next
    case False
    with Cons have "be_min (be_nat d) = d" by (simp add: be_min_be_nat)
    with assms Cons show ?thesis by (simp add: asn1_uint_contents_def int_negative_def)
  qed
qed (use assms in \<open>simp add: minimal_int_def\<close>)

lemma asn1_uint64_loop_eq:
  "asn1_uint64_loop out d =
     (let n = unat out * 256 ^ length d + be_nat d
      in if n < 2 ^ 64 then Some (of_nat n) else None)"
proof (induction d arbitrary: out)
  case Nil
  then show ?case using unsigned_less [of out, where ?'a = nat] by simp
next
  case (Cons b d)
  show ?case
  proof (cases "drop_bit 56 out = 0")
    case True
    then have o56: "unat out < 2 ^ 56" by (simp add: drop_bit_zero_iff)
    then have "unat out * 256 + unat b < 2 ^ 64"
      using unat_u8_less [of b] by (simp del: unat_u8_less unat_u8_le)
    then have "unat (push_bit 8 out OR ucast b) = unat out * 256 + unat b"
      by (simp add: unat_or_shift unat_ucast_up)
    moreover have "(unat out * 256 + unat b) * 256 ^ length d + be_nat d =
        unat out * 256 ^ length (b # d) + be_nat (b # d)"
      by (simp add: be_nat_Cons algebra_simps)
    ultimately show ?thesis using True by (simp only: asn1_uint64_loop.simps Cons) simp
  next
    case False
    then have "2 ^ 56 \<le> unat out" by (simp add: drop_bit_zero_iff not_less)
    then have "2 ^ 56 * 256 \<le> unat out * 256 ^ length (b # d)"
      by (intro mult_mono) simp_all
    with False show ?thesis by simp
  qed
qed

lemma CBS_get_asn1_uint64_iff:
  "CBS_get_asn1_uint64 s = Some (v, r) \<longleftrightarrow>
   s = der_element CBS_ASN1_INTEGER (asn1_uint_contents (unat v)) @ r" (is "?l \<longleftrightarrow> ?r")
proof
  assume ?l
  then obtain d where s: "s = der_element CBS_ASN1_INTEGER d @ r"
    and ok: "d \<noteq> []" "d ! 0 AND 0x80 = 0"
      "\<not> (d ! 0 = 0 \<and> length d > 1 \<and> d ! 1 AND 0x80 = 0)"
    and v: "asn1_uint64_loop 0 d = Some v"
    by (auto simp: CBS_get_asn1_uint64_def bind_eq_Some_conv CBS_get_asn1_iff CBS_data_def
        CBS_len_def Let_def split: if_splits)
  have "unat v = be_nat d"
    using v by (auto simp: asn1_uint64_loop_eq Let_def unat_of_nat split: if_splits)
  moreover have "minimal_int d" "\<not> int_negative d"
    using ok ff_and_0x80 by (auto simp: minimal_int_def int_negative_def)
  ultimately show ?r using asn1_uint_contents_unique [of d] s by simp
next
  define d where "d = asn1_uint_contents (unat v)"
  assume ?r
  then have s: "s = der_element CBS_ASN1_INTEGER d @ r" by (simp add: d_def)
  have "length (be_min (unat v)) \<le> 8"
    using length_be_min [of "unat v" 8] unsigned_less [of v, where ?'a = nat] by simp
  then have "length d \<le> 9" by (simp add: d_def asn1_uint_contents_def Let_def)
  then have "CBS_get_asn1 s CBS_ASN1_INTEGER = Some (d, r)" by (simp add: CBS_get_asn1_iff s)
  moreover have "asn1_uint64_loop 0 d = Some v"
    using unsigned_less [of v, where ?'a = nat] by (simp add: asn1_uint64_loop_eq d_def Let_def)
  moreover have "minimal_int d" "\<not> int_negative d"
    using asn1_uint_contents_minimal [of "unat v"] by (simp_all add: d_def)
  ultimately show ?l
    by (auto simp: CBS_get_asn1_uint64_def CBS_data_def CBS_len_def Let_def minimal_int_def
        int_negative_def)
qed

interpretation asn1_uint64: codec CBS_get_asn1_uint64
  "\<lambda>v. der_element CBS_ASN1_INTEGER (asn1_uint_contents (unat v))" "\<lambda>_. True"
  by unfold_locales (simp_all add: CBS_get_asn1_uint64_iff)

section \<open>Two's complement integers\<close>

text \<open>Drop leading octets that only repeat the sign.\<close>

fun int_strip :: "u8 list \<Rightarrow> u8 list" where
  "int_strip (b0 # b1 # bs) =
     (if (b0 = 0 \<and> b1 AND 0x80 = 0) \<or> (b0 = 0xff \<and> b1 AND 0x80 \<noteq> 0)
      then int_strip (b1 # bs) else b0 # b1 # bs)"
| "int_strip bs = bs"

definition sign_octet :: "u8 list \<Rightarrow> u8" where
  "sign_octet d = (if int_negative d then 0xff else 0)"

definition asn1_int_contents :: "u64 \<Rightarrow> u8 list" where
  "asn1_int_contents v = int_strip (u64_enc v)"

lemma int_strip_minimal: "d \<noteq> [] \<Longrightarrow> minimal_int (int_strip d)"
  by (induction d rule: int_strip.induct) (auto simp: minimal_int_def)

lemma int_strip_extends:
  "d \<noteq> [] \<Longrightarrow>
   length (int_strip d) \<le> length d \<and> int_negative (int_strip d) = int_negative d \<and>
   d = replicate (length d - length (int_strip d)) (sign_octet d) @ int_strip d"
proof (induction d rule: int_strip.induct)
  case (1 b0 b1 bs)
  show ?case
  proof (cases "(b0 = 0 \<and> b1 AND 0x80 = 0) \<or> (b0 = 0xff \<and> b1 AND 0x80 \<noteq> 0)")
    case True
    then have sg: "int_negative (b0 # b1 # bs) = int_negative (b1 # bs)"
      "b0 = sign_octet (b1 # bs)" "sign_octet (b0 # b1 # bs) = sign_octet (b1 # bs)"
      by (auto simp: int_negative_def sign_octet_def)
    from 1 True have IH: "length (int_strip (b1 # bs)) \<le> length (b1 # bs)"
      "int_negative (int_strip (b1 # bs)) = int_negative (b1 # bs)"
      "b1 # bs = replicate (length (b1 # bs) - length (int_strip (b1 # bs))) (sign_octet (b1 # bs))
        @ int_strip (b1 # bs)"
      by auto
    have "length (b0 # b1 # bs) - length (int_strip (b1 # bs)) =
        Suc (length (b1 # bs) - length (int_strip (b1 # bs)))"
      using IH(1) by simp
    with IH sg True show ?thesis by (simp del: length_Cons)
  next
    case False
    then have "int_strip (b0 # b1 # bs) = b0 # b1 # bs" by (simp only: int_strip.simps if_False)
    then show ?thesis by simp
  qed
qed (auto simp: sign_octet_def)

lemma int_strip_of_minimal:
  assumes "minimal_int d"
  shows "int_strip (replicate k (sign_octet d) @ d) = d"
proof (induction k)
  case 0
  then show ?case using assms by (cases d rule: int_strip.cases) (auto simp: minimal_int_def)
next
  case (Suc k)
  obtain b bs where b: "replicate k (sign_octet d) @ d = b # bs"
    using assms by (metis append_is_Nil_conv minimal_int_def neq_Nil_conv)
  then have "b = (if k = 0 then d ! 0 else sign_octet d)"
    using assms by (cases k; cases d) (auto simp: minimal_int_def)
  then have "b AND 0x80 \<noteq> 0 \<longleftrightarrow> int_negative d"
    by (auto simp: sign_octet_def int_negative_def split: if_splits)
  then have "int_strip (sign_octet d # b # bs) = int_strip (b # bs)"
    by (auto simp: sign_octet_def)
  with b Suc show ?case by simp
qed

lemma int64_fill_eq:
  "n \<le> length d \<Longrightarrow> n \<le> length u \<Longrightarrow>
   int64_fill d n u = rev (drop (length d - n) d) @ drop n u"
proof (induction n)
  case (Suc n)
  have "drop (length d - Suc n) d = d ! (length d - Suc n) # drop (length d - n) d"
    using Suc.prems by (subst Cons_nth_drop_Suc [symmetric]) (simp_all add: Suc_diff_Suc)
  moreover have "drop n u = u ! n # drop (Suc n) u"
    using Suc.prems by (simp add: Cons_nth_drop_Suc)
  ultimately show ?case using Suc by (simp add: list_update_append)
qed simp

lemma length_u64_enc [simp]: "length (u64_enc v) = 8"
  by (simp add: u64_enc_def)

lemma be_nat_u64_enc [simp]: "be_nat (u64_enc v) = unat v"
  using unsigned_less [of v, where ?'a = nat] by (simp add: u64_enc_def be_nat_be_bytes)

lemma int64_of_bytes_rev: "length x = 8 \<Longrightarrow> u64_enc (int64_of_bytes (rev x)) = x"
  using be_nat_less [of x]
  by (intro be_nat_inj) (simp_all add: int64_of_bytes_def unat_of_nat)

lemma int64_of_bytes_enc: "int64_of_bytes (rev (u64_enc v)) = v"
  by (simp add: int64_of_bytes_def)

lemma sign_octet_cases: "sign_octet d = (if d ! 0 AND 0x80 \<noteq> 0 then 0xff else 0)"
  by (simp add: sign_octet_def int_negative_def)

lemma CBS_get_asn1_int64_eq:
  "CBS_get_asn1_int64 s = do {
     (d, r) \<leftarrow> CBS_get_asn1 s CBS_ASN1_INTEGER;
     if minimal_int d \<and> length d \<le> 8
     then Some (int64_of_bytes (rev (replicate (8 - length d) (sign_octet d) @ d)), r) else None
   }"
  by (auto simp: CBS_get_asn1_int64_def CBS_data_def CBS_len_def Let_def minimal_int_def
      int64_fill_eq sign_octet_cases intro!: Option.bind_cong)

lemma CBS_get_asn1_int64_iff:
  "CBS_get_asn1_int64 s = Some (v, r) \<longleftrightarrow>
   s = der_element CBS_ASN1_INTEGER (asn1_int_contents v) @ r" (is "?l \<longleftrightarrow> ?r")
proof
  assume ?l
  then obtain d where s: "s = der_element CBS_ASN1_INTEGER d @ r"
    and d: "minimal_int d" "length d \<le> 8"
    and v: "v = int64_of_bytes (rev (replicate (8 - length d) (sign_octet d) @ d))"
    by (auto simp: CBS_get_asn1_int64_eq bind_eq_Some_conv CBS_get_asn1_iff split: if_splits)
  then have "u64_enc v = replicate (8 - length d) (sign_octet d) @ d"
    by (simp only: v) (rule int64_of_bytes_rev, simp)
  with d s show ?r by (simp add: asn1_int_contents_def int_strip_of_minimal)
next
  define d where "d = asn1_int_contents v"
  assume ?r
  have ne: "u64_enc v \<noteq> []" by (metis length_u64_enc list.size(3) zero_neq_numeral)
  have d: "minimal_int d" "length d \<le> 8" "sign_octet (u64_enc v) = sign_octet d"
    using int_strip_extends [OF ne] int_strip_minimal [OF ne]
    by (simp_all add: d_def asn1_int_contents_def sign_octet_def)
  have "replicate (8 - length d) (sign_octet d) @ d = u64_enc v"
    using int_strip_extends [OF ne] d(3) by (simp add: d_def asn1_int_contents_def)
  then have "int64_of_bytes (rev (replicate (8 - length d) (sign_octet d) @ d)) = v"
    by (simp only: int64_of_bytes_enc)
  moreover have "CBS_get_asn1 s CBS_ASN1_INTEGER = Some (d, r)"
    using \<open>?r\<close> d by (simp add: CBS_get_asn1_iff d_def)
  ultimately show ?l using d by (simp add: CBS_get_asn1_int64_eq)
qed

interpretation asn1_int64: codec CBS_get_asn1_int64
  "\<lambda>v. der_element CBS_ASN1_INTEGER (asn1_int_contents v)" "\<lambda>_. True"
  by unfold_locales (simp_all add: CBS_get_asn1_int64_iff)

text \<open>On non-negative values the two encodings agree.\<close>

lemma asn1_int_contents_nonneg:
  assumes "unat v < 2 ^ 63"
  shows "asn1_int_contents v = asn1_uint_contents (unat v)"
proof -
  define d where "d = asn1_uint_contents (unat v)"
  have d: "minimal_int d" "\<not> int_negative d"
    using asn1_uint_contents_minimal by (simp_all add: d_def)
  have "length d \<le> 8"
  proof (cases "length (be_min (unat v)) = 8")
    case True
    then obtain b bs where bs: "be_min (unat v) = b # bs" "length bs = 7"
      by (cases "be_min (unat v)") auto
    then have "unat b * 256 ^ 7 + be_nat bs = unat v"
      by (metis be_nat_Cons be_nat_be_min)
    with assms have "unat b < 128" by simp
    then have "b AND 0x80 = 0" by (simp add: and_0x80)
    with bs show ?thesis by (simp add: d_def asn1_uint_contents_def)
  next
    case False
    moreover have "length (be_min (unat v)) \<le> 8"
      using length_be_min [of "unat v" 8] unsigned_less [of v, where ?'a = nat] by simp
    ultimately show ?thesis by (simp add: d_def asn1_uint_contents_def Let_def)
  qed
  have zeros: "be_nat (replicate k 0 @ d) = be_nat d" for k by (induction k) simp_all
  with \<open>length d \<le> 8\<close> have "u64_enc v = replicate (8 - length d) 0 @ d"
    by (intro be_nat_inj) (simp_all add: d_def)
  with d have "u64_enc v = replicate (8 - length d) (sign_octet d) @ d"
    by (simp add: sign_octet_def)
  then show ?thesis using d by (simp add: asn1_int_contents_def int_strip_of_minimal flip: d_def)
qed

section \<open>Booleans and bit strings\<close>

lemma CBS_get_asn1_bool_iff:
  "CBS_get_asn1_bool s = Some (v, r) \<longleftrightarrow>
   v \<in> {0, 1} \<and> s = der_element CBS_ASN1_BOOLEAN [if v = 0 then 0 else 0xff] @ r"
proof -
  have "CBS_get_asn1_bool s = Some (v, r) \<longleftrightarrow>
    (\<exists>b. CBS_get_asn1 s CBS_ASN1_BOOLEAN = Some ([b], r) \<and>
      (b = 0 \<and> v = 0 \<or> b = 0xff \<and> v = 1))" (is "?l \<longleftrightarrow> ?r")
  proof
    assume ?r
    then obtain b where "CBS_get_asn1 s CBS_ASN1_BOOLEAN = Some ([b], r)"
      "b = 0 \<and> v = 0 \<or> b = 0xff \<and> v = 1" by blast
    then show ?l by (auto simp: CBS_get_asn1_bool_def CBS_len_def CBS_data_def)
  qed (auto simp: CBS_get_asn1_bool_def bind_eq_Some_conv CBS_len_def CBS_data_def Let_def
        length_Suc_conv split: if_splits)
  also have "\<dots> \<longleftrightarrow> v \<in> {0, 1} \<and> CBS_get_asn1 s CBS_ASN1_BOOLEAN =
      Some ([if v = 0 then 0 else 0xff], r)" by auto
  finally show ?thesis by (auto simp: CBS_get_asn1_iff)
qed

interpretation asn1_bool: codec CBS_get_asn1_bool
  "\<lambda>v. der_element CBS_ASN1_BOOLEAN [if v = 0 then 0 else 0xff]" "\<lambda>v. v \<in> {0, 1}"
  by unfold_locales (simp_all add: CBS_get_asn1_bool_iff)

text \<open>
  The bits of a BIT STRING value, most significant first: the octets after the first,
  without the unused bits the first octet announces.
\<close>

definition bitstring_bits :: "CBS \<Rightarrow> bool list" where
  "bitstring_bits cbs =
     take (8 * length (tl cbs) - unat (hd cbs))
       (concat (map (\<lambda>b. map (\<lambda>i. bit b (7 - i)) [0..<8]) (tl cbs)))"

lemma concat_bits_nth:
  "i < 8 * length bs \<Longrightarrow>
   concat (map (\<lambda>b :: u8. map (\<lambda>i. bit b (7 - i)) [0..<8]) bs) ! i = bit (bs ! (i div 8)) (7 - i mod 8)"
proof (induction bs arbitrary: i)
  case (Cons b bs)
  show ?case
  proof (cases "i < 8")
    case True
    then show ?thesis by (simp add: nth_append)
  next
    case False
    then obtain j where j: "i = 8 + j" by (metis le_add_diff_inverse not_less)
    then have "i div 8 = Suc (j div 8)" "i mod 8 = j mod 8" by simp_all
    with Cons j show ?thesis by (simp add: nth_append)
  qed
qed simp

lemma length_concat_bits:
  "length (concat (map (\<lambda>b :: u8. map (\<lambda>i. bit b (7 - i)) [0..<8]) bs)) = 8 * length bs"
  by (induction bs) simp_all

lemma and_low_zero:
  assumes "(x :: 'a::len word) AND (push_bit n 1 - 1) = 0" "m < n"
  shows "\<not> bit x m"
proof
  assume "bit x m"
  then have "bit (x AND mask n) m"
    using assms(2) bit_imp_le_length [of x m] by (simp add: bit_and_iff bit_mask_iff)
  moreover have "x AND mask n = 0"
    using assms(1) by (simp add: mask_eq_exp_minus_1 push_bit_eq_mult)
  ultimately show False by simp
qed

lemma has_bit_valid:
  assumes "CBS_is_valid_asn1_bitstring cbs"
  shows "CBS_asn1_bitstring_has_bit cbs b \<longleftrightarrow>
    unat b < length (bitstring_bits cbs) \<and> bitstring_bits cbs ! unat b"
proof -
  from assms obtain u bs where cbs: "cbs = u # bs" and u: "unat u \<le> 7"
    and low: "u = 0 \<or> (bs \<noteq> [] \<and> (last bs) AND (push_bit (unat u) 1 - 1) = 0)"
    by (cases cbs) (auto simp: CBS_is_valid_asn1_bitstring_def CBS_get_last_u8_def CBS_len_def
        CBS_data_def word_less_nat_alt last_conv_nth split: if_splits)
  define i where "i = unat b"
  have nums: "unat (drop_bit 3 b) = i div 8" "unat (b AND 7) = i mod 8"
    using unat_drop [of 3 b] unat_and_mask [of b 3] by (simp_all add: i_def mask_eq_exp_minus_1)
  have "CBS_asn1_bitstring_has_bit cbs b \<longleftrightarrow>
      i div 8 < length bs \<and> bit (bs ! (i div 8)) (7 - i mod 8)"
    using assms
    by (simp add: CBS_asn1_bitstring_has_bit_def nums CBS_len_def CBS_data_def cbs
        and_exp_eq_0_iff_not_bit)
  also have "\<dots> \<longleftrightarrow> i < 8 * length bs - unat u \<and> bit (bs ! (i div 8)) (7 - i mod 8)"
  proof (cases "i < 8 * length bs - unat u \<or> 8 * length bs \<le> i")
    case False
    have i: "i = 8 * (i div 8) + i mod 8" "i mod 8 < 8" by simp_all
    have len: "i div 8 < length bs" "8 * length bs - unat u \<le> i" using False by auto
    then have "length bs = Suc (i div 8)" using u i by linarith
    then have last_byte: "i div 8 = length bs - 1" "7 - i mod 8 < unat u"
      using len i u by linarith+
    with False low have "bs \<noteq> []" "last bs AND (push_bit (unat u) 1 - 1) = 0" by auto
    with last_byte have "\<not> bit (bs ! (i div 8)) (7 - i mod 8)"
      using and_low_zero [of "last bs" "unat u"] by (simp add: last_conv_nth)
    then show ?thesis by simp
  qed auto
  also have "\<dots> \<longleftrightarrow> i < length (bitstring_bits cbs) \<and> bitstring_bits cbs ! i"
    by (auto simp: bitstring_bits_def cbs length_concat_bits concat_bits_nth)
  finally show ?thesis by (simp add: i_def)
qed

end
