(* ===== verification/Compare.thy ===== *)
theory Compare
  imports Prelude "HOL-Library.Multiset"
begin

text \<open>
  Comparison functions in the C convention: negative, zero or positive.  \<open>comparator\<close> is
  what \<open>qsort\<close> and the searches rely on; \<open>qsort\<close> is an executable sorting function for the
  places where equal elements cannot be told apart.
\<close>

definition ascending :: "('a \<Rightarrow> 'a \<Rightarrow> int) \<Rightarrow> 'a list \<Rightarrow> bool" where
  "ascending cmp xs \<longleftrightarrow> sorted_wrt (\<lambda>a b. cmp a b \<le> 0) xs"

locale comparator =
  fixes cmp :: "'a \<Rightarrow> 'a \<Rightarrow> int"
  assumes swap: "cmp a b < 0 \<longleftrightarrow> cmp b a > 0"
    and trans: "cmp a b \<le> 0 \<Longrightarrow> cmp b c \<le> 0 \<Longrightarrow> cmp a c \<le> 0"
begin

lemma total: "cmp a b \<le> 0 \<or> cmp b a \<le> 0"
  using swap [of a b] swap [of b a] by linarith

lemma refl: "cmp a a = 0"
  using swap [of a a] by linarith

lemma zero_swap: "cmp a b = 0 \<longleftrightarrow> cmp b a = 0"
  using swap [of a b] swap [of b a] by linarith

lemma sign_mono:
  assumes "cmp a b \<le> 0"
  shows "cmp x b > 0 \<Longrightarrow> cmp x a > 0" "cmp x a < 0 \<Longrightarrow> cmp x b < 0"
proof -
  show "cmp x b > 0 \<Longrightarrow> cmp x a > 0"
    using trans [of x a b] assms by linarith
  show "cmp x a < 0 \<Longrightarrow> cmp x b < 0"
    using trans [of a b x] swap [of x a] swap [of x b] swap [of a x] swap [of b x] assms by linarith
qed

end

text \<open>
  \<open>qsort\<close>: a permutation in ascending order.
\<close>

fun qsort_insert :: "('a \<Rightarrow> 'a \<Rightarrow> int) \<Rightarrow> 'a \<Rightarrow> 'a list \<Rightarrow> 'a list" where
  "qsort_insert cmp x [] = [x]"
| "qsort_insert cmp x (y # ys) = (if cmp x y \<le> 0 then x # y # ys else y # qsort_insert cmp x ys)"

definition qsort :: "('a \<Rightarrow> 'a \<Rightarrow> int) \<Rightarrow> 'a list \<Rightarrow> 'a list" where
  "qsort cmp xs = foldr (qsort_insert cmp) xs []"

text \<open>What the code may rely on of a \<open>qsort\<close>: nothing on the order of equal elements.\<close>

definition sorts :: "(('a \<Rightarrow> 'a \<Rightarrow> int) \<Rightarrow> 'a list \<Rightarrow> 'a list) \<Rightarrow> bool" where
  "sorts qs \<longleftrightarrow> (\<forall>cmp xs. mset (qs cmp xs) = mset xs \<and>
     (comparator cmp \<longrightarrow> ascending cmp (qs cmp xs)))"

lemma mset_qsort_insert [simp]: "mset (qsort_insert cmp x ys) = add_mset x (mset ys)"
  by (induction ys) simp_all

lemma mset_qsort [simp]: "mset (qsort cmp xs) = mset xs"
  by (induction xs) (simp_all add: qsort_def)

context comparator
begin

lemma ascending_insert: "ascending cmp ys \<Longrightarrow> ascending cmp (qsort_insert cmp x ys)"
proof (induction ys)
  case (Cons y ys)
  have set: "set (qsort_insert cmp x ys) = insert x (set ys)"
    by (metis mset_qsort_insert set_mset_add_mset_insert set_mset_mset)
  show ?case
  proof (cases "cmp x y \<le> 0")
    case True
    with Cons.prems show ?thesis by (auto simp: ascending_def intro: trans)
  next
    case False
    then have "cmp y x \<le> 0" using total by blast
    with False Cons show ?thesis by (auto simp: ascending_def set)
  qed
qed (simp add: ascending_def)

lemma ascending_qsort: "ascending cmp (qsort cmp xs)"
  by (induction xs) (simp_all add: qsort_def ascending_insert, simp add: ascending_def)

end

lemma qsort_sorts: "sorts qsort"
  by (simp add: sorts_def comparator.ascending_qsort)

end
