(* ===== verification/Cbb_Asn1.thy ===== *)
theory Cbb_Asn1
  imports Cbb_Ops Asn1_Ints Compare
begin

text \<open>
  The ASN.1 writers of \<open>crypto/bytestring/cbb.c\<close>, \<open>crypto/bytestring/asn1_compat.c\<close> and
  the OID printer of \<open>crypto/bytestring/cbs.c\<close>.  A child is named by its depth: the child
  of \<open>d\<close> is \<open>Suc d\<close>.  The proofs are in \<open>Cbb_Asn1_Spec\<close> and \<open>Oid\<close>.
\<close>

section \<open>Tags and children\<close>

function base128_len :: "u64 \<Rightarrow> nat" where
  "base128_len copy = (if copy > 0 then Suc (base128_len (drop_bit 7 copy)) else 0)"
  by pat_completeness auto
termination
proof (relation "measure unat")
  fix copy :: u64
  assume "copy > 0"
  then have "0 < unat copy" by (simp add: unat_gt_0)
  then show "(drop_bit 7 copy, copy) \<in> measure unat" by (simp add: unat_drop)
qed simp

declare base128_len.simps [simp del]

fun add_base128_loop :: "nat \<Rightarrow> nat \<Rightarrow> u64 \<Rightarrow> CBB \<Rightarrow> bool \<times> CBB" where
  "add_base128_loop d 0 v cbb = (True, cbb)"
| "add_base128_loop d (Suc i) v cbb =
     (let byte = ucast (drop_bit (7 * i) v AND 0x7f);
          byte = (if i \<noteq> 0 then byte OR 0x80 else byte)
      in andthen (CBB_add_u8 d byte cbb) (add_base128_loop d i v))"

definition add_base128_integer :: "nat \<Rightarrow> u64 \<Rightarrow> CBB \<Rightarrow> bool \<times> CBB" where
  "add_base128_integer d v cbb =
     (let len_len = base128_len v;
          len_len = (if len_len = 0 then 1 else len_len)
      in add_base128_loop d len_len v cbb)"

definition CBB_add_asn1 :: "nat \<Rightarrow> u32 \<Rightarrow> CBB \<Rightarrow> bool \<times> CBB" where
  "CBB_add_asn1 d tag cbb =
     andthen (CBB_flush d cbb) (\<lambda>cbb.
       let tag_bits = ucast (drop_bit CBS_ASN1_TAG_SHIFT tag AND 0xe0) :: u8;
           tag_number = tag AND CBS_ASN1_TAG_NUMBER_MASK
       in andthen
            (if tag_number \<ge> 0x1f
             then andthen (CBB_add_u8 d (tag_bits OR 0x1f) cbb)
                    (add_base128_integer d (ucast tag_number))
             else CBB_add_u8 d (tag_bits OR ucast tag_number) cbb) (\<lambda>cbb.
            let offset = cbb_len cbb
            in andthen (CBB_add_u8 d 0 cbb) (\<lambda>cbb.
              (True, cbb\<lparr>cbb_chain := cbb_chain cbb @
                 [\<lparr>c_offset = offset, c_pending_len_len = 1, c_pending_is_asn1 = True\<rparr>]\<rparr>))))"

section \<open>Typed writers\<close>

text \<open>The loop over the octets of the value, and what follows it in the function.\<close>

fun uint64_loop :: "nat \<Rightarrow> u64 \<Rightarrow> nat \<Rightarrow> bool \<Rightarrow> CBB \<Rightarrow> bool \<times> CBB" where
  "uint64_loop child value 0 started cbb =
     (if \<not> started then CBB_add_u8 child 0 cbb else (True, cbb))"
| "uint64_loop child value (Suc n) started cbb =
     (let byte = ucast (drop_bit (8 * n) value AND 0xff) :: u8
      in if \<not> started \<and> byte = 0 then uint64_loop child value n started cbb
         else andthen
           (if \<not> started \<and> byte AND 0x80 \<noteq> 0 then CBB_add_u8 child 0 cbb else (True, cbb)) (\<lambda>cbb.
           andthen (CBB_add_u8 child byte cbb) (uint64_loop child value n True)))"

definition CBB_add_asn1_uint64 :: "nat \<Rightarrow> u64 \<Rightarrow> CBB \<Rightarrow> bool \<times> CBB" where
  "CBB_add_asn1_uint64 d value cbb =
     andthen (CBB_add_asn1 d CBS_ASN1_INTEGER cbb) (\<lambda>cbb.
       andthen (uint64_loop (Suc d) value 8 False cbb) (CBB_flush d))"

fun int64_start :: "u8 list \<Rightarrow> nat \<Rightarrow> nat" where
  "int64_start bytes 0 = 0"
| "int64_start bytes (Suc s) =
     (if bytes ! Suc s = 0xff \<and> bytes ! s AND 0x80 \<noteq> 0 then int64_start bytes s else Suc s)"

text \<open>\<open>for (i = n - 1; i >= 0; i--)\<close>\<close>

fun int64_loop :: "nat \<Rightarrow> u8 list \<Rightarrow> nat \<Rightarrow> CBB \<Rightarrow> bool \<times> CBB" where
  "int64_loop child bytes 0 cbb = (True, cbb)"
| "int64_loop child bytes (Suc i) cbb =
     andthen (CBB_add_u8 child (bytes ! i) cbb) (int64_loop child bytes i)"

definition CBB_add_asn1_int64 :: "nat \<Rightarrow> u64 \<Rightarrow> CBB \<Rightarrow> bool \<times> CBB" where
  "CBB_add_asn1_int64 d value cbb =
     (if sint value \<ge> 0 then CBB_add_asn1_uint64 d value cbb
      else
        let bytes = int64_to_bytes value;
            start = int64_start bytes 7
        in andthen (CBB_add_asn1 d CBS_ASN1_INTEGER cbb) (\<lambda>cbb.
             andthen (int64_loop (Suc d) bytes (Suc start) cbb) (CBB_flush d)))"

definition CBB_add_asn1_octet_string :: "nat \<Rightarrow> u8 list \<Rightarrow> CBB \<Rightarrow> bool \<times> CBB" where
  "CBB_add_asn1_octet_string d data cbb =
     andthen (CBB_add_asn1 d CBS_ASN1_OCTETSTRING cbb) (\<lambda>cbb.
       andthen (CBB_add_bytes (Suc d) data cbb) (CBB_flush d))"

definition CBB_add_asn1_bool :: "nat \<Rightarrow> int \<Rightarrow> CBB \<Rightarrow> bool \<times> CBB" where
  "CBB_add_asn1_bool d value cbb =
     andthen (CBB_add_asn1 d CBS_ASN1_BOOLEAN cbb) (\<lambda>cbb.
       andthen (CBB_add_u8 (Suc d) (if value \<noteq> 0 then 0xff else 0) cbb) (CBB_flush d))"

section \<open>Object identifiers\<close>

fun parse_dotted_decimal_loop :: "u64 \<Rightarrow> bool \<Rightarrow> CBS \<Rightarrow> (u64 \<times> CBS) option" where
  "parse_dotted_decimal_loop out seen_digit [] = (if seen_digit then Some (out, []) else None)"
| "parse_dotted_decimal_loop out seen_digit (u # cbs) =
     (if u = 0x2e \<and> CBS_len cbs > 0 then (if seen_digit then Some (out, cbs) else None)
      else if u < 0x30 \<or> u > 0x39 \<or> (seen_digit \<and> out = 0) \<or> out > (- 1) div 10 \<or>
        out * 10 > - 1 - ucast (u - 0x30) then None
      else parse_dotted_decimal_loop (out * 10 + ucast (u - 0x30)) True cbs)"

definition parse_dotted_decimal :: "CBS \<Rightarrow> (u64 \<times> CBS) option" where
  "parse_dotted_decimal cbs = parse_dotted_decimal_loop 0 False cbs"

lemma parse_dotted_decimal_loop_shorter:
  "parse_dotted_decimal_loop out seen s = Some (v, r) \<Longrightarrow>
   length r \<le> length s \<and> (\<not> seen \<longrightarrow> length r < length s)"
  by (induction out seen s rule: parse_dotted_decimal_loop.induct)
     (auto split: if_splits)

function oid_components_loop :: "nat \<Rightarrow> CBS \<Rightarrow> CBB \<Rightarrow> bool \<times> CBB" where
  "oid_components_loop d cbs cbb =
     (if CBS_len cbs > 0 then
        (case parse_dotted_decimal cbs of
           None \<Rightarrow> (False, cbb)
         | Some (a, cbs) \<Rightarrow>
             (case add_base128_integer d a cbb of (ok, cbb) \<Rightarrow>
                if ok then oid_components_loop d cbs cbb else (False, cbb)))
      else (True, cbb))"
  by pat_completeness auto
termination
  by (relation "measure (\<lambda>(d, cbs, cbb). length cbs)")
     (auto simp: parse_dotted_decimal_def dest: parse_dotted_decimal_loop_shorter)

declare oid_components_loop.simps [simp del]

definition CBB_add_asn1_oid_from_text :: "nat \<Rightarrow> u8 list \<Rightarrow> CBB \<Rightarrow> bool \<times> CBB" where
  "CBB_add_asn1_oid_from_text d text cbb =
     andthen (CBB_flush d cbb) (\<lambda>cbb.
       let cbs = CBS_init text (length text)
       in case parse_dotted_decimal cbs of
            None \<Rightarrow> (False, cbb)
          | Some (a, cbs) \<Rightarrow>
              (case parse_dotted_decimal cbs of
                 None \<Rightarrow> (False, cbb)
               | Some (b, cbs) \<Rightarrow>
                   if a > 2 \<or> (a < 2 \<and> b > 39) \<or> b > - 1 - 80 then (False, cbb)
                   else andthen (add_base128_integer d (40 * a + b) cbb) (oid_components_loop d cbs)))"

text \<open>\<open>%\<close>\<open>PRIu64\<close>: the decimal digits, at least one.\<close>

fun decimal :: "nat \<Rightarrow> u8 list" where
  "decimal n = (if n < 10 then [of_nat (0x30 + n)] else decimal (n div 10) @ [of_nat (0x30 + n mod 10)])"

declare decimal.simps [simp del]

definition add_decimal :: "nat \<Rightarrow> u64 \<Rightarrow> CBB \<Rightarrow> bool \<times> CBB" where
  "add_decimal d v cbb = CBB_add_bytes d (decimal (unat v)) cbb"

lemma parse_base128_integer_shorter:
  "parse_base128_integer s = Some (v, r) \<Longrightarrow> length r < length s"
  by (rule base128.shorter)

function oid_to_text_loop :: "CBS \<Rightarrow> CBB \<Rightarrow> bool \<times> CBB" where
  "oid_to_text_loop copy cbb =
     (if CBS_len copy \<noteq> 0 then
        (case parse_base128_integer copy of
           None \<Rightarrow> (False, cbb)
         | Some (v, copy) \<Rightarrow>
             (case andthen (CBB_add_u8 0 0x2e cbb) (add_decimal 0 v) of (ok, cbb) \<Rightarrow>
                if ok then oid_to_text_loop copy cbb else (False, cbb)))
      else (True, cbb))"
  by pat_completeness auto
termination
  by (relation "measure (\<lambda>(copy, cbb). length copy)") (auto dest: parse_base128_integer_shorter)

declare oid_to_text_loop.simps [simp del]

text \<open>The result is the C string with its terminator.  \<open>mem\<close>, \<open>fresh\<close> as in \<open>CBB_init\<close>.\<close>

definition CBS_asn1_oid_to_text :: "bool list \<Rightarrow> (nat \<Rightarrow> u8) \<Rightarrow> CBS \<Rightarrow> u8 list option" where
  "CBS_asn1_oid_to_text mem fresh cbs =
     (case CBB_init mem fresh 32 of (ok, cbb) \<Rightarrow>
        if \<not> ok then None
        else case parse_base128_integer cbs of
          None \<Rightarrow> None
        | Some (v, copy) \<Rightarrow>
            (case andthen
                (if v \<ge> 80 then andthen (CBB_add_bytes 0 [0x32, 0x2e] cbb) (add_decimal 0 (v - 80))
                 else andthen (add_decimal 0 (v div 40) cbb) (\<lambda>cbb.
                   andthen (CBB_add_u8 0 0x2e cbb) (add_decimal 0 (v mod 40)))) (\<lambda>cbb.
                andthen (oid_to_text_loop copy cbb) (CBB_add_u8 0 0)) of (ok, cbb) \<Rightarrow>
               if ok then fst (CBB_finish 0 True cbb) else None))"

section \<open>SET OF\<close>

text \<open>
  \<open>memcmp\<close> promises the sign of the difference at the first byte that differs; the model
  returns the difference.
\<close>

fun OPENSSL_memcmp :: "u8 list \<Rightarrow> u8 list \<Rightarrow> nat \<Rightarrow> int" where
  "OPENSSL_memcmp (x # xs) (y # ys) (Suc n) =
     (if x = y then OPENSSL_memcmp xs ys n else int (unat x) - int (unat y))"
| "OPENSSL_memcmp xs ys n = 0"

definition compare_set_of_element :: "CBS \<Rightarrow> CBS \<Rightarrow> int" where
  "compare_set_of_element a b =
     (let a_len = CBS_len a; b_len = CBS_len b;
          min_len = (if a_len < b_len then a_len else b_len);
          ret = OPENSSL_memcmp (CBS_data a) (CBS_data b) min_len
      in if ret \<noteq> 0 then ret
         else if a_len = b_len then 0
         else if a_len < b_len then - 1 else 1)"

text \<open>
  \<open>qsort\<close> is a sorting function; elements that compare equal here are equal byte strings,
  so which one does not matter (\<open>qsort_unique\<close>).
\<close>

definition sizeof_CBS :: nat where "sizeof_CBS = 16"

fun add_children :: "nat \<Rightarrow> CBS list \<Rightarrow> CBB \<Rightarrow> bool \<times> CBB" where
  "add_children d [] cbb = (True, cbb)"
| "add_children d (c # cs) cbb = andthen (CBB_add_bytes d (CBS_data c) cbb) (add_children d cs)"

text \<open>The two allocations, for a copy of the contents and for the array of children.\<close>

definition set_of_alloc :: "cbb_buffer \<Rightarrow> bool \<times> cbb_buffer" where
  "set_of_alloc base =
     (case mem_next (b_mem base) of (buf_ok, mem) \<Rightarrow>
        case mem_next mem of (children_ok, mem) \<Rightarrow> (buf_ok \<and> children_ok, base\<lparr>b_mem := mem\<rparr>))"

definition CBB_flush_asn1_set_of :: "nat \<Rightarrow> CBB \<Rightarrow> bool \<times> CBB" where
  "CBB_flush_asn1_set_of d cbb =
     andthen (CBB_flush d cbb) (\<lambda>cbb.
       case CBB_data d cbb of
         None \<Rightarrow> (False, cbb)
       | Some cbs \<Rightarrow>
           (case parse_many CBS_get_any_asn1_element cbs of
              None \<Rightarrow> (False, cbb)
            | Some elements \<Rightarrow>
                let num_children = length elements
                in if num_children < 2 then (True, cbb)
                   else if num_children > size_max div sizeof_CBS then (False, cbb)
                   else andthen (on_base set_of_alloc cbb) (\<lambda>cbb.
                     let children = qsort compare_set_of_element (map fst elements)
                     in andthen (on_base (\<lambda>base. (True, base\<lparr>b_len := cbb_start d cbb\<rparr>)) cbb)
                          (add_children d children))))"

section \<open>\<open>i2d\<close> functions\<close>

text \<open>
  What the caller passes as \<open>outp\<close>: \<open>NULL\<close>, a pointer to \<open>NULL\<close> (the result is handed over)
  or a pointer to a buffer (the result is copied there and the pointer advanced).  The
  results are the return value, the buffer handed over, and the caller's buffer with the
  advance.
\<close>

datatype outp = Outp_NULL | Outp_alloc | Outp_into "u8 list"

datatype i2d_result = I2d_none | I2d_handed "u8 list" | I2d_written "u8 list" nat

definition CBB_finish_i2d :: "nat \<Rightarrow> CBB \<Rightarrow> outp \<Rightarrow> int \<times> i2d_result" where
  "CBB_finish_i2d d cbb outp =
     (case fst (CBB_finish d True cbb) of
        None \<Rightarrow> (- 1, I2d_none)
      | Some der \<Rightarrow>
          if length der > int_max then (- 1, I2d_none)
          else (int (length der),
            (case outp of
               Outp_NULL \<Rightarrow> I2d_none
             | Outp_alloc \<Rightarrow> I2d_handed der
             | Outp_into buf \<Rightarrow> I2d_written (blit buf 0 der) (length der))))"

end
