(* ===== verification/Cbb_Asn1_Spec.thy ===== *)
theory Cbb_Asn1_Spec
  imports Cbb_Asn1
begin

text \<open>
  The ASN.1 writers against the reference encodings of \<open>Cbs_Asn1\<close> and \<open>Asn1_Ints\<close>, the
  interface of a writer (\<open>cbb_writer\<close>) and of a writer with its reader (\<open>cbb_codec\<close>), and
  builders with nested children.
\<close>

section \<open>Byte by byte\<close>

fun add_u8s :: "nat \<Rightarrow> u8 list \<Rightarrow> CBB \<Rightarrow> bool \<times> CBB" where
  "add_u8s d [] c = (True, c)"
| "add_u8s d (b # bs) c = andthen (CBB_add_u8 d b c) (add_u8s d bs)"

lemma andthen_True [simp]: "andthen r (\<lambda>c. (True, c)) = r"
  by (cases r) (simp add: andthen_def)

lemma add_u8s_append:
  "add_u8s d (xs @ ys) = (\<lambda>c. andthen (add_u8s d xs c) (add_u8s d ys))"
proof (induction xs)
  case (Cons x xs)
  show ?case by (rule ext) (simp add: Cons andthen_assoc)
qed (simp add: fun_eq_iff)

lemma add_u8s_Nil: "add_u8s d [] = (\<lambda>c. (True, c))"
  by (simp add: fun_eq_iff)

lemma add_u8s_Cons:
  "add_u8s d (b # bs) = (\<lambda>c. andthen (CBB_add_u8 d b c) (add_u8s d bs))"
  by (simp add: fun_eq_iff)

lemma add_u8s_implements:
  "bs \<noteq> [] \<Longrightarrow> implements d (\<lambda>v. put_bytes bs (close_to d v)) (add_u8s d bs)"
proof (induction bs)
  case (Cons b bs)
  show ?case
  proof (cases "bs = []")
    case False
    with Cons have "implements d (\<lambda>v. put_bytes bs (close_to d v)) (add_u8s d bs)" by simp
    from implements_andthen [OF CBB_add_u8_implements this, of d b] show ?thesis by simp
  next
    case True
    then have "add_u8s d (b # bs) = CBB_add_u8 d b" by (simp add: fun_eq_iff add_u8s_Nil)
    with True show ?thesis using CBB_add_u8_implements [of d b] by simp
  qed
qed simp

section \<open>Base 128\<close>

fun digits128 :: "nat \<Rightarrow> nat" where
  "digits128 n = (if n = 0 then 0 else Suc (digits128 (n div 128)))"

declare digits128.simps [simp del]

lemma base128_len_digits: "base128_len v = digits128 (unat v)"
proof (induction v rule: base128_len.induct)
  case (1 v)
  then show ?case
    by (cases "v = 0")
       (simp_all add: base128_len.simps [of v] digits128.simps [of "unat v"] unat_drop unat_eq_zero
          word_gt_0 base128_len.simps [of 0] digits128.simps [of 0])
qed

lemma base128_high_digits:
  "base128_high n =
   map (\<lambda>j. of_nat (n div 128 ^ j mod 128 + 128)) (rev [0..<digits128 n])"
proof (induction n rule: base128_high.induct)
  case (1 n)
  show ?case
  proof (cases "n = 0")
    case False
    have "[0..<Suc k] = 0 # map Suc [0..<k]" for k by (simp add: upt_conv_Cons map_Suc_upt)
    then show ?thesis using 1 False
      by (simp add: base128_high.simps [of n] digits128.simps [of n] rev_map o_def
          div_mult2_eq del: upt_Suc)
  qed (simp add: base128_high.simps digits128.simps)
qed

lemma base128_byte:
  "ucast (drop_bit k v AND 0x7f :: u64) = (of_nat (unat v div 2 ^ k mod 128) :: u8)"
  "(of_nat (m mod 128) :: u8) OR 0x80 = of_nat (m mod 128 + 128)"
proof -
  have "(0x7f :: u64) = mask 7" by (simp add: mask_eq_exp_minus_1)
  then have "unat (ucast (drop_bit k v AND 0x7f :: u64) :: u8) = unat v div 2 ^ k mod 128 mod 256"
    by (simp only: unat_ucast_mod unat_and_mask unat_drop) simp
  also have "\<dots> = unat v div 2 ^ k mod 128" by (simp add: mod_mod_cancel)
  finally have "unat (ucast (drop_bit k v AND 0x7f :: u64) :: u8) = unat v div 2 ^ k mod 128" .
  then show "ucast (drop_bit k v AND 0x7f :: u64) = (of_nat (unat v div 2 ^ k mod 128) :: u8)"
    by (simp add: word_unat_eq_iff unat_of_nat_u8 mod_mod_cancel)
  have "(of_nat x :: u8) OR 0x80 = of_nat (x + 128)" if "x < 128" for x
    using or_shift_add [of "of_nat x :: u8" 7 1] that
    by (simp add: unat_of_nat_u8 or.commute push_bit_eq_mult)
  then show "(of_nat (m mod 128) :: u8) OR 0x80 = of_nat (m mod 128 + 128)" by simp
qed

lemma add_base128_loop_0: "add_base128_loop d 0 v = (\<lambda>c. (True, c))"
  by (simp add: fun_eq_iff)

lemma add_base128_loop_Suc:
  "add_base128_loop d (Suc i) v =
   add_u8s d (map (\<lambda>j. of_nat (unat v div 128 ^ j mod 128 + 128)) (rev [1..<Suc i]) @
     [of_nat (unat v mod 128)])"
proof (induction i)
  case 0
  show ?case by (rule ext) (simp add: base128_byte(1) [of 0, simplified] add_u8s_Nil
        add_base128_loop_0)
next
  case (Suc i)
  have pow: "(2 :: nat) ^ (7 * k) = 128 ^ k" for k by (simp add: power_mult)
  have "[1..<Suc (Suc i)] = [1..<Suc i] @ [Suc i]" by simp
  then show ?case
    by (intro ext)
       (simp add: add_base128_loop.simps(2) [of d "Suc i"] Suc base128_byte pow Let_def
          del: add_base128_loop.simps mult_Suc_right upt_Suc power_Suc)
qed

lemma add_base128_integer_eq: "add_base128_integer d v = add_u8s d (base128_enc (unat v))"
proof -
  define n where "n = unat v"
  have "[1..<Suc k] = map Suc [0..<k]" for k by (simp only: map_Suc_upt One_nat_def)
  then have "base128_enc n = map (\<lambda>j. of_nat (n div 128 ^ j mod 128 + 128))
      (rev [1..<Suc (digits128 (n div 128))]) @ [of_nat (n mod 128)]"
    by (simp add: base128_enc_def base128_high_digits rev_map o_def div_mult2_eq del: upt_Suc)
  moreover have "(if digits128 n = 0 then 1 else digits128 n) = Suc (digits128 (n div 128))"
    by (simp add: digits128.simps [of n] digits128.simps [of 0])
  then have "add_base128_integer d v = add_base128_loop d (Suc (digits128 (n div 128))) v"
    by (intro ext) (simp only: add_base128_integer_def base128_len_digits Let_def n_def)
  ultimately show ?thesis by (simp only: add_base128_loop_Suc n_def)
qed

lemma add_base128_integer_implements:
  "implements d (\<lambda>v. put_bytes (base128_enc (unat n)) (close_to d v)) (add_base128_integer d n)"
  by (simp add: add_base128_integer_eq add_u8s_implements)

section \<open>Children with a tag\<close>

lemma tag_bits: "ucast (drop_bit 24 tag AND 0xe0 :: u32) = (ucast (drop_bit 24 tag) AND 0xe0 :: u8)"
proof -
  have "(0xe0 :: u32) = ucast (0xe0 :: u8)" by simp
  then show ?thesis
    by (intro bit_word_eqI) (auto simp: bit_simps)
qed

lemma CBB_add_asn1_eq:
  "CBB_add_asn1 d tag = (\<lambda>c.
     andthen (andthen (CBB_flush d c) (add_u8s d (asn1_tag_enc tag))) (\<lambda>c.
       andthen (CBB_add_u8 d 0 c) (\<lambda>c1.
         (True, c1\<lparr>cbb_chain := cbb_chain c1 @
            [\<lparr>c_offset = cbb_len c, c_pending_len_len = 1, c_pending_is_asn1 = True\<rparr>]\<rparr>))))"
proof -
  have "(if 0x1f \<le> tag AND CBS_ASN1_TAG_NUMBER_MASK
      then andthen (CBB_add_u8 d ((ucast (drop_bit 24 tag) AND 0xe0) OR 0x1f) c)
             (add_base128_integer d (ucast (tag AND CBS_ASN1_TAG_NUMBER_MASK)))
      else CBB_add_u8 d ((ucast (drop_bit 24 tag) AND 0xe0) OR
             ucast (tag AND CBS_ASN1_TAG_NUMBER_MASK)) c) = add_u8s d (asn1_tag_enc tag) c" for c
    by (simp add: asn1_tag_enc_def Let_def add_base128_integer_eq unat_ucast_up add_u8s_Nil)
  then show ?thesis
    by (simp add: CBB_add_asn1_def [abs_def] CBS_ASN1_TAG_SHIFT_def tag_bits Let_def andthen_assoc)
qed

lemma CBB_add_asn1_implements:
  "implements d (\<lambda>v. open_child Der (put_bytes (asn1_tag_enc tag) (close_to d v)))
     (CBB_add_asn1 d tag)"
proof -
  have tag: "implements d (\<lambda>v. put_bytes (asn1_tag_enc tag) (close_to d v))
      (\<lambda>c. andthen (CBB_flush d c) (add_u8s d (asn1_tag_enc tag)))"
    using implements_andthen [OF CBB_flush_implements add_u8s_implements [of "asn1_tag_enc tag" d], of d]
    by (simp add: close_to_close_to)
  have byte: "appends [0] (\<lambda>b. cbb_buffer_add_u b (ucast (0 :: u8)) 1)"
    using appends_add_u [of 1 0] by simp
  show ?thesis
    unfolding CBB_add_asn1_eq
    by (rule implements_open [OF tag _ _ byte])
       (simp_all add: CBB_add_u8_def CBB_flush_same child_wf_def child_kind_def)
qed

text \<open>
  A child that is filled by one writer and closed at once: the parent gets the whole
  element, and the length of the contents had to fit.
\<close>

lemma close_element:
  assumes v: "builder_wf v" "d \<le> length (open_kinds v)"
  shows "close_to d (put_bytes xs (close_to (Suc d) (open_child Der (put_bytes (asn1_tag_enc tag) (close_to d v))))) =
    require (length xs \<le> 0xfffffffe) (put_bytes (der_element tag xs) (close_to d v))"
proof -
  define u where "u = put_bytes (asn1_tag_enc tag) (close_to d v)"
  have u: "length (open_kinds u) = d" "open_levels u \<noteq> []" "builder_wf u"
    using v builder_wf_close_to [OF v(1), of d] by (auto simp: u_def builder_wf_def app_last_def)
  have "close_to (Suc d) (open_child Der u) = open_child Der u"
    using u by (simp add: close_to_same open_child_def)
  moreover have "close_to d (put_bytes xs (open_child Der u)) =
      close_child (close_to (Suc d) (put_bytes xs (open_child Der u)))"
    using u by (intro close_to_Suc) (simp add: open_child_def)
  moreover have "close_to (Suc d) (put_bytes xs (open_child Der u)) = put_bytes xs (open_child Der u)"
    using u by (simp add: close_to_same open_child_def)
  ultimately show ?thesis
    using u close_child_open_put [of u xs Der]
    by (simp add: u_def der_element_def der_header_def)
qed

lemma child_writer:
  assumes "implements (Suc d) (\<lambda>v. put_bytes xs (close_to (Suc d) v)) w"
  shows "implements d
    (\<lambda>v. require (length xs \<le> 0xfffffffe) (put_bytes (der_element tag xs) (close_to d v)))
    (\<lambda>c. andthen (CBB_add_asn1 d tag c) (\<lambda>c. andthen (w c) (CBB_flush d)))"
  by (rule implements_cong [OF implements_andthen [OF CBB_add_asn1_implements
        implements_andthen [OF assms CBB_flush_implements [of d]], of d tag]])
     (rule close_element)

section \<open>Typed writers\<close>

text \<open>Leading zero octets dropped, and the octet that keeps the number non-negative.\<close>

fun uint_strip :: "u8 list \<Rightarrow> u8 list" where
  "uint_strip [] = [0]"
| "uint_strip (b # bs) =
     (if b = 0 then uint_strip bs else if b AND 0x80 \<noteq> 0 then 0 # b # bs else b # bs)"

lemma uint_strip_eq: "uint_strip bs = asn1_uint_contents (be_nat bs)"
proof (induction bs)
  case (Cons b bs)
  then show ?case
    by (cases "b = 0") (simp_all add: asn1_uint_contents_def be_min_be_nat)
qed (simp add: asn1_uint_contents_def)

lemma be_bytes_word_Suc:
  "be_bytes (Suc n) (unat x) = ucast (drop_bit (8 * n) x) # be_bytes n (unat x)"
  by (simp add: be_bytes_word)

lemma ucast_low_byte: "(ucast (x AND 0xff :: u64) :: u8) = ucast x"
proof -
  have m: "(0xff :: u64) = mask 8" by (simp add: mask_eq_exp_minus_1)
  show ?thesis unfolding m by (intro bit_word_eqI) (auto simp: bit_simps)
qed

lemma uint64_loop_started: "uint64_loop ch v n True = add_u8s ch (be_bytes n (unat v))"
proof (induction n)
  case (Suc n)
  show ?case
    by (rule ext) (simp add: Suc be_bytes_word_Suc ucast_low_byte Let_def del: be_bytes.simps)
qed (simp add: fun_eq_iff)

lemma uint64_loop_eq: "uint64_loop ch v n False = add_u8s ch (uint_strip (be_bytes n (unat v)))"
proof (induction n)
  case (Suc n)
  show ?case
    by (rule ext)
       (simp add: Suc be_bytes_word_Suc ucast_low_byte Let_def uint64_loop_started
          add_u8s_Cons del: be_bytes.simps)
qed (simp add: fun_eq_iff add_u8s_Nil)

text \<open>The integer writers put the contents in a child, closed at once.\<close>

lemma asn1_uint_contents_nonempty: "asn1_uint_contents n \<noteq> []"
  by (simp add: asn1_uint_contents_def Let_def)

lemma CBB_add_asn1_uint64_eq:
  "CBB_add_asn1_uint64 d n = (\<lambda>c. andthen (CBB_add_asn1 d CBS_ASN1_INTEGER c)
     (\<lambda>c. andthen (add_u8s (Suc d) (asn1_uint_contents (unat n)) c) (CBB_flush d)))"
proof -
  have "uint64_loop ch n 8 False = add_u8s ch (asn1_uint_contents (unat n))" for ch
    by (simp only: uint64_loop_eq uint_strip_eq bytes_of_word be_nat_u64_enc)
  then show ?thesis unfolding CBB_add_asn1_uint64_def [abs_def] by simp
qed

lemma CBB_add_asn1_uint64_require:
  "implements d (\<lambda>v. require (length (asn1_uint_contents (unat n)) \<le> 0xfffffffe)
       (put_bytes (der_element CBS_ASN1_INTEGER (asn1_uint_contents (unat n))) (close_to d v)))
     (CBB_add_asn1_uint64 d n)"
  unfolding CBB_add_asn1_uint64_eq
  by (intro child_writer add_u8s_implements asn1_uint_contents_nonempty)

lemmas CBB_add_asn1_uint64_implements = CBB_add_asn1_uint64_require [THEN implements_require]

lemma sint_nonneg_iff: "sint (v :: u64) \<ge> 0 \<longleftrightarrow> unat v < 2 ^ 63"
proof -
  have "bit v 63 \<longleftrightarrow> sint v < 0" using bit_last_iff [of v] by simp
  moreover have "bit v 63 \<longleftrightarrow> \<not> unat v < 2 ^ 63"
  proof -
    have "unat v < 2 ^ 64" using unsigned_less [of v] by simp
    then have "unat v div 2 ^ 63 < 2" by (simp add: less_mult_imp_div_less)
    then have "odd (unat v div 2 ^ 63) \<longleftrightarrow> unat v div 2 ^ 63 \<noteq> 0"
      by (auto elim!: oddE)
    moreover have "bit v 63 \<longleftrightarrow> bit (unat v) 63" by (simp add: bit_unsigned_iff)
    ultimately show ?thesis by (simp add: bit_iff_odd div_eq_0_iff)
  qed
  ultimately show ?thesis by linarith
qed

lemma u64_enc_negative: "int_negative (u64_enc v) \<longleftrightarrow> sint v < 0"
proof -
  have "Suc 7 = (8 :: nat)" "8 * 7 = (56 :: nat)" by simp_all
  then have "u64_enc v = ucast (drop_bit 56 v) # be_bytes 7 (unat v)"
    using be_bytes_word_Suc [of 7 v] by (simp only: u64_enc_def)
  moreover have "unat v div 2 ^ 56 < 256"
  proof -
    have "unat v < 256 * 2 ^ 56" using unsigned_less [of v] by simp
    then show ?thesis by (rule less_mult_imp_div_less)
  qed
  then have "unat (ucast (drop_bit 56 v) :: u8) = unat v div 2 ^ 56"
    by (simp add: unat_ucast_mod unat_drop)
  moreover have "unat v div 2 ^ 56 < 128 \<longleftrightarrow> unat v < 2 ^ 63"
    by (simp add: div_less_iff_less_mult)
  ultimately show ?thesis
    using sint_nonneg_iff [of v] by (simp add: int_negative_def and_0x80) linarith
qed

text \<open>The search for the first octet to write skips what \<open>int_strip\<close> drops.\<close>

lemma int64_start_strip:
  "s < length bytes \<Longrightarrow> int_negative (rev (take (Suc s) bytes)) \<Longrightarrow>
   rev (take (Suc (int64_start bytes s)) bytes) = int_strip (rev (take (Suc s) bytes))"
proof (induction s)
  case (Suc s)
  then have "rev (take (Suc (Suc s)) bytes) = bytes ! Suc s # bytes ! s # rev (take s bytes)"
    "rev (take (Suc s) bytes) = bytes ! s # rev (take s bytes)"
    by (simp_all add: take_Suc_conv_app_nth)
  moreover from this have "bytes ! Suc s \<noteq> 0"
    using Suc.prems ff_and_0x80 by (auto simp: int_negative_def)
  ultimately show ?case
    using Suc by (auto simp: int_negative_def)
qed (simp add: take_Suc_conv_app_nth)

lemma int64_loop_eq: "i \<le> length bytes \<Longrightarrow> int64_loop ch bytes i = add_u8s ch (rev (take i bytes))"
proof (induction i)
  case (Suc i)
  then show ?case by (intro ext) (simp add: take_Suc_conv_app_nth)
qed (simp add: fun_eq_iff)

lemma int64_start_le: "int64_start bytes s \<le> s"
  by (induction s) auto

lemma asn1_int_contents_nonempty: "asn1_int_contents n \<noteq> []"
proof -
  have "u64_enc n \<noteq> []" using length_u64_enc [of n] by (metis list.size(3) zero_neq_numeral)
  then show ?thesis
    using int_strip_minimal [of "u64_enc n"] by (simp add: asn1_int_contents_def minimal_int_def)
qed

lemma CBB_add_asn1_int64_eq:
  "CBB_add_asn1_int64 d n = (\<lambda>c. andthen (CBB_add_asn1 d CBS_ASN1_INTEGER c)
     (\<lambda>c. andthen (add_u8s (Suc d) (asn1_int_contents n) c) (CBB_flush d)))"
proof (cases "sint n \<ge> 0")
  case True
  then show ?thesis
    using CBB_add_asn1_uint64_eq [of d n]
    by (simp add: CBB_add_asn1_int64_def [abs_def] sint_nonneg_iff asn1_int_contents_nonneg)
next
  case False
  define bytes where "bytes = int64_to_bytes n"
  define start where "start = int64_start bytes 7"
  have len: "length bytes = 8" "rev bytes = u64_enc n"
    by (simp_all add: bytes_def int64_to_bytes_def)
  then have "rev (take (Suc start) bytes) = asn1_int_contents n"
    using int64_start_strip [of 7 bytes] u64_enc_negative [of n] False
    by (simp add: start_def asn1_int_contents_def)
  moreover have "Suc start \<le> length bytes"
    using int64_start_le [of bytes 7] len by (simp add: start_def)
  ultimately have "int64_loop ch bytes (Suc start) = add_u8s ch (asn1_int_contents n)" for ch
    by (simp only: int64_loop_eq)
  then show ?thesis
    using False by (intro ext)
      (simp only: CBB_add_asn1_int64_def Let_def bytes_def [symmetric] start_def [symmetric] if_False)
qed

lemma CBB_add_asn1_int64_require:
  "implements d (\<lambda>v. require (length (asn1_int_contents n) \<le> 0xfffffffe)
       (put_bytes (der_element CBS_ASN1_INTEGER (asn1_int_contents n)) (close_to d v)))
     (CBB_add_asn1_int64 d n)"
  unfolding CBB_add_asn1_int64_eq
  by (intro child_writer add_u8s_implements asn1_int_contents_nonempty)

lemmas CBB_add_asn1_int64_implements = CBB_add_asn1_int64_require [THEN implements_require]

lemma CBB_add_asn1_octet_string_require:
  "length xs < 2 ^ 64 \<Longrightarrow>
   implements d (\<lambda>v. require (length xs \<le> 0xfffffffe)
       (put_bytes (der_element CBS_ASN1_OCTETSTRING xs) (close_to d v)))
     (CBB_add_asn1_octet_string d xs)"
  unfolding CBB_add_asn1_octet_string_def [abs_def]
  by (intro child_writer CBB_add_bytes_implements)

lemma CBB_add_asn1_bool_eq:
  "CBB_add_asn1_bool d b = (\<lambda>c. andthen (CBB_add_asn1 d CBS_ASN1_BOOLEAN c) (\<lambda>c.
     andthen (CBB_add_u8 (Suc d) (if b = 0 then 0 else 0xff) c) (CBB_flush d)))"
  by (cases "b = 0") (simp_all add: CBB_add_asn1_bool_def fun_eq_iff)

lemma CBB_add_asn1_bool_implements:
  "implements d (\<lambda>v. put_bytes (der_element CBS_ASN1_BOOLEAN [if b = 0 then 0 else 0xff]) (close_to d v))
     (CBB_add_asn1_bool d b)"
  unfolding CBB_add_asn1_bool_eq
  by (intro implements_require [OF child_writer] CBB_add_u8_implements)

end
