(* ===== verification/Cbb_Roundtrip.thy ===== *)
theory Cbb_Roundtrip
  imports Cbb_Asn1_Spec
begin

text \<open>
  Builders and readers together.  \<open>cbb_writer\<close> is the interface of an operation that
  appends the encoding of a value; \<open>cbb_codec\<close> adds a reader of the same encoding and has
  the round trip from a fresh builder to the values read back.  Nested children are a
  small language of items, whose rendering is what \<open>CBB_finish\<close> returns.
\<close>

section \<open>Writers\<close>

fun put_all :: "(nat \<Rightarrow> 'a \<Rightarrow> CBB \<Rightarrow> bool \<times> CBB) \<Rightarrow> nat \<Rightarrow> 'a list \<Rightarrow> CBB \<Rightarrow> bool \<times> CBB" where
  "put_all put d [] c = CBB_flush d c"
| "put_all put d (x # xs) c = andthen (put d x c) (put_all put d xs)"

locale cbb_writer =
  fixes put :: "nat \<Rightarrow> 'a \<Rightarrow> CBB \<Rightarrow> bool \<times> CBB"
    and render :: "'a \<Rightarrow> u8 list"
    and valid :: "'a \<Rightarrow> bool"
  assumes put_implements:
    "valid x \<Longrightarrow> implements d (\<lambda>v. put_bytes (render x) (close_to d v)) (put d x)"
begin

lemma put_all_implements:
  "list_all valid xs \<Longrightarrow>
   implements d (\<lambda>v. put_bytes (concat (map render xs)) (close_to d v)) (put_all put d xs)"
proof (induction xs)
  case Nil
  have "put_all put d [] = CBB_flush d" by (simp add: fun_eq_iff)
  moreover have "put_bytes [] (close_to d v) = close_to d v" if "builder_wf v" for v
    using builder_wf_close_to [OF that, of d]
    by (cases "open_levels (close_to d v)" rule: rev_cases)
       (simp_all add: put_bytes_def app_last_def builder_wf_def)
  ultimately show ?case
    by (simp only: concat.simps list.map) (rule implements_cong [OF CBB_flush_implements], simp)
next
  case (Cons x xs)
  then have "implements d (\<lambda>v. put_bytes (concat (map render xs)) (close_to d v)) (put_all put d xs)"
    by simp
  from implements_andthen [OF put_implements this, of x d] Cons.prems
  have "implements d (\<lambda>v. put_bytes (concat (map render (x # xs))) (close_to d v))
      (\<lambda>c. andthen (put d x c) (put_all put d xs))" by simp
  moreover have "put_all put d (x # xs) = (\<lambda>c. andthen (put d x c) (put_all put d xs))"
    by (simp add: fun_eq_iff)
  ultimately show ?case by (simp only:)
qed

text \<open>From a fresh builder to the finished bytes.\<close>

lemma finish_put_all:
  assumes "list_all valid xs" "cbb_wf c"
    and "cbb_view c = \<lparr>open_levels = [[]], open_kinds = [], all_fit = True\<rparr>"
    and "put_all put 0 xs c = (True, c1)" "CBB_finish 0 outs c1 = (Some out, c2)"
  shows "out = concat (map render xs)"
proof -
  note spec = implementsD [OF put_all_implements [OF assms(1)] assms(2), of 0, unfolded assms(4)]
  have "cbb_wf c1" and v: "cbb_view c1 = put_bytes (concat (map render xs)) (close_to 0 (cbb_view c))"
    using spec by simp_all
  from CBB_finish_view [OF this(1) assms(5)]
  have "close_to 0 (cbb_view c1) = \<lparr>open_levels = [out], open_kinds = [], all_fit = True\<rparr>" by simp
  then show ?thesis using v assms(3) by (simp add: close_to_same put_bytes_def app_last_def)
qed

end

text \<open>A writer and a reader of the same encoding.\<close>

locale cbb_codec = cbb_writer put enc valid + codec get enc valid
  for put :: "nat \<Rightarrow> 'a \<Rightarrow> CBB \<Rightarrow> bool \<times> CBB"
    and get :: "u8 list \<Rightarrow> ('a \<times> u8 list) option"
    and enc :: "'a \<Rightarrow> u8 list"
    and valid :: "'a \<Rightarrow> bool"
begin

lemma round_trip:
  assumes "CBB_init mem fresh cap = (True, c)" "cap < 2 ^ 64" "list_all valid xs"
    and "put_all put 0 xs c = (True, c1)" "CBB_finish 0 outs c1 = (Some out, c2)"
  shows "parse_many get out = Some xs"
  using finish_put_all [OF assms(3) CBB_init_spec(1) [OF assms(1,2)] _ assms(4,5)]
    CBB_init_spec(3) [OF assms(1,2)] parse_many_iff [of out xs] assms(3) by simp

end

interpretation u16: cbb_codec CBB_add_u16 CBS_get_u16 u16_enc "\<lambda>_. True"
  by unfold_locales (use CBB_add_u16_implements in simp)

interpretation u24: cbb_codec CBB_add_u24 CBS_get_u24 u24_enc "\<lambda>v. unat v < 2 ^ 24"
  by unfold_locales (use CBB_add_u24_implements in \<open>simp add: u24_enc_def\<close>)

interpretation u32: cbb_codec CBB_add_u32 CBS_get_u32 u32_enc "\<lambda>_. True"
  by unfold_locales (use CBB_add_u32_implements in simp)

interpretation u64: cbb_codec CBB_add_u64 CBS_get_u64 u64_enc "\<lambda>_. True"
  by unfold_locales (use CBB_add_u64_implements in simp)

interpretation u16le: cbb_codec CBB_add_u16le CBS_get_u16le "\<lambda>v. rev (u16_enc v)" "\<lambda>_. True"
  by unfold_locales (use CBB_add_le_implements(1) u16.enc_nonempty in \<open>simp_all add: CBS_get_u16le_Some\<close>)

interpretation u32le: cbb_codec CBB_add_u32le CBS_get_u32le "\<lambda>v. rev (u32_enc v)" "\<lambda>_. True"
  by unfold_locales (use CBB_add_le_implements(2) u32.enc_nonempty in \<open>simp_all add: CBS_get_u32le_Some\<close>)

interpretation u64le: cbb_codec CBB_add_u64le CBS_get_u64le "\<lambda>v. rev (u64_enc v)" "\<lambda>_. True"
  by unfold_locales (use CBB_add_le_implements(3) u64.enc_nonempty in \<open>simp_all add: CBS_get_u64le_Some\<close>)

interpretation asn1_uint64: cbb_codec CBB_add_asn1_uint64 CBS_get_asn1_uint64
  "\<lambda>v. der_element CBS_ASN1_INTEGER (asn1_uint_contents (unat v))" "\<lambda>_. True"
  by unfold_locales (rule CBB_add_asn1_uint64_implements)

interpretation asn1_int64: cbb_codec CBB_add_asn1_int64 CBS_get_asn1_int64
  "\<lambda>v. der_element CBS_ASN1_INTEGER (asn1_int_contents v)" "\<lambda>_. True"
  by unfold_locales (rule CBB_add_asn1_int64_implements)

interpretation asn1_bool: cbb_codec CBB_add_asn1_bool CBS_get_asn1_bool
  "\<lambda>v. der_element CBS_ASN1_BOOLEAN [if v = 0 then 0 else 0xff]" "\<lambda>v. v \<in> {0, 1}"
  by unfold_locales (rule CBB_add_asn1_bool_implements)

interpretation asn1_octet_string: cbb_codec CBB_add_asn1_octet_string
  "\<lambda>s. CBS_get_asn1 s CBS_ASN1_OCTETSTRING" "der_element CBS_ASN1_OCTETSTRING" "\<lambda>c. length c < 2 ^ 32"
  by unfold_locales
    (rule implements_require [OF CBB_add_asn1_octet_string_require], simp)

section \<open>Nested children\<close>

datatype item = Bytes "u8 list" | Prefixed nat "item list" | Element u32 "item list"

fun build :: "nat \<Rightarrow> item list \<Rightarrow> CBB \<Rightarrow> bool \<times> CBB" where
  "build d [] c = (True, c)"
| "build d (Bytes xs # is) c = andthen (CBB_add_bytes d xs c) (build d is)"
| "build d (Prefixed k js # is) c =
     andthen (cbb_add_length_prefixed d k c) (\<lambda>c. andthen (build (Suc d) js c) (build d is))"
| "build d (Element tag js # is) c =
     andthen (CBB_add_asn1 d tag c) (\<lambda>c. andthen (build (Suc d) js c) (build d is))"

fun render :: "item list \<Rightarrow> u8 list" where
  "render [] = []"
| "render (Bytes xs # is) = xs @ render is"
| "render (Prefixed k js # is) = be_bytes k (length (render js)) @ render js @ render is"
| "render (Element tag js # is) = der_element tag (render js) @ render is"

text \<open>Every child's contents fit the prefix that announces their length.\<close>

fun items_fit :: "item list \<Rightarrow> bool" where
  "items_fit [] = True"
| "items_fit (Bytes xs # is) = items_fit is"
| "items_fit (Prefixed k js # is) =
     (items_fit js \<and> length (render js) < 256 ^ k \<and> items_fit is)"
| "items_fit (Element tag js # is) =
     (items_fit js \<and> length (render js) \<le> 0xfffffffe \<and> items_fit is)"

text \<open>The C types bound the sizes: a \<open>size_t\<close> length, prefixes of 1 to 255 bytes.\<close>

fun items_ok :: "item list \<Rightarrow> bool" where
  "items_ok [] = True"
| "items_ok (Bytes xs # is) = (length xs < 2 ^ 64 \<and> items_ok is)"
| "items_ok (Prefixed k js # is) = (0 < k \<and> k < 256 \<and> items_ok js \<and> items_ok is)"
| "items_ok (Element tag js # is) = (items_ok js \<and> items_ok is)"

text \<open>
  The state after a sequence of items: nothing of it need have been flushed, but closing
  down to the level gives the rendering.
\<close>

definition built :: "nat \<Rightarrow> item list \<Rightarrow> CBB \<Rightarrow> CBB \<Rightarrow> bool" where
  "built d is c c' \<longleftrightarrow> cbb_wf c' \<and> cbb_live c' \<and> d \<le> length (cbb_chain c') \<and>
     close_to d (cbb_view c') =
     require (items_fit is) (put_bytes (render is) (close_to d (cbb_view c)))"

lemma close_child_require [simp]: "close_child (require P v) = require P (close_child v)"
  by (simp add: close_child_def require_def Let_def conj_ac)

lemma close_to_opened:
  assumes "builder_wf u" "length (open_kinds u) = d"
    and "close_to (Suc d) w = require P (put_bytes xs (open_child k u))" "d < length (open_kinds w)"
  shows "close_to d w =
    require (P \<and> prefix_fits k (length xs)) (put_bytes (prefix_enc k (length xs) @ xs) u)"
proof -
  have "open_levels u \<noteq> []" using assms(1) by (auto simp: builder_wf_def)
  then show ?thesis
    using assms by (simp add: close_to_Suc close_child_open_put conj_ac)
qed

lemma built_child:
  assumes u: "u = put_bytes ts (close_to d (cbb_view c)) \<or> u = close_to d (cbb_view c)" "cbb_live c" "d \<le> length (cbb_chain c)"
    and c1: "cbb_view c1 = open_child k u"
    and c2: "built (Suc d) js c1 c2"
    and fit: "P = (items_fit js \<and> prefix_fits k (length (render js)) \<and> items_fit is)"
    and c': "built d is c2 c'"
  shows "close_to d (cbb_view c') =
    require P (put_bytes (prefix_enc k (length (render js)) @ render js @ render is) u)"
proof -
  have wf: "builder_wf u" "length (open_kinds u) = d"
    using u cbb_live_view [OF u(2)] by auto
  have "close_to (Suc d) (cbb_view c1) = cbb_view c1"
    using c1 wf by (simp add: close_to_same open_child_def)
  moreover have "d < length (open_kinds (cbb_view c2))"
    using c2 cbb_live_view(2) [of c2] by (simp add: built_def)
  ultimately have "close_to d (cbb_view c2) = require (items_fit js \<and> prefix_fits k (length (render js)))
      (put_bytes (prefix_enc k (length (render js)) @ render js) u)"
    using c2 c1 by (intro close_to_opened [OF wf]) (simp_all add: built_def)
  then show ?thesis
    using c' fit by (simp add: built_def conj_ac)
qed

lemma build_spec:
  "build d is c = (True, c') \<Longrightarrow> cbb_wf c \<Longrightarrow> cbb_live c \<Longrightarrow> d \<le> length (cbb_chain c) \<Longrightarrow> items_ok is \<Longrightarrow>
   built d is c c'"
proof (induction d "is" c arbitrary: c' rule: build.induct)
  case (1 d c)
  then have "builder_wf (close_to d (cbb_view c))" using cbb_live_view by simp
  then have "put_bytes [] (close_to d (cbb_view c)) = close_to d (cbb_view c)"
    by (cases "open_levels (close_to d (cbb_view c))" rule: rev_cases)
       (simp_all add: put_bytes_def app_last_def builder_wf_def)
  with 1 show ?case by (simp add: built_def)
next
  case (2 d xs "is" c)
  from "2.prems" obtain c1 where r: "CBB_add_bytes d xs c = (True, c1)" "build d is c1 = (True, c')"
    by (auto simp: andthen_ok)
  have "length xs < 2 ^ 64" using "2.prems" by simp
  note spec = implementsD [OF CBB_add_bytes_implements [OF this] "2.prems"(2), of d, unfolded r fst_conv snd_conv]
  have v: "cbb_view c1 = put_bytes xs (close_to d (cbb_view c))" and c1: "cbb_live c1" "cbb_wf c1"
    using spec by simp_all
  then have "length (cbb_chain c1) = d"
    using cbb_live_view(2) [OF c1(1)] cbb_live_view(2) [OF "2.prems"(3)] "2.prems"(4) by simp
  then show ?case
    using "2.IH" [OF r(2)] c1 v "2.prems" by (simp add: built_def)
next
  case (3 d k js "is" c)
  from "3.prems" obtain c1 c2 where r: "cbb_add_length_prefixed d k c = (True, c1)"
    "build (Suc d) js c1 = (True, c2)" "build d is c2 = (True, c')"
    by (auto simp: andthen_ok)
  have k: "0 < k" "k < 256" using "3.prems" by simp_all
  note spec = implementsD [OF cbb_add_length_prefixed_implements [OF k] "3.prems"(2), of d,
      unfolded r fst_conv snd_conv]
  have v: "cbb_view c1 = open_child (Fixed k) (close_to d (cbb_view c))" and c1: "cbb_live c1" "cbb_wf c1"
    using spec by simp_all
  then have "length (cbb_chain c1) = Suc d"
    using cbb_live_view(2) [OF c1(1)] cbb_live_view(2) [OF "3.prems"(3)] "3.prems"(4)
    by (simp add: open_child_def)
  then have c2: "built (Suc d) js c1 c2" using "3.IH"(1) [OF r(2)] c1 "3.prems" by simp
  then have c': "built d is c2 c'" using "3.IH"(2) [OF r(3)] "3.prems" by (simp add: built_def)
  from built_child [OF disjI2 [OF refl] "3.prems"(3,4) v c2 _ c', of "items_fit (Prefixed k js # is)"] c'
  show ?case by (simp add: built_def)
next
  case (4 d tag js "is" c)
  from "4.prems" obtain c1 c2 where r: "CBB_add_asn1 d tag c = (True, c1)"
    "build (Suc d) js c1 = (True, c2)" "build d is c2 = (True, c')"
    by (auto simp: andthen_ok)
  note spec = implementsD [OF CBB_add_asn1_implements "4.prems"(2), of d tag, unfolded r fst_conv snd_conv]
  have v: "cbb_view c1 = open_child Der (put_bytes (asn1_tag_enc tag) (close_to d (cbb_view c)))"
    and c1: "cbb_live c1" "cbb_wf c1"
    using spec by simp_all
  then have "length (cbb_chain c1) = Suc d"
    using cbb_live_view(2) [OF c1(1)] cbb_live_view(2) [OF "4.prems"(3)] "4.prems"(4)
    by (simp add: open_child_def)
  then have c2: "built (Suc d) js c1 c2" using "4.IH"(1) [OF r(2)] c1 "4.prems" by simp
  then have c': "built d is c2 c'" using "4.IH"(2) [OF r(3)] "4.prems" by (simp add: built_def)
  from built_child [OF disjI1 [OF refl] "4.prems"(3,4) v c2 _ c', of "items_fit (Element tag js # is)"] c'
  show ?case by (simp add: built_def der_element_def der_header_def)
qed

text \<open>
  A whole message: what \<open>CBB_finish\<close> returns is the rendering, and every length that a
  prefix announces was small enough for it.
\<close>

lemma finish_build:
  assumes "cbb_wf c" "cbb_live c" "cbb_view c = \<lparr>open_levels = [[]], open_kinds = [], all_fit = True\<rparr>"
    and "items_ok is" "build 0 is c = (True, c1)" "CBB_finish 0 outs c1 = (Some out, c2)"
  shows "out = render is \<and> items_fit is"
proof -
  have b: "built 0 is c c1" using build_spec [OF assms(5,1,2) _ assms(4)] by simp
  then have "cbb_wf c1" by (simp add: built_def)
  from CBB_finish_view(2) [OF this assms(6)] b assms(3) show ?thesis
    by (auto simp: built_def close_to_same put_bytes_def app_last_def require_def)
qed

end
