(* ===== verification/Cbb_Progress.thy ===== *)
theory Cbb_Progress
  imports Cbb_Roundtrip
begin

text \<open>
  When the builder succeeds.  With room for \<open>n\<close> bytes, in a fixed buffer of that size or in
  a growing one whose allocations succeed, an operation whose abstract result needs at
  most \<open>n\<close> bytes and has every length fit its prefix does succeed.
\<close>

section \<open>Room in the buffer\<close>

definition capacity :: "nat \<Rightarrow> cbb_buffer \<Rightarrow> bool" where
  "capacity n b \<longleftrightarrow> n \<le> b_cap b \<or> (b_can_resize b \<and> b_mem b = [] \<and> n < 2 ^ 64)"

definition cbb_capacity :: "nat \<Rightarrow> CBB \<Rightarrow> bool" where
  "cbb_capacity n c \<longleftrightarrow> (\<exists>b. cbb_base c = Some b \<and> \<not> b_error b \<and> capacity n b)"

lemma cbb_capacity_live: "cbb_capacity n c \<Longrightarrow> cbb_live c"
  by (auto simp: cbb_capacity_def cbb_live_def)

lemma cbb_capacity_chain [simp]: "cbb_capacity n (c\<lparr>cbb_chain := fs\<rparr>) = cbb_capacity n c"
  by (simp add: cbb_capacity_def)

lemma capacity_buf [simp]: "capacity n (b\<lparr>b_buf := x\<rparr>) = capacity n b"
  by (simp add: capacity_def)

lemma reserve_progress:
  assumes "buffer_wf b" "capacity n b" "b_len b + k \<le> n"
  obtains b' where "cbb_buffer_reserve b k = (True, b')" "capacity n b'"
proof -
  have "b_len b + k < 2 ^ 64" using assms by (auto simp: capacity_def buffer_wf_def)
  then have add: "size_add (b_len b) k = b_len b + k" by (simp add: size_add_exact)
  show thesis
  proof (cases "b_len b + k \<le> b_cap b")
    case True
    then show thesis using add assms(2) by (intro that [of b]) (simp_all add: cbb_buffer_reserve_def)
  next
    case False
    with assms have r: "b_can_resize b" "b_mem b = []" "n < 2 ^ 64" by (auto simp: capacity_def)
    define b' where "b' = snd (cbb_buffer_reserve b k)"
    have "cbb_buffer_reserve b k = (True, b')" "b_can_resize b'" "b_mem b' = []"
      using False add r by (simp_all add: b'_def cbb_buffer_reserve_def mem_next_def Let_def)
    then show thesis using r by (intro that [of b']) (simp_all add: capacity_def)
  qed
qed

lemma add_progress:
  assumes "buffer_wf b" "capacity n b" "b_len b + k \<le> n"
  obtains b' where "cbb_buffer_add b k = (True, b')" "capacity n b'"
proof -
  obtain b' where r: "cbb_buffer_reserve b k = (True, b')" "capacity n b'"
    using reserve_progress [OF assms] .
  then show thesis by (intro that [of "b'\<lparr>b_len := size_add (b_len b') k\<rparr>"])
      (simp_all add: cbb_buffer_add_def capacity_def)
qed

section \<open>Bytes used\<close>

fun placeholder :: "prefix \<Rightarrow> nat" where
  "placeholder (Fixed k) = k"
| "placeholder Der = 1"

definition bytes_used :: "builder \<Rightarrow> nat" where
  "bytes_used v = sum_list (map length (open_levels v)) + sum_list (map placeholder (open_kinds v))"

lemma bytes_used_simps [simp]:
  "open_levels v \<noteq> [] \<Longrightarrow> bytes_used (put_bytes xs v) = bytes_used v + length xs"
  "bytes_used (open_child k v) = bytes_used v + placeholder k"
  "bytes_used (require P v) = bytes_used v"
  by (cases "open_levels v" rule: rev_cases;
      simp add: bytes_used_def put_bytes_def open_child_def app_last_def require_def)+

lemma open_child_simps [simp]:
  "all_fit (open_child k v) = all_fit v" "open_kinds (open_child k v) = open_kinds v @ [k]"
  by (simp_all add: open_child_def)

lemma placeholder_le: "placeholder k \<le> length (prefix_enc k n)"
  by (cases k) (simp_all add: der_len_enc_def)

lemma bytes_used_close:
  assumes "builder_wf v" "open_kinds v \<noteq> []"
  shows "bytes_used (close_child v) =
      bytes_used v - placeholder (last (open_kinds v)) +
      length (prefix_enc (last (open_kinds v)) (length (last (open_levels v))))"
    and "placeholder (last (open_kinds v)) \<le> bytes_used v"
proof -
  obtain ks k where k: "open_kinds v = ks @ [k]" using assms(2) by (cases "open_kinds v" rule: rev_cases) auto
  obtain ls l m where l: "open_levels v = ls @ [l, m]"
  proof -
    obtain ls' m where 1: "open_levels v = ls' @ [m]"
      using assms by (cases "open_levels v" rule: rev_cases) (auto simp: builder_wf_def)
    with assms k have "ls' \<noteq> []" by (auto simp: builder_wf_def)
    then obtain ls l where "ls' = ls @ [l]" by (cases ls' rule: rev_cases) auto
    with 1 that show thesis by simp
  qed
  show "bytes_used (close_child v) =
      bytes_used v - placeholder (last (open_kinds v)) +
      length (prefix_enc (last (open_kinds v)) (length (last (open_levels v))))"
    "placeholder (last (open_kinds v)) \<le> bytes_used v"
    using k l by (simp_all add: bytes_used_def close_child_def app_last_def Let_def butlast_append)
qed

text \<open>Closing only adds bytes, and cannot undo that a length did not fit.\<close>

definition grows :: "(builder \<Rightarrow> builder) \<Rightarrow> bool" where
  "grows f \<longleftrightarrow>
     (\<forall>v. builder_wf v \<longrightarrow> bytes_used v \<le> bytes_used (f v) \<and> (all_fit (f v) \<longrightarrow> all_fit v))"

lemma growsD:
  assumes "grows f" "builder_wf v"
  shows "bytes_used v \<le> bytes_used (f v)" "all_fit (f v) \<Longrightarrow> all_fit v"
  using assms by (auto simp: grows_def)

lemma close_child_grows:
  assumes "builder_wf v" "open_kinds v \<noteq> []"
  shows "bytes_used v \<le> bytes_used (close_child v) \<and> (all_fit (close_child v) \<longrightarrow> all_fit v)"
  using bytes_used_close [OF assms] placeholder_le [of "last (open_kinds v)" "length (last (open_levels v))"]
  by (auto simp: close_child_def Let_def)

lemma close_to_grows: "grows (close_to d)"
proof -
  have "bytes_used v \<le> bytes_used ((close_child ^^ n) v) \<and>
      (all_fit ((close_child ^^ n) v) \<longrightarrow> all_fit v)"
    if "builder_wf v" "n \<le> length (open_kinds v)" for v n
    using that(2)
  proof (induction n)
    case (Suc n)
    define u where "u = (close_child ^^ n) v"
    have "builder_wf u" "length (open_kinds u) = length (open_kinds v) - n"
      using Suc.prems that(1) by (simp_all add: u_def builder_wf_close_pow)
    then have "builder_wf u" "open_kinds u \<noteq> []" using Suc.prems by auto
    with close_child_grows [OF this] Suc show ?case by (fastforce simp flip: u_def)
  qed simp
  then show ?thesis unfolding grows_def close_to_def by (meson diff_le_self)
qed

lemma put_bytes_grows: "grows (put_bytes xs)"
  by (auto simp: grows_def builder_wf_def bytes_used_simps(1) length_Suc_conv)

lemma open_child_grows: "grows (open_child k)"
  by (simp add: grows_def)

lemma grows_compose:
  assumes "grows f" "grows g" "\<And>v. builder_wf v \<Longrightarrow> builder_wf (f v)"
  shows "grows (\<lambda>v. g (f v))"
  using assms unfolding grows_def by (meson le_trans)

lemma bytes_used_view:
  assumes "chain_wf 0 fs (length w)"
  shows "bytes_used (view fs w) = length w"
proof -
  have "chain_wf s fs (length w) \<Longrightarrow>
      sum_list (map length (levels s fs w)) + sum_list (map (placeholder \<circ> child_kind) fs) + s = length w" for s
  proof (induction fs arbitrary: s)
    case (Cons f fs)
    have "child_end f \<le> length w" "s \<le> c_offset f" "child_wf f" "chain_wf (child_end f) fs (length w)"
      using Cons.prems chain_wf_le by force+
    moreover from this have "placeholder (child_kind f) = c_pending_len_len f"
      by (simp add: child_wf_def child_kind_def)
    ultimately show ?case
      using Cons.IH [of "child_end f"] by (simp add: child_end_def)
  qed simp
  from this [OF assms] show ?thesis by (simp add: bytes_used_def view_def comp_def)
qed

lemma bytes_used_cbb_view:
  "cbb_wf c \<Longrightarrow> cbb_base c = Some b \<Longrightarrow> \<not> b_error b \<Longrightarrow> bytes_used (cbb_view c) = b_len b"
  by (simp add: cbb_view_def cbb_wf_def bytes_used_view length_b_written)

section \<open>Flushing\<close>

lemma flush_prefix_progress:
  assumes b: "buffer_wf b" "child_end f \<le> b_len b" "capacity N b" and f: "child_wf f"
    and n: "n = b_len b - child_end f" "prefix_fits (child_kind f) n"
    and room: "b_len b + length (prefix_enc (child_kind f) n) \<le> N + placeholder (child_kind f)"
  obtains b' where "cbb_flush_prefix f (child_end f) b = (True, b')" "capacity N b'"
proof (cases "c_pending_is_asn1 f")
  case False
  have "c_offset f + c_pending_len_len f \<le> length (b_buf b)"
    using b by (simp add: child_end_def buffer_wf_def)
  with False n show thesis
    by (intro that [of "b\<lparr>b_buf := blit (b_buf b) (c_offset f) (be_bytes (c_pending_len_len f) n)\<rparr>"])
       (use b in \<open>simp_all add: cbb_flush_prefix_def cbb_write_be_eq child_kind_def div_eq_0_iff\<close>)
next
  case True
  with n have le: "n \<le> 0xfffffffe" by (simp add: child_kind_def)
  then obtain k init rest where k:
    "(if n > 0xffffff then (5, 0x80 OR 4, n)
      else if n > 0xffff then (4, 0x80 OR 3, n)
      else if n > 0xff then (3, 0x80 OR 2, n)
      else if n > 0x7f then (2, 0x80 OR 1, n)
      else (1 :: nat, of_nat n :: u8, 0)) = (k + 1, init, rest)"
    "der_len_enc n = init # be_bytes k n" "k \<le> 4" "rest = (if k = 0 then 0 else n)"
    "n < 256 ^ k \<or> k = 0"
    by (rule der_len_enc_split)
  have "b_len b + k \<le> N" using room True k(2) by (simp add: child_kind_def)
  then obtain b1 where add: "cbb_buffer_add b k = (True, b1)" "capacity N b1"
    using add_progress [OF b(1,3)] by metis
  have spec: "buffer_wf b1" "b_len b1 = b_len b + k"
    using cbb_buffer_add_spec [OF b(1) _ add(1)] k(3) by simp_all
  have one: "c_pending_len_len f = 1" using f True by (simp add: child_wf_def)
  show thesis
  proof (cases "k = 0")
    case True
    then have "cbb_flush_prefix f (child_end f) b = (True, b\<lparr>b_buf := (b_buf b)[c_offset f := init]\<rparr>)"
      unfolding cbb_flush_prefix_def Let_def n(1) [symmetric] k(1)
      using \<open>c_pending_is_asn1 f\<close> k(4) le by simp
    then show thesis using b(3) by (rule that [OF _ capacity_buf [THEN iffD2]])
  next
    case False
    define B where "B = (blit (b_buf b1) (child_end f + k)
      (take n (drop (child_end f) (b_buf b1))))[c_offset f := init]"
    have "child_end f + k + n \<le> length (b_buf b1)"
      using spec b(2) n(1) by (simp add: buffer_wf_def)
    then have "length B = length (b_buf b1)" "c_offset f + 1 + k \<le> length (b_buf b1)"
      using one by (simp_all add: B_def child_end_def)
    moreover have "rest div 256 ^ k = 0" using k False by simp
    ultimately have "cbb_flush_prefix f (child_end f) b =
        (True, b1\<lparr>b_buf := blit B (c_offset f + 1) (be_bytes k n)\<rparr>)"
      unfolding cbb_flush_prefix_def Let_def n(1) [symmetric] k(1)
      using \<open>c_pending_is_asn1 f\<close> k(4) False le add
      by (simp add: cbb_write_be_eq B_def)
    then show thesis using add(2) by (rule that [OF _ capacity_buf [THEN iffD2]])
  qed
qed

lemma CBB_flush_progress:
  "cbb_wf c \<Longrightarrow> cbb_capacity N c \<Longrightarrow> d \<le> length (cbb_chain c) \<Longrightarrow>
   all_fit (close_to d (cbb_view c)) \<Longrightarrow> bytes_used (close_to d (cbb_view c)) \<le> N \<Longrightarrow>
   fst (CBB_flush d c) \<and> cbb_capacity N (snd (CBB_flush d c))"
proof (induction d c rule: CBB_flush.induct)
  case (1 d c)
  obtain b where b: "cbb_base c = Some b" "\<not> b_error b"
    using "1.prems" by (auto simp: cbb_capacity_def)
  show ?case
  proof (cases "length (cbb_chain c) = d")
    case True
    then show ?thesis using "1.prems" CBB_flush_same [OF cbb_capacity_live] by simp
  next
    case False
    then have d: "d < length (cbb_chain c)" using "1.prems" by simp
    define f where "f = cbb_chain c ! d"
    have wf: "chain_wf 0 (cbb_chain c) (b_len b)" "buffer_wf b"
      using b "1.prems"(1) by (simp_all add: cbb_wf_def)
    have fs: "take (Suc d) (cbb_chain c) = take d (cbb_chain c) @ [f]"
      using d by (simp add: f_def take_Suc_conv_app_nth)
    then have "chain_wf 0 (take d (cbb_chain c) @ [f]) (b_len b)"
      using chain_wf_take [OF wf(1)] by metis
    then have f: "child_wf f" "child_end f \<le> b_len b" by (simp_all add: chain_wf_snoc)
    define v where "v = close_to (Suc d) (cbb_view c)"
    have v: "builder_wf v" "length (open_kinds v) = Suc d"
      using cbb_live_view [OF cbb_capacity_live [OF "1.prems"(2)]] d by (simp_all add: v_def)
    then have v': "open_kinds v \<noteq> []" by auto
    have close: "close_to d (cbb_view c) = close_child v"
      using d b by (simp add: v_def close_to_Suc kinds_cbb_view)
    obtain ok c1 where rec: "CBB_flush (Suc d) c = (ok, c1)" by force
    have IH: "ok \<and> cbb_capacity N c1"
      using "1.IH" [OF b(1)] d b f close_child_grows [OF v(1) v'] "1.prems" close rec
      by (simp add: v_def child_wf_def flip: f_def)
    have fl: "flushed (Suc d) c (ok, c1)" using CBB_flush_spec [OF "1.prems"(1)] rec by metis
    define fs where "fs = take d (cbb_chain c)"
    obtain b1 where b1: "cbb_base c1 = Some b1" "\<not> b_error b1" "capacity N b1"
      using IH by (auto simp: cbb_capacity_def)
    have c1: "cbb_wf c1" "cbb_chain c1 = fs @ [f]" "cbb_view c1 = v"
      using fl IH fs by (simp_all add: flushed_def v_def fs_def)
    then have wf1: "buffer_wf b1" "chain_wf 0 (fs @ [f]) (b_len b1)"
      using b1 by (simp_all add: cbb_wf_def)
    then have f1: "child_end f \<le> b_len b1" "chain_wf 0 fs (c_offset f)" by (simp_all add: chain_wf_snoc)
    define n where "n = b_len b1 - child_end f"
    have "v = view (fs @ [f]) (b_written b1)" using c1 b1 by (simp add: cbb_view_def)
    then have last: "last (open_kinds v) = child_kind f" "length (last (open_levels v)) = n"
      using f1 wf1 by (simp_all add: view_def levels_snoc n_def length_b_written)
    have fits: "prefix_fits (child_kind f) n"
      using "1.prems"(4) close last by (simp add: close_child_def Let_def)
    have used: "bytes_used v = b_len b1" using bytes_used_cbb_view [OF c1(1) b1(1,2)] c1(3) by simp
    have "b_len b1 + length (prefix_enc (child_kind f) n) \<le> N + placeholder (child_kind f)"
      using "1.prems"(5) bytes_used_close [OF v(1) v'] unfolding close last used by linarith
    then obtain b2 where b2: "cbb_flush_prefix f (child_end f) b1 = (True, b2)" "capacity N b2"
      using flush_prefix_progress [OF wf1(1) f1(1) b1(3) f(1) n_def fits] by metis
    have start: "size_add (c_offset f) (c_pending_len_len f) = child_end f"
      using f wf by (simp add: size_add_exact child_end_def buffer_wf_def)
    have "CBB_flush d c = (True, c1\<lparr>cbb_base := Some b2, cbb_chain := fs\<rparr>)"
      using b d f(1) rec IH b1 b2 f1 c1 fs
      by (simp add: CBB_flush.simps [of d c] Let_def start on_base_def child_wf_def fs_def
          flip: f_def) (simp add: child_end_def)
    moreover have "\<not> b_error b2"
      using cbb_flush_prefix_spec [OF wf1(1) f1(1) f(1)] b2 b1 by (simp add: prefix_written_def Let_def)
    ultimately show ?thesis using b2 by (simp add: cbb_capacity_def)
  qed
qed

section \<open>Operations\<close>

definition progresses :: "nat \<Rightarrow> (builder \<Rightarrow> builder) \<Rightarrow> (CBB \<Rightarrow> bool \<times> CBB) \<Rightarrow> bool" where
  "progresses d f m \<longleftrightarrow>
     (\<forall>N c. cbb_wf c \<longrightarrow> cbb_capacity N c \<longrightarrow> d \<le> length (cbb_chain c) \<longrightarrow> all_fit (f (cbb_view c)) \<longrightarrow>
        bytes_used (f (cbb_view c)) \<le> N \<longrightarrow> fst (m c) \<and> cbb_capacity N (snd (m c)))"

lemma progressesD:
  assumes "progresses d f m" "cbb_wf c" "cbb_capacity N c" "d \<le> length (cbb_chain c)"
    "all_fit (f (cbb_view c))" "bytes_used (f (cbb_view c)) \<le> N"
  shows "fst (m c)" "cbb_capacity N (snd (m c))"
  using assms by (auto simp: progresses_def)

lemma progresses_andthen:
  assumes "progresses d f m" "implements d f m" "progresses e g n" "grows g"
    and kinds: "\<And>v. d \<le> length (open_kinds v) \<Longrightarrow> e \<le> length (open_kinds (f v))"
    and wf: "\<And>v. builder_wf v \<Longrightarrow> builder_wf (f v)"
  shows "progresses d (\<lambda>v. g (f v)) (\<lambda>c. andthen (m c) n)"
  unfolding progresses_def
proof (intro allI impI)
  fix N c
  assume c: "cbb_wf c" "cbb_capacity N c" "d \<le> length (cbb_chain c)"
    and fit: "all_fit (g (f (cbb_view c)))" and room: "bytes_used (g (f (cbb_view c))) \<le> N"
  note live = cbb_live_view [OF cbb_capacity_live [OF c(2)]]
  note gr = growsD [OF assms(4) wf [OF live(1)]]
  note p = progressesD [OF assms(1) c gr(2) [OF fit] le_trans [OF gr(1) room]]
  note i = implementsD [OF assms(2) c(1)]
  have "e \<le> length (cbb_chain (snd (m c)))"
    using kinds [of "cbb_view c"] i(4,6) [OF p(1)] live(2) c(3) cbb_live_view(2) by metis
  from progressesD [OF assms(3) i(1) p(2) this] i(6) [OF p(1)] fit room
  show "fst (andthen (m c) n) \<and> cbb_capacity N (snd (andthen (m c) n))"
    using p by (cases "m c") simp
qed

lemma flush_progresses: "progresses d (close_to d) (CBB_flush d)"
  using CBB_flush_progress by (auto simp: progresses_def)

text \<open>A buffer operation that appends, and does so whenever there is room.\<close>

definition adds :: "u8 list \<Rightarrow> (cbb_buffer \<Rightarrow> bool \<times> cbb_buffer) \<Rightarrow> bool" where
  "adds xs g \<longleftrightarrow> appends xs g \<and>
     (\<forall>N b. buffer_wf b \<longrightarrow> capacity N b \<longrightarrow> b_len b + length xs \<le> N \<longrightarrow>
        fst (g b) \<and> capacity N (snd (g b)))"

lemma adds_progresses:
  assumes "adds xs g"
  shows "progresses d (\<lambda>v. put_bytes xs (close_to d v)) (\<lambda>c. andthen (CBB_flush d c) (on_base g))"
  unfolding progresses_def
proof (intro allI impI)
  fix N c
  assume c: "cbb_wf c" "cbb_capacity N c" "d \<le> length (cbb_chain c)"
    and fit: "all_fit (put_bytes xs (close_to d (cbb_view c)))"
    and room: "bytes_used (put_bytes xs (close_to d (cbb_view c))) \<le> N"
  have wf: "builder_wf (close_to d (cbb_view c))"
    using cbb_live_view(1) [OF cbb_capacity_live [OF c(2)]] by simp
  then have ne: "open_levels (close_to d (cbb_view c)) \<noteq> []" by (auto simp: builder_wf_def)
  obtain ok c1 where r: "CBB_flush d c = (ok, c1)" by force
  have p: "ok" "cbb_capacity N c1"
    using CBB_flush_progress [OF c] fit room ne r by simp_all
  have i: "cbb_wf c1" "cbb_view c1 = close_to d (cbb_view c)"
    using implementsD(1,6) [OF CBB_flush_implements c(1), of d] p r by simp_all
  obtain b where b: "cbb_base c1 = Some b" "\<not> b_error b" "capacity N b"
    using p by (auto simp: cbb_capacity_def)
  then have bwf: "buffer_wf b" using i by (simp add: cbb_wf_def)
  have "b_len b + length xs \<le> N"
    using bytes_used_cbb_view [OF i(1) b(1,2)] i(2) room ne by simp
  with assms b bwf have g: "fst (g b)" "capacity N (snd (g b))" by (auto simp: adds_def)
  have "\<not> b_error (snd (g b))"
    using assms g(1) b(2) bwf unfolding adds_def appends_def by metis
  then show "fst (andthen (CBB_flush d c) (on_base g)) \<and>
      cbb_capacity N (snd (andthen (CBB_flush d c) (on_base g)))"
    using r p b g by (simp add: on_base_def cbb_capacity_def split_def)
qed

lemma adds_add_u:
  assumes "0 < k" "k < 2 ^ 64" "unat v < 256 ^ k"
  shows "adds (be_bytes k (unat v)) (\<lambda>b. cbb_buffer_add_u b v k)"
  unfolding adds_def
proof (intro conjI allI impI appends_add_u assms)
  fix N b
  assume b: "buffer_wf b" "capacity N b" "b_len b + length (be_bytes k (unat v)) \<le> N"
  then obtain b1 where a: "cbb_buffer_add b k = (True, b1)" "capacity N b1"
    using add_progress [of b N k] by auto
  have "b_len b + k \<le> length (b_buf b1)"
    using cbb_buffer_add_spec [OF b(1) assms(2) a(1)] by (simp add: buffer_wf_def)
  then have "cbb_buffer_add_u b v k = (True, b1\<lparr>b_buf := blit (b_buf b1) (b_len b) (be_bytes k (unat v))\<rparr>)"
    using a assms by (simp add: cbb_buffer_add_u_def cbb_write_be_eq)
  then show "fst (cbb_buffer_add_u b v k)" "capacity N (snd (cbb_buffer_add_u b v k))"
    using a by (simp_all only: fst_conv snd_conv capacity_buf)
qed

lemma adds_add_filled:
  assumes "length xs < 2 ^ 64"
  shows "adds xs (add_filled xs)"
  unfolding adds_def
proof (intro conjI allI impI appends_add_filled assms)
  fix N b
  assume "buffer_wf b" "capacity N b" "b_len b + length xs \<le> N"
  then obtain b1 where a: "cbb_buffer_add b (length xs) = (True, b1)" "capacity N b1"
    using add_progress by metis
  then show "fst (add_filled xs b)" "capacity N (snd (add_filled xs b))"
    by (simp_all add: add_filled_def del: capacity_buf) (simp only: capacity_buf)
qed

lemma CBB_add_bytes_progresses:
  "length xs < 2 ^ 64 \<Longrightarrow> progresses d (\<lambda>v. put_bytes xs (close_to d v)) (CBB_add_bytes d xs)"
  unfolding CBB_add_bytes_def Let_def on_base_add_filled
  by (intro adds_progresses adds_add_filled)

lemma CBB_add_u8_progresses:
  "progresses d (\<lambda>v. put_bytes [x] (close_to d v)) (CBB_add_u8 d x)"
proof -
  have "be_bytes 1 (unat (ucast x :: u64)) = [x]" "unat (ucast x :: u64) < 256"
    by (simp_all add: unat_ucast_up)
  then show ?thesis
    unfolding CBB_add_u8_def using adds_progresses [OF adds_add_u [of 1 "ucast x"]] by simp
qed

lemma add_u8s_progresses:
  "bs \<noteq> [] \<Longrightarrow> progresses d (\<lambda>v. put_bytes bs (close_to d v)) (add_u8s d bs)"
proof (induction bs)
  case (Cons b bs)
  show ?case
  proof (cases "bs = []")
    case True
    then have "add_u8s d (b # bs) = CBB_add_u8 d b" by (simp add: fun_eq_iff add_u8s_Nil)
    with True show ?thesis using CBB_add_u8_progresses [of d b] by simp
  next
    case False
    have "grows (\<lambda>v. put_bytes bs (close_to d v))"
      by (intro grows_compose [OF close_to_grows put_bytes_grows]) simp
    from progresses_andthen [OF CBB_add_u8_progresses CBB_add_u8_implements Cons.IH [OF False] this, of d b]
    show ?thesis by (simp add: add_u8s_Cons)
  qed
qed simp

section \<open>Children\<close>

lemma cbb_add_length_prefixed_progresses:
  assumes "0 < k" "k < 256"
  shows "progresses d (\<lambda>v. open_child (Fixed k) (close_to d v)) (cbb_add_length_prefixed d k)"
proof -
  have eq: "cbb_add_length_prefixed d k = (\<lambda>c. andthen (CBB_flush d c) (\<lambda>c.
      andthen (on_base (add_filled (replicate k 0)) c) (\<lambda>c1. (True, c1\<lparr>cbb_chain := cbb_chain c1 @
         [\<lparr>c_offset = cbb_len c, c_pending_len_len = k, c_pending_is_asn1 = False\<rparr>]\<rparr>))))"
    using on_base_add_filled [of "replicate k 0"]
    by (simp add: cbb_add_length_prefixed_def [abs_def] Let_def andthen_assoc [symmetric])
  have fill: "progresses d (\<lambda>v. put_bytes (replicate k 0) (close_to d v))
      (\<lambda>c. andthen (CBB_flush d c) (on_base (add_filled (replicate k 0))))"
    using assms by (intro adds_progresses adds_add_filled) simp
  show ?thesis
    unfolding progresses_def
  proof (intro allI impI)
    fix N c
    assume c: "cbb_wf c" "cbb_capacity N c" "d \<le> length (cbb_chain c)"
      and fit: "all_fit (open_child (Fixed k) (close_to d (cbb_view c)))"
      and room: "bytes_used (open_child (Fixed k) (close_to d (cbb_view c))) \<le> N"
    have "builder_wf (close_to d (cbb_view c))"
      using cbb_live_view(1) [OF cbb_capacity_live [OF c(2)]] by simp
    then have "open_levels (close_to d (cbb_view c)) \<noteq> []" by (auto simp: builder_wf_def)
    then have "fst (andthen (CBB_flush d c) (on_base (add_filled (replicate k 0))))"
      "cbb_capacity N (snd (andthen (CBB_flush d c) (on_base (add_filled (replicate k 0)))))"
      using progressesD [OF fill c] fit room by simp_all
    then show "fst (cbb_add_length_prefixed d k c) \<and> cbb_capacity N (snd (cbb_add_length_prefixed d k c))"
      unfolding eq by (auto simp: andthen_def split: if_splits)
  qed
qed

lemma CBB_add_asn1_progresses:
  "progresses d (\<lambda>v. open_child Der (put_bytes (asn1_tag_enc tag) (close_to d v))) (CBB_add_asn1 d tag)"
  unfolding progresses_def
proof (intro allI impI)
  fix N c
  assume c: "cbb_wf c" "cbb_capacity N c" "d \<le> length (cbb_chain c)"
    and fit: "all_fit (open_child Der (put_bytes (asn1_tag_enc tag) (close_to d (cbb_view c))))"
    and room: "bytes_used (open_child Der (put_bytes (asn1_tag_enc tag) (close_to d (cbb_view c)))) \<le> N"
  let ?bs = "asn1_tag_enc tag @ [0]"
  have wf: "builder_wf (close_to d (cbb_view c))"
    using cbb_live_view(1) [OF cbb_capacity_live [OF c(2)]] by simp
  then have ne: "open_levels (close_to d (cbb_view c)) \<noteq> []" by (auto simp: builder_wf_def)
  have "grows (\<lambda>v. put_bytes ?bs (close_to d v))"
    by (intro grows_compose [OF close_to_grows put_bytes_grows]) simp
  from progresses_andthen [OF flush_progresses CBB_flush_implements add_u8s_progresses this, of d]
  have "progresses d (\<lambda>v. put_bytes ?bs (close_to d v)) (\<lambda>c. andthen (CBB_flush d c) (add_u8s d ?bs))"
    by (simp add: close_to_close_to)
  from progressesD [OF this c] fit room ne
  have "fst (andthen (CBB_flush d c) (add_u8s d ?bs))"
    "cbb_capacity N (snd (andthen (CBB_flush d c) (add_u8s d ?bs)))"
    by (simp_all add: add.assoc)
  then show "fst (CBB_add_asn1 d tag c) \<and> cbb_capacity N (snd (CBB_add_asn1 d tag c))"
    unfolding CBB_add_asn1_eq add_u8s_append add_u8s_Cons add_u8s_Nil
    by (auto simp: andthen_def split: if_splits)
qed

text \<open>A nested message is built whenever its rendering fits.\<close>

definition can_build :: "nat \<Rightarrow> nat \<Rightarrow> item list \<Rightarrow> CBB \<Rightarrow> bool" where
  "can_build N d is c \<longleftrightarrow> cbb_wf c \<and> cbb_capacity N c \<and> d \<le> length (cbb_chain c) \<and>
     all_fit (close_to d (cbb_view c)) \<and>
     bytes_used (close_to d (cbb_view c)) + length (render is) \<le> N"

lemma can_build_levels:
  "can_build N d is c \<Longrightarrow> builder_wf (close_to d (cbb_view c)) \<and> open_levels (close_to d (cbb_view c)) \<noteq> []"
  using cbb_live_view(1) [OF cbb_capacity_live, of N c] builder_wf_close_to [of "cbb_view c" d]
  by (auto simp: can_build_def builder_wf_def)

text \<open>Inside a new child, and after it.\<close>

lemma can_build_child:
  assumes c: "can_build N d is' c" and fits: "items_fit js" "prefix_fits k (length (render js))"
    and i: "implements d (\<lambda>v. open_child k (put_bytes ts (close_to d v)) :: builder) m"
    and p: "progresses d (\<lambda>v. open_child k (put_bytes ts (close_to d v))) m"
    and size: "length (render is') =
      length ts + length (prefix_enc k (length (render js))) + length (render js) + length (render is)"
    and ok: "items_ok js"
    and build: "\<And>c1. can_build N (Suc d) js c1 \<Longrightarrow> fst (build (Suc d) js c1) \<and>
      cbb_capacity N (snd (build (Suc d) js c1))"
  shows "fst (m c) \<and> fst (build (Suc d) js (snd (m c))) \<and>
    can_build N d is (snd (build (Suc d) js (snd (m c))))"
proof -
  define u where "u = put_bytes ts (close_to d (cbb_view c))"
  note lv = can_build_levels [OF c]
  have cc: "cbb_wf c" "cbb_capacity N c" "d \<le> length (cbb_chain c)" "cbb_live c"
    using c cbb_capacity_live by (auto simp: can_build_def)
  have u: "all_fit u" "builder_wf u" "open_levels u \<noteq> []" "length (open_kinds u) = d"
    "bytes_used u = bytes_used (close_to d (cbb_view c)) + length ts"
    using c lv cc cbb_live_view(2) [OF cc(4)] by (auto simp: u_def can_build_def app_last_def)
  have room: "bytes_used u + length (prefix_enc k (length (render js))) + length (render js) + length (render is) \<le> N"
    using c size u by (simp add: can_build_def)
  note ple = placeholder_le [of k "length (render js)"]
  obtain ok c1 where m: "m c = (ok, c1)" by force
  have m1: "ok" "cbb_capacity N c1"
    using progressesD [OF p cc(1-3)] m u room ple by (simp_all add: u_def)
  have c1: "cbb_wf c1" "cbb_view c1 = open_child k u" "cbb_live c1"
    using implementsD(1,4,6) [OF i cc(1)] m m1 by (simp_all add: u_def)
  have len1: "length (cbb_chain c1) = Suc d" using cbb_live_view(2) [OF c1(3)] c1 u by simp
  have v1: "close_to (Suc d) (cbb_view c1) = cbb_view c1"
    using c1 u by (simp add: close_to_same)
  have "can_build N (Suc d) js c1"
    using c1 m1 len1 u room ple v1 by (simp add: can_build_def)
  then obtain c2 where b: "build (Suc d) js c1 = (True, c2)" "cbb_capacity N c2"
    using build by (metis prod.collapse)
  have "built (Suc d) js c1 c2" using build_spec [OF b(1) c1(1,3)] len1 ok by simp
  then have c2: "cbb_wf c2" "cbb_live c2" "Suc d \<le> length (cbb_chain c2)"
    "close_to (Suc d) (cbb_view c2) = put_bytes (render js) (open_child k u)"
    using v1 c1(2) fits by (simp_all add: built_def)
  then have "close_to d (cbb_view c2) = put_bytes (prefix_enc k (length (render js)) @ render js) u"
    using close_to_opened [OF u(2,4), of "cbb_view c2" True] fits cbb_live_view(2) [OF c2(2)] by simp
  then have "can_build N d is c2"
    using c2 b u room by (simp add: can_build_def)
  with m m1 b show ?thesis by simp
qed

lemma put_nothing: "builder_wf v \<Longrightarrow> put_bytes [] v = v"
  by (cases "open_levels v" rule: rev_cases) (simp_all add: put_bytes_def app_last_def builder_wf_def)

lemma length_prefixed_nothing:
  assumes "0 < k" "k < 256"
  shows "implements d (\<lambda>v. open_child (Fixed k) (put_bytes [] (close_to d v))) (cbb_add_length_prefixed d k)"
    and "progresses d (\<lambda>v. open_child (Fixed k) (put_bytes [] (close_to d v))) (cbb_add_length_prefixed d k)"
proof -
  show "implements d (\<lambda>v. open_child (Fixed k) (put_bytes [] (close_to d v))) (cbb_add_length_prefixed d k)"
    by (rule implements_cong [OF cbb_add_length_prefixed_implements [OF assms]]) (simp add: put_nothing)
  show "progresses d (\<lambda>v. open_child (Fixed k) (put_bytes [] (close_to d v))) (cbb_add_length_prefixed d k)"
    using cbb_add_length_prefixed_progresses [OF assms, of d] cbb_live_view(1) [OF cbb_capacity_live]
    unfolding progresses_def by (metis put_nothing builder_wf_close_to)
qed

lemma build_progress:
  "can_build N d is c \<Longrightarrow> items_ok is \<Longrightarrow> items_fit is \<Longrightarrow>
   fst (build d is c) \<and> cbb_capacity N (snd (build d is c))"
proof (induction d "is" c rule: build.induct)
  case (1 d c)
  then show ?case by (simp add: can_build_def)
next
  case (2 d xs "is" c)
  note lv = can_build_levels [OF "2.prems"(1)]
  have c: "cbb_wf c" "cbb_capacity N c" "d \<le> length (cbb_chain c)" "length xs < 2 ^ 64"
    using "2.prems" by (simp_all add: can_build_def)
  have room: "bytes_used (close_to d (cbb_view c)) + length xs + length (render is) \<le> N"
    "all_fit (close_to d (cbb_view c))"
    using "2.prems" by (simp_all add: can_build_def)
  obtain ok c1 where r: "CBB_add_bytes d xs c = (ok, c1)" by force
  have p: "ok" "cbb_capacity N c1"
    using progressesD [OF CBB_add_bytes_progresses [OF c(4)] c(1-3)] room lv r by simp_all
  have i: "cbb_wf c1" "cbb_live c1" "cbb_view c1 = put_bytes xs (close_to d (cbb_view c))"
    using implementsD(1,4,6) [OF CBB_add_bytes_implements [OF c(4)] c(1), of d] p r by simp_all
  have "length (cbb_chain c1) = d"
    using cbb_live_view(2) [OF i(2)] i(3) c(3) cbb_live_view(2) [OF cbb_capacity_live [OF c(2)]] by simp
  then have "can_build N d is c1"
    using i p room lv by (simp add: can_build_def)
  with "2.IH" [of c1] r p "2.prems" show ?case by simp
next
  case (3 d k js "is" c)
  have k: "0 < k" "k < 256" using "3.prems" by simp_all
  have *: "fst (cbb_add_length_prefixed d k c) \<and>
      fst (build (Suc d) js (snd (cbb_add_length_prefixed d k c))) \<and>
      can_build N d is (snd (build (Suc d) js (snd (cbb_add_length_prefixed d k c))))"
    using "3.prems" "3.IH"(1)
    by (intro can_build_child [OF "3.prems"(1) _ _ length_prefixed_nothing [OF k]]) simp_all
  then show ?case
    using "3.IH"(2) "3.prems" by (auto simp: andthen_def)
next
  case (4 d tag js "is" c)
  have *: "fst (CBB_add_asn1 d tag c) \<and> fst (build (Suc d) js (snd (CBB_add_asn1 d tag c))) \<and>
      can_build N d is (snd (build (Suc d) js (snd (CBB_add_asn1 d tag c))))"
    using "4.prems" "4.IH"(1)
    by (intro can_build_child [OF "4.prems"(1) _ _ CBB_add_asn1_implements CBB_add_asn1_progresses])
       (simp_all add: der_element_def der_header_def)
  then show ?case
    using "4.IH"(2) "4.prems" by (auto simp: andthen_def)
qed

text \<open>Total correctness of a whole message in a fresh builder.\<close>

lemma build_finish:
  assumes "cbb_wf c" "cbb_capacity N c" "cbb_chain c = []"
    and "cbb_view c = \<lparr>open_levels = [[]], open_kinds = [], all_fit = True\<rparr>"
    and "items_ok is" "items_fit is" "length (render is) \<le> N"
  shows "fst (build 0 is c) \<and> fst (CBB_finish 0 True (snd (build 0 is c))) = Some (render is)"
proof -
  have can: "can_build N 0 is c"
    using assms by (simp add: can_build_def close_to_same bytes_used_def)
  obtain ok c1 where b: "build 0 is c = (ok, c1)" by force
  have p: "ok" "cbb_capacity N c1" using build_progress [OF can assms(5,6)] b by simp_all
  have bu: "built 0 is c c1"
    using build_spec [of 0 "is" c c1] b p assms cbb_capacity_live by simp
  then have c1: "cbb_wf c1" "close_to 0 (cbb_view c1) = \<lparr>open_levels = [render is], open_kinds = [], all_fit = True\<rparr>"
    using assms(4,6) by (simp_all add: built_def close_to_same put_bytes_def app_last_def)
  have fl: "fst (CBB_flush 0 c1)" "cbb_capacity N (snd (CBB_flush 0 c1))"
    using CBB_flush_progress [OF c1(1) p(2), of 0] c1(2) assms(7) by (simp_all add: bytes_used_def)
  then obtain c2 b2 where "CBB_flush 0 c1 = (True, c2)" "cbb_base c2 = Some b2"
    by (cases "CBB_flush 0 c1") (auto simp: cbb_capacity_def)
  then obtain out c3 where "CBB_finish 0 True c1 = (Some out, c3)" by (simp add: CBB_finish_def)
  with CBB_finish_view(2) [OF c1(1) this] c1(2) b p show ?thesis by simp
qed

lemma CBB_init_capacity:
  assumes "N \<le> cap \<or> (N < 2 ^ 64 \<and> cap < 2 ^ 64)"
  shows "fst (CBB_init [] fresh cap) \<and> cbb_capacity N (snd (CBB_init [] fresh cap))"
  using assms by (auto simp: CBB_init_def cbb_init_def mem_next_def cbb_capacity_def capacity_def)

lemma CBB_init_fixed_capacity:
  "N \<le> length buf \<Longrightarrow>
   fst (CBB_init_fixed [] fresh buf) \<and> cbb_capacity N (snd (CBB_init_fixed [] fresh buf))"
  by (simp add: CBB_init_fixed_def cbb_init_def mem_next_def cbb_capacity_def capacity_def)

section \<open>Writing, with both contracts\<close>

definition writes :: "nat \<Rightarrow> u8 list \<Rightarrow> (CBB \<Rightarrow> bool \<times> CBB) \<Rightarrow> bool" where
  "writes d xs m \<longleftrightarrow> implements d (\<lambda>v. put_bytes xs (close_to d v)) m \<and>
     progresses d (\<lambda>v. put_bytes xs (close_to d v)) m"

lemma writes_andthen:
  assumes "writes d xs m" "writes d ys n"
  shows "writes d (xs @ ys) (\<lambda>c. andthen (m c) n)"
proof -
  have "grows (\<lambda>v. put_bytes ys (close_to d v))"
    by (intro grows_compose [OF close_to_grows put_bytes_grows]) simp
  from progresses_andthen [OF _ _ _ this, of d "\<lambda>v. put_bytes xs (close_to d v)" m d n]
    implements_andthen [of d "\<lambda>v. put_bytes xs (close_to d v)" m d "\<lambda>v. put_bytes ys (close_to d v)" n]
  show ?thesis using assms by (simp add: writes_def)
qed

lemma writes_bytes: "length xs < 2 ^ 64 \<Longrightarrow> writes d xs (CBB_add_bytes d xs)"
  by (simp add: writes_def CBB_add_bytes_implements CBB_add_bytes_progresses)

lemma writes_u8: "writes d [x] (CBB_add_u8 d x)"
  by (simp add: writes_def CBB_add_u8_implements CBB_add_u8_progresses)

lemma writes_u8s: "bs \<noteq> [] \<Longrightarrow> writes d bs (add_u8s d bs)"
  by (simp add: writes_def add_u8s_implements add_u8s_progresses)

lemma writes_after_flush:
  assumes "writes d xs m"
  shows "writes d xs (\<lambda>c. andthen (CBB_flush d c) m)"
proof -
  have "grows (\<lambda>v. put_bytes xs (close_to d v))"
    by (intro grows_compose [OF close_to_grows put_bytes_grows]) simp
  from progresses_andthen [OF flush_progresses CBB_flush_implements _ this, of d m d]
    implements_andthen [OF CBB_flush_implements, of d "\<lambda>v. put_bytes xs (close_to d v)" m d]
  show ?thesis using assms by (simp add: writes_def close_to_close_to)
qed

text \<open>What a fresh builder holds when a single writer has run and the builder is finished.\<close>

lemma writes_finish:
  assumes w: "writes 0 xs m" and c: "CBB_init mem fresh cap = (True, c)" "cap < 2 ^ 64"
    and r: "m c = (True, c1)" "CBB_finish 0 outs c1 = (Some out, c2)"
  shows "out = xs"
proof -
  have "implements 0 (\<lambda>v. put_bytes xs (close_to 0 v)) m" using w by (simp add: writes_def)
  from implementsD(1,6) [OF this CBB_init_spec(1) [OF c]] r(1) CBB_init_spec(3) [OF c]
  have "cbb_wf c1" "cbb_view c1 = \<lparr>open_levels = [xs], open_kinds = [], all_fit = True\<rparr>"
    by (simp_all add: close_to_same put_bytes_def app_last_def)
  with CBB_finish_view(2) [OF _ r(2)] show ?thesis by (simp add: close_to_same)
qed

lemma writes_finish_total:
  assumes w: "writes 0 xs m" and c: "CBB_init [] fresh cap = (True, c)" "cap < 2 ^ 64"
    and len: "length xs < 2 ^ 64"
  obtains c1 c2 where "m c = (True, c1)" "CBB_finish 0 True c1 = (Some xs, c2)"
proof -
  have cap: "cbb_capacity (length xs) c"
    using CBB_init_capacity [of "length xs" cap fresh] c len by simp
  note init = CBB_init_spec [OF c]
  obtain ok c1 where r: "m c = (ok, c1)" by force
  have p: "ok" "cbb_capacity (length xs) c1"
    using progressesD [of 0 "\<lambda>v. put_bytes xs (close_to 0 v)" m c] w init(1,3) cap r
    by (simp_all add: writes_def close_to_same put_bytes_def app_last_def bytes_used_def)
  have i: "cbb_wf c1" "cbb_live c1" "cbb_view c1 = \<lparr>open_levels = [xs], open_kinds = [], all_fit = True\<rparr>"
    using implementsD(1,4,6) [of 0 "\<lambda>v. put_bytes xs (close_to 0 v)" m c] w init(1,3) r p
    by (simp_all add: writes_def close_to_same put_bytes_def app_last_def)
  then have "cbb_chain c1 = []" using cbb_live_view(2) [OF i(2)] by simp
  then have "CBB_flush 0 c1 = (True, c1)" using i by (simp add: CBB_flush_same)
  moreover obtain b where "cbb_base c1 = Some b" using i by (auto simp: cbb_live_def)
  ultimately obtain out c2 where f: "CBB_finish 0 True c1 = (Some out, c2)" by (simp add: CBB_finish_def)
  have "out = xs" using writes_finish [OF w c, of c1 True out c2] r p f by simp
  with r p f that show thesis by simp
qed

section \<open>Children written whole\<close>

lemma progresses_cong:
  assumes "progresses d f m" "\<And>v. builder_wf v \<Longrightarrow> d \<le> length (open_kinds v) \<Longrightarrow> f v = g v"
  shows "progresses d g m"
  using assms cbb_live_view [OF cbb_capacity_live] unfolding progresses_def by metis

lemma writes_nothing: "writes d [] (CBB_flush d)"
  unfolding writes_def
  by (intro conjI implements_cong [OF CBB_flush_implements] progresses_cong [OF flush_progresses])
     (simp_all add: put_nothing)

lemma writes_child:
  assumes w: "writes (Suc d) xs w" and len: "length xs \<le> 0xfffffffe"
  shows "writes d (der_element tag xs)
    (\<lambda>c. andthen (CBB_add_asn1 d tag c) (\<lambda>c. andthen (w c) (CBB_flush d)))"
proof -
  have i: "implements (Suc d) (\<lambda>v. put_bytes xs (close_to (Suc d) v)) w"
    and p: "progresses (Suc d) (\<lambda>v. put_bytes xs (close_to (Suc d) v)) w"
    using w by (simp_all add: writes_def)
  have g: "grows (\<lambda>v. close_to d (put_bytes xs (close_to (Suc d) v)))"
    by (intro grows_compose [OF grows_compose [OF close_to_grows put_bytes_grows] close_to_grows]) simp_all
  have p': "progresses (Suc d) (\<lambda>v. close_to d (put_bytes xs (close_to (Suc d) v))) (\<lambda>c. andthen (w c) (CBB_flush d))"
    using progresses_andthen [OF p i flush_progresses close_to_grows, of d] by simp
  have kinds: "Suc d \<le> length (open_kinds (open_child Der (put_bytes ts (close_to d v))))"
    if "d \<le> length (open_kinds v)" for ts v
    using that by (simp add: open_child_def)
  have "progresses d (\<lambda>v. close_to d (put_bytes xs (close_to (Suc d)
      (open_child Der (put_bytes (asn1_tag_enc tag) (close_to d v))))))
    (\<lambda>c. andthen (CBB_add_asn1 d tag c) (\<lambda>c. andthen (w c) (CBB_flush d)))"
    by (rule progresses_andthen [OF CBB_add_asn1_progresses CBB_add_asn1_implements p' g kinds]) simp_all
  then have "progresses d (\<lambda>v. put_bytes (der_element tag xs) (close_to d v))
    (\<lambda>c. andthen (CBB_add_asn1 d tag c) (\<lambda>c. andthen (w c) (CBB_flush d)))"
    by (rule progresses_cong) (use len in \<open>simp add: close_element\<close>)
  with child_writer [OF i, of tag] len show ?thesis by (simp add: writes_def)
qed

lemma int_contents_short:
  "length (asn1_uint_contents (unat (n :: u64))) \<le> 0xfffffffe" "length (asn1_int_contents v) \<le> 0xfffffffe"
proof -
  have b: "length (be_min (unat n)) \<le> 8"
    using unsigned_less [of n, where ?'a = nat] by (intro length_be_min) simp
  have "length (asn1_uint_contents (unat n)) \<le> 9"
    using b by (auto simp: asn1_uint_contents_def Let_def)
  then show "length (asn1_uint_contents (unat n)) \<le> 0xfffffffe" by simp
  have "length (int_strip bs) \<le> length bs" for bs
    by (induction bs rule: int_strip.induct) auto
  from this [of "u64_enc v"] show "length (asn1_int_contents v) \<le> 0xfffffffe"
    by (simp add: asn1_int_contents_def)
qed

lemma writes_asn1_uint64:
  "writes d (der_element CBS_ASN1_INTEGER (asn1_uint_contents (unat n))) (CBB_add_asn1_uint64 d n)"
  unfolding CBB_add_asn1_uint64_eq
  by (intro writes_child writes_u8s asn1_uint_contents_nonempty int_contents_short)

lemma writes_asn1_int64:
  "writes d (der_element CBS_ASN1_INTEGER (asn1_int_contents v)) (CBB_add_asn1_int64 d v)"
  unfolding CBB_add_asn1_int64_eq
  by (intro writes_child writes_u8s asn1_int_contents_nonempty int_contents_short)

lemma writes_asn1_octet_string:
  "length xs \<le> 0xfffffffe \<Longrightarrow>
   writes d (der_element CBS_ASN1_OCTETSTRING xs) (CBB_add_asn1_octet_string d xs)"
  unfolding CBB_add_asn1_octet_string_def [abs_def]
  by (intro writes_child writes_bytes) simp_all

lemma writes_asn1_bool:
  "writes d (der_element CBS_ASN1_BOOLEAN [if b = 0 then 0 else 0xff]) (CBB_add_asn1_bool d b)"
  unfolding CBB_add_asn1_bool_eq by (intro writes_child writes_u8) simp

section \<open>Total round trips\<close>

text \<open>A codec whose writer succeeds whenever there is room.\<close>

locale total_codec = cbb_codec +
  assumes put_writes: "valid x \<Longrightarrow> writes d (enc x) (put d x)"
begin

lemma put_all_writes:
  "list_all valid xs \<Longrightarrow> writes d (concat (map enc xs)) (put_all put d xs)"
proof (induction xs)
  case Nil
  have "put_all put d [] = CBB_flush d" by (rule ext) simp
  then show ?case using writes_nothing by simp
next
  case (Cons x xs)
  have "put_all put d (x # xs) = (\<lambda>c. andthen (put d x c) (put_all put d xs))" by (rule ext) simp
  with Cons writes_andthen [OF put_writes, of x d] show ?case by simp
qed

lemma total_round_trip:
  assumes "list_all valid xs" "length (concat (map enc xs)) < 2 ^ 64" "cap < 2 ^ 64"
  obtains c c1 c2 out where "CBB_init [] fresh cap = (True, c)" "put_all put 0 xs c = (True, c1)"
    "CBB_finish 0 True c1 = (Some out, c2)" "out = concat (map enc xs)" "parse_many get out = Some xs"
proof -
  obtain c where c: "CBB_init [] fresh cap = (True, c)"
    using CBB_init_capacity [of 0 cap fresh] by (metis le0 prod.collapse)
  obtain c1 c2 where r: "put_all put 0 xs c = (True, c1)"
    "CBB_finish 0 True c1 = (Some (concat (map enc xs)), c2)"
    by (rule writes_finish_total [OF put_all_writes [OF assms(1)] c assms(3,2)])
  from round_trip [OF c assms(3,1) r] c r that show thesis by blast
qed

end

interpretation asn1_uint64: total_codec CBB_add_asn1_uint64 CBS_get_asn1_uint64
  "\<lambda>v. der_element CBS_ASN1_INTEGER (asn1_uint_contents (unat v))" "\<lambda>_. True"
  by unfold_locales (rule writes_asn1_uint64)

interpretation asn1_int64: total_codec CBB_add_asn1_int64 CBS_get_asn1_int64
  "\<lambda>v. der_element CBS_ASN1_INTEGER (asn1_int_contents v)" "\<lambda>_. True"
  by unfold_locales (rule writes_asn1_int64)

interpretation asn1_bool: total_codec CBB_add_asn1_bool CBS_get_asn1_bool
  "\<lambda>v. der_element CBS_ASN1_BOOLEAN [if v = 0 then 0 else 0xff]" "\<lambda>v. v \<in> {0, 1}"
  by unfold_locales (rule writes_asn1_bool)

end
