(* ===== verification/Unicode.thy ===== *)
theory Unicode
  imports Cbb_Progress
begin

text \<open>
  \<open>crypto/bytestring/unicode.c\<close>: readers and writers of UTF-8, Latin-1, UCS-2 and UTF-32.
  Each pair is a \<open>cbb_codec\<close> over the valid code points the encoding can express.
\<close>

section \<open>The code\<close>

definition is_valid_code_point :: "u32 \<Rightarrow> bool" where
  "is_valid_code_point v =
     (if v > 0x10ffff \<or> v AND 0xfffe = 0xfffe \<or> (v \<ge> 0xfdd0 \<and> v \<le> 0xfdef) \<or>
         (v \<ge> 0xd800 \<and> v \<le> 0xdfff) then False else True)"

definition BOTTOM_BITS :: "nat \<Rightarrow> u8" where
  "BOTTOM_BITS n = ucast (push_bit n 1 - 1 :: u32)"

definition TOP_BITS :: "nat \<Rightarrow> u8" where
  "TOP_BITS n = NOT (BOTTOM_BITS (8 - n))"

fun utf8_loop :: "nat \<Rightarrow> u32 \<Rightarrow> CBS \<Rightarrow> (u32 \<times> CBS) option" where
  "utf8_loop 0 v cbs = Some (v, cbs)"
| "utf8_loop (Suc len) v cbs = do {
     (c, cbs) \<leftarrow> CBS_get_u8 cbs;
     if c AND TOP_BITS 2 \<noteq> TOP_BITS 1 then None
     else utf8_loop len (push_bit 6 v OR ucast (c AND BOTTOM_BITS 6)) cbs
   }"

definition cbs_get_utf8 :: "CBS \<Rightarrow> (u32 \<times> CBS) option" where
  "cbs_get_utf8 cbs = do {
     (c, cbs) \<leftarrow> CBS_get_u8 cbs;
     if c \<le> 0x7f then Some (ucast c, cbs)
     else do {
       (v, len, lower_bound) \<leftarrow>
         (if c AND TOP_BITS 3 = TOP_BITS 2 then Some (ucast (c AND BOTTOM_BITS 5), 1, 0x80)
          else if c AND TOP_BITS 4 = TOP_BITS 3 then Some (ucast (c AND BOTTOM_BITS 4), 2, 0x800)
          else if c AND TOP_BITS 5 = TOP_BITS 4 then Some (ucast (c AND BOTTOM_BITS 3), 3, 0x10000)
          else None);
       (v, cbs) \<leftarrow> utf8_loop len v cbs;
       if \<not> is_valid_code_point v \<or> v < lower_bound then None else Some (v, cbs)
     }
   }"

definition cbs_get_latin1 :: "CBS \<Rightarrow> (u32 \<times> CBS) option" where
  "cbs_get_latin1 cbs = do { (c, cbs) \<leftarrow> CBS_get_u8 cbs; Some (ucast c, cbs) }"

definition cbs_get_ucs2_be :: "CBS \<Rightarrow> (u32 \<times> CBS) option" where
  "cbs_get_ucs2_be cbs = do {
     (c, cbs) \<leftarrow> CBS_get_u16 cbs;
     if \<not> is_valid_code_point (ucast c) then None else Some (ucast c, cbs)
   }"

definition cbs_get_utf32_be :: "CBS \<Rightarrow> (u32 \<times> CBS) option" where
  "cbs_get_utf32_be cbs = do {
     (v, cbs) \<leftarrow> CBS_get_u32 cbs;
     if is_valid_code_point v then Some (v, cbs) else None
   }"

definition cbb_get_utf8_len :: "u32 \<Rightarrow> size_t" where
  "cbb_get_utf8_len u = (if u \<le> 0x7f then 1 else if u \<le> 0x7ff then 2 else if u \<le> 0xffff then 3 else 4)"

definition cbb_add_utf8 :: "nat \<Rightarrow> u32 \<Rightarrow> CBB \<Rightarrow> bool \<times> CBB" where
  "cbb_add_utf8 d u cbb =
     (if \<not> is_valid_code_point u then (False, cbb)
      else if u \<le> 0x7f then CBB_add_u8 d (ucast u) cbb
      else if u \<le> 0x7ff then
        andthen (CBB_add_u8 d (ucast (ucast (TOP_BITS 2) OR drop_bit 6 u)) cbb)
          (CBB_add_u8 d (ucast (ucast (TOP_BITS 1) OR (u AND ucast (BOTTOM_BITS 6)))))
      else if u \<le> 0xffff then
        andthen (CBB_add_u8 d (ucast (ucast (TOP_BITS 3) OR drop_bit 12 u)) cbb) (\<lambda>cbb.
          andthen (CBB_add_u8 d
              (ucast (ucast (TOP_BITS 1) OR (drop_bit 6 u AND ucast (BOTTOM_BITS 6)))) cbb)
            (CBB_add_u8 d (ucast (ucast (TOP_BITS 1) OR (u AND ucast (BOTTOM_BITS 6))))))
      else if u \<le> 0x10ffff then
        andthen (CBB_add_u8 d (ucast (ucast (TOP_BITS 4) OR drop_bit 18 u)) cbb) (\<lambda>cbb.
          andthen (CBB_add_u8 d
              (ucast (ucast (TOP_BITS 1) OR (drop_bit 12 u AND ucast (BOTTOM_BITS 6)))) cbb) (\<lambda>cbb.
            andthen (CBB_add_u8 d
                (ucast (ucast (TOP_BITS 1) OR (drop_bit 6 u AND ucast (BOTTOM_BITS 6)))) cbb)
              (CBB_add_u8 d (ucast (ucast (TOP_BITS 1) OR (u AND ucast (BOTTOM_BITS 6)))))))
      else (False, cbb))"

definition cbb_add_latin1 :: "nat \<Rightarrow> u32 \<Rightarrow> CBB \<Rightarrow> bool \<times> CBB" where
  "cbb_add_latin1 d u cbb = (if u \<le> 0xff then CBB_add_u8 d (ucast u) cbb else (False, cbb))"

definition cbb_add_ucs2_be :: "nat \<Rightarrow> u32 \<Rightarrow> CBB \<Rightarrow> bool \<times> CBB" where
  "cbb_add_ucs2_be d u cbb =
     (if u \<le> 0xffff \<and> is_valid_code_point u then CBB_add_u16 d (ucast u) cbb else (False, cbb))"

definition cbb_add_utf32_be :: "nat \<Rightarrow> u32 \<Rightarrow> CBB \<Rightarrow> bool \<times> CBB" where
  "cbb_add_utf32_be d u cbb = (if is_valid_code_point u then CBB_add_u32 d u cbb else (False, cbb))"

section \<open>Code points and octets as numbers\<close>

text \<open>The scalar values that are not reserved, as the Unicode standard lists them.\<close>

definition code_point :: "nat \<Rightarrow> bool" where
  "code_point n \<longleftrightarrow> n \<le> 0x10ffff \<and> n mod 0x10000 < 0xfffe \<and> n \<notin> {0xfdd0..0xfdef} \<and> n \<notin> {0xd800..0xdfff}"

definition utf8_enc :: "nat \<Rightarrow> u8 list" where
  "utf8_enc n =
     (if n \<le> 0x7f then [of_nat n]
      else if n \<le> 0x7ff then [of_nat (0xc0 + n div 64), of_nat (0x80 + n mod 64)]
      else if n \<le> 0xffff then
        [of_nat (0xe0 + n div 4096), of_nat (0x80 + n div 64 mod 64), of_nat (0x80 + n mod 64)]
      else [of_nat (0xf0 + n div 262144), of_nat (0x80 + n div 4096 mod 64),
            of_nat (0x80 + n div 64 mod 64), of_nat (0x80 + n mod 64)])"

lemma bits_values:
  "BOTTOM_BITS 6 = 0x3f" "BOTTOM_BITS 5 = 0x1f" "BOTTOM_BITS 4 = 0xf" "BOTTOM_BITS 3 = 0x7"
  "TOP_BITS (Suc 0) = 0x80" "TOP_BITS 1 = 0x80" "TOP_BITS 2 = 0xc0" "TOP_BITS 3 = 0xe0" "TOP_BITS 4 = 0xf0" "TOP_BITS 5 = 0xf8"
  by (simp_all add: BOTTOM_BITS_def TOP_BITS_def push_bit_eq_mult)

lemma and_top:
  fixes c :: "'a::len word"
  shows "c AND NOT (mask k) = push_bit k (drop_bit k c)"
  by (intro bit_word_eqI) (auto simp: bit_simps)

lemma unat_and_top: "unat (c AND NOT (mask k) :: u8) = unat c div 2 ^ k * 2 ^ k"
proof -
  have "unat c div 2 ^ k * 2 ^ k < 2 ^ 8"
    using unsigned_less [of c, where ?'a = nat] by (auto intro: le_less_trans [OF div_times_less_eq_dividend])
  then show ?thesis
    by (simp add: and_top unsigned_push_bit_eq push_bit_nat_def unat_drop take_bit_nat_eq_self)
qed

lemma octet_classes:
  "c AND 0xc0 = (0x80 :: u8) \<longleftrightarrow> unat c div 64 = 2"
  "c AND 0xe0 = (0xc0 :: u8) \<longleftrightarrow> unat c div 32 = 6"
  "c AND 0xf0 = (0xe0 :: u8) \<longleftrightarrow> unat c div 16 = 14"
  "c AND 0xf8 = (0xf0 :: u8) \<longleftrightarrow> unat c div 8 = 30"
proof -
  have m: "(0xc0 :: u8) = NOT (mask 6)" "(0xe0 :: u8) = NOT (mask 5)"
    "(0xf0 :: u8) = NOT (mask 4)" "(0xf8 :: u8) = NOT (mask 3)"
    by (simp_all add: mask_eq_exp_minus_1)
  show "c AND 0xc0 = (0x80 :: u8) \<longleftrightarrow> unat c div 64 = 2"
    using unat_and_top [of c 6] unfolding m(1) word_unat_eq_iff by simp
  show "c AND 0xe0 = (0xc0 :: u8) \<longleftrightarrow> unat c div 32 = 6"
    using unat_and_top [of c 5] unfolding m(2) [symmetric] word_unat_eq_iff by simp
  show "c AND 0xf0 = (0xe0 :: u8) \<longleftrightarrow> unat c div 16 = 14"
    using unat_and_top [of c 4] unfolding m(3) [symmetric] word_unat_eq_iff by simp
  show "c AND 0xf8 = (0xf0 :: u8) \<longleftrightarrow> unat c div 8 = 30"
    using unat_and_top [of c 3] unfolding m(4) [symmetric] word_unat_eq_iff by simp
qed

lemma octet_bits:
  fixes c :: u8
  shows "unat (c AND 0x3f) = unat c mod 64" "unat (c AND 0x1f) = unat c mod 32"
    "unat (c AND 0xf) = unat c mod 16" "unat (c AND 0x7) = unat c mod 8"
  using unat_and_mask [of c 6] unat_and_mask [of c 5] unat_and_mask [of c 4] unat_and_mask [of c 3]
  by (simp_all add: mask_eq_exp_minus_1)

lemma is_valid_code_point_iff: "is_valid_code_point v \<longleftrightarrow> code_point (unat v)"
proof -
  have "v AND 0xfffe = push_bit 1 (drop_bit 1 (take_bit 16 v))"
  proof -
    have m: "(0xfffe :: u32) = push_bit 1 (mask 15)" by (simp add: mask_eq_exp_minus_1)
    show ?thesis unfolding m
      by (intro bit_word_eqI) (auto simp: bit_simps simp del: push_bit_Suc One_nat_def)
  qed
  moreover have "unat v mod 2 ^ 16 div 2 * 2 < 2 ^ 32"
    by (rule le_less_trans [OF div_times_less_eq_dividend]) (rule less_trans [of _ "2 ^ 16"], simp_all)
  moreover have "unat (drop_bit 1 (take_bit 16 v)) = unat v mod 2 ^ 16 div 2"
    by (simp add: unat_drop unat_take_bit)
  ultimately have "v AND 0xfffe = push_bit 1 (drop_bit 1 (take_bit 16 v))"
    "unat (push_bit 1 (drop_bit 1 (take_bit 16 v))) = unat v mod 2 ^ 16 div 2 * 2"
    using unat_push [of "drop_bit 1 (take_bit 16 v)" 1] by simp_all
  then have "unat (v AND 0xfffe) = unat v mod 2 ^ 16 div 2 * 2"
    by (simp only:)
  then have "v AND 0xfffe = 0xfffe \<longleftrightarrow> unat v mod 2 ^ 16 div 2 * 2 = 0xfffe"
    by (simp add: word_unat_eq_iff)
  also have "\<dots> \<longleftrightarrow> \<not> unat v mod 0x10000 < 0xfffe"
    using mod_less_divisor [of "2 ^ 16" "unat v"] by simp linarith
  finally show ?thesis
    by (auto simp: is_valid_code_point_def code_point_def word_less_nat_alt word_le_nat_alt)
qed

definition cont :: "nat \<Rightarrow> u8" where "cont y = of_nat (0x80 + y)"

lemma unat_of_nat_small: "n < 256 \<Longrightarrow> unat (of_nat n :: u8) = n"
  by (simp add: unat_of_nat_u8)

lemma of_nat_unat_u8: "of_nat (unat c) = (c :: u8)"
  by simp

lemma octet_lead:
  fixes c :: u8
  assumes "b = q * m" "b + m \<le> 256" "0 < m"
  shows "unat c div m = q \<longleftrightarrow> (\<exists>x<m. c = of_nat (b + x))"
proof
  assume "unat c div m = q"
  then have "unat c = b + unat c mod m" using assms by (metis div_mult_mod_eq)
  then have "c = of_nat (b + unat c mod m)" by (metis of_nat_unat_u8)
  then show "\<exists>x<m. c = of_nat (b + x)" using assms by (metis mod_less_divisor)
next
  assume "\<exists>x<m. c = of_nat (b + x)"
  then obtain x where "x < m" "c = of_nat (b + x)" by blast
  then have "unat c = b + x" using assms by (simp add: unat_of_nat_small del: of_nat_add)
  with \<open>x < m\<close> assms show "unat c div m = q" by simp
qed

section \<open>UTF-8\<close>

lemma unat_cont: "y < 64 \<Longrightarrow> unat (cont y) = 0x80 + y"
  by (simp add: cont_def unat_of_nat_small del: of_nat_add)

lemma cont_class: "c AND 0xc0 = (0x80 :: u8) \<longleftrightarrow> (\<exists>y<64. c = cont y)"
  using octet_lead [of 128 2 64 c] by (simp add: octet_classes cont_def del: of_nat_add)

lemma mod_eq_sub: "y < m \<Longrightarrow> (q * m + y) mod m = y" for y m q :: nat
  by simp

lemma utf8_step:
  assumes "unat v * 64 + 64 \<le> 2 ^ 32" "y < 64"
  shows "unat (push_bit 6 v OR ucast (cont y AND 0x3f) :: u32) = unat v * 64 + y"
proof -
  have "unat (ucast (cont y AND 0x3f) :: u32) = y"
    using assms mod_eq_sub [of y 64 2] by (simp add: unat_ucast_up octet_bits unat_cont)
  then show ?thesis using assms unat_or_shift [of "ucast (cont y AND 0x3f)" 6 v] by simp
qed

lemma ex_length_Suc:
  "(\<exists>ys. length ys = Suc n \<and> P ys) \<longleftrightarrow> (\<exists>y ys. length ys = n \<and> P (y # ys))"
  by (metis length_Cons length_Suc_conv)

lemma utf8_loop_iff:
  assumes "(unat v + 1) * 64 ^ len \<le> 2 ^ 32"
  shows "utf8_loop len v s = Some (w, r) \<longleftrightarrow>
    (\<exists>ys. length ys = len \<and> (\<forall>y\<in>set ys. y < 64) \<and> s = map cont ys @ r \<and>
       unat w = foldl (\<lambda>a y. a * 64 + y) (unat v) ys)"
  using assms
proof (induction len arbitrary: v s)
  case 0
  show ?case by (auto simp: word_unat_eq_iff)
next
  case (Suc len)
  have "(unat v + 1) * 64 ^ 1 \<le> (unat v + 1) * 64 ^ Suc len"
    by (intro mult_le_mono2 power_increasing) simp_all
  from order_trans [OF this Suc.prems] have le: "unat v * 64 + 64 \<le> 2 ^ 32" by simp
  have IH: "utf8_loop len (push_bit 6 v OR ucast (cont y AND 0x3f)) t = Some (w, r) \<longleftrightarrow>
      (\<exists>ys. length ys = len \<and> (\<forall>y\<in>set ys. y < 64) \<and> t = map cont ys @ r \<and>
         unat w = foldl (\<lambda>a y. a * 64 + y) (unat v * 64 + y) ys)" if "y < 64" for y t
  proof -
    have "(unat v * 64 + y + 1) * 64 ^ len \<le> ((unat v + 1) * 64) * 64 ^ len"
      using that by (intro mult_le_mono1) simp
    also have "\<dots> = (unat v + 1) * 64 ^ Suc len" by (simp only: power_Suc mult.assoc)
    finally have "(unat (push_bit 6 v OR ucast (cont y AND 0x3f) :: u32) + 1) * 64 ^ len \<le> 2 ^ 32"
      using Suc.prems utf8_step [OF le that] by simp
    from Suc.IH [OF this] show ?thesis by (simp only: utf8_step [OF le that])
  qed
  show ?case
  proof (cases s)
    case (Cons c t)
    have "utf8_loop (Suc len) v s = Some (w, r) \<longleftrightarrow>
        (\<exists>y<64. c = cont y \<and> utf8_loop len (push_bit 6 v OR ucast (cont y AND 0x3f)) t = Some (w, r))"
      using Cons cont_class [of c] by (auto simp: bits_values)
    also have "\<dots> \<longleftrightarrow> (\<exists>y<64. c = cont y \<and> (\<exists>ys. length ys = len \<and> (\<forall>y\<in>set ys. y < 64) \<and>
        t = map cont ys @ r \<and> unat w = foldl (\<lambda>a y. a * 64 + y) (unat v * 64 + y) ys))"
      using IH by blast
    also have "\<dots> \<longleftrightarrow> (\<exists>ys. length ys = Suc len \<and> (\<forall>y\<in>set ys. y < 64) \<and>
        s = map cont ys @ r \<and> unat w = foldl (\<lambda>a y. a * 64 + y) (unat v) ys)"
      unfolding ex_length_Suc Cons by auto
    finally show ?thesis .
  qed (auto simp: length_Suc_conv)
qed

text \<open>What the tests on the lead octet say for each form.\<close>

lemma utf8_lead:
  "x < 32 \<Longrightarrow> unat (of_nat (0xc0 + x) :: u8) = 0xc0 + x"
  "x < 16 \<Longrightarrow> unat (of_nat (0xe0 + x) :: u8) = 0xe0 + x"
  "x < 8 \<Longrightarrow> unat (of_nat (0xf0 + x) :: u8) = 0xf0 + x"
  "x < 128 \<Longrightarrow> unat (of_nat x :: u8) = x"
  by (simp_all add: unat_of_nat_small del: of_nat_add)

definition utf8_rest :: "nat \<Rightarrow> nat \<Rightarrow> u32 \<Rightarrow> CBS \<Rightarrow> (u32 \<times> CBS) option" where
  "utf8_rest x len lower_bound cbs = do {
     (v, cbs) \<leftarrow> utf8_loop len (of_nat x) cbs;
     if \<not> is_valid_code_point v \<or> v < lower_bound then None else Some (v, cbs)
   }"

lemma utf8_rest_iff:
  assumes "(x + 1) * 64 ^ len \<le> 2 ^ 32" "x < 32"
  shows "utf8_rest x len b s = Some (v, r) \<longleftrightarrow>
    (\<exists>ys. length ys = len \<and> (\<forall>y\<in>set ys. y < 64) \<and> s = map cont ys @ r \<and>
       unat v = foldl (\<lambda>a y. a * 64 + y) x ys) \<and> code_point (unat v) \<and> unat b \<le> unat v"
proof -
  have "unat (of_nat x :: u32) = x" using assms by (simp add: unat_of_nat)
  then show ?thesis
    using utf8_loop_iff [of "of_nat x" len s v r] assms
    by (auto simp: utf8_rest_def bind_eq_Some_conv is_valid_code_point_iff word_less_nat_alt not_less)
qed

lemma ucast_low_bits:
  "x < 32 \<Longrightarrow> ucast (of_nat (0xc0 + x) AND 0x1f :: u8) = (of_nat x :: u32)"
  "x < 16 \<Longrightarrow> ucast (of_nat (0xe0 + x) AND 0xf :: u8) = (of_nat x :: u32)"
  "x < 8 \<Longrightarrow> ucast (of_nat (0xf0 + x) AND 0x7 :: u8) = (of_nat x :: u32)"
  "x < 128 \<Longrightarrow> ucast (of_nat x :: u8) = (of_nat x :: u32)"
proof -
  have *: "ucast c = (of_nat x :: u32)" if "unat (c :: u8) = x" for c x
  proof -
    have "x < 2 ^ 32" using that unat_u8_less [of c] by simp
    then show ?thesis using that by (simp add: word_unat_eq_iff unat_ucast_up unat_of_nat)
  qed
  show "x < 32 \<Longrightarrow> ucast (of_nat (0xc0 + x) AND 0x1f :: u8) = (of_nat x :: u32)"
    "x < 16 \<Longrightarrow> ucast (of_nat (0xe0 + x) AND 0xf :: u8) = (of_nat x :: u32)"
    "x < 8 \<Longrightarrow> ucast (of_nat (0xf0 + x) AND 0x7 :: u8) = (of_nat x :: u32)"
    "x < 128 \<Longrightarrow> ucast (of_nat x :: u8) = (of_nat x :: u32)"
    by (rule *, simp add: octet_bits utf8_lead mod_eq_sub [of x 32 6, simplified]
        mod_eq_sub [of x 16 14, simplified] mod_eq_sub [of x 8 30, simplified] del: of_nat_add)+
qed

lemma lead_div:
  "x < 32 \<Longrightarrow> (192 + x) div 32 = 6"
  "x < 16 \<Longrightarrow> (224 + x) div 32 = 7" "x < 16 \<Longrightarrow> (224 + x) div 16 = 14"
  "x < 8 \<Longrightarrow> (240 + x) div 32 = 7" "x < 8 \<Longrightarrow> (240 + x) div 16 = 15" "x < 8 \<Longrightarrow> (240 + x) div 8 = 30"
  for x :: nat
  by (rule div_nat_eqI; simp)+

lemma length_2_3:
  "length ys = 2 \<longleftrightarrow> (\<exists>a b. ys = [a, b])" "length ys = 3 \<longleftrightarrow> (\<exists>a b c. ys = [a, b, c])"
  by (auto simp: numeral_2_eq_2 numeral_3_eq_3 length_Suc_conv)

lemma utf8_Cons:
  "x < 128 \<Longrightarrow> cbs_get_utf8 (of_nat x # t) = Some (of_nat x, t)"
  "x < 32 \<Longrightarrow> cbs_get_utf8 (of_nat (0xc0 + x) # t) = utf8_rest x 1 0x80 t"
  "x < 16 \<Longrightarrow> cbs_get_utf8 (of_nat (0xe0 + x) # t) = utf8_rest x 2 0x800 t"
  "x < 8 \<Longrightarrow> cbs_get_utf8 (of_nat (0xf0 + x) # t) = utf8_rest x 3 0x10000 t"
  by (simp_all add: cbs_get_utf8_def utf8_rest_def bits_values octet_classes utf8_lead ucast_low_bits
      word_le_nat_alt lead_div del: of_nat_add)

lemma utf8_class:
  assumes "cbs_get_utf8 (c # t) = Some (v, r)"
  shows "(\<exists>x<128. c = of_nat x) \<or> (\<exists>x<32. c = of_nat (0xc0 + x)) \<or>
    (\<exists>x<16. c = of_nat (0xe0 + x)) \<or> (\<exists>x<8. c = of_nat (0xf0 + x))"
proof -
  have "c \<le> 0x7f \<or> unat c div 32 = 6 \<or> unat c div 16 = 14 \<or> unat c div 8 = 30"
    using assms by (auto simp: cbs_get_utf8_def bits_values octet_classes split: if_splits)
  moreover have "c \<le> 0x7f \<Longrightarrow> \<exists>x<128. c = of_nat x"
    by (rule exI [of _ "unat c"]) (simp add: word_le_nat_alt)
  ultimately show ?thesis
    using octet_lead [of 192 6 32 c] octet_lead [of 224 14 16 c] octet_lead [of 240 30 8 c] by auto
qed

lemma div_mod_64: "y < 64 \<Longrightarrow> (q * 64 + y) div 64 = q" "y < 64 \<Longrightarrow> (q * 64 + y) mod 64 = y"
  for q y :: nat
  by simp_all

lemma cbs_get_utf8_only:
  assumes "cbs_get_utf8 s = Some (v, r)"
  shows "code_point (unat v) \<and> s = utf8_enc (unat v) @ r"
proof (cases s)
  case Nil
  with assms show ?thesis by (simp add: cbs_get_utf8_def)
next
  case (Cons c t)
  with assms have g: "cbs_get_utf8 (c # t) = Some (v, r)" by simp
  from utf8_class [OF g] consider x where "x < 128" "c = of_nat x" | x where "x < 32" "c = of_nat (0xc0 + x)"
    | x where "x < 16" "c = of_nat (0xe0 + x)" | x where "x < 8" "c = of_nat (0xf0 + x)" by blast
  then show ?thesis
  proof cases
    case 1
    with g have "unat v = x" "t = r" by (auto simp: utf8_Cons unat_of_nat)
    with 1 Cons show ?thesis by (simp add: utf8_enc_def code_point_def)
  next
    case 2
    with g obtain y where y: "y < 64" "t = cont y # r" "unat v = x * 64 + y" "0x80 \<le> unat v" "code_point (unat v)"
      by (auto simp: utf8_Cons utf8_rest_iff length_Suc_conv simp del: of_nat_add)
    with 2 Cons show ?thesis by (simp add: utf8_enc_def cont_def del: of_nat_add)
  next
    case 3
    with g obtain y z where y: "y < 64" "z < 64" "t = cont y # cont z # r" "unat v = (x * 64 + y) * 64 + z"
      "0x800 \<le> unat v" "code_point (unat v)"
      by (auto simp: utf8_Cons utf8_rest_iff length_2_3 simp del: of_nat_add)
    have "unat v div 64 = x * 64 + y" "unat v mod 64 = z"
      using div_mod_64 [OF y(2), of "x * 64 + y"] by (simp_all only: y(4))
    moreover from this y have "unat v div 4096 = x" by (simp add: div_mult2_eq [of _ 64 64, simplified])
    ultimately show ?thesis using 3 y Cons by (simp add: utf8_enc_def cont_def del: of_nat_add)
  next
    case 4
    with g obtain y z w where y: "y < 64" "z < 64" "w < 64" "t = cont y # cont z # cont w # r"
      "unat v = ((x * 64 + y) * 64 + z) * 64 + w" "0x10000 \<le> unat v" "code_point (unat v)"
      by (auto simp: utf8_Cons utf8_rest_iff length_2_3 simp del: of_nat_add)
    have d: "unat v div 64 = (x * 64 + y) * 64 + z" "unat v mod 64 = w"
      using div_mod_64 [OF y(3), of "(x * 64 + y) * 64 + z"] by (simp_all only: y(5))
    from d y have d2: "unat v div 4096 = x * 64 + y" by (simp add: div_mult2_eq [of _ 64 64, simplified])
    from d2 y have "unat v div 262144 = x" by (simp add: div_mult2_eq [of _ 4096 64, simplified])
    moreover have "unat v div 64 mod 64 = z" "unat v div 4096 mod 64 = y"
      using y(1-3) by (simp_all only: d d2 div_mod_64)
    ultimately show ?thesis using d 4 y(4,6,7) Cons by (simp add: utf8_enc_def cont_def del: of_nat_add)
  qed
qed

lemma cbs_get_utf8_enc_nat:
  assumes "code_point n"
  shows "cbs_get_utf8 (utf8_enc n @ r) = Some (of_nat n, r)"
proof -
  have n: "n \<le> 0x10ffff" "code_point n" using assms by (simp_all add: code_point_def)
  then have u: "unat (of_nat n :: u32) = n" by (simp add: unat_of_nat)
  consider "n < 128" | "128 \<le> n" "n \<le> 0x7ff" | "0x7ff < n" "n \<le> 0xffff" | "0xffff < n" by linarith
  then show ?thesis
  proof cases
    case 1
    then show ?thesis by (simp add: utf8_enc_def utf8_Cons)
  next
    case 2
    have "n div 64 < 32" using 2 by (simp add: less_mult_imp_div_less)
    moreover have "utf8_rest (n div 64) 1 0x80 (cont (n mod 64) # r) = Some (of_nat n, r)"
      using \<open>n div 64 < 32\<close> 2 n
      by (subst utf8_rest_iff) (auto intro!: exI [of _ "[n mod 64]"] simp: u)
    ultimately show ?thesis
      using 2 by (simp add: utf8_enc_def utf8_Cons cont_def del: of_nat_add)
  next
    case 3
    have "n div 4096 < 16" using 3 by (simp add: less_mult_imp_div_less)
    moreover have "(n div 4096 * 64 + n div 64 mod 64) * 64 + n mod 64 = n"
      using div_mult_mod_eq [of "n div 64" 64] div_mult_mod_eq [of n 64] by (simp add: div_mult2_eq [of n 64 64, simplified])
    then have "utf8_rest (n div 4096) 2 0x800 (cont (n div 64 mod 64) # cont (n mod 64) # r) = Some (of_nat n, r)"
      using \<open>n div 4096 < 16\<close> 3 n
      by (subst utf8_rest_iff) (auto intro!: exI [of _ "[n div 64 mod 64, n mod 64]"] simp: u)
    ultimately show ?thesis
      using 3 by (simp add: utf8_enc_def utf8_Cons cont_def del: of_nat_add)
  next
    case 4
    have "n div 262144 < 8" using n by (simp add: less_mult_imp_div_less)
    moreover have "((n div 262144 * 64 + n div 4096 mod 64) * 64 + n div 64 mod 64) * 64 + n mod 64 = n"
      using div_mult_mod_eq [of "n div 4096" 64] div_mult_mod_eq [of "n div 64" 64] div_mult_mod_eq [of n 64]
      by (simp add: div_mult2_eq [of n 64 64, simplified] div_mult2_eq [of n 4096 64, simplified])
    then have "utf8_rest (n div 262144) 3 0x10000
        (cont (n div 4096 mod 64) # cont (n div 64 mod 64) # cont (n mod 64) # r) = Some (of_nat n, r)"
      using \<open>n div 262144 < 8\<close> 4 n
      by (subst utf8_rest_iff)
         (auto intro!: exI [of _ "[n div 4096 mod 64, n div 64 mod 64, n mod 64]"] simp: u)
    ultimately show ?thesis
      using 4 by (simp add: utf8_enc_def utf8_Cons cont_def del: of_nat_add)
  qed
qed

lemma cbs_get_utf8_enc:
  "code_point (unat v) \<Longrightarrow> cbs_get_utf8 (utf8_enc (unat v) @ r) = Some (v, r)"
  using cbs_get_utf8_enc_nat [of "unat v" r] by simp

section \<open>Writers\<close>

lemma octet_of_bits:
  fixes x :: u32
  assumes "unat x < 2 ^ k" "a * 2 ^ k + unat x < 256" "a < 256"
  shows "ucast (push_bit k (of_nat a) OR x) = (of_nat (a * 2 ^ k + unat x) :: u8)"
proof -
  have "unat (of_nat a :: u32) = a" using assms by (simp add: unat_of_nat)
  then have "unat (push_bit k (of_nat a) OR x) = a * 2 ^ k + unat x"
    using assms by (subst unat_or_shift) simp_all
  then show ?thesis
    using assms by (simp add: word_unat_eq_iff unat_ucast_mod unat_of_nat_small del: of_nat_add)
qed

lemma utf8_octets:
  fixes u w :: u32
  shows "unat u \<le> 0x7ff \<Longrightarrow> ucast (ucast (TOP_BITS 2) OR drop_bit 6 u) = (of_nat (0xc0 + unat u div 64) :: u8)"
    "unat u \<le> 0xffff \<Longrightarrow> ucast (ucast (TOP_BITS 3) OR drop_bit 12 u) = (of_nat (0xe0 + unat u div 4096) :: u8)"
    "unat u \<le> 0x10ffff \<Longrightarrow> ucast (ucast (TOP_BITS 4) OR drop_bit 18 u) = (of_nat (0xf0 + unat u div 262144) :: u8)"
    "ucast (ucast (TOP_BITS 1) OR (w AND ucast (BOTTOM_BITS 6))) = (of_nat (0x80 + unat w mod 64) :: u8)"
proof -
  have top: "ucast (TOP_BITS 2) = push_bit 6 (of_nat 3 :: u32)" "ucast (TOP_BITS 3) = push_bit 4 (of_nat 14 :: u32)"
    "ucast (TOP_BITS 4) = push_bit 3 (of_nat 30 :: u32)" "ucast (TOP_BITS 1) = push_bit 6 (of_nat 2 :: u32)"
    by (simp_all add: bits_values push_bit_eq_mult)
  have low: "unat (w AND ucast (BOTTOM_BITS 6) :: u32) = unat w mod 64" for w
    using unat_and_mask [of w 6] by (simp add: bits_values mask_eq_exp_minus_1)
  show "unat u \<le> 0x7ff \<Longrightarrow> ucast (ucast (TOP_BITS 2) OR drop_bit 6 u) = (of_nat (0xc0 + unat u div 64) :: u8)"
    unfolding top by (subst octet_of_bits) (simp_all add: unat_drop less_mult_imp_div_less)
  show "unat u \<le> 0xffff \<Longrightarrow> ucast (ucast (TOP_BITS 3) OR drop_bit 12 u) = (of_nat (0xe0 + unat u div 4096) :: u8)"
    unfolding top by (subst octet_of_bits) (simp_all add: unat_drop less_mult_imp_div_less)
  show "unat u \<le> 0x10ffff \<Longrightarrow> ucast (ucast (TOP_BITS 4) OR drop_bit 18 u) = (of_nat (0xf0 + unat u div 262144) :: u8)"
    unfolding top by (subst octet_of_bits) (simp_all add: unat_drop less_mult_imp_div_less)
  show "ucast (ucast (TOP_BITS 1) OR (w AND ucast (BOTTOM_BITS 6))) = (of_nat (0x80 + unat w mod 64) :: u8)"
    unfolding top by (subst octet_of_bits) (simp_all only: low, simp_all)
qed

lemmas utf8_octets' = utf8_octets(1-3) utf8_octets(4) utf8_octets(4) [unfolded One_nat_def]

lemma cbb_add_utf8_eq:
  assumes "code_point (unat u)"
  shows "cbb_add_utf8 d u = add_u8s d (utf8_enc (unat u))"
proof -
  have u: "unat u \<le> 0x10ffff" "is_valid_code_point u"
    using assms by (simp_all add: code_point_def is_valid_code_point_iff)
  consider "unat u \<le> 0x7f" | "0x7f < unat u" "unat u \<le> 0x7ff" | "0x7ff < unat u" "unat u \<le> 0xffff"
    | "0xffff < unat u" by linarith
  then show ?thesis
  proof cases
    case 1
    then have "ucast u = (of_nat (unat u) :: u8)"
      by (simp add: word_unat_eq_iff unat_ucast_mod unat_of_nat_u8)
    with 1 u show ?thesis
      by (intro ext) (simp add: cbb_add_utf8_def utf8_enc_def word_le_nat_alt add_u8s_Nil)
  next
    case 2
    with u show ?thesis
      by (intro ext) (simp add: cbb_add_utf8_def utf8_enc_def word_le_nat_alt add_u8s_Nil add_u8s_Cons
          utf8_octets' del: of_nat_add)
  next
    case 3
    with u show ?thesis
      by (intro ext) (simp add: cbb_add_utf8_def utf8_enc_def word_le_nat_alt add_u8s_Nil add_u8s_Cons
          utf8_octets' unat_drop del: of_nat_add)
  next
    case 4
    with u show ?thesis
      by (intro ext) (simp add: cbb_add_utf8_def utf8_enc_def word_le_nat_alt add_u8s_Nil add_u8s_Cons
          utf8_octets' unat_drop del: of_nat_add)
  qed
qed

lemma utf8_enc_nonempty [simp]: "utf8_enc n \<noteq> []"
  by (simp add: utf8_enc_def)

interpretation utf8: total_codec cbb_add_utf8 cbs_get_utf8 "\<lambda>u. utf8_enc (unat u)" "\<lambda>u. code_point (unat u)"
  by unfold_locales
    (simp_all add: cbb_add_utf8_eq add_u8s_implements writes_u8s cbs_get_utf8_enc cbs_get_utf8_only)

lemma cbb_get_utf8_len_eq: "code_point (unat u) \<Longrightarrow> cbb_get_utf8_len u = length (utf8_enc (unat u))"
  by (simp add: cbb_get_utf8_len_def utf8_enc_def word_le_nat_alt)

section \<open>The fixed-width encodings\<close>

lemma u32_of_octet: "unat (v :: u32) < 256 \<Longrightarrow> ucast (ucast v :: u8) = v"
  by (simp add: word_unat_eq_iff unat_ucast_up unat_ucast_mod)

lemma u32_of_pair: "unat (v :: u32) < 65536 \<Longrightarrow> ucast (ucast v :: u16) = v"
  by (simp add: word_unat_eq_iff unat_ucast_up unat_ucast_mod)

interpretation latin1: cbb_codec cbb_add_latin1 cbs_get_latin1 "\<lambda>u. [ucast u]" "\<lambda>u. unat u < 256"
proof unfold_locales
  fix x :: u32 and d
  assume "unat x < 256"
  then have "cbb_add_latin1 d x = CBB_add_u8 d (ucast x)"
    by (intro ext) (simp add: cbb_add_latin1_def word_le_nat_alt)
  then show "implements d (\<lambda>v. put_bytes [ucast x] (close_to d v)) (cbb_add_latin1 d x)"
    by (simp add: CBB_add_u8_implements)
next
  fix s r and u :: u32
  assume "cbs_get_latin1 s = Some (u, r)"
  then obtain c where "s = c # r" "u = ucast c"
    by (auto simp: cbs_get_latin1_def bind_eq_Some_conv CBS_get_u8_Some)
  then show "unat u < 256 \<and> s = [ucast u] @ r"
    by (simp add: unat_ucast_up ucast_ucast_up)
qed (auto simp: cbs_get_latin1_def u32_of_octet)

interpretation ucs2: cbb_codec cbb_add_ucs2_be cbs_get_ucs2_be "\<lambda>u. u16_enc (ucast u)"
  "\<lambda>u. code_point (unat u) \<and> unat u < 65536"
proof unfold_locales
  fix x :: u32 and d
  assume "code_point (unat x) \<and> unat x < 65536"
  then have "cbb_add_ucs2_be d x = CBB_add_u16 d (ucast x)"
    by (intro ext) (simp add: cbb_add_ucs2_be_def word_le_nat_alt is_valid_code_point_iff)
  then show "implements d (\<lambda>v. put_bytes (u16_enc (ucast x)) (close_to d v)) (cbb_add_ucs2_be d x)"
    using CBB_add_u16_implements [of d "ucast x"] by simp
next
  fix s r and u :: u32
  assume "cbs_get_ucs2_be s = Some (u, r)"
  then obtain c where "s = u16_enc c @ r" "u = ucast c" "code_point (unat u)"
    by (auto simp: cbs_get_ucs2_be_def bind_eq_Some_conv u16.parse_iff is_valid_code_point_iff split: if_splits)
  moreover have "unat c < 65536" using unsigned_less [of c, where ?'a = nat] by simp
  ultimately show "(code_point (unat u) \<and> unat u < 65536) \<and> s = u16_enc (ucast u) @ r"
    by (simp add: unat_ucast_up ucast_ucast_up)
qed (use u16.enc_nonempty in \<open>auto simp: cbs_get_ucs2_be_def u16.parse_enc u32_of_pair is_valid_code_point_iff\<close>)

interpretation utf32: cbb_codec cbb_add_utf32_be cbs_get_utf32_be u32_enc "\<lambda>u. code_point (unat u)"
proof unfold_locales
  fix x :: u32 and d
  assume "code_point (unat x)"
  then have "cbb_add_utf32_be d x = CBB_add_u32 d x"
    by (intro ext) (simp add: cbb_add_utf32_be_def is_valid_code_point_iff)
  then show "implements d (\<lambda>v. put_bytes (u32_enc x) (close_to d v)) (cbb_add_utf32_be d x)"
    using CBB_add_u32_implements [of d x] by simp
qed (use u32.enc_nonempty in \<open>auto simp: cbs_get_utf32_be_def bind_eq_Some_conv u32.parse_iff
       is_valid_code_point_iff split: if_splits\<close>)

text \<open>A writer refuses what its encoding cannot express.\<close>

lemma writers_refuse:
  "\<not> code_point (unat u) \<Longrightarrow> cbb_add_utf8 d u c = (False, c)"
  "\<not> unat u < 256 \<Longrightarrow> cbb_add_latin1 d u c = (False, c)"
  "\<not> (code_point (unat u) \<and> unat u < 65536) \<Longrightarrow> cbb_add_ucs2_be d u c = (False, c)"
  "\<not> code_point (unat u) \<Longrightarrow> cbb_add_utf32_be d u c = (False, c)"
  by (auto simp: cbb_add_utf8_def cbb_add_latin1_def cbb_add_ucs2_be_def cbb_add_utf32_be_def
      is_valid_code_point_iff word_le_nat_alt)

end
