(* ===== verification/Cbb_Errors.thy ===== *)
theory Cbb_Errors
  imports Cbb_Asn1 Unicode
begin

text \<open>
  What a failed builder does: every writer of \<open>bytestring.h\<close> and \<open>internal.h\<close> fails on it and leaves
  it alone, and no sequence of calls makes it usable again.
\<close>

text \<open>The calls that write to a \<open>CBB\<close> at depth \<open>d\<close> or flush it, and return whether they succeed.\<close>

inductive cbb_write_call :: "nat \<Rightarrow> (CBB \<Rightarrow> bool \<times> CBB) \<Rightarrow> bool" for d where
  "cbb_write_call d (CBB_flush d)"
| "cbb_write_call d (CBB_add_bytes d xs)"
| "cbb_write_call d (CBB_add_space d n)"
| "cbb_write_call d (CBB_reserve d n)"
| "cbb_write_call d (CBB_add_u8 d x8)"
| "cbb_write_call d (CBB_add_u16 d x16)"
| "cbb_write_call d (CBB_add_u16le d x16)"
| "cbb_write_call d (CBB_add_u24 d x32)"
| "cbb_write_call d (CBB_add_u32 d x32)"
| "cbb_write_call d (CBB_add_u32le d x32)"
| "cbb_write_call d (CBB_add_u64 d x64)"
| "cbb_write_call d (CBB_add_u64le d x64)"
| "cbb_write_call d (CBB_add_u8_length_prefixed d)"
| "cbb_write_call d (CBB_add_u16_length_prefixed d)"
| "cbb_write_call d (CBB_add_u24_length_prefixed d)"
| "cbb_write_call d (CBB_add_asn1 d tag)"
| "cbb_write_call d (CBB_add_asn1_uint64 d x64)"
| "cbb_write_call d (CBB_add_asn1_int64 d x64)"
| "cbb_write_call d (CBB_add_asn1_octet_string d xs)"
| "cbb_write_call d (CBB_add_asn1_bool d b)"
| "cbb_write_call d (CBB_add_asn1_oid_from_text d xs)"
| "cbb_write_call d (CBB_flush_asn1_set_of d)"
| "cbb_write_call d (cbb_add_utf8 d u)"
| "cbb_write_call d (cbb_add_latin1 d u)"
| "cbb_write_call d (cbb_add_ucs2_be d u)"
| "cbb_write_call d (cbb_add_utf32_be d u)"

text \<open>Any call on a builder, whatever it returns.\<close>

inductive cbb_step :: "CBB \<Rightarrow> CBB \<Rightarrow> bool" where
  writer: "cbb_write_call d f \<Longrightarrow> cbb_step c (snd (f c))"
| did_write: "cbb_step c (snd (CBB_did_write d n c))"
| discard: "cbb_step c (CBB_discard_child d c)"
| finish: "cbb_step c (snd (CBB_finish d outs c))"
| cleanup: "cbb_step c (CBB_cleanup c)"

lemma failed_flush: "\<not> cbb_live c \<Longrightarrow> CBB_flush d c = (False, c)"
  by (simp add: CBB_flush.simps cbb_live_def split: option.splits)

lemma failed_writer:
  assumes "\<not> cbb_live c" "cbb_write_call d f"
  shows "f c = (False, c)"
proof -
  note fl = failed_flush [OF assms(1)]
  note u8 = CBB_add_u8_def CBB_add_u16_def CBB_add_u24_def CBB_add_u32_def CBB_add_u64_def
  note le = CBB_add_u16le_def CBB_add_u32le_def CBB_add_u64le_def
  note pre = CBB_add_u8_length_prefixed_def CBB_add_u16_length_prefixed_def CBB_add_u24_length_prefixed_def
    cbb_add_length_prefixed_def
  note asn1 = CBB_add_asn1_def CBB_add_asn1_uint64_def CBB_add_asn1_int64_def CBB_add_asn1_octet_string_def
    CBB_add_asn1_bool_def CBB_add_asn1_oid_from_text_def CBB_flush_asn1_set_of_def
  note uni = cbb_add_utf8_def cbb_add_latin1_def cbb_add_ucs2_be_def cbb_add_utf32_be_def
  show ?thesis
    using assms(2)
    by cases (simp_all add: fl u8 le pre asn1 uni CBB_add_bytes_def CBB_add_space_def CBB_reserve_def andthen_def Let_def)
qed

lemma failed_finish: "\<not> cbb_live c \<Longrightarrow> CBB_finish d outs c = (None, c)"
  by (simp add: CBB_finish_def failed_flush)

lemma failed_step: "cbb_step c c' \<Longrightarrow> \<not> cbb_live c \<Longrightarrow> \<not> cbb_live c'"
proof (induction rule: cbb_step.induct)
  case (writer d f c)
  then show ?case using failed_writer [OF writer(2,1)] by simp
next
  case (did_write c d n)
  then show ?case
    by (auto simp: cbb_live_def CBB_did_write_def on_base_def Let_def split: option.splits prod.splits if_splits)
next
  case (discard c d)
  then show ?case by (auto simp: cbb_live_def CBB_discard_child_def split: option.splits)
next
  case (finish c d outs)
  then show ?case using failed_finish by simp
next
  case (cleanup c)
  then show ?case by (simp add: cbb_live_def CBB_cleanup_def)
qed

lemma failed_steps: "rtranclp cbb_step c c' \<Longrightarrow> \<not> cbb_live c \<Longrightarrow> \<not> cbb_live c'"
  by (induction rule: rtranclp_induct) (auto dest: failed_step)

lemma did_write_returns:
  "fst (CBB_did_write d n c) \<longleftrightarrow>
   (\<exists>b. cbb_base c = Some b \<and> length (cbb_chain c) = d \<and> b_len b \<le> size_add (b_len b) n \<and> size_add (b_len b) n \<le> b_cap b)"
  by (auto simp: CBB_did_write_def on_base_def Let_def split: option.splits prod.splits if_splits)

end
