(* ===== verification/Oid.thy ===== *)
theory Oid
  imports Cbb_Progress
begin

text \<open>
  Object identifiers: the text parser and the printer against one pair of encodings of a
  list of components, \<open>dotted\<close> (text) and \<open>oid_enc\<close> (the contents of the DER element).
\<close>

section \<open>Encodings\<close>

fun dotted :: "u64 list \<Rightarrow> u8 list" where
  "dotted [] = []"
| "dotted [n] = decimal (unat n)"
| "dotted (n # m # ns) = decimal (unat n) @ 0x2e # dotted (m # ns)"

fun oid_valid :: "u64 list \<Rightarrow> bool" where
  "oid_valid (a # b # ns) = (a \<le> 2 \<and> (a < 2 \<longrightarrow> b \<le> 39) \<and> b \<le> - 1 - 80)"
| "oid_valid _ = False"

fun oid_enc :: "u64 list \<Rightarrow> u8 list" where
  "oid_enc (a # b # ns) = base128_enc (unat (40 * a + b)) @ concat (map (\<lambda>n. base128_enc (unat n)) ns)"
| "oid_enc _ = []"

section \<open>Decimal components\<close>

lemma decimal_nonempty [simp]: "decimal n \<noteq> []"
  by (simp add: decimal.simps [of n])

lemma dotted_eq_Nil [simp]: "dotted ns = [] \<longleftrightarrow> ns = []"
  by (induction ns rule: dotted.induct) simp_all

lemma decimal_snoc: "n \<noteq> 0 \<Longrightarrow> k < 10 \<Longrightarrow> decimal (n * 10 + k) = decimal n @ [of_nat (0x30 + k)]"
  by (subst decimal.simps) simp

lemma digit_octet:
  assumes "k < 10"
  shows "unat (of_nat (0x30 + k) :: u8) = 0x30 + k" "(of_nat (0x30 + k) :: u8) \<noteq> 0x2e"
    and "\<not> (of_nat (0x30 + k) :: u8) < 0x30" "\<not> (of_nat (0x30 + k) :: u8) > 0x39"
    and "ucast ((of_nat (0x30 + k) :: u8) - 0x30) = (of_nat k :: u64)"
proof -
  show u: "unat (of_nat (0x30 + k) :: u8) = 0x30 + k" using assms by (simp add: unat_of_nat_u8 del: of_nat_add)
  then show "(of_nat (0x30 + k) :: u8) \<noteq> 0x2e" by (auto simp: word_unat_eq_iff)
  show "\<not> (of_nat (0x30 + k) :: u8) < 0x30" "\<not> (of_nat (0x30 + k) :: u8) > 0x39"
    using u assms by (simp_all add: word_less_nat_alt del: of_nat_add)
  have "(of_nat (0x30 + k) :: u8) - 0x30 = of_nat k" by simp
  then show "ucast ((of_nat (0x30 + k) :: u8) - 0x30) = (of_nat k :: u64)"
    using assms by (simp add: word_unat_eq_iff unat_ucast_up unat_of_nat_u8 unat_of_nat)
qed

text \<open>The overflow guards of the loop, without the machine arithmetic.\<close>

lemma overflow_guard:
  fixes out :: u64
  assumes "k < 10"
  shows "out > (- 1) div 10 \<or> out * 10 > - 1 - of_nat k \<longleftrightarrow> unat out * 10 + k \<ge> 2 ^ 64"
    and "unat out * 10 + k < 2 ^ 64 \<Longrightarrow> unat (out * 10 + of_nat k) = unat out * 10 + k"
proof -
  have m: "unat (- 1 :: u64) = 2 ^ 64 - 1"
    by (simp add: unsigned_minus_1_eq_mask mask_eq_exp_minus_1)
  have k: "unat (of_nat k :: u64) = k" using assms by (simp add: unat_of_nat)
  have d: "unat ((- 1 :: u64) div 10) = (2 ^ 64 - 1) div 10" by (simp add: unat_div m)
  have s: "unat (- 1 - of_nat k :: u64) = 2 ^ 64 - 1 - k"
    using k m assms by (subst unat_sub) (simp_all add: word_le_nat_alt)
  have t: "unat (out * 10) = unat out * 10" if "unat out \<le> (2 ^ 64 - 1) div 10"
    using that by (subst unat_mult_lem [THEN iffD1]) simp_all
  show "out > (- 1) div 10 \<or> out * 10 > - 1 - of_nat k \<longleftrightarrow> unat out * 10 + k \<ge> 2 ^ 64"
  proof (cases "unat out \<le> (2 ^ 64 - 1) div 10")
    case True
    with t d s assms show ?thesis by (simp add: word_less_nat_alt not_less) linarith
  next
    case False
    then show ?thesis using d by (simp add: word_less_nat_alt)
  qed
  assume "unat out * 10 + k < 2 ^ 64"
  then show "unat (out * 10 + of_nat k) = unat out * 10 + k"
    using k t by (subst unat_add_lem [THEN iffD1]) (simp_all add: div_le_mono2)
qed

lemma dotted_loop_digit:
  assumes "k < 10" "seen \<Longrightarrow> out \<noteq> 0"
  shows "parse_dotted_decimal_loop out seen (of_nat (0x30 + k) # s) =
    (if unat out * 10 + k < 2 ^ 64 then parse_dotted_decimal_loop (out * 10 + of_nat k) True s else None)"
  using digit_octet [OF assms(1)] overflow_guard(1) [OF assms(1), of out] assms(2)
  by (auto simp: not_less simp del: of_nat_add)

lemma dotted_loop_decimal:
  "n < 2 ^ 64 \<Longrightarrow>
   parse_dotted_decimal_loop 0 False (decimal n @ s) = parse_dotted_decimal_loop (of_nat n) True s"
proof (induction n arbitrary: s rule: decimal.induct)
  case (1 n)
  show ?case
  proof (cases "n < 10")
    case True
    with dotted_loop_digit [OF True, of False 0 s] show ?thesis
      by (simp add: decimal.simps [of n] del: of_nat_add)
  next
    case False
    define q k where "q = n div 10" and "k = n mod 10"
    have n: "n = q * 10 + k" "k < 10" "q \<noteq> 0" "q < 2 ^ 64"
      using False 1 by (simp_all add: q_def k_def)
    then have q: "unat (of_nat q :: u64) = q" by (simp add: unat_of_nat)
    then have nz: "(of_nat q :: u64) \<noteq> 0" using n(3) by (metis unsigned_0)
    have "parse_dotted_decimal_loop 0 False (decimal n @ s) =
        parse_dotted_decimal_loop 0 False (decimal q @ of_nat (0x30 + k) # s)"
      using decimal_snoc [OF n(3,2)] n(1) by simp
    also have "\<dots> = parse_dotted_decimal_loop (of_nat q) True (of_nat (0x30 + k) # s)"
      using "1.IH" [OF False, of "of_nat (0x30 + k) # s"] n(4) by (simp only: q_def)
    also have "\<dots> = parse_dotted_decimal_loop (of_nat q * 10 + of_nat k) True s"
      using dotted_loop_digit [OF n(2), of True "of_nat q" s] nz q n(1) "1.prems" by simp
    also have "(of_nat q * 10 + of_nat k :: u64) = of_nat n" by (simp add: n(1))
    finally show ?thesis .
  qed
qed

text \<open>A digit is the only octet the loop goes on with.\<close>

lemma dotted_loop_octet:
  assumes "parse_dotted_decimal_loop out seen (u # s) = Some (v, r)" "\<not> (u = 0x2e \<and> s \<noteq> [])"
  obtains k where "k < 10" "u = of_nat (0x30 + k)" "seen \<Longrightarrow> out \<noteq> 0"
proof -
  have u: "\<not> u < 0x30" "\<not> u > 0x39" and seen: "seen \<Longrightarrow> out \<noteq> 0"
    using assms by (auto simp: CBS_len_def split: if_splits)
  define k where "k = unat u - 0x30"
  have "k < 10" "0x30 + k = unat u"
    using u by (simp_all add: k_def word_less_nat_alt)
  then have "u = of_nat (0x30 + k)" by (simp del: of_nat_add)
  with \<open>k < 10\<close> seen that show thesis by blast
qed

definition component_text :: "u64 \<Rightarrow> CBS \<Rightarrow> u8 list" where
  "component_text n r = decimal (unat n) @ (if r = [] then [] else 0x2e # r)"

lemma dotted_loop_only:
  "parse_dotted_decimal_loop out seen s = Some (v, r) \<Longrightarrow> (\<not> seen \<Longrightarrow> out = 0) \<Longrightarrow>
   (if seen then decimal (unat out) else []) @ s = component_text v r"
proof (induction s arbitrary: out seen)
  case Nil
  then show ?case by (simp add: component_text_def split: if_splits)
next
  case (Cons u s)
  show ?case
  proof (cases "u = 0x2e \<and> s \<noteq> []")
    case True
    with Cons.prems show ?thesis by (simp add: component_text_def CBS_len_def split: if_splits)
  next
    case False
    then obtain k where k: "k < 10" "u = of_nat (0x30 + k)" "seen \<Longrightarrow> out \<noteq> 0"
      using dotted_loop_octet [OF Cons.prems(1)] by metis
    then have l: "unat out * 10 + k < 2 ^ 64"
      "parse_dotted_decimal_loop (out * 10 + of_nat k) True s = Some (v, r)"
      using Cons.prems(1) dotted_loop_digit [of k seen out s]
      by (simp_all del: of_nat_add split: if_splits)
    have "decimal (unat out * 10 + k) = (if seen then decimal (unat out) else []) @ [u]"
      using k Cons.prems(2) decimal_snoc [of "unat out" k]
      by (cases seen) (simp_all add: unat_eq_zero decimal.simps [of k])
    with Cons.IH [OF l(2)] overflow_guard(2) [OF k(1) l(1)] show ?thesis by simp
  qed
qed

lemma parse_dotted_decimal_iff: "parse_dotted_decimal s = Some (v, r) \<longleftrightarrow> s = component_text v r"
proof
  show "parse_dotted_decimal s = Some (v, r) \<Longrightarrow> s = component_text v r"
    using dotted_loop_only [of 0 False s v r] by (simp add: parse_dotted_decimal_def)
  have "unat v < 2 ^ 64" using unsigned_less [of v] by simp
  then show "s = component_text v r \<Longrightarrow> parse_dotted_decimal s = Some (v, r)"
    by (simp add: parse_dotted_decimal_def component_text_def dotted_loop_decimal CBS_len_def)
qed

interpretation dotted_component: prefix_parser parse_dotted_decimal
  by unfold_locales (auto simp: parse_dotted_decimal_iff component_text_def intro: exI [of _ "decimal _ @ [0x2e]"])

lemma dotted_Cons: "dotted (n # ns) = component_text n (dotted ns)"
  by (cases ns) (simp_all add: component_text_def)

lemma parse_many_dotted: "parse_many parse_dotted_decimal s = Some ns \<longleftrightarrow> s = dotted ns"
proof (induction ns arbitrary: s)
  case Nil
  show ?case by (cases "s = []") (auto simp: dotted_component.parse_many_step bind_eq_Some_conv)
next
  case (Cons n ns)
  have ne: "dotted (n # ns) \<noteq> []" by simp
  show ?case
  proof (cases "s = []")
    case False
    then have "parse_many parse_dotted_decimal s = Some (n # ns) \<longleftrightarrow>
        (\<exists>r. parse_dotted_decimal s = Some (n, r) \<and> parse_many parse_dotted_decimal r = Some ns)"
      by (auto simp: dotted_component.parse_many_step bind_eq_Some_conv)
    then show ?thesis by (simp add: parse_dotted_decimal_iff Cons.IH dotted_Cons)
  next
    case True
    with ne show ?thesis by (metis list.distinct(1) option.inject parse_many_Nil)
  qed
qed

section \<open>Writing from text\<close>

lemma components_loop_dotted:
  "oid_components_loop d (dotted ns) = add_u8s d (concat (map (\<lambda>n. base128_enc (unat n)) ns))"
proof (induction ns)
  case Nil
  show ?case by (rule ext) (simp add: oid_components_loop.simps CBS_len_def)
next
  case (Cons n ns)
  have "parse_dotted_decimal (dotted (n # ns)) = Some (n, dotted ns)"
    by (simp add: parse_dotted_decimal_iff dotted_Cons)
  then have "oid_components_loop d (dotted (n # ns)) c =
      andthen (add_base128_integer d n c) (oid_components_loop d (dotted ns))" for c
    by (subst oid_components_loop.simps) (simp add: CBS_len_def andthen_def split: prod.splits)
  then show ?case by (intro ext) (simp add: Cons add_base128_integer_eq add_u8s_append)
qed

lemma components_loop_only: "fst (oid_components_loop d s c) \<Longrightarrow> \<exists>ns. s = dotted ns"
proof (induction d s c rule: oid_components_loop.induct)
  case (1 d s c)
  show ?case
  proof (cases "s = []")
    case True
    then have "s = dotted []" by simp
    then show ?thesis by blast
  next
    case False
    with "1.prems" obtain n r c' where p: "parse_dotted_decimal s = Some (n, r)"
      "add_base128_integer d n c = (True, c')" "fst (oid_components_loop d r c')"
      by (subst (asm) oid_components_loop.simps) (auto simp: CBS_len_def split: option.splits if_splits prod.splits)
    then obtain ns where "r = dotted ns"
      using "1.IH" [OF _ p(1) refl p(2) [symmetric]] False by (auto simp: CBS_len_def)
    with p have "s = dotted (n # ns)" by (simp add: parse_dotted_decimal_iff dotted_Cons)
    then show ?thesis by blast
  qed
qed

lemma base128_enc_ne: "oid_valid ns \<Longrightarrow> oid_enc ns \<noteq> []"
  by (cases ns rule: oid_enc.cases) simp_all

lemma oid_from_text_valid:
  assumes "oid_valid ns"
  shows "CBB_add_asn1_oid_from_text d (dotted ns) =
    (\<lambda>c. andthen (CBB_flush d c) (add_u8s d (oid_enc ns)))"
proof -
  obtain a b ms where ns: "ns = a # b # ms" using assms by (cases ns rule: oid_enc.cases) auto
  have "parse_dotted_decimal (dotted ns) = Some (a, dotted (b # ms))"
    "parse_dotted_decimal (dotted (b # ms)) = Some (b, dotted ms)"
    by (simp_all only: parse_dotted_decimal_iff dotted_Cons ns)
  moreover have "(a > 2 \<or> (a < 2 \<and> b > 39) \<or> b > - 1 - 80) = False"
    using assms ns by (auto simp: not_less)
  ultimately show ?thesis
    by (intro ext) (simp only: CBB_add_asn1_oid_from_text_def CBS_init_def take_all [OF order_refl]
        Let_def option.case prod.case if_False components_loop_dotted add_base128_integer_eq
        add_u8s_append ns oid_enc.simps)
qed

lemma oid_from_text_only:
  assumes "fst (CBB_add_asn1_oid_from_text d text c)"
  obtains ns where "text = dotted ns" "oid_valid ns"
proof -
  from assms obtain a r b s c1 where p: "parse_dotted_decimal text = Some (a, r)"
    "parse_dotted_decimal r = Some (b, s)" "\<not> (a > 2 \<or> (a < 2 \<and> b > 39) \<or> b > - 1 - 80)"
    "fst (oid_components_loop d s c1)"
    by (auto simp: CBB_add_asn1_oid_from_text_def CBS_init_def andthen_def Let_def
        split: if_splits option.splits)
  then obtain ms where "s = dotted ms" using components_loop_only by blast
  with p have "text = dotted (a # b # ms)" by (simp only: parse_dotted_decimal_iff dotted_Cons)
  moreover have "oid_valid (a # b # ms)" using p by (auto simp: not_less)
  ultimately show thesis by (rule that)
qed

lemma oid_from_text_writes:
  assumes "oid_valid ns"
  shows "writes d (oid_enc ns) (CBB_add_asn1_oid_from_text d (dotted ns))"
  unfolding oid_from_text_valid [OF assms]
  by (intro writes_after_flush writes_u8s base128_enc_ne assms)

section \<open>Printing\<close>

definition oid_tail :: "u64 list \<Rightarrow> u8 list" where
  "oid_tail ns = concat (map (\<lambda>n. 0x2e # decimal (unat n)) ns)"

lemma dotted_tail: "dotted (n # ns) = decimal (unat n) @ oid_tail ns"
  by (induction ns arbitrary: n) (simp_all add: oid_tail_def)

lemma length_decimal: "n < 10 ^ k \<Longrightarrow> 0 < k \<Longrightarrow> length (decimal n) \<le> k"
proof (induction k arbitrary: n)
  case (Suc k)
  show ?case
  proof (cases "n < 10")
    case False
    with Suc.prems have "n div 10 < 10 ^ k" "0 < k"
      by (auto simp: less_mult_imp_div_less mult.commute) (cases k; simp)
    with Suc.IH [of "n div 10"] False show ?thesis by (subst decimal.simps) simp
  qed (simp add: decimal.simps [of n])
qed simp

lemma length_decimal_u64: "length (decimal (unat (n :: u64))) < 2 ^ 64"
proof -
  have "unat n < 2 ^ 64" using unsigned_less [of n] by simp
  then have "unat n < 10 ^ 20" by simp
  then have "length (decimal (unat n)) \<le> 20" by (rule length_decimal) simp
  then show ?thesis by simp
qed

lemma add_decimal_writes: "writes d (decimal (unat n)) (add_decimal d n)"
  unfolding add_decimal_def [abs_def] by (intro writes_bytes length_decimal_u64)

text \<open>The loop over the components, and the octet written after it.\<close>

lemma oid_to_text_loop_writes:
  assumes "writes 0 ys m"
  shows "parse_many parse_base128_integer s = Some ns \<Longrightarrow>
    writes 0 (oid_tail ns @ ys) (\<lambda>c. andthen (oid_to_text_loop s c) m)"
proof (induction ns arbitrary: s)
  case Nil
  then have "s = []" using base128.parse_many_iff [of s "[]"] by simp
  then have "(\<lambda>c. andthen (oid_to_text_loop s c) m) = m"
    by (simp add: fun_eq_iff oid_to_text_loop.simps CBS_len_def)
  with assms show ?case by (simp add: oid_tail_def)
next
  case (Cons n ns)
  then have s: "s = base128_enc (unat n) @ concat (map (\<lambda>v. base128_enc (unat v)) ns)"
    by (simp add: base128.parse_many_iff)
  define r where "r = concat (map (\<lambda>v. base128_enc (unat v)) ns)"
  have p: "parse_base128_integer s = Some (n, r)" "s \<noteq> []"
    using base128.parse_enc [of n r] s by (simp_all add: r_def)
  have "parse_many parse_base128_integer r = Some ns"
    by (simp add: base128.parse_many_iff r_def list.pred_True)
  note IH = Cons.IH [OF this]
  have "oid_to_text_loop s c = andthen (andthen (CBB_add_u8 0 0x2e c) (add_decimal 0 n)) (oid_to_text_loop r)" for c
    using p by (subst oid_to_text_loop.simps) (simp add: CBS_len_def andthen_def split: prod.splits)
  then have "(\<lambda>c. andthen (oid_to_text_loop s c) m) =
      (\<lambda>c. andthen (andthen (CBB_add_u8 0 0x2e c) (add_decimal 0 n)) (\<lambda>c. andthen (oid_to_text_loop r c) m))"
    by (simp add: andthen_assoc)
  moreover have "writes 0 (([0x2e] @ decimal (unat n)) @ oid_tail ns @ ys)
      (\<lambda>c. andthen (andthen (CBB_add_u8 0 0x2e c) (add_decimal 0 n)) (\<lambda>c. andthen (oid_to_text_loop r c) m))"
    by (intro writes_andthen [OF writes_andthen [OF writes_u8 add_decimal_writes] IH])
  ultimately show ?case by (simp add: oid_tail_def)
qed

lemma oid_to_text_loop_only:
  "fst (oid_to_text_loop s c) \<Longrightarrow> \<exists>ns. parse_many parse_base128_integer s = Some ns"
proof (induction s c rule: oid_to_text_loop.induct)
  case (1 s c)
  show ?case
  proof (cases "s = []")
    case False
    with "1.prems" obtain n r c' where p: "parse_base128_integer s = Some (n, r)"
      "andthen (CBB_add_u8 0 0x2e c) (add_decimal 0 n) = (True, c')" "fst (oid_to_text_loop r c')"
      by (subst (asm) oid_to_text_loop.simps) (auto simp: CBS_len_def split: option.splits if_splits prod.splits)
    with "1.IH" False show ?thesis by (auto simp: CBS_len_def base128.parse_many_step)
  qed simp
qed

lemma u64_of_parts:
  fixes v :: u64
  shows "v < 80 \<Longrightarrow> 40 * (v div 40) + v mod 40 = v \<and> v div 40 < 2 \<and> v mod 40 \<le> 39"
    and "80 \<le> v \<Longrightarrow> 40 * 2 + (v - 80) = v \<and> v - 80 \<le> - 1 - 80"
proof -
  have e: "40 * (v div 40) + v mod 40 = v" by (metis mult.commute div_mult_mod_eq)
  have u: "unat (v div 40) = unat v div 40" "unat (v mod 40) = unat v mod 40"
    by (simp_all add: unat_div unat_mod)
  show "v < 80 \<Longrightarrow> 40 * (v div 40) + v mod 40 = v \<and> v div 40 < 2 \<and> v mod 40 \<le> 39"
    using e u by (auto simp: word_less_nat_alt word_le_nat_alt)
  have m: "unat (- 1 - 80 :: u64) = 2 ^ 64 - 81"
    by (simp add: unsigned_minus_1_eq_mask mask_eq_exp_minus_1 unat_sub word_le_nat_alt)
  have "unat v < 2 ^ 64" using unsigned_less [of v] by simp
  then show "80 \<le> v \<Longrightarrow> 40 * 2 + (v - 80) = v \<and> v - 80 \<le> - 1 - 80"
    using m by (auto simp: word_le_nat_alt unat_sub)
qed

text \<open>The first number of the contents, split into the first two components.\<close>

definition oid_first :: "u64 \<Rightarrow> u64 \<times> u64" where
  "oid_first v = (if v \<ge> 80 then (2, v - 80) else (v div 40, v mod 40))"

lemma oid_first_valid: "oid_first v = (a, b) \<Longrightarrow> oid_valid (a # b # ns) \<and> 40 * a + b = v"
  using u64_of_parts [of v] by (auto simp: oid_first_def not_le order_less_imp_le word_le_nat_alt
      word_less_nat_alt split: if_splits)

lemma oid_first_enc:
  assumes "oid_valid (a # b # ns)"
  shows "oid_first (40 * a + b) = (a, b)"
proof -
  have m: "unat (- 1 - 80 :: u64) = 2 ^ 64 - 81"
    by (simp add: unsigned_minus_1_eq_mask mask_eq_exp_minus_1 unat_sub word_le_nat_alt)
  have "unat a = 0 \<or> unat a = 1 \<or> unat a = 2" using assms by (auto simp: word_le_nat_alt)
  then consider "a = 0" | "a = 1" | "a = 2"
    by (auto simp: word_unat_eq_iff)
  then show ?thesis
  proof cases
    case 3
    then have "unat b + 80 < 2 ^ 64" using assms m by (simp add: word_le_nat_alt)
    then have "unat (80 + b) = 80 + unat b" by (subst unat_add_lem [THEN iffD1]) simp_all
    with 3 show ?thesis by (simp add: oid_first_def word_le_nat_alt)
  next
    case 1
    with assms have "unat b \<le> 39" by (simp add: word_le_nat_alt)
    then have "unat (40 * a + b) = unat b" by (simp add: 1)
    with 1 \<open>unat b \<le> 39\<close> show ?thesis
      by (simp add: oid_first_def word_le_nat_alt word_unat_eq_iff unat_div unat_mod)
  next
    case 2
    with assms have b: "unat b \<le> 39" by (simp add: word_le_nat_alt)
    then have "unat (40 + b) = 40 + unat b" by (subst unat_add_lem [THEN iffD1]) simp_all
    then have "unat (40 * a + b) = 40 + unat b" by (simp add: 2)
    with 2 b show ?thesis
      by (simp add: oid_first_def word_le_nat_alt word_unat_eq_iff unat_div unat_mod)
  qed
qed

text \<open>Everything the printer writes, its terminator included, as one writer.\<close>

definition print_oid :: "u64 \<Rightarrow> CBS \<Rightarrow> CBB \<Rightarrow> bool \<times> CBB" where
  "print_oid v copy cbb = andthen
     (if v \<ge> 80 then andthen (CBB_add_bytes 0 [0x32, 0x2e] cbb) (add_decimal 0 (v - 80))
      else andthen (add_decimal 0 (v div 40) cbb) (\<lambda>cbb.
        andthen (CBB_add_u8 0 0x2e cbb) (add_decimal 0 (v mod 40)))) (\<lambda>cbb.
     andthen (oid_to_text_loop copy cbb) (CBB_add_u8 0 0))"

lemma print_oid_writes:
  assumes "parse_many parse_base128_integer copy = Some ns" "oid_first v = (a, b)"
  shows "writes 0 (dotted (a # b # ns) @ [0]) (print_oid v copy)"
proof -
  note loop = oid_to_text_loop_writes [OF writes_u8 [of 0 0] assms(1)]
  have split: "dotted (a # b # ns) @ [0] = (decimal (unat a) @ [0x2e] @ decimal (unat b)) @ oid_tail ns @ [0]"
    by (simp add: dotted_tail) (simp add: oid_tail_def)
  show ?thesis
  proof (cases "v \<ge> 80")
    case True
    then have "decimal (unat a) @ [0x2e] @ decimal (unat b) = [0x32, 0x2e] @ decimal (unat (v - 80))"
      using assms(2) by (auto simp: oid_first_def decimal.simps [of 2])
    moreover have w: "writes 0 ([0x32, 0x2e] @ decimal (unat (v - 80)))
        (\<lambda>c. andthen (CBB_add_bytes 0 [0x32, 0x2e] c) (add_decimal 0 (v - 80)))"
      by (intro writes_andthen writes_bytes add_decimal_writes) simp
    ultimately show ?thesis
      using writes_andthen [OF w loop] True unfolding split print_oid_def by simp
  next
    case False
    have "writes 0 (decimal (unat (v div 40)) @ [0x2e] @ decimal (unat (v mod 40)))
        (\<lambda>c. andthen (add_decimal 0 (v div 40) c) (\<lambda>c.
           andthen (CBB_add_u8 0 0x2e c) (add_decimal 0 (v mod 40))))"
      by (intro writes_andthen writes_u8 add_decimal_writes)
    from writes_andthen [OF this loop] False assms(2) show ?thesis
      unfolding split print_oid_def by (auto simp: oid_first_def)
  qed
qed

lemma oid_to_text_eq:
  "CBS_asn1_oid_to_text mem fresh cbs =
     (case CBB_init mem fresh 32 of (ok, cbb) \<Rightarrow>
        if \<not> ok then None
        else case parse_base128_integer cbs of
          None \<Rightarrow> None
        | Some (v, copy) \<Rightarrow>
            (case print_oid v copy cbb of (ok, cbb) \<Rightarrow>
               if ok then fst (CBB_finish 0 True cbb) else None))"
  by (simp only: CBS_asn1_oid_to_text_def print_oid_def)

lemma print_oid_only: "fst (print_oid v copy c) \<Longrightarrow> \<exists>ns. parse_many parse_base128_integer copy = Some ns"
  using oid_to_text_loop_only [of copy] by (auto simp: print_oid_def andthen_def split: if_splits)

lemma oid_to_text_sound:
  assumes "CBS_asn1_oid_to_text mem fresh cbs = Some t"
  obtains ns where "oid_valid ns" "cbs = oid_enc ns" "t = dotted ns @ [0]"
proof -
  from assms obtain c v copy c1 c2 where r: "CBB_init mem fresh 32 = (True, c)"
    "parse_base128_integer cbs = Some (v, copy)" "print_oid v copy c = (True, c1)"
    "CBB_finish 0 True c1 = (Some t, c2)"
    by (auto simp: oid_to_text_eq split: prod.splits if_splits option.splits)
      (metis prod.collapse)
  then obtain ns where ns: "parse_many parse_base128_integer copy = Some ns"
    using print_oid_only [of v copy c] by auto
  obtain a b where ab: "oid_first v = (a, b)" by force
  have v: "oid_valid (a # b # ns)" "40 * a + b = v" using oid_first_valid [OF ab] by simp_all
  have "t = dotted (a # b # ns) @ [0]"
    using writes_finish [OF print_oid_writes [OF ns ab] r(1) _ r(3,4)] by simp
  moreover have "cbs = oid_enc (a # b # ns)"
    using r(2) ns v by (simp add: base128.parse_iff base128.parse_many_iff)
  ultimately show thesis using v that by blast
qed

lemma oid_to_text_complete:
  assumes "oid_valid ns" "length (dotted ns) < 2 ^ 64 - 1"
  shows "CBS_asn1_oid_to_text [] fresh (oid_enc ns) = Some (dotted ns @ [0])"
proof -
  obtain a b ms where ns: "ns = a # b # ms" using assms by (cases ns rule: oid_enc.cases) auto
  define copy where "copy = concat (map (\<lambda>n. base128_enc (unat n)) ms)"
  have p: "parse_base128_integer (oid_enc ns) = Some (40 * a + b, copy)"
    using base128.parse_enc by (simp add: ns copy_def)
  have m: "parse_many parse_base128_integer copy = Some ms"
    by (simp add: base128.parse_many_iff copy_def list.pred_True)
  obtain c where c: "CBB_init [] fresh 32 = (True, c)"
    using CBB_init_capacity [of 32 32 fresh] by (metis le_refl prod.collapse)
  have "oid_first (40 * a + b) = (a, b)" using oid_first_enc assms ns by simp
  note w = print_oid_writes [OF m this]
  obtain c1 c2 where "print_oid (40 * a + b) copy c = (True, c1)"
    "CBB_finish 0 True c1 = (Some (dotted ns @ [0]), c2)"
    using writes_finish_total [OF w c] assms(2) by (auto simp: ns)
  with c p show ?thesis by (simp add: oid_to_text_eq)
qed

end
