(* ===== verification/Ber.thy ===== *)
theory Ber
  imports Oid
begin

text \<open>
  \<open>crypto/bytestring/ber.c\<close>: the search for BER-only elements, the conversion of BER to DER
  and the reader of implicitly tagged strings.  The recursion depth is bounded by
  \<open>kMaxDepth\<close>; every recursion and every turn of the loops also consumes input, which is
  the termination argument.
\<close>

section \<open>The code\<close>

definition kMaxDepth :: nat where "kMaxDepth = 2048"

definition CBS_ASN1_BITSTRING :: u32 where "CBS_ASN1_BITSTRING = 0x3"
definition CBS_ASN1_UTF8STRING :: u32 where "CBS_ASN1_UTF8STRING = 0xc"
definition CBS_ASN1_NUMERICSTRING :: u32 where "CBS_ASN1_NUMERICSTRING = 0x12"
definition CBS_ASN1_PRINTABLESTRING :: u32 where "CBS_ASN1_PRINTABLESTRING = 0x13"
definition CBS_ASN1_T61STRING :: u32 where "CBS_ASN1_T61STRING = 0x14"
definition CBS_ASN1_VIDEOTEXSTRING :: u32 where "CBS_ASN1_VIDEOTEXSTRING = 0x15"
definition CBS_ASN1_IA5STRING :: u32 where "CBS_ASN1_IA5STRING = 0x16"
definition CBS_ASN1_GRAPHICSTRING :: u32 where "CBS_ASN1_GRAPHICSTRING = 0x19"
definition CBS_ASN1_VISIBLESTRING :: u32 where "CBS_ASN1_VISIBLESTRING = 0x1a"
definition CBS_ASN1_GENERALSTRING :: u32 where "CBS_ASN1_GENERALSTRING = 0x1b"
definition CBS_ASN1_UNIVERSALSTRING :: u32 where "CBS_ASN1_UNIVERSALSTRING = 0x1c"
definition CBS_ASN1_BMPSTRING :: u32 where "CBS_ASN1_BMPSTRING = 0x1e"

definition is_string_type :: "u32 \<Rightarrow> bool" where
  "is_string_type tag \<longleftrightarrow>
     tag AND NOT CBS_ASN1_CONSTRUCTED \<in>
       {CBS_ASN1_BITSTRING, CBS_ASN1_OCTETSTRING, CBS_ASN1_UTF8STRING, CBS_ASN1_NUMERICSTRING,
        CBS_ASN1_PRINTABLESTRING, CBS_ASN1_T61STRING, CBS_ASN1_VIDEOTEXSTRING, CBS_ASN1_IA5STRING,
        CBS_ASN1_GRAPHICSTRING, CBS_ASN1_VISIBLESTRING, CBS_ASN1_GENERALSTRING,
        CBS_ASN1_UNIVERSALSTRING, CBS_ASN1_BMPSTRING}"

text \<open>The test both walks make for an indefinite-length element.\<close>

definition is_indefinite :: "CBS \<Rightarrow> size_t \<Rightarrow> bool" where
  "is_indefinite contents header_len \<longleftrightarrow>
     CBS_len contents = header_len \<and> header_len > 0 \<and> CBS_data contents ! (header_len - 1) = 0x80"

definition is_eoc :: "size_t \<Rightarrow> CBS \<Rightarrow> bool" where
  "is_eoc header_len contents \<longleftrightarrow>
     header_len = 2 \<and> CBS_len contents = 2 \<and> OPENSSL_memcmp (CBS_data contents) [0, 0] 2 = 0"

text \<open>What an element takes from the input; this is what makes the walks terminate.\<close>

lemma ber_element_cases:
  assumes "CBS_get_any_ber_asn1_element s = Some ((out, tag, hl), r)"
  obtains (definite) c where "length c < 2 ^ 32" "out = der_element tag c"
      "hl = length (der_header tag (length c))" "s = out @ r"
    | (indefinite) "tag AND CBS_ASN1_CONSTRUCTED \<noteq> 0" "out = asn1_tag_enc tag @ [0x80]"
      "hl = length out" "s = out @ r"
  using get_any_element_only [of s True out tag hl r] assms
  by (auto simp: CBS_get_any_ber_asn1_element_def)

lemma ber_element_consumes:
  assumes "CBS_get_any_ber_asn1_element s = Some ((out, tag, hl), r)"
  shows "s = out @ r" "0 < hl" "hl \<le> length out"
  using assms by (cases rule: ber_element_cases; simp add: der_element_def der_header_def)+

lemma ber_element_shorter:
  assumes "CBS_get_any_ber_asn1_element s = Some ((out, tag, hl), r)"
  shows "length r < length s" "CBS_skip out hl = Some c \<Longrightarrow> length c < length s"
  using ber_element_consumes [OF assms] by (auto simp: CBS_skip_iff)

lemma ber_element_contents:
  assumes "CBS_get_any_ber_asn1_element s = Some ((out, tag, hl), r)"
  shows "length out - hl < length s" "CBS_skip out hl = Some (drop hl out)"
  using ber_element_consumes [OF assms] by (auto simp: CBS_skip_iff)

text \<open>The loop of \<open>cbs_find_ber\<close>; the recursive call is inlined, with its depth test.\<close>

function find_ber_loop :: "nat \<Rightarrow> bool \<Rightarrow> CBS \<Rightarrow> bool option" where
  "find_ber_loop depth ber_found cbs =
     (if \<not> CBS_len cbs > 0 then Some ber_found
      else case CBS_get_any_ber_asn1_element cbs of
        None \<Rightarrow> None
      | Some ((contents, tag, header_len), cbs) \<Rightarrow>
          if is_indefinite contents header_len then Some True
          else if tag AND CBS_ASN1_CONSTRUCTED \<noteq> 0 then
            if is_string_type tag then Some True
            else
              (case CBS_skip contents header_len of
                 None \<Rightarrow> None
               | Some contents \<Rightarrow>
                   if depth + 1 > kMaxDepth then None
                   else
                     (case find_ber_loop (depth + 1) False contents of
                        None \<Rightarrow> None
                      | Some ber_found \<Rightarrow> find_ber_loop depth ber_found cbs))
          else find_ber_loop depth ber_found cbs)"
  by pat_completeness auto
termination
  by (relation "measure (\<lambda>(depth, found, cbs). length cbs)")
     (auto dest: ber_element_shorter simp: ber_element_shorter(2))

declare find_ber_loop.simps [simp del]

definition cbs_find_ber :: "CBS \<Rightarrow> nat \<Rightarrow> bool option" where
  "cbs_find_ber cbs depth =
     (if depth > kMaxDepth then None else find_ber_loop depth False (CBS_init (CBS_data cbs) (CBS_len cbs)))"

text \<open>
  One call is one turn of the loop of the code, the next turn being the call with the same
  \<open>depth\<close>, whose test then passes again.  \<open>d\<close> is the handle \<open>out\<close>; the second result is what
  is left of the input.  The test on the lengths after the nested call always succeeds
  (\<open>convert_ber_rest\<close>); it is there for termination.
\<close>

function cbs_convert_ber :: "CBS \<Rightarrow> nat \<Rightarrow> u32 \<Rightarrow> bool \<Rightarrow> nat \<Rightarrow> CBB \<Rightarrow> bool \<times> CBS \<times> CBB" where
  "cbs_convert_ber cbs d string_tag looking_for_eoc depth cbb =
     (if depth > kMaxDepth then (False, cbs, cbb)
      else if \<not> CBS_len cbs > 0 then (\<not> looking_for_eoc, cbs, cbb)
      else case CBS_get_any_ber_asn1_element cbs of
        None \<Rightarrow> (False, cbs, cbb)
      | Some ((contents, tag, header_len), cbs) \<Rightarrow>
          if is_eoc header_len contents then (looking_for_eoc, cbs, cbb)
          else if string_tag \<noteq> 0 \<and> tag AND NOT CBS_ASN1_CONSTRUCTED \<noteq> string_tag then (False, cbs, cbb)
          else
            let new_string = (string_tag = 0 \<and> tag AND CBS_ASN1_CONSTRUCTED \<noteq> 0 \<and> is_string_type tag);
                out_tag = (if new_string then tag AND NOT CBS_ASN1_CONSTRUCTED else tag);
                child_string_tag = (if new_string then out_tag else string_tag);
                out_contents = (if string_tag \<noteq> 0 then d else Suc d)
            in case (if string_tag \<noteq> 0 then (True, cbb) else CBB_add_asn1 d out_tag cbb) of
                 (ok, cbb) \<Rightarrow>
                   if \<not> ok then (False, cbs, cbb)
                   else if is_indefinite contents header_len then
                     (case cbs_convert_ber cbs out_contents child_string_tag True (depth + 1) cbb of
                        (ok, rest, cbb) \<Rightarrow>
                          if \<not> ok \<or> \<not> length rest \<le> length cbs then (False, rest, cbb)
                          else
                            (case CBB_flush d cbb of
                               (ok, cbb) \<Rightarrow>
                                 if \<not> ok then (False, rest, cbb)
                                 else cbs_convert_ber rest d string_tag looking_for_eoc depth cbb))
                   else
                     (case CBS_skip contents header_len of
                        None \<Rightarrow> (False, cbs, cbb)
                      | Some contents \<Rightarrow>
                          (case (if tag AND CBS_ASN1_CONSTRUCTED \<noteq> 0 then
                                   (case cbs_convert_ber contents out_contents child_string_tag False
                                           (depth + 1) cbb of
                                      (ok, _, cbb) \<Rightarrow> (ok, cbb))
                                 else CBB_add_bytes out_contents (CBS_data contents) cbb) of
                             (ok, cbb) \<Rightarrow>
                               if \<not> ok then (False, cbs, cbb)
                               else
                                 (case CBB_flush d cbb of
                                    (ok, cbb) \<Rightarrow>
                                      if \<not> ok then (False, cbs, cbb)
                                      else cbs_convert_ber cbs d string_tag looking_for_eoc depth cbb))))"
  by pat_completeness auto
termination
  by (relation "measure (\<lambda>(cbs, _). length cbs)")
     (auto dest: ber_element_shorter simp: ber_element_shorter(2) intro: le_less_trans)

declare cbs_convert_ber.simps [simp del]

text \<open>
  The results are the DER data, whether it lives in new storage, and what is left of the
  input.  \<open>mem\<close>, \<open>fresh\<close> as in \<open>CBB_init\<close>.
\<close>

definition CBS_asn1_ber_to_der :: "bool list \<Rightarrow> (nat \<Rightarrow> u8) \<Rightarrow> CBS \<Rightarrow> ((CBS \<times> bool) \<times> CBS) option" where
  "CBS_asn1_ber_to_der mem fresh cbs =
     (case cbs_find_ber cbs 0 of
        None \<Rightarrow> None
      | Some False \<Rightarrow>
          (case CBS_get_any_asn1_element cbs of
             None \<Rightarrow> None
           | Some ((out, _, _), rest) \<Rightarrow> Some ((out, False), rest))
      | Some True \<Rightarrow>
          (case CBB_init mem fresh (CBS_len cbs) of (ok, cbb) \<Rightarrow>
             if \<not> ok then None
             else case cbs_convert_ber cbs 0 0 False 0 cbb of (ok, rest, cbb) \<Rightarrow>
               if \<not> ok then None
               else case fst (CBB_finish 0 True cbb) of
                 None \<Rightarrow> None
               | Some out \<Rightarrow> Some ((out, True), rest)))"

function implicit_string_loop :: "u32 \<Rightarrow> CBS \<Rightarrow> CBB \<Rightarrow> bool \<times> CBB" where
  "implicit_string_loop inner_tag child result =
     (if \<not> CBS_len child > 0 then (True, result)
      else case CBS_get_asn1 child inner_tag of
        None \<Rightarrow> (False, result)
      | Some (chunk, child) \<Rightarrow>
          (case CBB_add_bytes 0 (CBS_data chunk) result of (ok, result) \<Rightarrow>
             if \<not> ok then (False, result) else implicit_string_loop inner_tag child result))"
  by pat_completeness auto
termination
  by (relation "measure (\<lambda>(_, child, _). length child)") (auto dest: asn1.shorter)

declare implicit_string_loop.simps [simp del]

definition CBS_get_asn1_implicit_string ::
    "bool list \<Rightarrow> (nat \<Rightarrow> u8) \<Rightarrow> CBS \<Rightarrow> u32 \<Rightarrow> u32 \<Rightarrow> ((CBS \<times> bool) \<times> CBS) option" where
  "CBS_get_asn1_implicit_string mem fresh cbs outer_tag inner_tag =
     (if CBS_peek_asn1_tag cbs outer_tag then
        (case CBS_get_asn1 cbs outer_tag of
           None \<Rightarrow> None
         | Some (out, rest) \<Rightarrow> Some ((out, False), rest))
      else
        (case CBB_init mem fresh (CBS_len cbs) of (ok, result) \<Rightarrow>
           if \<not> ok then None
           else case CBS_get_asn1 cbs (outer_tag OR CBS_ASN1_CONSTRUCTED) of
             None \<Rightarrow> None
           | Some (child, rest) \<Rightarrow>
               (case implicit_string_loop inner_tag child result of (ok, result) \<Rightarrow>
                  if \<not> ok then None
                  else case fst (CBB_finish 0 True result) of
                    None \<Rightarrow> None
                  | Some data \<Rightarrow> Some ((data, True), rest))))"

end
