(* ===== verification/Ber_Spec.thy ===== *)
theory Ber_Spec
  imports Ber
begin

text \<open>
  BER to DER against a reference: \<open>ber_items\<close> reads BER into the nested items of
  \<open>Cbb_Roundtrip\<close>, constructed strings already concatenated.  The conversion returns the
  DER rendering of the items, succeeds whenever they fit in memory, and its output has no
  BER-only element left.
\<close>

section \<open>The reference reader\<close>

function ber_items :: "CBS \<Rightarrow> u32 \<Rightarrow> bool \<Rightarrow> nat \<Rightarrow> (item list \<times> CBS) option" where
  "ber_items cbs string_tag looking_for_eoc depth =
     (if depth > kMaxDepth then None
      else if cbs = [] then (if looking_for_eoc then None else Some ([], []))
      else case CBS_get_any_ber_asn1_element cbs of
        None \<Rightarrow> None
      | Some ((contents, tag, header_len), cbs) \<Rightarrow>
          if is_eoc header_len contents then (if looking_for_eoc then Some ([], cbs) else None)
          else if string_tag \<noteq> 0 \<and> tag AND NOT CBS_ASN1_CONSTRUCTED \<noteq> string_tag then None
          else
            let new_string = (string_tag = 0 \<and> tag AND CBS_ASN1_CONSTRUCTED \<noteq> 0 \<and> is_string_type tag);
                out_tag = (if new_string then tag AND NOT CBS_ASN1_CONSTRUCTED else tag);
                child_string_tag = (if new_string then out_tag else string_tag)
            in case (if is_indefinite contents header_len then
                       (case ber_items cbs child_string_tag True (depth + 1) of
                          None \<Rightarrow> None
                        | Some (js, rest) \<Rightarrow> if length rest \<le> length cbs then Some (js, rest) else None)
                     else if tag AND CBS_ASN1_CONSTRUCTED \<noteq> 0 then
                       map_option (\<lambda>(js, _). (js, cbs))
                         (ber_items (drop header_len contents) child_string_tag False (depth + 1))
                     else Some ([Bytes (drop header_len contents)], cbs)) of
                 None \<Rightarrow> None
               | Some (js, rest) \<Rightarrow>
                   map_option (\<lambda>(is, rest). ((if string_tag \<noteq> 0 then js else [Element out_tag js]) @ is, rest))
                     (ber_items rest string_tag looking_for_eoc depth))"
  by pat_completeness auto
termination
  by (relation "measure (\<lambda>(cbs, _). length cbs)")
     (auto dest: ber_element_shorter ber_element_contents split: if_splits option.splits
       intro: le_less_trans)

declare ber_items.simps [simp del]

section \<open>Sequences of items\<close>

lemma render_append [simp]: "render (is @ js) = render is @ render js"
  by (induction "is" rule: render.induct) simp_all

lemma items_fit_append [simp]: "items_fit (is @ js) \<longleftrightarrow> items_fit is \<and> items_fit js"
  by (induction "is" rule: items_fit.induct) auto

lemma items_ok_append [simp]: "items_ok (is @ js) \<longleftrightarrow> items_ok is \<and> items_ok js"
  by (induction "is" rule: items_ok.induct) auto

lemma built_Nil: "cbb_wf c \<Longrightarrow> cbb_live c \<Longrightarrow> d \<le> length (cbb_chain c) \<Longrightarrow> built d [] c c"
  using cbb_live_view(1) [of c] by (simp add: built_def put_nothing)

lemma built_append: "built d is c c1 \<Longrightarrow> built d js c1 c2 \<Longrightarrow> built d (is @ js) c c2"
  by (simp add: built_def conj_ac)

lemma built_flush:
  assumes "built d is c c1" "CBB_flush d c1 = (True, c2)"
  shows "built d is c c2"
proof -
  have wf: "cbb_wf c1" using assms by (simp add: built_def)
  note spec = implementsD [OF CBB_flush_implements wf, of d, unfolded assms(2) fst_conv snd_conv]
  have "d \<le> length (cbb_chain c2)"
    using cbb_live_view(2) [OF spec(4)] cbb_live_view(2) [OF spec(3)] spec(5,6) by simp
  then show ?thesis using assms(1) spec by (simp add: built_def close_to_close_to close_to_same)
qed

lemma built_bytes:
  assumes "CBB_add_bytes d xs c = (True, c1)" "length xs < 2 ^ 64" "cbb_wf c"
  shows "built d [Bytes xs] c c1"
proof -
  note spec = implementsD [OF CBB_add_bytes_implements [OF assms(2)] assms(3), of d, unfolded assms(1) fst_conv snd_conv]
  have "d \<le> length (cbb_chain c1)"
    using cbb_live_view(2) [OF spec(4)] cbb_live_view(2) [OF spec(3)] spec(5,6) by simp
  then show ?thesis using spec by (simp add: built_def)
qed

lemma add_asn1_state:
  assumes "CBB_add_asn1 d tag c = (True, c1)" "cbb_wf c"
  shows "cbb_wf c1" "cbb_live c1" "cbb_live c" "d \<le> length (cbb_chain c)" "length (cbb_chain c1) = Suc d"
    and "cbb_view c1 = open_child Der (put_bytes (asn1_tag_enc tag) (close_to d (cbb_view c)))"
proof -
  note spec = implementsD [OF CBB_add_asn1_implements assms(2), of d tag, unfolded assms(1) fst_conv snd_conv]
  show "cbb_wf c1" "cbb_live c1" "cbb_live c" "d \<le> length (cbb_chain c)"
    "cbb_view c1 = open_child Der (put_bytes (asn1_tag_enc tag) (close_to d (cbb_view c)))"
    using spec by simp_all
  then show "length (cbb_chain c1) = Suc d"
    using cbb_live_view(2) [of c1] cbb_live_view(2) [of c] by simp
qed

lemma built_element:
  assumes a: "CBB_add_asn1 d tag c = (True, c1)" "cbb_wf c" and js: "built (Suc d) js c1 c2"
  shows "built d [Element tag js] c c2"
proof -
  note st = add_asn1_state [OF a]
  have c2: "cbb_wf c2" "cbb_live c2" "Suc d \<le> length (cbb_chain c2)" using js by (simp_all add: built_def)
  then have "built d [] c2 c2" by (intro built_Nil) simp_all
  from built_child [OF disjI1 [OF refl] st(3,4,6) js _ this, of "items_fit [Element tag js]"] c2
  show ?thesis by (simp add: built_def der_element_def der_header_def)
qed

section \<open>Soundness\<close>

lemma is_indefinite_iff:
  assumes "CBS_get_any_ber_asn1_element s = Some ((out, tag, hl), r)"
  shows "is_indefinite out hl \<longleftrightarrow> out = asn1_tag_enc tag @ [0x80] \<and> hl = length out"
  using assms
proof (cases rule: ber_element_cases)
  case (definite c)
  then show ?thesis
    by (cases "c = []")
       (auto simp: is_indefinite_def CBS_len_def CBS_data_def der_element_def der_header_def
          der_len_enc_def nth_append)
qed (auto simp: is_indefinite_def CBS_len_def CBS_data_def nth_append)

text \<open>The two results of the nested part of a turn, abbreviated.\<close>

lemma convert_ber_rest:
  "cbs_convert_ber s d st look depth c = (ok, r, c') \<Longrightarrow> length r \<le> length s"
proof (induction s arbitrary: d st look depth c ok r c' rule: measure_induct_rule [of length])
  case (less s)
  show ?case
  proof (cases "CBS_get_any_ber_asn1_element s")
    case (Some e)
    then obtain out tag hl t where e: "CBS_get_any_ber_asn1_element s = Some ((out, tag, hl), t)"
      by (metis prod.collapse)
    have t: "length t < length s" using ber_element_shorter(1) [OF e] .
    have IH: "cbs_convert_ber t' d st look depth c = (ok, r, c') \<Longrightarrow> length t' \<le> length t \<Longrightarrow> length r \<le> length s"
      for t' d st look depth c ok r c'
      using less.IH [of t'] t by fastforce
    from less.prems show ?thesis
      using t IH [OF _ order_refl] IH
      by (subst (asm) cbs_convert_ber.simps)
         (auto simp: e Let_def ber_element_contents(2) [OF e] split: if_splits prod.splits)
  qed (use less.prems in \<open>simp add: cbs_convert_ber.simps [of s] split: if_splits\<close>)
qed

text \<open>One turn of the loop, in the code and in the reference.\<close>

definition new_string :: "u32 \<Rightarrow> u32 \<Rightarrow> bool" where
  "new_string st tag \<longleftrightarrow> st = 0 \<and> tag AND CBS_ASN1_CONSTRUCTED \<noteq> 0 \<and> is_string_type tag"

definition out_tag :: "u32 \<Rightarrow> u32 \<Rightarrow> u32" where
  "out_tag st tag = (if new_string st tag then tag AND NOT CBS_ASN1_CONSTRUCTED else tag)"

definition child_string_tag :: "u32 \<Rightarrow> u32 \<Rightarrow> u32" where
  "child_string_tag st tag = (if new_string st tag then out_tag st tag else st)"

definition out_level :: "u32 \<Rightarrow> nat \<Rightarrow> nat" where
  "out_level st d = (if st \<noteq> 0 then d else Suc d)"

definition wrong_string :: "u32 \<Rightarrow> u32 \<Rightarrow> bool" where
  "wrong_string st tag \<longleftrightarrow> st \<noteq> 0 \<and> tag AND NOT CBS_ASN1_CONSTRUCTED \<noteq> st"

lemma convert_ber_stop:
  "cbs_convert_ber [] d st look depth c = (depth \<le> kMaxDepth \<and> \<not> look, [], c)"
  by (simp add: cbs_convert_ber.simps [of "[]"] CBS_len_def)

lemma convert_ber_no_element:
  "s \<noteq> [] \<Longrightarrow> CBS_get_any_ber_asn1_element s = None \<Longrightarrow>
   cbs_convert_ber s d st look depth c = (False, s, c)"
  by (simp add: cbs_convert_ber.simps [of s] CBS_len_def)

lemma convert_ber_eoc:
  "CBS_get_any_ber_asn1_element s = Some ((out, tag, hl), t) \<Longrightarrow> is_eoc hl out \<Longrightarrow> s \<noteq> [] \<Longrightarrow>
   depth \<le> kMaxDepth \<Longrightarrow> cbs_convert_ber s d st look depth c = (look, t, c)"
  by (simp add: cbs_convert_ber.simps [of s] CBS_len_def)

lemma convert_ber_deep:
  "\<not> depth \<le> kMaxDepth \<Longrightarrow> cbs_convert_ber s d st look depth c = (False, s, c)"
  by (simp add: cbs_convert_ber.simps [of s])

definition convert_header :: "u32 \<Rightarrow> u32 \<Rightarrow> nat \<Rightarrow> CBB \<Rightarrow> bool \<times> CBB" where
  "convert_header st tag d c = (if st \<noteq> 0 then (True, c) else CBB_add_asn1 d (out_tag st tag) c)"

definition convert_body :: "CBS \<Rightarrow> u32 \<Rightarrow> nat \<Rightarrow> size_t \<Rightarrow> CBS \<Rightarrow> u32 \<Rightarrow> nat \<Rightarrow> CBB \<Rightarrow> bool \<times> CBS \<times> CBB" where
  "convert_body out tag depth hl t st d c =
     (if is_indefinite out hl then cbs_convert_ber t d st True (depth + 1) c
      else (case (if tag AND CBS_ASN1_CONSTRUCTED \<noteq> 0 then
                    (case cbs_convert_ber (drop hl out) d st False (depth + 1) c of (ok, _, c) \<Rightarrow> (ok, c))
                  else CBB_add_bytes d (drop hl out) c) of (ok, c) \<Rightarrow> (ok, t, c)))"

lemma convert_ber_element_eq:
  assumes e: "CBS_get_any_ber_asn1_element s = Some ((out, tag, hl), t)"
    and "\<not> is_eoc hl out" "s \<noteq> []" "depth \<le> kMaxDepth" "\<not> wrong_string st tag"
    and c: "convert_header st tag d c = (ok0, c0)"
      "convert_body out tag depth hl t (child_string_tag st tag) (out_level st d) c0 = (ok1, rest, c1)"
      "CBB_flush d c1 = (ok2, c2)"
  shows "cbs_convert_ber s d st look depth c =
     (if \<not> ok0 then (False, t, c0)
      else if \<not> ok1 then (False, rest, c1)
      else if \<not> ok2 then (False, rest, c2)
      else cbs_convert_ber rest d st look depth c2)"
proof -
  have *: "s = [] \<longleftrightarrow> False" "kMaxDepth < depth \<longleftrightarrow> False"
    "(st \<noteq> 0 \<and> tag AND NOT CBS_ASN1_CONSTRUCTED \<noteq> st) = False"
    using assms by (simp_all add: wrong_string_def)
  show ?thesis
    using c convert_ber_rest [of t "out_level st d" "child_string_tag st tag" True "depth + 1" c0]
    by (subst cbs_convert_ber.simps, simp only: * e CBS_len_def length_greater_0_conv not_False_eq_True
        if_False option.case prod.case assms(2) if_True Let_def new_string_def [symmetric]
        out_tag_def [symmetric] child_string_tag_def [symmetric] out_level_def [symmetric]
        convert_header_def [symmetric] ber_element_contents(2) [OF e] CBS_data_def)
      (auto simp: convert_body_def split: if_splits prod.splits)
qed

lemma convert_ber_element:
  assumes e: "CBS_get_any_ber_asn1_element s = Some ((out, tag, hl), t)"
    and *: "\<not> is_eoc hl out" "s \<noteq> []" "depth \<le> kMaxDepth"
    and ok: "fst (cbs_convert_ber s d st look depth c)"
  obtains c0 rest c1 c2 where "\<not> wrong_string st tag"
    and "convert_header st tag d c = (True, c0)"
    and "convert_body out tag depth hl t (child_string_tag st tag) (out_level st d) c0 = (True, rest, c1)"
    and "CBB_flush d c1 = (True, c2)"
    and "cbs_convert_ber s d st look depth c = cbs_convert_ber rest d st look depth c2"
proof -
  have nw: "\<not> wrong_string st tag"
    using ok e * by (cases "wrong_string st tag") (simp_all add: cbs_convert_ber.simps [of s] CBS_len_def wrong_string_def)
  obtain ok0 c0 where c0: "convert_header st tag d c = (ok0, c0)" by (rule prod.exhaust)
  obtain ok1 rest c1 where c1:
    "convert_body out tag depth hl t (child_string_tag st tag) (out_level st d) c0 = (ok1, rest, c1)"
    by (rule prod_cases3)
  obtain ok2 c2 where c2: "CBB_flush d c1 = (ok2, c2)" by (rule prod.exhaust)
  from convert_ber_element_eq [OF e * nw c0 c1 c2, of look] c0 c1 c2 nw ok that show thesis
    by (auto split: if_splits)
qed

definition items_body :: "CBS \<Rightarrow> u32 \<Rightarrow> nat \<Rightarrow> size_t \<Rightarrow> CBS \<Rightarrow> u32 \<Rightarrow> (item list \<times> CBS) option" where
  "items_body out tag depth hl t st =
     (if is_indefinite out hl then
        (case ber_items t st True (depth + 1) of
           None \<Rightarrow> None
         | Some (js, rest) \<Rightarrow> if length rest \<le> length t then Some (js, rest) else None)
      else if tag AND CBS_ASN1_CONSTRUCTED \<noteq> 0 then
        map_option (\<lambda>(js, _). (js, t)) (ber_items (drop hl out) st False (depth + 1))
      else Some ([Bytes (drop hl out)], t))"

definition items_here :: "u32 \<Rightarrow> u32 \<Rightarrow> item list \<Rightarrow> item list" where
  "items_here st tag js = (if st \<noteq> 0 then js else [Element (out_tag st tag) js])"

lemma ber_items_element:
  assumes e: "CBS_get_any_ber_asn1_element s = Some ((out, tag, hl), t)"
    and "\<not> is_eoc hl out" "s \<noteq> []" "depth \<le> kMaxDepth" "\<not> wrong_string st tag"
  shows "ber_items s st look depth =
    (case items_body out tag depth hl t (child_string_tag st tag) of
       None \<Rightarrow> None
     | Some (js, rest) \<Rightarrow>
         map_option (\<lambda>(is, rest). (items_here st tag js @ is, rest)) (ber_items rest st look depth))"
proof -
  have *: "s = [] \<longleftrightarrow> False" "kMaxDepth < depth \<longleftrightarrow> False"
    "(st \<noteq> 0 \<and> tag AND NOT CBS_ASN1_CONSTRUCTED \<noteq> st) = False"
    using assms by (simp_all add: wrong_string_def)
  show ?thesis
    by (subst ber_items.simps)
       (simp only: * e if_False option.case prod.case assms(2) if_True Let_def new_string_def [symmetric]
         out_tag_def [symmetric] child_string_tag_def [symmetric] items_body_def items_here_def)
qed

lemma convert_body_rest:
  assumes "convert_body out tag depth hl t st d c = (ok, rest, c1)"
  shows "length rest \<le> length t"
  using assms convert_ber_rest [of t d st True "depth + 1" c]
  by (auto simp: convert_body_def split: if_splits prod.splits)

lemma convert_header_state:
  assumes "convert_header st tag d c = (True, c0)" "cbb_wf c" "cbb_live c" "d \<le> length (cbb_chain c)"
  shows "cbb_wf c0" "cbb_live c0" "out_level st d \<le> length (cbb_chain c0)"
  using assms add_asn1_state [of d "out_tag st tag" c c0]
  by (auto simp: convert_header_def out_level_def split: if_splits)

lemma built_part:
  assumes "convert_header st tag d c = (True, c0)" "cbb_wf c" "built (out_level st d) js c0 c1"
  shows "built d (items_here st tag js) c c1"
  using assms built_element [of d "out_tag st tag" c c0 js c1]
  by (auto simp: convert_header_def out_level_def items_here_def split: if_splits)

lemma items_here_ok [simp]:
  "items_ok (items_here st tag js) = items_ok js"
  by (simp add: items_here_def)

theorem convert_ber_sound:
  "cbs_convert_ber s d st look depth c = (True, r, c') \<Longrightarrow> length s < 2 ^ 64 \<Longrightarrow>
   cbb_wf c \<Longrightarrow> cbb_live c \<Longrightarrow> d \<le> length (cbb_chain c) \<Longrightarrow>
   \<exists>is. ber_items s st look depth = Some (is, r) \<and> built d is c c' \<and> items_ok is"
proof (induction s arbitrary: d st look depth c r c' rule: measure_induct_rule [of length])
  case (less s)
  note c = less.prems(3-5)
  have depth: "depth \<le> kMaxDepth"
    using less.prems(1) convert_ber_deep [of depth s d st look c] by (cases "depth \<le> kMaxDepth") auto
  show ?case
  proof (cases "s = []")
    case True
    then show ?thesis
      using less.prems(1) built_Nil [OF c] depth by (simp add: convert_ber_stop ber_items.simps [of "[]"])
  next
    case s: False
    then obtain out tag hl t where e: "CBS_get_any_ber_asn1_element s = Some ((out, tag, hl), t)"
      using less.prems(1) convert_ber_no_element [OF s]
      by (cases "CBS_get_any_ber_asn1_element s") auto
    show ?thesis
    proof (cases "is_eoc hl out")
      case True
      then show ?thesis
        using less.prems(1) convert_ber_eoc [OF e True s depth] built_Nil [OF c] depth s e
        by (simp add: ber_items.simps [of s])
    next
      case eoc: False
      have "fst (cbs_convert_ber s d st look depth c)" using less.prems(1) by simp
      from convert_ber_element [OF e eoc s depth this] obtain c0 rest c1 c2 where
        nw: "\<not> wrong_string st tag" and hd: "convert_header st tag d c = (True, c0)"
        and bd: "convert_body out tag depth hl t (child_string_tag st tag) (out_level st d) c0 = (True, rest, c1)"
        and fl: "CBB_flush d c1 = (True, c2)"
        and rec: "cbs_convert_ber rest d st look depth c2 = (True, r, c')"
        using less.prems(1) by metis
      note st0 = convert_header_state [OF hd c]
      have t: "length t < length s" using ber_element_shorter(1) [OF e] .
      have rest: "length rest \<le> length t" using convert_body_rest [OF bd] .
      have con: "length (drop hl out) < length s" using ber_element_contents(1) [OF e] by simp
      have "\<exists>js. items_body out tag depth hl t (child_string_tag st tag) = Some (js, rest) \<and>
          built (out_level st d) js c0 c1 \<and> items_ok js"
      proof (cases "is_indefinite out hl")
        case True
        then show ?thesis
          using less.IH [OF t _ _ st0] bd t less.prems(2) rest
          by (fastforce simp: convert_body_def items_body_def)
      next
        case False
        show ?thesis
        proof (cases "tag AND CBS_ASN1_CONSTRUCTED = 0")
          case True
          then show ?thesis
            using False bd built_bytes [of "out_level st d" "drop hl out" c0 c1] st0 con less.prems(2)
            by (auto simp: convert_body_def items_body_def split: prod.splits)
        next
          case constructed: False
          then obtain r' where "rest = t"
            "cbs_convert_ber (drop hl out) (out_level st d) (child_string_tag st tag) False (depth + 1) c0 = (True, r', c1)"
            using False bd by (auto simp: convert_body_def split: prod.splits)
          with less.IH [OF con this(2) _ st0] con less.prems(2) False constructed show ?thesis
            by (auto simp: items_body_def)
        qed
      qed
      then obtain js where js: "items_body out tag depth hl t (child_string_tag st tag) = Some (js, rest)"
        "built (out_level st d) js c0 c1" "items_ok js" by blast
      from built_flush [OF built_part [OF hd c(1) js(2)] fl]
      have b2: "built d (items_here st tag js) c c2" .
      then obtain "is" where "ber_items rest st look depth = Some (is, r)" "built d is c2 c'" "items_ok is"
        using less.IH [of rest d st look depth c2 r c'] rec rest t less.prems(2) by (auto simp: built_def)
      with js b2 show ?thesis
        by (auto simp: ber_items_element [OF e eoc s depth nw] intro: built_append)
    qed
  qed
qed

section \<open>Progress\<close>

lemma can_build_rest:
  assumes "can_build N d (is @ js) c" "built d is c c1" "cbb_capacity N c1" "items_fit is"
  shows "can_build N d js c1"
  using assms can_build_levels [OF assms(1)] by (simp add: can_build_def built_def)

lemma can_build_appendD: "can_build N d (is @ js) c \<Longrightarrow> can_build N d is c"
  by (simp add: can_build_def)

lemma can_build_flush:
  assumes "can_build N d is c" "built d js c0 c"
  shows "\<exists>c1. CBB_flush d c = (True, c1) \<and> cbb_capacity N c1"
  using CBB_flush_progress [of c N d] assms by (cases "CBB_flush d c") (simp add: can_build_def)

lemma can_build_open:
  assumes c: "can_build N d (Element tag js # is) c" and fit: "items_fit [Element tag js]"
  obtains c1 where "CBB_add_asn1 d tag c = (True, c1)" "can_build N (Suc d) js c1"
proof -
  define u where "u = put_bytes (asn1_tag_enc tag) (close_to d (cbb_view c))"
  note lv = can_build_levels [OF c]
  have cc: "cbb_wf c" "cbb_capacity N c" "d \<le> length (cbb_chain c)"
    using c by (auto simp: can_build_def)
  have u: "all_fit u" "builder_wf u" "open_levels u \<noteq> []" "length (open_kinds u) \<le> d"
    "bytes_used u = bytes_used (close_to d (cbb_view c)) + length (asn1_tag_enc tag)"
    using c lv cc by (auto simp: u_def can_build_def app_last_def)
  have room: "bytes_used u + length (der_len_enc (length (render js))) + length (render js) + length (render is) \<le> N"
    using c u by (simp add: can_build_def der_element_def der_header_def)
  have ple: "1 \<le> length (der_len_enc (length (render js)))" by (simp add: der_len_enc_def)
  obtain ok c1 where m: "CBB_add_asn1 d tag c = (ok, c1)" by force
  have m1: "ok" "cbb_capacity N c1"
    using progressesD [OF CBB_add_asn1_progresses cc, of tag] m u room ple by (simp_all add: u_def)
  note st = add_asn1_state [OF m [unfolded eqTrueI [OF m1(1)]] cc(1)]
  have v1: "close_to (Suc d) (cbb_view c1) = open_child Der u"
    using st(6) u by (simp add: close_to_same u_def)
  have "can_build N (Suc d) js c1"
    using st m1 u room ple v1 by (simp add: can_build_def)
  with m m1 that show thesis by simp
qed

lemma convert_header_progress:
  assumes "can_build N d (items_here st tag js @ is) c" "items_fit (items_here st tag js)"
  obtains c0 where "convert_header st tag d c = (True, c0)" "can_build N (out_level st d) js c0"
proof (cases "st = 0")
  case True
  then have "can_build N d (Element (out_tag st tag) js # is) c" "items_fit [Element (out_tag st tag) js]"
    using assms by (simp_all add: items_here_def)
  from can_build_open [OF this] obtain c1 where
    "CBB_add_asn1 d (out_tag st tag) c = (True, c1)" "can_build N (Suc d) js c1" .
  with True that show thesis by (simp add: convert_header_def out_level_def)
next
  case False
  then show thesis
    using assms that [of c] can_build_appendD
    by (simp add: items_here_def convert_header_def out_level_def)
qed

theorem convert_ber_progress:
  "ber_items s st look depth = Some (is, r) \<Longrightarrow> length s < 2 ^ 64 \<Longrightarrow> can_build N d is c \<Longrightarrow> items_fit is \<Longrightarrow>
   \<exists>c'. cbs_convert_ber s d st look depth c = (True, r, c') \<and> cbb_capacity N c'"
proof (induction s arbitrary: d st look depth c r "is" rule: measure_induct_rule [of length])
  case (less s)
  have c: "cbb_wf c" "cbb_capacity N c" "cbb_live c" "d \<le> length (cbb_chain c)"
    using less.prems(3) cbb_capacity_live by (auto simp: can_build_def)
  have depth: "depth \<le> kMaxDepth"
    using less.prems(1) by (simp add: ber_items.simps [of s] split: if_splits)
  show ?case
  proof (cases "s = []")
    case True
    then show ?thesis
      using less.prems(1) c depth by (simp add: convert_ber_stop ber_items.simps [of "[]"] split: if_splits)
  next
    case s: False
    then obtain out tag hl t where e: "CBS_get_any_ber_asn1_element s = Some ((out, tag, hl), t)"
      using less.prems(1) depth
      by (cases "CBS_get_any_ber_asn1_element s") (auto simp: ber_items.simps [of s])
    show ?thesis
    proof (cases "is_eoc hl out")
      case True
      then show ?thesis
        using less.prems(1) convert_ber_eoc [OF e True s depth] c depth s e
        by (simp add: ber_items.simps [of s] split: if_splits)
    next
      case eoc: False
      have nw: "\<not> wrong_string st tag"
        using less.prems(1) depth s e eoc
        by (cases "wrong_string st tag") (simp_all add: ber_items.simps [of s] wrong_string_def)
      obtain js rest is' where items: "items_body out tag depth hl t (child_string_tag st tag) = Some (js, rest)"
        "ber_items rest st look depth = Some (is', r)" "is = items_here st tag js @ is'"
        using less.prems(1) by (auto simp: ber_items_element [OF e eoc s depth nw] split: option.splits)
      have fit: "items_fit (items_here st tag js)" "items_fit js" "items_fit is'"
        using less.prems(4) items(3) by (simp_all add: items_here_def split: if_splits)
      obtain c0 where hd: "convert_header st tag d c = (True, c0)" "can_build N (out_level st d) js c0"
        using convert_header_progress less.prems(3) fit(1) items(3) by metis
      note st0 = convert_header_state [OF hd(1) c(1,3,4)]
      have t: "length t < length s" using ber_element_shorter(1) [OF e] .
      have con: "length (drop hl out) < length s" using ber_element_contents(1) [OF e] by simp
      have "\<exists>c1. convert_body out tag depth hl t (child_string_tag st tag) (out_level st d) c0 = (True, rest, c1) \<and>
          cbb_capacity N c1 \<and> built (out_level st d) js c0 c1"
      proof (cases "is_indefinite out hl")
        case True
        then have js: "ber_items t (child_string_tag st tag) True (depth + 1) = Some (js, rest)"
          using items(1) by (auto simp: items_body_def split: option.splits if_splits)
        with less.IH [OF t js _ hd(2) fit(2)] t less.prems(2) True obtain c1 where
          c1: "cbs_convert_ber t (out_level st d) (child_string_tag st tag) True (depth + 1) c0 = (True, rest, c1)"
            "cbb_capacity N c1" by auto
        from convert_ber_sound [OF c1(1) _ st0] t less.prems(2) js c1 True show ?thesis
          by (auto simp: convert_body_def)
      next
        case False
        show ?thesis
        proof (cases "tag AND CBS_ASN1_CONSTRUCTED = 0")
          case True
          then have js: "js = [Bytes (drop hl out)]" "rest = t"
            using items(1) False by (auto simp: items_body_def)
          from build_progress [OF hd(2)] js con less.prems(2)
          have "fst (CBB_add_bytes (out_level st d) (drop hl out) c0)"
            "cbb_capacity N (snd (CBB_add_bytes (out_level st d) (drop hl out) c0))"
            by (auto simp: andthen_def split: if_splits)
          then obtain c1 where c1: "CBB_add_bytes (out_level st d) (drop hl out) c0 = (True, c1)" "cbb_capacity N c1"
            by (metis prod.collapse)
          with built_bytes [OF c1(1) _ st0(1)] con less.prems(2) js True False show ?thesis
            by (simp add: convert_body_def)
        next
          case constructed: False
          then obtain r' where js: "rest = t"
            "ber_items (drop hl out) (child_string_tag st tag) False (depth + 1) = Some (js, r')"
            using False items(1) by (auto simp: items_body_def)
          with less.IH [OF con js(2) _ hd(2) fit(2)] con less.prems(2) obtain c1 where
            c1: "cbs_convert_ber (drop hl out) (out_level st d) (child_string_tag st tag) False (depth + 1) c0 =
              (True, r', c1)" "cbb_capacity N c1" by auto
          from convert_ber_sound [OF c1(1) _ st0] con less.prems(2) js c1 False constructed show ?thesis
            by (auto simp: convert_body_def)
        qed
      qed
      then obtain c1 where bd:
        "convert_body out tag depth hl t (child_string_tag st tag) (out_level st d) c0 = (True, rest, c1)"
        "cbb_capacity N c1" "built (out_level st d) js c0 c1" by blast
      note bp = built_part [OF hd(1) c(1) bd(3)]
      have c1: "can_build N d is' c1"
        using can_build_rest [OF _ bp bd(2) fit(1)] less.prems(3) items(3) by simp
      from can_build_flush [OF c1 bp] obtain c2 where fl: "CBB_flush d c1 = (True, c2)" "cbb_capacity N c2" by blast
      have "can_build N d is' c2"
        using can_build_rest [OF _ built_flush [OF bp fl(1)] fl(2) fit(1)] less.prems(3) items(3) by simp
      from less.IH [OF _ items(2) _ this fit(3)] convert_body_rest [OF bd(1)] t less.prems(2)
      show ?thesis
        by (simp add: convert_ber_element_eq [OF e eoc s depth nw hd(1) bd(1) fl(1)])
    qed
  qed
qed

section \<open>No BER is left\<close>

text \<open>\<open>n\<close> is the depth at which the items stand.\<close>

fun der_only :: "nat \<Rightarrow> item list \<Rightarrow> bool" where
  "der_only n [] = True"
| "der_only n (Element tag js # is) \<longleftrightarrow>
     (tag AND CBS_ASN1_CONSTRUCTED \<noteq> 0 \<longrightarrow>
        \<not> is_string_type tag \<and> n < kMaxDepth \<and> der_only (n + 1) js) \<and> der_only n is"
| "der_only n (Bytes xs # is) = False"
| "der_only n (Prefixed k js # is) = False"

lemma ber_items_depth: "ber_items s st look depth = Some x \<Longrightarrow> depth \<le> kMaxDepth"
  by (simp add: ber_items.simps [of s] split: if_splits)

lemma out_tag_simps:
  "tag AND CBS_ASN1_CONSTRUCTED = 0 \<Longrightarrow> out_tag 0 tag = tag"
  "tag AND CBS_ASN1_CONSTRUCTED \<noteq> 0 \<Longrightarrow> is_string_type tag \<Longrightarrow> out_tag 0 tag AND CBS_ASN1_CONSTRUCTED = 0"
  "tag AND CBS_ASN1_CONSTRUCTED \<noteq> 0 \<Longrightarrow> \<not> is_string_type tag \<Longrightarrow> out_tag 0 tag = tag \<and> child_string_tag 0 tag = 0"
  by (simp_all add: out_tag_def new_string_def child_string_tag_def and.assoc)

lemma ber_items_der_only:
  "ber_items s st look depth = Some (is, r) \<Longrightarrow> st = 0 \<Longrightarrow> der_only depth is"
proof (induction s arbitrary: st look depth r "is" rule: measure_induct_rule [of length])
  case (less s)
  note depth = ber_items_depth [OF less.prems(1)]
  show ?case
  proof (cases "s = []")
    case True
    then show ?thesis using less.prems(1) depth by (simp add: ber_items.simps [of "[]"] split: if_splits)
  next
    case s: False
    then obtain out tag hl t where e: "CBS_get_any_ber_asn1_element s = Some ((out, tag, hl), t)"
      using less.prems(1) depth
      by (cases "CBS_get_any_ber_asn1_element s") (auto simp: ber_items.simps [of s])
    have t: "length t < length s" using ber_element_shorter(1) [OF e] .
    have con: "length (drop hl out) < length s" using ber_element_contents(1) [OF e] by simp
    show ?thesis
    proof (cases "is_eoc hl out")
      case True
      then show ?thesis
        using less.prems(1) depth s e by (simp add: ber_items.simps [of s] split: if_splits)
    next
      case eoc: False
      have nw: "\<not> wrong_string 0 tag" by (simp add: wrong_string_def)
      obtain js rest is' where items: "items_body out tag depth hl t (child_string_tag 0 tag) = Some (js, rest)"
        "ber_items rest 0 look depth = Some (is', r)" "is = Element (out_tag 0 tag) js # is'"
        using less.prems by (auto simp: ber_items_element [OF e eoc s depth nw] items_here_def split: option.splits)
      have "length rest \<le> length t"
        using items(1) by (auto simp: items_body_def split: option.splits if_splits)
      then have "der_only depth is'" using less.IH [OF _ items(2)] t by simp
      moreover have "\<not> is_string_type tag \<and> depth < kMaxDepth \<and> der_only (depth + 1) js"
        if "out_tag 0 tag AND CBS_ASN1_CONSTRUCTED \<noteq> 0"
      proof -
        have k: "tag AND CBS_ASN1_CONSTRUCTED \<noteq> 0" "\<not> is_string_type tag"
          using that out_tag_simps by metis+
        then have "child_string_tag 0 tag = 0" using out_tag_simps(3) by simp
        with items(1) k have "(\<exists>r'. ber_items t 0 True (depth + 1) = Some (js, r')) \<or>
            (\<exists>r'. ber_items (drop hl out) 0 False (depth + 1) = Some (js, r'))"
          by (fastforce simp: items_body_def split: option.splits if_splits)
        then show ?thesis
          using less.IH [OF t] less.IH [OF con] k ber_items_depth by fastforce
      qed
      moreover have "out_tag 0 tag = tag" if "out_tag 0 tag AND CBS_ASN1_CONSTRUCTED \<noteq> 0"
        using that out_tag_simps by metis
      ultimately show ?thesis using items(3) by auto
    qed
  qed
qed

lemma der_not_indefinite: "\<not> is_indefinite (der_element tag c) (length (der_header tag (length c)))"
  by (cases "c = []")
    (simp_all add: is_indefinite_def CBS_len_def CBS_data_def der_element_def der_header_def der_len_enc_def nth_append)

lemma find_ber_der_only:
  "der_only n is \<Longrightarrow> items_fit is \<Longrightarrow> find_ber_loop n False (render is) = Some False"
proof (induction n "is" rule: der_only.induct)
  case (1 n)
  show ?case by (simp add: find_ber_loop.simps [of n False "[]"] CBS_len_def)
next
  case (2 n tag js "is")
  let ?e = "der_element tag (render js)" and ?h = "length (der_header tag (length (render js)))"
  have len: "length (render js) < 2 ^ 32" using "2.prems" by simp
  have e: "CBS_get_any_ber_asn1_element (?e @ render is) = Some ((?e, tag, ?h), render is)"
    using get_any_element_enc [OF len, of tag "render is" True] by (simp add: CBS_get_any_ber_asn1_element_def)
  note der_not_indefinite [of tag "render js"]
  moreover have "?e @ render is \<noteq> []" by (simp add: der_element_def der_header_def)
  ultimately show ?case
    using "2.prems" "2.IH" ber_element_contents(2) [OF e]
    by (auto simp add: find_ber_loop.simps [of n False "?e @ render is"] e CBS_len_def drop_der_header)
qed simp_all

section \<open>The whole conversion\<close>

text \<open>Without an end-of-contents marker to look for, the whole input is read.\<close>

lemma ber_items_all: "ber_items s st False depth = Some (is, r) \<Longrightarrow> r = []"
proof (induction s arbitrary: "is" rule: measure_induct_rule [of length])
  case (less s)
  note depth = ber_items_depth [OF less.prems]
  show ?case
  proof (cases "s = []")
    case True
    then show ?thesis using less.prems depth by (simp add: ber_items.simps [of "[]"])
  next
    case s: False
    then obtain out tag hl t where e: "CBS_get_any_ber_asn1_element s = Some ((out, tag, hl), t)"
      using less.prems depth
      by (cases "CBS_get_any_ber_asn1_element s") (auto simp: ber_items.simps [of s])
    have eoc: "\<not> is_eoc hl out" and nw: "\<not> wrong_string st tag"
      using less.prems depth s e
      by (cases "is_eoc hl out"; simp add: ber_items.simps [of s] wrong_string_def split: if_splits)+
    obtain js rest is' where items: "items_body out tag depth hl t (child_string_tag st tag) = Some (js, rest)"
      "ber_items rest st False depth = Some (is', r)"
      using less.prems by (auto simp: ber_items_element [OF e eoc s depth nw] split: option.splits)
    have "length rest \<le> length t"
      using items(1) by (auto simp: items_body_def split: option.splits if_splits)
    then show ?thesis using less.IH [OF _ items(2)] ber_element_shorter(1) [OF e] by simp
  qed
qed

theorem ber_to_der_new_storage:
  assumes "CBS_asn1_ber_to_der mem fresh s = Some ((out, True), r)" "length s < 2 ^ 64"
  shows "\<exists>is. ber_items s 0 False 0 = Some (is, []) \<and> r = [] \<and> out = render is \<and> items_fit is \<and>
    cbs_find_ber out 0 = Some False"
proof -
  from assms(1) obtain cbb cbb1 where r:
    "CBB_init mem fresh (length s) = (True, cbb)" "cbs_convert_ber s 0 0 False 0 cbb = (True, r, cbb1)"
    "fst (CBB_finish 0 True cbb1) = Some out"
    by (auto simp: CBS_asn1_ber_to_der_def CBS_len_def split: option.splits bool.splits prod.splits if_splits)
  obtain cbb2 where f: "CBB_finish 0 True cbb1 = (Some out, cbb2)" using r(3) by (metis prod.collapse)
  note init = CBB_init_spec [OF r(1) assms(2)]
  from convert_ber_sound [OF r(2) assms(2) init(1,2)] obtain "is" where
    items: "ber_items s 0 False 0 = Some (is, r)" "built 0 is cbb cbb1" by auto
  note r0 = ber_items_all [OF items(1)]
  from CBB_finish_view(2) [OF _ f] items(2) init(3) have out: "out = render is" "items_fit is"
    by (auto simp: built_def close_to_same put_bytes_def app_last_def require_def)
  from find_ber_der_only [OF ber_items_der_only [OF items(1) refl] out(2)]
  have "cbs_find_ber out 0 = Some False"
    by (simp add: cbs_find_ber_def out(1) CBS_init_def CBS_data_def CBS_len_def)
  with items r0 out show ?thesis by auto
qed

theorem ber_to_der_total:
  assumes "cbs_find_ber s 0 = Some True" "ber_items s 0 False 0 = Some (is, r)" "items_fit is"
    and "length (render is) < 2 ^ 64" "length s < 2 ^ 64"
  shows "CBS_asn1_ber_to_der [] fresh s = Some ((render is, True), [])"
proof -
  note r = ber_items_all [OF assms(2)]
  obtain ok c where c: "CBB_init [] fresh (length s) = (ok, c)" by force
  have ok: "ok" "cbb_capacity (length (render is)) c"
    using CBB_init_capacity [of "length (render is)" "length s" fresh] assms c by simp_all
  note init = CBB_init_spec [OF c [unfolded eqTrueI [OF ok(1)]] assms(5)]
  have can: "can_build (length (render is)) 0 is c"
    using init ok by (simp add: can_build_def close_to_same bytes_used_def)
  from convert_ber_progress [OF assms(2,5) can assms(3)] obtain c1 where
    c1: "cbs_convert_ber s 0 0 False 0 c = (True, r, c1)" "cbb_capacity (length (render is)) c1" by blast
  have bu: "built 0 is c c1"
    using convert_ber_sound [OF c1(1) assms(5) init(1,2)] assms(2) by auto
  then have b: "cbb_wf c1" "close_to 0 (cbb_view c1) = \<lparr>open_levels = [render is], open_kinds = [], all_fit = True\<rparr>"
    using init(3) assms(3) by (simp_all add: built_def close_to_same put_bytes_def app_last_def)
  from CBB_flush_progress [OF b(1) c1(2), of 0] b(2)
  obtain c2 b2 where "CBB_flush 0 c1 = (True, c2)" "cbb_base c2 = Some b2"
    by (cases "CBB_flush 0 c1") (auto simp: cbb_capacity_def bytes_used_def)
  then obtain out c3 where f: "CBB_finish 0 True c1 = (Some out, c3)" by (simp add: CBB_finish_def)
  from CBB_finish_view(2) [OF b(1) f] b(2) have "out = render is" by simp
  with c ok c1 f assms(1) r show ?thesis by (simp add: CBS_asn1_ber_to_der_def CBS_len_def)
qed

text \<open>Concrete inputs are evaluated with these.\<close>

lemmas ber_eval = CBS_get_any_ber_asn1_element_def CBS_get_any_asn1_element_def cbs_get_any_asn1_element_def
  parse_asn1_tag_def CBS_ASN1_TAG_SHIFT_def CBS_ASN1_CONSTRUCTED_def CBS_len_def CBS_get_bytes_def cbs_get_def
  size_add_def is_indefinite_def CBS_data_def is_string_type_def CBS_skip_def kMaxDepth_def CBS_init_def
  CBS_ASN1_BITSTRING_def CBS_ASN1_UTF8STRING_def CBS_ASN1_NUMERICSTRING_def CBS_ASN1_PRINTABLESTRING_def
  CBS_ASN1_T61STRING_def CBS_ASN1_VIDEOTEXSTRING_def CBS_ASN1_IA5STRING_def CBS_ASN1_GRAPHICSTRING_def
  CBS_ASN1_VISIBLESTRING_def CBS_ASN1_GENERALSTRING_def CBS_ASN1_UNIVERSALSTRING_def CBS_ASN1_BMPSTRING_def
  CBS_ASN1_OCTETSTRING_def push_bit_eq_mult

lemma find_ber_reset:
  "cbs_find_ber [0x30, 8, 0x30, 4, 0x30, 0x80, 0, 0, 0x30, 0] 0 = Some False"
  "cbs_find_ber [0x30, 6, 0x30, 4, 0x30, 0x80, 0, 0] 0 = Some True"
  by (simp_all add: cbs_find_ber_def find_ber_loop.simps ber_eval)

end
