(* ===== verification/Ber_Search.thy ===== *)
theory Ber_Search
  imports Ber_Spec
begin

text \<open>
  What the search for BER finds.  DER data and data with BER in it are described without reference
  to the code; then the output of the conversion is DER data, what the search reports is there, the
  search fails on no well-formed input, and what it reports of a sequence of elements is what it
  reports of the last constructed one.
\<close>

section \<open>DER data and BER in it\<close>

text \<open>
  A sequence of elements, each with its canonical header, that are DER at every depth; and one that
  has an element of indefinite length or a constructed string somewhere.
\<close>

inductive der_data :: "CBS \<Rightarrow> bool" where
  empty: "der_data []"
| element: "length c < 2 ^ 32 \<Longrightarrow> (tag AND CBS_ASN1_CONSTRUCTED \<noteq> 0 \<longrightarrow> \<not> is_string_type tag \<and> der_data c) \<Longrightarrow>
   der_data r \<Longrightarrow> der_data (der_element tag c @ r)"

inductive contains_ber :: "CBS \<Rightarrow> bool" where
  indefinite: "tag AND CBS_ASN1_CONSTRUCTED \<noteq> 0 \<Longrightarrow> contains_ber (asn1_tag_enc tag @ 0x80 # r)"
| string: "length c < 2 ^ 32 \<Longrightarrow> tag AND CBS_ASN1_CONSTRUCTED \<noteq> 0 \<Longrightarrow> is_string_type tag \<Longrightarrow>
   contains_ber (der_element tag c @ r)"
| inside: "length c < 2 ^ 32 \<Longrightarrow> tag AND CBS_ASN1_CONSTRUCTED \<noteq> 0 \<Longrightarrow> contains_ber c \<Longrightarrow>
   contains_ber (der_element tag c @ r)"
| later: "length c < 2 ^ 32 \<Longrightarrow> contains_ber r \<Longrightarrow> contains_ber (der_element tag c @ r)"

lemma render_der_data: "der_only n is \<Longrightarrow> items_fit is \<Longrightarrow> der_data (render is)"
  by (induction n "is" rule: der_only.induct) (auto intro!: der_data.intros)

lemma element_nonempty [simp]: "der_element t c \<noteq> []" "[] \<noteq> der_element t c"
  by (simp_all add: der_element_def der_header_def)

lemma element_unique:
  assumes "der_element t c @ r = der_element t' c' @ r'" "length c < 2 ^ 32" "length c' < 2 ^ 32"
  shows "t' = t" "c' = c" "r' = r"
proof -
  have "Some ((der_element t c, t, length (der_header t (length c))), r) =
      Some ((der_element t' c', t', length (der_header t' (length c'))), r')"
    by (rule trans [OF get_any_element_enc [OF assms(2), of t r True, symmetric, unfolded assms(1)]
          get_any_element_enc [OF assms(3), of t' r' True]])
  then have eq: "der_element t' c' = der_element t c" "t' = t" "r' = r"
    "length (der_header t' (length c')) = length (der_header t (length c))" by auto
  show "t' = t" "r' = r" using eq by simp_all
  show "c' = c" using eq(1,4) drop_der_header by metis
qed

lemma der_len_enc_first:
  assumes "n < 2 ^ 32" shows "der_len_enc n @ x \<noteq> 0x80 # y"
proof (cases "n < 128")
  case True
  then have "of_nat n \<noteq> (0x80 :: u8)" by (simp add: word_unat_eq_iff unat_of_nat)
  then show ?thesis using True by (simp add: der_len_enc_def)
next
  case False
  then show ?thesis using assms by (auto simp: der_len_enc_def Let_def)
qed

lemma element_not_indefinite:
  assumes "length c < 2 ^ 32"
  shows "der_element t c @ r \<noteq> asn1_tag_enc t' @ 0x80 # r'"
proof
  assume "der_element t c @ r = asn1_tag_enc t' @ 0x80 # r'"
  then have eq: "asn1_tag_enc t @ der_len_enc (length c) @ c @ r = asn1_tag_enc t' @ 0x80 # r'"
    by (simp add: der_element_def der_header_def)
  have p: "parse_asn1_tag (asn1_tag_enc t @ der_len_enc (length c) @ c @ r) = Some (t, der_len_enc (length c) @ c @ r)"
    "parse_asn1_tag (asn1_tag_enc t' @ 0x80 # r') = Some (t', 0x80 # r')"
    by (simp_all add: asn1_tag.parse_enc)
  have "Some (t, der_len_enc (length c) @ c @ r) = Some (t', 0x80 # r')"
    by (rule trans [OF p(1) [symmetric, unfolded eq] p(2)])
  then have "der_len_enc (length c) @ c @ r = 0x80 # r'" by (simp only: option.inject prod.inject)
  then show False using der_len_enc_first [OF assms] by blast
qed

lemma not_contains_ber_Nil: "\<not> contains_ber []"
  by (auto elim: contains_ber.cases)

lemma contains_ber_element:
  assumes "length c < 2 ^ 32"
  shows "contains_ber (der_element t c @ r) \<longleftrightarrow>
    t AND CBS_ASN1_CONSTRUCTED \<noteq> 0 \<and> (is_string_type t \<or> contains_ber c) \<or> contains_ber r"
proof
  assume "contains_ber (der_element t c @ r)"
  then show "t AND CBS_ASN1_CONSTRUCTED \<noteq> 0 \<and> (is_string_type t \<or> contains_ber c) \<or> contains_ber r"
  proof cases
    case indefinite
    then show ?thesis using element_not_indefinite [OF assms] by blast
  next
    case (string c' tag r')
    then show ?thesis using element_unique [OF string(1) assms string(2)] by simp
  next
    case (inside c' tag r')
    then show ?thesis using element_unique [OF inside(1) assms inside(2)] by simp
  next
    case (later c' r' tag)
    then show ?thesis using element_unique [OF later(1) assms later(2)] by simp
  qed
qed (use assms in \<open>auto intro: contains_ber.intros\<close>)

lemma der_data_no_ber: "der_data s \<Longrightarrow> \<not> contains_ber s"
  by (induction rule: der_data.induct) (auto simp: not_contains_ber_Nil contains_ber_element)

section \<open>The search\<close>

text \<open>One element in front of the rest.\<close>

lemma find_ber_element:
  assumes "length c < 2 ^ 32"
  shows "find_ber_loop n found (der_element t c @ r) =
    (if t AND CBS_ASN1_CONSTRUCTED = 0 then find_ber_loop n found r
     else if is_string_type t then Some True
     else if n + 1 > kMaxDepth then None
     else case find_ber_loop (n + 1) False c of None \<Rightarrow> None | Some b \<Rightarrow> find_ber_loop n b r)"
proof -
  have e: "CBS_get_any_ber_asn1_element (der_element t c @ r) = Some ((der_element t c, t, length (der_header t (length c))), r)"
    using get_any_element_enc [OF assms, of t r True] by (simp add: CBS_get_any_ber_asn1_element_def)
  show ?thesis
    using ber_element_contents(2) [OF e] der_not_indefinite [of t c]
    by (subst find_ber_loop.simps) (simp add: e CBS_len_def drop_der_header)
qed

text \<open>What the search reports is there.\<close>

lemma find_ber_sound: "find_ber_loop n found s = Some True \<Longrightarrow> found \<or> contains_ber s"
proof (induction s arbitrary: n found rule: measure_induct_rule [of length])
  case (less s)
  show ?case
  proof (cases "s = []")
    case True
    then show ?thesis using less.prems by (simp add: find_ber_loop.simps [of n found "[]"] CBS_len_def)
  next
    case False
    then obtain out tag hl r where e: "CBS_get_any_ber_asn1_element s = Some ((out, tag, hl), r)"
      using less.prems by (cases "CBS_get_any_ber_asn1_element s") (auto simp: find_ber_loop.simps [of n found s] CBS_len_def)
    show ?thesis
    proof (cases rule: ber_element_cases [OF e])
      case (1 c)
      note s = 1(4) [unfolded 1(2)]
      have l: "length c < length s" "length r < length s" by (simp_all add: s) (simp_all add: der_element_def der_header_def)
      show ?thesis
        using less.prems less.IH [OF l(1), of "n + 1" False] less.IH [OF l(2), of n]
        unfolding s find_ber_element [OF 1(1)] contains_ber_element [OF 1(1)]
        by (auto split: if_splits option.splits)
    next
      case 2
      then show ?thesis using contains_ber.indefinite [of tag r] by simp
    qed
  qed
qed

text \<open>On well-formed input it does not fail.\<close>

lemma find_ber_returns:
  "ber_items s 0 False depth = Some x \<Longrightarrow> find_ber_loop depth found s \<noteq> None"
proof (induction s arbitrary: depth found x rule: measure_induct_rule [of length])
  case (less s)
  note depth = ber_items_depth [OF less.prems]
  show ?case
  proof (cases "s = []")
    case True
    then show ?thesis by (simp add: find_ber_loop.simps [of depth found "[]"] CBS_len_def)
  next
    case s: False
    then obtain out tag hl r where e: "CBS_get_any_ber_asn1_element s = Some ((out, tag, hl), r)"
      using less.prems depth by (cases "CBS_get_any_ber_asn1_element s") (auto simp: ber_items.simps [of s])
    have eoc: "\<not> is_eoc hl out" using less.prems depth s e by (simp add: ber_items.simps [of s] split: if_splits)
    have "\<not> wrong_string 0 tag" by (simp add: wrong_string_def)
    note items = less.prems [unfolded ber_items_element [OF e eoc s depth this]]
    show ?thesis
    proof (cases rule: ber_element_cases [OF e])
      case (1 c)
      note s' = 1(4) [unfolded 1(2)]
      have l: "length c < length s" "length r < length s" by (simp_all add: s') (simp_all add: der_element_def der_header_def)
      have i: "\<not> is_indefinite out hl" "drop hl out = c" using der_not_indefinite drop_der_header 1(2,3) by simp_all
      have "\<exists>y. ber_items r 0 False depth = Some y"
        using items i by (auto simp: items_body_def split: option.splits if_splits)
      then have rest: "find_ber_loop depth b r \<noteq> None" for b using less.IH [OF l(2)] by blast
      have "depth + 1 \<le> kMaxDepth \<and> find_ber_loop (depth + 1) False c \<noteq> None"
        if "tag AND CBS_ASN1_CONSTRUCTED \<noteq> 0" "\<not> is_string_type tag"
      proof -
        note constructed = that
        have "child_string_tag 0 tag = 0" using out_tag_simps(3) that by simp
        then obtain y where "ber_items c 0 False (depth + 1) = Some y"
          using items i constructed by (auto simp: items_body_def split: option.splits if_splits)
        then show ?thesis using less.IH [OF l(1)] ber_items_depth by blast
      qed
      then show ?thesis
        unfolding s' find_ber_element [OF 1(1)]
        using rest by (cases "tag AND CBS_ASN1_CONSTRUCTED = 0"; cases "is_string_type tag") (auto split: option.splits)
    next
      case 2
      then have "is_indefinite out hl" using is_indefinite_iff [OF e] by simp
      then show ?thesis using s by (simp add: find_ber_loop.simps [of depth found s] e CBS_len_def)
    qed
  qed
qed

text \<open>The first element of such an input is read by the DER reader too, unless it has an indefinite length.\<close>

lemma find_ber_first:
  assumes "find_ber_loop n found s = Some False" "s \<noteq> []"
  obtains out tag hl r where "CBS_get_any_asn1_element s = Some ((out, tag, hl), r)"
proof -
  obtain out tag hl r where e: "CBS_get_any_ber_asn1_element s = Some ((out, tag, hl), r)"
    using assms by (cases "CBS_get_any_ber_asn1_element s") (auto simp: find_ber_loop.simps [of n found s] CBS_len_def)
  show thesis
  proof (cases rule: ber_element_cases [OF e])
    case 1
    then show thesis using that CBS_get_any_asn1_element_iff by blast
  next
    case 2
    then have "is_indefinite out hl" using is_indefinite_iff [OF e] by simp
    then show thesis using assms by (simp add: find_ber_loop.simps [of n found s] e CBS_len_def)
  qed
qed

text \<open>
  A sequence of elements of definite length, none a constructed string: whatever the earlier ones
  hold, the report is that for the contents of the last constructed one.
\<close>

definition elements :: "(u32 \<times> u8 list) list \<Rightarrow> u8 list" where
  "elements es = concat (map (\<lambda>(t, c). der_element t c) es)"

definition constructed_of :: "(u32 \<times> u8 list) list \<Rightarrow> (u32 \<times> u8 list) list" where
  "constructed_of es = filter (\<lambda>(t, c). t AND CBS_ASN1_CONSTRUCTED \<noteq> 0) es"

lemma find_ber_elements:
  assumes "\<forall>(t, c)\<in>set es. length c < 2 ^ 32 \<and>
      (t AND CBS_ASN1_CONSTRUCTED \<noteq> 0 \<longrightarrow> \<not> is_string_type t \<and> find_ber_loop (n + 1) False c \<noteq> None)"
    and "n < kMaxDepth"
  shows "find_ber_loop n found (elements es) =
    (if constructed_of es = [] then Some found else find_ber_loop (n + 1) False (snd (last (constructed_of es))))"
  using assms(1)
proof (induction es arbitrary: found)
  case Nil
  then show ?case by (simp add: elements_def constructed_of_def find_ber_loop.simps [of n found "[]"] CBS_len_def)
next
  case (Cons e es)
  obtain t c where e: "e = (t, c)" by force
  have IH: "find_ber_loop n b (elements es) =
      (if constructed_of es = [] then Some b else find_ber_loop (n + 1) False (snd (last (constructed_of es))))" for b
    using Cons by simp
  have c: "length c < 2 ^ 32" using Cons.prems e by simp
  have "elements (e # es) = der_element t c @ elements es" by (simp add: elements_def e)
  then show ?case
    unfolding e using Cons.prems assms(2) IH find_ber_element [OF c, of n found t "elements es"]
    by (auto simp: e constructed_of_def split: option.splits)
qed

lemma contains_ber_elements:
  assumes "\<forall>(t, c)\<in>set es. length c < 2 ^ 32"
  shows "contains_ber (elements es) \<longleftrightarrow>
    (\<exists>(t, c)\<in>set (constructed_of es). is_string_type t \<or> contains_ber c)"
  using assms
proof (induction es)
  case (Cons e es)
  obtain t c where e: "e = (t, c)" by force
  have "elements (e # es) = der_element t c @ elements es" by (simp add: elements_def e)
  then show ?case using Cons by (auto simp: e constructed_of_def contains_ber_element)
qed (simp add: elements_def constructed_of_def not_contains_ber_Nil)

lemma contents_shorter: "(t, c) \<in> set es \<Longrightarrow> length c \<le> length (elements es)"
proof (induction es)
  case (Cons e es)
  obtain t' c' where "e = (t', c')" by force
  then show ?case using Cons by (auto simp: elements_def der_element_def)
qed simp

section \<open>The conversion\<close>

lemma ber_to_der_output:
  assumes "CBS_asn1_ber_to_der mem fresh s = Some ((out, True), r)" "length s < 2 ^ 64"
  shows "\<exists>is. ber_items s 0 False 0 = Some (is, []) \<and> r = [] \<and> out = render is \<and> items_fit is \<and>
    der_data out \<and> \<not> contains_ber out"
proof -
  obtain "is" where "is": "ber_items s 0 False 0 = Some (is, [])" "r = []" "out = render is" "items_fit is"
    using ber_to_der_new_storage [OF assms] by blast
  then have "der_data out" using render_der_data [OF ber_items_der_only [OF _ refl]] by simp
  with "is" der_data_no_ber show ?thesis by blast
qed

lemma ber_to_der_result:
  assumes "ber_items s 0 False 0 = Some (is, r)" "s \<noteq> []" "items_fit is"
    and "length (render is) < 2 ^ 64" "length s < 2 ^ 64"
  shows "if cbs_find_ber s 0 = Some True
    then contains_ber s \<and> CBS_asn1_ber_to_der [] fresh s = Some ((render is, True), [])
    else \<exists>out tag hl rest. CBS_get_any_asn1_element s = Some ((out, tag, hl), rest) \<and>
      CBS_asn1_ber_to_der [] fresh s = Some ((out, False), rest)"
proof -
  have f: "cbs_find_ber s 0 = find_ber_loop 0 False s"
    by (simp add: cbs_find_ber_def CBS_init_def CBS_data_def CBS_len_def)
  then consider "cbs_find_ber s 0 = Some True" | "cbs_find_ber s 0 = Some False"
    using find_ber_returns [OF assms(1), of False] by (metis (full_types) not_None_eq)
  then show ?thesis
  proof cases
    case 1
    then show ?thesis
      using ber_to_der_total [OF 1 assms(1,3,4,5)] find_ber_sound [of 0 False s] f by simp
  next
    case 2
    obtain out tag hl rest where "CBS_get_any_asn1_element s = Some ((out, tag, hl), rest)"
      using find_ber_first [OF 2 [unfolded f] assms(2)] by blast
    then show ?thesis using 2 by (simp add: CBS_asn1_ber_to_der_def)
  qed
qed

lemma ber_to_der_siblings:
  assumes t0: "t0 AND CBS_ASN1_CONSTRUCTED \<noteq> 0" "\<not> is_string_type t0" and len: "length (elements es) < 2 ^ 32"
    and es: "\<forall>(t, c)\<in>set (constructed_of es). \<not> is_string_type t \<and> cbs_find_ber c 2 \<noteq> None"
    and ne: "constructed_of es \<noteq> []"
  defines "whole \<equiv> der_element t0 (elements es)" and "last_contents \<equiv> snd (last (constructed_of es))"
  shows "cbs_find_ber whole 0 = cbs_find_ber last_contents 2"
    and "contains_ber whole \<longleftrightarrow> (\<exists>(t, c)\<in>set (constructed_of es). contains_ber c)"
    and "cbs_find_ber last_contents 2 = Some False \<Longrightarrow>
      CBS_asn1_ber_to_der mem fresh whole = Some ((whole, False), [])"
proof -
  have k: "1 < kMaxDepth" "\<not> 2 > kMaxDepth" by (simp_all add: kMaxDepth_def)
  have f: "cbs_find_ber c 2 = find_ber_loop 2 False c" "cbs_find_ber c 0 = find_ber_loop 0 False c" for c
    using k by (simp_all add: cbs_find_ber_def CBS_init_def CBS_data_def CBS_len_def)
  have small: "\<forall>(t, c)\<in>set es. length c < 2 ^ 32" using contents_shorter len by fastforce
  have "\<forall>(t, c)\<in>set es. length c < 2 ^ 32 \<and>
      (t AND CBS_ASN1_CONSTRUCTED \<noteq> 0 \<longrightarrow> \<not> is_string_type t \<and> find_ber_loop (1 + 1) False c \<noteq> None)"
    unfolding one_add_one f(1) [symmetric]
  proof (rule ballI)
    fix e
    assume e: "e \<in> set es"
    obtain t c where tc: "e = (t, c)" by force
    show "case e of (t, c) \<Rightarrow> length c < 2 ^ 32 \<and>
        (t AND CBS_ASN1_CONSTRUCTED \<noteq> 0 \<longrightarrow> \<not> is_string_type t \<and> cbs_find_ber c 2 \<noteq> None)"
      using bspec [OF small, of e] bspec [OF es, of e] e unfolding tc by (simp add: constructed_of_def)
  qed
  note seq = find_ber_elements [OF this k(1), of False]
  have one: "find_ber_loop 0 False (der_element t0 (elements es) @ []) =
      (case find_ber_loop 1 False (elements es) of None \<Rightarrow> None | Some b \<Rightarrow> find_ber_loop 0 b [])"
    using t0 k unfolding find_ber_element [OF len] by simp
  have nil: "find_ber_loop 0 b [] = Some b" for b by (simp add: find_ber_loop.simps [of 0 b "[]"] CBS_len_def)
  show found: "cbs_find_ber whole 0 = cbs_find_ber last_contents 2"
    using one ne unfolding nil seq whole_def last_contents_def f
    by (simp add: numeral_2_eq_2 split: option.splits)
  show "contains_ber whole \<longleftrightarrow> (\<exists>(t, c)\<in>set (constructed_of es). contains_ber c)"
    using contains_ber_element [OF len, of t0 "[]"] t0 es contains_ber_elements [OF small] not_contains_ber_Nil
    by (auto simp: whole_def)
  assume "cbs_find_ber last_contents 2 = Some False"
  moreover have "CBS_get_any_asn1_element whole = Some ((whole, t0, length (der_header t0 (length (elements es)))), [])"
    using CBS_get_any_asn1_element_iff [of whole whole t0 "length (der_header t0 (length (elements es)))" "[]"] len
    by (auto simp: whole_def)
  ultimately show "CBS_asn1_ber_to_der mem fresh whole = Some ((whole, False), [])"
    using found by (simp add: CBS_asn1_ber_to_der_def)
qed

end
