(* ===== verification/Set_Of.thy ===== *)
theory Set_Of
  imports Cbb_Progress "HOL-Library.List_Lexorder" "HOL-Library.Multiset"
begin

text \<open>
  \<open>CBB_flush_asn1_set_of\<close>: the elements in the open level are put in the order DER asks of
  a SET OF, ascending by their encodings.  The comparison function is the lexicographic
  order on octet strings, so sorting is \<open>sort\<close> of the library.
\<close>

section \<open>The order\<close>

lemma compare_Nil [simp]:
  "compare_set_of_element [] [] = 0" "compare_set_of_element [] (y # ys) = - 1"
  "compare_set_of_element (x # xs) [] = 1"
  by (simp_all add: compare_set_of_element_def CBS_len_def CBS_data_def)

lemma compare_Cons [simp]:
  "compare_set_of_element (x # xs) (y # ys) =
     (if x = y then compare_set_of_element xs ys else int (unat x) - int (unat y))"
  by (auto simp: compare_set_of_element_def CBS_len_def CBS_data_def Let_def word_uint_eq_iff [symmetric])

lemma compare_lexicographic:
  "compare_set_of_element a b < 0 \<longleftrightarrow> a < b" "compare_set_of_element a b = 0 \<longleftrightarrow> a = b"
proof -
  have "(compare_set_of_element a b < 0 \<longleftrightarrow> a < b) \<and> (compare_set_of_element a b = 0 \<longleftrightarrow> a = b)"
  proof (induction a arbitrary: b)
    case (Cons x xs)
    show ?case
    proof (cases b)
      case (Cons y ys)
      with Cons.IH [of ys] show ?thesis
        by (cases "x = y") (simp_all add: word_less_def word_uint_eq_iff [symmetric])
    qed simp
  next
    case Nil
    then show ?case by (cases b) simp_all
  qed
  then show "compare_set_of_element a b < 0 \<longleftrightarrow> a < b" "compare_set_of_element a b = 0 \<longleftrightarrow> a = b"
    by blast+
qed

lemma compare_le: "compare_set_of_element a b \<le> 0 \<longleftrightarrow> a \<le> b"
  using compare_lexicographic [of a b] by (auto simp: le_less)

interpretation set_of_element: comparator compare_set_of_element
proof unfold_locales
  show "compare_set_of_element a b < 0 \<longleftrightarrow> compare_set_of_element b a > 0" for a b
    using compare_le [of b a] by (auto simp: compare_lexicographic not_le)
qed (auto simp: compare_le)

lemma qsort_sort: "qsort compare_set_of_element xs = sort xs"
proof -
  have "qsort_insert compare_set_of_element x ys = insort x ys" for x ys
    by (induction ys) (simp_all add: compare_le)
  then have "qsort_insert compare_set_of_element = insort" by (intro ext)
  then show ?thesis by (simp add: qsort_def sort_key_def)
qed

text \<open>Any sorting function gives this list.\<close>

lemma qsort_unique:
  assumes "mset ys = mset xs" "sorted_wrt (\<lambda>a b. compare_set_of_element a b \<le> 0) ys"
  shows "ys = qsort compare_set_of_element xs"
  using assms by (simp add: qsort_sort compare_le properties_for_sort)

section \<open>The elements\<close>

definition valid_element :: "CBS \<times> u32 \<times> size_t \<Rightarrow> bool" where
  "valid_element = (\<lambda>(out, tag, header_len). \<exists>c. length c < 2 ^ 32 \<and> out = der_element tag c \<and>
     header_len = length (der_header tag (length c)))"

interpretation any_element: codec CBS_get_any_asn1_element fst valid_element
  by unfold_locales (auto simp: CBS_get_any_asn1_element_iff valid_element_def)

section \<open>The state\<close>

lemma CBB_data_level:
  assumes "cbb_wf c" "cbb_live c" "length (cbb_chain c) = d"
  shows "CBB_data d c = Some (last (open_levels (cbb_view c)))"
proof -
  obtain b where b: "cbb_base c = Some b" "\<not> b_error b" using assms by (auto simp: cbb_live_def)
  then have wf: "chain_wf 0 (cbb_chain c) (b_len b)" using assms by (simp add: cbb_wf_def)
  show ?thesis
  proof (cases "cbb_chain c" rule: rev_cases)
    case Nil
    with assms b show ?thesis
      by (simp add: CBB_data_def cbb_start_def cbb_view_def view_def b_written_def)
  next
    case (snoc fs f)
    then have d: "d = Suc (length fs)" using assms by simp
    have "chain_wf 0 fs (c_offset f)" using wf snoc by (simp add: chain_wf_snoc)
    with snoc b assms d show ?thesis
      by (simp add: CBB_data_def cbb_start_def cbb_view_def view_def levels_snoc child_end_def
          b_written_def)
  qed
qed

text \<open>Rewinding to the start of the level drops its contents and nothing else.\<close>

definition clear_level :: "builder \<Rightarrow> builder" where
  "clear_level v = v\<lparr>open_levels := butlast (open_levels v) @ [[]]\<rparr>"

definition rewind :: "nat \<Rightarrow> CBB \<Rightarrow> CBB" where
  "rewind d c = snd (on_base (\<lambda>base. (True, base\<lparr>b_len := cbb_start d c\<rparr>)) c)"

lemma rewind_spec:
  assumes "cbb_wf c" "cbb_base c = Some b" "\<not> b_error b" "length (cbb_chain c) = d"
  shows "on_base (\<lambda>base. (True, base\<lparr>b_len := cbb_start d c\<rparr>)) c = (True, rewind d c)"
    and "cbb_wf (rewind d c)" "keeps c (rewind d c)" "cbb_chain (rewind d c) = cbb_chain c"
    and "cbb_view (rewind d c) = clear_level (cbb_view c)"
    and "cbb_capacity (b_len b) (rewind d c)"
proof -
  have wf: "chain_wf 0 (cbb_chain c) (b_len b)" "buffer_wf b" using assms by (simp_all add: cbb_wf_def)
  have r: "rewind d c = c\<lparr>cbb_base := Some (b\<lparr>b_len := cbb_start d c\<rparr>)\<rparr>"
    using assms by (simp add: rewind_def on_base_def)
  show "on_base (\<lambda>base. (True, base\<lparr>b_len := cbb_start d c\<rparr>)) c = (True, rewind d c)"
    "keeps c (rewind d c)" "cbb_chain (rewind d c) = cbb_chain c"
    using assms r by (simp_all add: on_base_def keeps_def)
  show "cbb_capacity (b_len b) (rewind d c)"
    using assms r wf by (simp add: cbb_capacity_def capacity_def buffer_wf_def)
  have start: "cbb_start d c \<le> b_len b \<and> chain_wf 0 (cbb_chain c) (cbb_start d c) \<and>
      view (cbb_chain c) (take (cbb_start d c) (b_written b)) = clear_level (view (cbb_chain c) (b_written b))"
  proof (cases "cbb_chain c" rule: rev_cases)
    case Nil
    with assms show ?thesis by (simp add: cbb_start_def view_def clear_level_def)
  next
    case (snoc fs f)
    then have d: "d = Suc (length fs)" "cbb_chain c ! length fs = f" using assms by simp_all
    have f: "chain_wf 0 fs (c_offset f)" "child_end f \<le> b_len b" "child_wf f"
      using wf snoc by (simp_all add: chain_wf_snoc)
    have "cbb_start d c = child_end f" using d by (simp add: cbb_start_def child_end_def)
    with f snoc show ?thesis
      by (simp add: view_def clear_level_def levels_snoc chain_wf_snoc child_end_def butlast_append min_def)
  qed
  then show "cbb_wf (rewind d c)" using assms r wf by (simp add: cbb_wf_def buffer_wf_def)
  have "b_written (b\<lparr>b_len := cbb_start d c\<rparr>) = take (cbb_start d c) (b_written b)"
    using start by (simp add: b_written_def min_absorb1)
  with start assms r show "cbb_view (rewind d c) = clear_level (cbb_view c)"
    by (simp add: cbb_view_def)
qed

lemma add_children_Nil: "add_children d [] = (\<lambda>c. (True, c))"
  by (simp add: fun_eq_iff)

lemma add_children_writes:
  "cs \<noteq> [] \<Longrightarrow> list_all (\<lambda>x. length x < 2 ^ 64) cs \<Longrightarrow> writes d (concat cs) (add_children d cs)"
proof (induction cs)
  case (Cons x cs)
  have w: "writes d x (CBB_add_bytes d (CBS_data x))"
    using Cons.prems writes_bytes by (simp add: CBS_data_def)
  show ?case
  proof (cases "cs = []")
    case True
    then have "add_children d (x # cs) = CBB_add_bytes d (CBS_data x)"
      by (simp add: fun_eq_iff add_children_Nil)
    with w True show ?thesis by simp
  next
    case False
    with Cons have "writes d (concat cs) (add_children d cs)" by simp
    moreover have "add_children d (x # cs) =
        (\<lambda>c. andthen (CBB_add_bytes d (CBS_data x) c) (add_children d cs))"
      by (simp add: fun_eq_iff)
    ultimately show ?thesis using writes_andthen [OF w] by simp
  qed
qed simp

section \<open>The operation\<close>

definition sort_level :: "builder \<Rightarrow> builder" where
  "sort_level v =
     (case parse_many CBS_get_any_asn1_element (last (open_levels v)) of
        None \<Rightarrow> v
      | Some es \<Rightarrow> v\<lparr>open_levels := butlast (open_levels v) @ [concat (sort (map fst es))]\<rparr>)"

text \<open>The part of \<open>CBB_flush_asn1_set_of\<close> after the flush, and after the parsing of the elements.\<close>

definition rewrite_elements :: "nat \<Rightarrow> (CBS \<times> u32 \<times> size_t) list \<Rightarrow> CBB \<Rightarrow> bool \<times> CBB" where
  "rewrite_elements d es cbb =
     andthen (on_base set_of_alloc cbb) (\<lambda>cbb.
       andthen (on_base (\<lambda>base. (True, base\<lparr>b_len := cbb_start d cbb\<rparr>)) cbb)
         (add_children d (qsort compare_set_of_element (map fst es))))"

definition set_of_body :: "nat \<Rightarrow> CBB \<Rightarrow> bool \<times> CBB" where
  "set_of_body d cbb =
     (case CBB_data d cbb of
        None \<Rightarrow> (False, cbb)
      | Some cbs \<Rightarrow>
          (case parse_many CBS_get_any_asn1_element cbs of
             None \<Rightarrow> (False, cbb)
           | Some es \<Rightarrow>
               if length es < 2 then (True, cbb)
               else if length es > size_max div sizeof_CBS then (False, cbb)
               else rewrite_elements d es cbb))"

lemma set_of_eq: "CBB_flush_asn1_set_of d = (\<lambda>c. andthen (CBB_flush d c) (set_of_body d))"
  by (rule ext) (simp only: CBB_flush_asn1_set_of_def set_of_body_def [abs_def] rewrite_elements_def Let_def)

lemma set_of_alloc_base:
  "fst (set_of_alloc b) = (fst (mem_next (b_mem b)) \<and> fst (mem_next (snd (mem_next (b_mem b)))))"
  "\<exists>m. snd (set_of_alloc b) = b\<lparr>b_mem := m\<rparr>"
  by (auto simp: set_of_alloc_def split: prod.splits)

lemma rewrite_elements_spec:
  assumes c: "cbb_wf c" "cbb_base c = Some b" "\<not> b_error b" "length (cbb_chain c) = d"
    and es: "parse_many CBS_get_any_asn1_element (last (open_levels (cbb_view c))) = Some es" "es \<noteq> []"
  defines "r \<equiv> rewrite_elements d es c"
  shows "cbb_wf (snd r) \<and> keeps c (snd r) \<and> (fst r \<longleftrightarrow> fst (set_of_alloc b)) \<and>
    (fst r \<longrightarrow> cbb_live (snd r) \<and> cbb_view (snd r) = sort_level (cbb_view c))"
proof -
  obtain m where m: "snd (set_of_alloc b) = b\<lparr>b_mem := m\<rparr>" using set_of_alloc_base by blast
  define c1 where "c1 = c\<lparr>cbb_base := Some (b\<lparr>b_mem := m\<rparr>)\<rparr>"
  have a: "on_base set_of_alloc c = (fst (set_of_alloc b), c1)"
    using c m by (simp add: on_base_def c1_def split_def)
  have bw: "b_written (b\<lparr>b_mem := m\<rparr>) = b_written b" "buffer_wf (b\<lparr>b_mem := m\<rparr>) = buffer_wf b"
    by (simp_all add: b_written_def buffer_wf_def)
  have c1: "cbb_wf c1" "cbb_base c1 = Some (b\<lparr>b_mem := m\<rparr>)" "keeps c c1" "cbb_view c1 = cbb_view c"
    "length (cbb_chain c1) = d" "\<not> b_error (b\<lparr>b_mem := m\<rparr>)"
    using c bw by (simp_all add: c1_def cbb_wf_def keeps_def cbb_view_def)
  show ?thesis
  proof (cases "fst (set_of_alloc b)")
    case False
    then have "r = (False, c1)" using a by (simp add: r_def rewrite_elements_def)
    with False c1 show ?thesis by simp
  next
    case True
    define L cs where "L = last (open_levels (cbb_view c))" and "cs = sort (map fst es)"
    have L: "L = concat (map fst es)" using es by (simp add: any_element.parse_many_iff L_def)
    have lv: "open_levels (cbb_view c) \<noteq> []" using c by (simp add: cbb_view_def view_def)
    have used: "bytes_used (cbb_view c) = b_len b" using bytes_used_cbb_view c by blast
    have lenL: "length L + bytes_used (clear_level (cbb_view c)) = b_len b"
      using lv unfolding used [symmetric] L_def
      by (cases "open_levels (cbb_view c)" rule: rev_cases) (simp_all add: bytes_used_def clear_level_def)
    have perm: "length (concat cs) = length L"
    proof -
      have "mset (map length cs) = mset (map length (map fst es))"
        by (simp only: mset_map cs_def mset_sort)
      then have "sum_list (map length cs) = sum_list (map length (map fst es))"
        by (simp only: sum_mset_sum_list [symmetric])
      then show ?thesis by (simp add: L length_concat)
    qed
    have small: "b_len b < 2 ^ 64" using c by (simp add: cbb_wf_def buffer_wf_def)
    have w: "writes d (concat cs) (add_children d cs)"
    proof (rule add_children_writes)
      show "cs \<noteq> []" using es by (metis cs_def length_0_conv length_sort list.map_disc_iff)
      have "length x \<le> length L" if "x \<in> set cs" for x
        using that unfolding perm [symmetric] by (simp add: length_concat member_le_sum_list)
      then show "list_all (\<lambda>x. length x < 2 ^ 64) cs"
        using lenL small by (force simp: list_all_iff)
    qed
    note rw = rewind_spec [OF c1(1,2) c1(6) c1(5)]
    have r: "r = add_children d cs (rewind d c1)"
      using a True rw(1) by (simp add: r_def rewrite_elements_def qsort_sort cs_def)
    have v: "close_to d (clear_level (cbb_view c)) = clear_level (cbb_view c)"
      using c by (intro close_to_same) (simp add: clear_level_def kinds_cbb_view)
    have putv: "put_bytes (concat cs) (clear_level (cbb_view c)) = sort_level (cbb_view c)"
      using es lv by (simp add: sort_level_def clear_level_def put_bytes_def app_last_def cs_def)
    have ne: "open_levels (clear_level (cbb_view c)) \<noteq> []" by (simp add: clear_level_def)
    have fit: "all_fit (clear_level (cbb_view c))"
      by (simp add: clear_level_def cbb_view_def view_def split: option.splits)
    have "fst r"
      unfolding r using rw c1 w v ne fit lenL perm
      by (intro progressesD [of d "\<lambda>v. put_bytes (concat cs) (close_to d v)" _ _ "b_len b"])
         (simp_all add: writes_def)
    have i: "implements d (\<lambda>v. put_bytes (concat cs) (close_to d v)) (add_children d cs)"
      using w by (simp add: writes_def)
    have "keeps c (snd r)"
      unfolding r by (rule keeps_trans [OF keeps_trans [OF c1(3) rw(3)] implementsD(2) [OF i rw(2)]])
    moreover have "cbb_wf (snd r)" unfolding r by (rule implementsD(1) [OF i rw(2)])
    moreover have "cbb_live (snd r)" "cbb_view (snd r) = sort_level (cbb_view c)"
      using implementsD(4,6) [OF i rw(2)] \<open>fst r\<close> rw(5) c1(4) v putv unfolding r by simp_all
    ultimately show ?thesis using True \<open>fst r\<close> by simp
  qed
qed

lemma set_of_body_spec:
  assumes c: "cbb_wf c" "cbb_live c" "length (cbb_chain c) = d"
  shows "cbb_wf (snd (set_of_body d c)) \<and> keeps c (snd (set_of_body d c)) \<and>
    (fst (set_of_body d c) \<longrightarrow> cbb_live (snd (set_of_body d c)) \<and>
       cbb_view (snd (set_of_body d c)) = sort_level (cbb_view c) \<and>
       parse_many CBS_get_any_asn1_element (last (open_levels (cbb_view c))) \<noteq> None)"
proof (cases "parse_many CBS_get_any_asn1_element (last (open_levels (cbb_view c)))")
  case None
  with c show ?thesis by (simp add: set_of_body_def CBB_data_level)
next
  case (Some es)
  obtain b where b: "cbb_base c = Some b" "\<not> b_error b" using c by (auto simp: cbb_live_def)
  have body: "set_of_body d c =
      (if length es < 2 then (True, c)
       else if length es > size_max div sizeof_CBS then (False, c)
       else rewrite_elements d es c)"
    using c Some by (simp add: set_of_body_def CBB_data_level)
  show ?thesis
  proof (cases "length es < 2")
    case True
    then have "concat (sort (map fst es)) = last (open_levels (cbb_view c))"
      using Some by (cases es; cases "tl es") (auto simp: any_element.parse_many_iff)
    moreover have "open_levels (cbb_view c) \<noteq> []" using b by (simp add: cbb_view_def view_def)
    ultimately have "sort_level (cbb_view c) = cbb_view c" using Some by (simp add: sort_level_def)
    with True Some c body show ?thesis by simp
  next
    case False
    then have "es \<noteq> []" by auto
    from rewrite_elements_spec [OF c(1) b c(3) Some this] body False c Some show ?thesis by simp
  qed
qed

lemma set_of_implements:
  "implements d (\<lambda>v. sort_level (close_to d v)) (CBB_flush_asn1_set_of d)"
  unfolding set_of_eq by (rule implements_after_flush) (use set_of_body_spec in blast)

end
