(* ===== verification/Mbstring.thy ===== *)
theory Mbstring
  imports Unicode
begin

unbundle bit_operations_syntax

text \<open>
  ASN.1 character strings: the conversion between their encodings (\<open>crypto/asn1/a_mbstr.c\<close>), the
  setter of \<open>crypto/asn1/asn1_lib.c\<close> and \<open>ASN1_STRING_to_UTF8\<close> of \<open>crypto/x509/a_strex.c\<close>.  The
  readers and writers are those of \<open>Unicode\<close>, the output is built with \<open>Cbb\<close>.
\<close>

section \<open>The code\<close>

definition V_ASN1_UTF8STRING :: int where "V_ASN1_UTF8STRING = 12"
definition V_ASN1_PRINTABLESTRING :: int where "V_ASN1_PRINTABLESTRING = 19"
definition V_ASN1_T61STRING :: int where "V_ASN1_T61STRING = 20"
definition V_ASN1_IA5STRING :: int where "V_ASN1_IA5STRING = 22"
definition V_ASN1_UNIVERSALSTRING :: int where "V_ASN1_UNIVERSALSTRING = 28"
definition V_ASN1_BMPSTRING :: int where "V_ASN1_BMPSTRING = 30"

definition B_ASN1_PRINTABLESTRING :: u64 where "B_ASN1_PRINTABLESTRING = 0x0002"
definition B_ASN1_T61STRING :: u64 where "B_ASN1_T61STRING = 0x0004"
definition B_ASN1_IA5STRING :: u64 where "B_ASN1_IA5STRING = 0x0010"
definition B_ASN1_UNIVERSALSTRING :: u64 where "B_ASN1_UNIVERSALSTRING = 0x0100"
definition B_ASN1_BMPSTRING :: u64 where "B_ASN1_BMPSTRING = 0x0800"
definition B_ASN1_UTF8STRING :: u64 where "B_ASN1_UTF8STRING = 0x2000"
definition DIRSTRING_TYPE :: u64 where
  "DIRSTRING_TYPE = B_ASN1_PRINTABLESTRING OR B_ASN1_T61STRING OR B_ASN1_BMPSTRING OR B_ASN1_UTF8STRING"

definition MBSTRING_FLAG :: int where "MBSTRING_FLAG = 0x1000"
definition MBSTRING_UTF8 :: int where "MBSTRING_UTF8 = MBSTRING_FLAG"
definition MBSTRING_ASC :: int where "MBSTRING_ASC = MBSTRING_FLAG OR 1"
definition MBSTRING_BMP :: int where "MBSTRING_BMP = MBSTRING_FLAG OR 2"
definition MBSTRING_UNIV :: int where "MBSTRING_UNIV = MBSTRING_FLAG OR 4"

text \<open>\<open>asn1_data\<close> is the object pointed to, which has a NUL after its first \<open>asn1_length\<close> bytes.\<close>

record ASN1_STRING =
  asn1_type :: int
  asn1_data :: "u8 list option"
  asn1_length :: nat

definition ASN1_STRING_type_new :: "bool list \<Rightarrow> int \<Rightarrow> ASN1_STRING option \<times> bool list" where
  "ASN1_STRING_type_new mem type =
     (let (ok, mem) = mem_next mem
      in if \<not> ok then (None, mem) else (Some \<lparr>asn1_type = type, asn1_data = None, asn1_length = 0\<rparr>, mem))"

definition ASN1_STRING_set ::
    "bool list \<Rightarrow> (nat \<Rightarrow> u8) \<Rightarrow> ASN1_STRING \<Rightarrow> u8 list option \<Rightarrow> int \<Rightarrow> bool \<times> ASN1_STRING \<times> bool list" where
  "ASN1_STRING_set mem fresh str data len =
     (if len < 0 \<and> data = None then (False, str, mem)
      else
        let n = (if len < 0 then length (takeWhile (\<lambda>c. c \<noteq> 0) (the data)) else nat len);
            (ok, str, mem) =
              (if asn1_length str \<le> n \<or> asn1_data str = None then
                 let (ok, mem) = mem_next mem
                 in if \<not> ok then (False, str, mem)
                    else (True, str\<lparr>asn1_data := Some (case asn1_data str of
                              None \<Rightarrow> map fresh [0..<n + 1]
                            | Some c \<Rightarrow> take (n + 1) (c @ map fresh [length c..<n + 1]))\<rparr>, mem)
               else (True, str, mem))
        in if \<not> ok then (False, str, mem)
           else
             let str = str\<lparr>asn1_length := n\<rparr>
             in (True,
                 (case data of
                    None \<Rightarrow> str
                  | Some d \<Rightarrow> str\<lparr>asn1_data := map_option (\<lambda>c. blit c 0 (take n d @ [0])) (asn1_data str)\<rparr>),
                 mem))"

text \<open>\<open>strchr\<close> also finds the NUL that ends its string.\<close>

definition is_printable :: "u32 \<Rightarrow> bool" where
  "is_printable value =
     (if value > 0x7f then False
      else
        let ch = uint value
        in if ch \<ge> 97 \<and> ch \<le> 122 then True
           else if ch \<ge> 65 \<and> ch \<le> 90 then True
           else if ch \<ge> 48 \<and> ch \<le> 57 then True
           else if ch = 32 \<or> ch \<in> set [39, 40, 41, 43, 44, 45, 46, 47, 58, 61, 63, 0] then True
           else False)"

definition mb_decode_func :: "int \<Rightarrow> (CBS \<Rightarrow> (u32 \<times> CBS) option) option" where
  "mb_decode_func inform =
     (if inform = MBSTRING_BMP then Some cbs_get_ucs2_be
      else if inform = MBSTRING_UNIV then Some cbs_get_utf32_be
      else if inform = MBSTRING_UTF8 then Some cbs_get_utf8
      else if inform = MBSTRING_ASC then Some cbs_get_latin1
      else None)"

text \<open>Which output formats a character leaves possible.\<close>

definition mb_update_mask :: "u32 \<Rightarrow> u64 \<Rightarrow> u64" where
  "mb_update_mask c msk =
     (let msk = (if msk AND B_ASN1_PRINTABLESTRING \<noteq> 0 \<and> \<not> is_printable c then msk AND NOT B_ASN1_PRINTABLESTRING else msk);
          msk = (if msk AND B_ASN1_IA5STRING \<noteq> 0 \<and> c > 127 then msk AND NOT B_ASN1_IA5STRING else msk);
          msk = (if msk AND B_ASN1_T61STRING \<noteq> 0 \<and> c > 0xff then msk AND NOT B_ASN1_T61STRING else msk)
      in if msk AND B_ASN1_BMPSTRING \<noteq> 0 \<and> c > 0xffff then msk AND NOT B_ASN1_BMPSTRING else msk)"

text \<open>The first pass: \<open>Some None\<close> is the return of an error.\<close>

partial_function (option) mb_scan ::
    "(CBS \<Rightarrow> (u32 \<times> CBS) option) \<Rightarrow> int \<Rightarrow> CBS \<Rightarrow> u64 \<Rightarrow> nat \<Rightarrow> nat \<Rightarrow> (u64 \<times> nat \<times> nat) option option" where
  "mb_scan decode_func inform cbs msk nchar utf8_len =
     (if CBS_len cbs \<noteq> 0 then
        case decode_func cbs of
          None \<Rightarrow> Some None
        | Some (c, cbs) \<Rightarrow>
            if nchar = 0 \<and> (inform = MBSTRING_BMP \<or> inform = MBSTRING_UNIV) \<and> c = 0xfeff then Some None
            else
              let msk = mb_update_mask c msk
              in if msk = 0 then Some None
                 else mb_scan decode_func inform cbs msk (nchar + 1) (utf8_len + cbb_get_utf8_len c)
      else Some (Some (msk, nchar, utf8_len)))"

text \<open>The type of the result, its format, its writer and the room it takes.\<close>

definition mb_output :: "u64 \<Rightarrow> nat \<Rightarrow> nat \<Rightarrow> int \<times> int \<times> (nat \<Rightarrow> u32 \<Rightarrow> CBB \<Rightarrow> bool \<times> CBB) \<times> nat" where
  "mb_output msk nchar utf8_len =
     (if msk AND B_ASN1_PRINTABLESTRING \<noteq> 0 then (V_ASN1_PRINTABLESTRING, MBSTRING_ASC, cbb_add_latin1, nchar)
      else if msk AND B_ASN1_IA5STRING \<noteq> 0 then (V_ASN1_IA5STRING, MBSTRING_ASC, cbb_add_latin1, nchar)
      else if msk AND B_ASN1_T61STRING \<noteq> 0 then (V_ASN1_T61STRING, MBSTRING_ASC, cbb_add_latin1, nchar)
      else if msk AND B_ASN1_BMPSTRING \<noteq> 0 then (V_ASN1_BMPSTRING, MBSTRING_BMP, cbb_add_ucs2_be, 2 * nchar)
      else if msk AND B_ASN1_UNIVERSALSTRING \<noteq> 0 then (V_ASN1_UNIVERSALSTRING, MBSTRING_UNIV, cbb_add_utf32_be, 4 * nchar)
      else (V_ASN1_UTF8STRING, MBSTRING_UTF8, cbb_add_utf8, utf8_len))"

partial_function (option) mb_transcode ::
    "(CBS \<Rightarrow> (u32 \<times> CBS) option) \<Rightarrow> (nat \<Rightarrow> u32 \<Rightarrow> CBB \<Rightarrow> bool \<times> CBB) \<Rightarrow> CBS \<Rightarrow> CBB \<Rightarrow> (bool \<times> CBB) option" where
  "mb_transcode decode_func encode_func cbs cbb =
     (if CBS_len cbs \<noteq> 0 then
        case decode_func cbs of
          None \<Rightarrow> Some (False, cbb)
        | Some (c, cbs) \<Rightarrow>
            (case encode_func 0 c cbb of
               (ok, cbb) \<Rightarrow> if \<not> ok then Some (False, cbb) else mb_transcode decode_func encode_func cbs cbb)
      else Some (True, cbb))"

text \<open>
  The second half, from the object \<open>old\<close> that \<open>*out\<close> points to or the null pointer.  When the
  conversion fails after an object was made for \<open>*out\<close>, that object is freed again; the result is
  then \<open>None\<close>, although the code leaves the pointer to the freed object in place.
\<close>

definition mb_store ::
    "bool list \<Rightarrow> (nat \<Rightarrow> u8) \<Rightarrow> ASN1_STRING option \<Rightarrow> u8 list \<Rightarrow> nat \<Rightarrow> int \<Rightarrow> (CBS \<Rightarrow> (u32 \<times> CBS) option) \<Rightarrow>
     int \<Rightarrow> int \<Rightarrow> (nat \<Rightarrow> u32 \<Rightarrow> CBB \<Rightarrow> bool \<times> CBB) \<Rightarrow> nat \<Rightarrow> (int \<times> ASN1_STRING option) option" where
  "mb_store mem fresh old inp len inform decode_func str_type outform encode_func size_estimate =
     (let free_out = (old = None);
          (dest, mem) =
            (case old of
               None \<Rightarrow> ASN1_STRING_type_new mem str_type
             | Some d \<Rightarrow>
                 let d = (if asn1_data d \<noteq> None then d\<lparr>asn1_length := 0, asn1_data := None\<rparr> else d)
                 in (Some (d\<lparr>asn1_type := str_type\<rparr>), mem))
      in case dest of
           None \<Rightarrow> Some (-1, None)
         | Some dest \<Rightarrow>
             if inform = outform then
               (case ASN1_STRING_set mem fresh dest (Some inp) (int len) of
                  (ok, dest, mem) \<Rightarrow> Some (if ok then str_type else -1, Some dest))
             else
               let err = Some (-1, if free_out then None else Some dest)
               in (case CBB_init mem fresh (size_add size_estimate 1) of
                     (ok, cbb) \<Rightarrow>
                       if \<not> ok then err
                       else (case mb_transcode decode_func encode_func (CBS_init inp len) cbb of
                               None \<Rightarrow> None
                             | Some (False, cbb) \<Rightarrow> err
                             | Some (True, cbb) \<Rightarrow>
                                 (case CBB_add_u8 0 0 cbb of
                                    (ok, cbb) \<Rightarrow>
                                      if \<not> ok then err
                                      else (case CBB_finish 0 True cbb of
                                              (None, cbb) \<Rightarrow> err
                                            | (Some data, cbb) \<Rightarrow>
                                                if length data < 1 \<or> length data > 0x7fffffff then err
                                                else Some (str_type,
                                                       Some (dest\<lparr>asn1_length := length data - 1, asn1_data := Some data\<rparr>)))))))"

text \<open>
  \<open>out\<close> is \<open>None\<close> for a null pointer, else what it points to.  A negative \<open>len\<close> other than -1 becomes a
  huge size, with which the input is read beyond its end.
\<close>

definition ASN1_mbstring_ncopy ::
    "bool list \<Rightarrow> (nat \<Rightarrow> u8) \<Rightarrow> ASN1_STRING option option \<Rightarrow> u8 list \<Rightarrow> int \<Rightarrow> int \<Rightarrow> u64 \<Rightarrow> int \<Rightarrow> int \<Rightarrow>
     (int \<times> ASN1_STRING option option) option" where
  "ASN1_mbstring_ncopy mem fresh out inp len inform msk minsize maxsize =
     (let len = (if len = -1 then sint (of_nat (length (takeWhile (\<lambda>c. c \<noteq> 0) inp)) :: u32) else len);
          msk = (if msk = 0 then DIRSTRING_TYPE else msk)
      in case mb_decode_func inform of
           None \<Rightarrow> Some (-1, out)
         | Some decode_func \<Rightarrow>
             if len < 0 then None
             else
             (case mb_scan decode_func inform (CBS_init inp (nat len)) msk 0 0 of
                None \<Rightarrow> None
              | Some None \<Rightarrow> Some (-1, out)
              | Some (Some (msk, nchar, utf8_len)) \<Rightarrow>
                  if minsize > 0 \<and> int nchar < minsize then Some (-1, out)
                  else if maxsize > 0 \<and> int nchar > maxsize then Some (-1, out)
                  else
                    (case mb_output msk nchar utf8_len of
                       (str_type, outform, encode_func, size_estimate) \<Rightarrow>
                         (case out of
                            None \<Rightarrow> Some (str_type, None)
                          | Some old \<Rightarrow>
                              map_option (\<lambda>(ret, str). (ret, Some str))
                                (mb_store mem fresh old inp (nat len) inform decode_func str_type outform encode_func size_estimate)))))"

definition ASN1_mbstring_copy where
  "ASN1_mbstring_copy mem fresh out inp len inform msk =
     ASN1_mbstring_ncopy mem fresh out inp len inform msk 0 0"

definition tag2nbyte :: "int list" where
  "tag2nbyte = [-1, -1, -1, -1, -1,  -1, -1, -1, -1, -1,  -1, -1, 0, -1,  -1, -1, -1, -1,
     1, 1, 1,  -1, 1, 1, 1,  -1, 1, -1,  4, -1, 2]"

text \<open>\<open>in\<close> is \<open>None\<close> for a null pointer; the result is the negative code or the bytes at \<open>*out\<close> with their number.\<close>

definition ASN1_STRING_to_UTF8 :: "bool list \<Rightarrow> (nat \<Rightarrow> u8) \<Rightarrow> ASN1_STRING option \<Rightarrow> (int + u8 list \<times> nat) option" where
  "ASN1_STRING_to_UTF8 mem fresh inp =
     (case inp of
        None \<Rightarrow> Some (Inl (-1))
      | Some s \<Rightarrow>
          let type = asn1_type s
          in if type < 0 \<or> type > 30 then Some (Inl (-1))
             else
               let mbflag = tag2nbyte ! nat type
               in if mbflag = -1 then Some (Inl (-1))
                  else
                    let stmp = \<lparr>asn1_type = 0, asn1_data = None, asn1_length = 0\<rparr>
                    in (case ASN1_mbstring_copy mem fresh (Some (Some stmp)) (case asn1_data s of None \<Rightarrow> [] | Some d \<Rightarrow> d)
                               (int (asn1_length s)) (mbflag OR MBSTRING_FLAG) B_ASN1_UTF8STRING of
                          None \<Rightarrow> None
                        | Some (ret, out) \<Rightarrow>
                            if ret < 0 then Some (Inl ret)
                            else (case out of
                                    Some (Some str) \<Rightarrow>
                                      Some (Inr (case asn1_data str of None \<Rightarrow> [] | Some d \<Rightarrow> d, asn1_length str))
                                  | _ \<Rightarrow> Some (Inl (-1)))))"

section \<open>The formats\<close>












section \<open>The two passes\<close>







section \<open>The choice of the type\<close>




















section \<open>The conversion\<close>








lemma sum_utf8_len: "sum_list (map cbb_get_utf8_len us) \<le> 4 * length us"
  by (induction us) (auto simp: cbb_get_utf8_len_def)










end
