(* ===== verification/Mem.thy ===== *)
theory Mem
  imports Prelude
begin

text \<open>
  \<open>crypto/mem.c\<close>: the allocator that stores each object's size in front of it, and the
  string helpers.  The heap is a map from block numbers to bytes, as \<open>malloc\<close> and
  \<open>free\<close> of the C library see it; a pointer is a block with an offset.  An access outside
  a live block is undefined in C: the functions on the heap then return \<open>None\<close>.
  A \<open>char\<close> is signed, and an address as wide as a \<open>size_t\<close> (x86-64).
\<close>

section \<open>The heap of the C library\<close>

type_synonym ptr = "nat \<times> nat"

text \<open>
  \<open>released\<close> records, for each block freed so far, what it held at that moment; \<open>junk\<close> is
  what fresh memory holds.
\<close>

record heap =
  blocks :: "nat \<rightharpoonup> u8 list"
  next_block :: nat
  outcomes :: "bool list"
  junk :: "nat \<Rightarrow> u8"
  released :: "(nat \<times> u8 list) list"

definition malloc :: "size_t \<Rightarrow> heap \<Rightarrow> ptr option \<times> heap" where
  "malloc sz h =
     (case mem_next (outcomes h) of (ok, mem) \<Rightarrow>
        if \<not> ok then (None, h\<lparr>outcomes := mem\<rparr>)
        else (Some (next_block h, 0),
              h\<lparr>outcomes := mem, next_block := next_block h + 1,
                blocks := (blocks h)(next_block h \<mapsto> map (junk h) [0..<sz])\<rparr>))"

definition load :: "ptr \<Rightarrow> size_t \<Rightarrow> heap \<Rightarrow> u8 list option" where
  "load p n h =
     (case p of (b, off) \<Rightarrow>
        case blocks h b of
          None \<Rightarrow> None
        | Some bytes \<Rightarrow> if off + n \<le> length bytes then Some (take n (drop off bytes)) else None)"

definition store :: "ptr \<Rightarrow> u8 list \<Rightarrow> heap \<Rightarrow> heap option" where
  "store p xs h =
     (case p of (b, off) \<Rightarrow>
        case blocks h b of
          None \<Rightarrow> None
        | Some bytes \<Rightarrow>
            if off + length xs \<le> length bytes
            then Some (h\<lparr>blocks := (blocks h)(b \<mapsto> blit bytes off xs)\<rparr>) else None)"

text \<open>\<open>free\<close> takes only what \<open>malloc\<close> returned.\<close>

definition free :: "ptr \<Rightarrow> heap \<Rightarrow> heap option" where
  "free p h =
     (case blocks h (fst p) of
        None \<Rightarrow> None
      | Some bytes \<Rightarrow>
          if snd p \<noteq> 0 then None
          else Some (h\<lparr>blocks := (blocks h)(fst p := None), released := (fst p, bytes) # released h\<rparr>))"

definition ptr_sub :: "ptr \<Rightarrow> nat \<Rightarrow> ptr option" where
  "ptr_sub p n = (if n \<le> snd p then Some (fst p, snd p - n) else None)"

text \<open>A \<open>size_t\<close> in memory is eight bytes, the low one first.\<close>

definition size_bytes :: "size_t \<Rightarrow> u8 list" where
  "size_bytes n = rev (be_bytes 8 n)"

definition bytes_size :: "u8 list \<Rightarrow> size_t" where
  "bytes_size bs = be_nat (rev bs)"

section \<open>Allocation\<close>

definition OPENSSL_MALLOC_PREFIX :: nat where "OPENSSL_MALLOC_PREFIX = 8"

definition OPENSSL_malloc :: "size_t \<Rightarrow> heap \<Rightarrow> (ptr option \<times> heap) option" where
  "OPENSSL_malloc sz h =
     (case malloc (size_add sz OPENSSL_MALLOC_PREFIX) h of
        (None, h) \<Rightarrow> Some (None, h)
      | (Some (b, off), h) \<Rightarrow> do {
          h \<leftarrow> store (b, off) (size_bytes sz) h;
          Some (Some (b, off + OPENSSL_MALLOC_PREFIX), h) })"

definition OPENSSL_cleanse :: "ptr \<Rightarrow> size_t \<Rightarrow> heap \<Rightarrow> heap option" where
  "OPENSSL_cleanse p len h = store p (replicate len 0) h"

definition sdallocx :: "ptr \<Rightarrow> size_t \<Rightarrow> heap \<Rightarrow> heap option" where
  "sdallocx p sz h = free p h"

definition OPENSSL_free :: "ptr option \<Rightarrow> heap \<Rightarrow> heap option" where
  "OPENSSL_free orig_ptr h =
     (case orig_ptr of
        None \<Rightarrow> Some h
      | Some orig_ptr \<Rightarrow> do {
          ptr \<leftarrow> ptr_sub orig_ptr OPENSSL_MALLOC_PREFIX;
          sz \<leftarrow> load ptr 8 h;
          h \<leftarrow> OPENSSL_cleanse ptr (size_add (bytes_size sz) OPENSSL_MALLOC_PREFIX) h;
          sdallocx ptr (size_add (bytes_size sz) OPENSSL_MALLOC_PREFIX) h })"

definition OPENSSL_clear_free :: "ptr option \<Rightarrow> size_t \<Rightarrow> heap \<Rightarrow> heap option" where
  "OPENSSL_clear_free ptr unused h = OPENSSL_free ptr h"

definition OPENSSL_realloc :: "ptr option \<Rightarrow> size_t \<Rightarrow> heap \<Rightarrow> (ptr option \<times> heap) option" where
  "OPENSSL_realloc orig_ptr new_size h =
     (case orig_ptr of
        None \<Rightarrow> OPENSSL_malloc new_size h
      | Some orig \<Rightarrow> do {
          ptr \<leftarrow> ptr_sub orig OPENSSL_MALLOC_PREFIX;
          sz \<leftarrow> load ptr 8 h;
          (ret, h) \<leftarrow> OPENSSL_malloc new_size h;
          (case ret of
             None \<Rightarrow> Some (None, h)
           | Some ret \<Rightarrow> do {
               let to_copy = (if bytes_size sz < new_size then bytes_size sz else new_size);
               bytes \<leftarrow> load orig to_copy h;
               h \<leftarrow> store ret bytes h;
               h \<leftarrow> OPENSSL_free (Some orig) h;
               Some (Some ret, h) }) })"

section \<open>Strings\<close>

text \<open>A string argument is the bytes from the pointer on; a missing NUL is undefined.\<close>

fun strlen :: "u8 list \<Rightarrow> size_t option" where
  "strlen [] = None"
| "strlen (c # s) = (if c = 0 then Some 0 else map_option Suc (strlen s))"

definition OPENSSL_hash32 :: "u8 list \<Rightarrow> u32" where
  "OPENSSL_hash32 xs = foldl (\<lambda>h x. (h XOR ucast x) * 16777619) 2166136261 xs"

text \<open>Reading past the end of \<open>s\<close> before a NUL or \<open>len\<close> characters is undefined.\<close>

fun OPENSSL_strnlen :: "u8 list \<Rightarrow> size_t \<Rightarrow> size_t option" where
  "OPENSSL_strnlen s 0 = Some 0"
| "OPENSSL_strnlen [] (Suc len) = None"
| "OPENSSL_strnlen (c # s) (Suc len) = (if c = 0 then Some 0 else map_option Suc (OPENSSL_strnlen s len))"

definition OPENSSL_memdup :: "u8 list \<Rightarrow> heap \<Rightarrow> (ptr option \<times> heap) option" where
  "OPENSSL_memdup data h =
     (if length data = 0 then Some (None, h)
      else do {
        (ret, h) \<leftarrow> OPENSSL_malloc (length data) h;
        (case ret of
           None \<Rightarrow> Some (None, h)
         | Some ret \<Rightarrow> do { h \<leftarrow> store ret data h; Some (Some ret, h) }) })"

definition OPENSSL_strdup :: "u8 list option \<Rightarrow> heap \<Rightarrow> (ptr option \<times> heap) option" where
  "OPENSSL_strdup s h =
     (case s of
        None \<Rightarrow> Some (None, h)
      | Some s \<Rightarrow> do {
          n \<leftarrow> strlen s;
          let len = size_add n 1;
          (ret, h) \<leftarrow> OPENSSL_malloc len h;
          (case ret of
             None \<Rightarrow> Some (None, h)
           | Some ret \<Rightarrow> do { h \<leftarrow> store ret (take len s) h; Some (Some ret, h) }) })"

definition OPENSSL_strndup :: "u8 list option \<Rightarrow> size_t \<Rightarrow> heap \<Rightarrow> (ptr option \<times> heap) option" where
  "OPENSSL_strndup str sz h =
     (case str of
        None \<Rightarrow> Some (None, h)
      | Some str \<Rightarrow> do {
          sz \<leftarrow> OPENSSL_strnlen str sz;
          let alloc_size = size_add sz 1;
          (if alloc_size < sz then Some (None, h)
           else do {
             (ret, h) \<leftarrow> OPENSSL_malloc alloc_size h;
             (case ret of
                None \<Rightarrow> Some (None, h)
              | Some ret \<Rightarrow> do {
                  h \<leftarrow> store ret (take sz str) h;
                  h \<leftarrow> store (fst ret, snd ret + sz) [0] h;
                  Some (Some ret, h) }) }) })"

text \<open>An \<open>int\<close> result and the characters as the integers they convert to.\<close>

definition OPENSSL_tolower :: "int \<Rightarrow> int" where
  "OPENSSL_tolower c = (if 65 \<le> c \<and> c \<le> 90 then c + (97 - 65) else c)"

fun OPENSSL_strcasecmp :: "u8 list \<Rightarrow> u8 list \<Rightarrow> int option" where
  "OPENSSL_strcasecmp (a # as) (b # bs) =
     (let aa = OPENSSL_tolower (sint a); bb = OPENSSL_tolower (sint b)
      in if aa < bb then Some (- 1) else if aa > bb then Some 1 else if aa = 0 then Some 0
         else OPENSSL_strcasecmp as bs)"
| "OPENSSL_strcasecmp _ _ = None"

fun OPENSSL_strncasecmp :: "u8 list \<Rightarrow> u8 list \<Rightarrow> size_t \<Rightarrow> int option" where
  "OPENSSL_strncasecmp _ _ 0 = Some 0"
| "OPENSSL_strncasecmp (a # as) (b # bs) (Suc n) =
     (let aa = OPENSSL_tolower (sint a); bb = OPENSSL_tolower (sint b)
      in if aa < bb then Some (- 1) else if aa > bb then Some 1 else if aa = 0 then Some 0
         else OPENSSL_strncasecmp as bs n)"
| "OPENSSL_strncasecmp _ _ (Suc n) = None"

text \<open>
  \<open>dst\<close> is the destination array; the result is the array afterwards and the return value.
  The sum returned is a \<open>size_t\<close>.
\<close>

fun strlcpy_loop :: "size_t \<Rightarrow> u8 list \<Rightarrow> u8 list \<Rightarrow> size_t \<Rightarrow> (u8 list \<times> size_t) option" where
  "strlcpy_loop l dst (c # src) dst_size =
     (if dst_size > 1 \<and> c \<noteq> 0 then
        (case dst of
           [] \<Rightarrow> None
         | _ # dst \<Rightarrow> map_option (\<lambda>(dst, n). (c # dst, n)) (strlcpy_loop (size_add l 1) dst src (dst_size - 1)))
      else do {
        n \<leftarrow> strlen (c # src);
        (if dst_size \<noteq> 0 then (case dst of [] \<Rightarrow> None | _ # dst \<Rightarrow> Some (0 # dst, size_add l n))
         else Some (dst, size_add l n)) })"
| "strlcpy_loop l dst [] dst_size = None"

definition OPENSSL_strlcpy :: "u8 list \<Rightarrow> u8 list \<Rightarrow> size_t \<Rightarrow> (u8 list \<times> size_t) option" where
  "OPENSSL_strlcpy dst src dst_size = strlcpy_loop 0 dst src dst_size"

fun strlcat_loop :: "size_t \<Rightarrow> u8 list \<Rightarrow> u8 list \<Rightarrow> size_t \<Rightarrow> (u8 list \<times> size_t) option" where
  "strlcat_loop l dst src 0 =
     map_option (\<lambda>(dst, n). (dst, size_add l n)) (OPENSSL_strlcpy dst src 0)"
| "strlcat_loop l [] src (Suc dst_size) = None"
| "strlcat_loop l (c # dst) src (Suc dst_size) =
     (if c \<noteq> 0 then map_option (\<lambda>(dst, n). (c # dst, n)) (strlcat_loop (size_add l 1) dst src dst_size)
      else map_option (\<lambda>(dst, n). (dst, size_add l n)) (OPENSSL_strlcpy (c # dst) src (Suc dst_size)))"

definition OPENSSL_strlcat :: "u8 list \<Rightarrow> u8 list \<Rightarrow> size_t \<Rightarrow> (u8 list \<times> size_t) option" where
  "OPENSSL_strlcat dst src dst_size = strlcat_loop 0 dst src dst_size"

section \<open>Objects\<close>

text \<open>A live object: its block holds its size and then its bytes.\<close>

definition object :: "heap \<Rightarrow> ptr \<Rightarrow> u8 list \<Rightarrow> bool" where
  "object h p xs \<longleftrightarrow> snd p = OPENSSL_MALLOC_PREFIX \<and> length xs + OPENSSL_MALLOC_PREFIX < 2 ^ 64 \<and>
     blocks h (fst p) = Some (size_bytes (length xs) @ xs)"

definition heap_wf :: "heap \<Rightarrow> bool" where
  "heap_wf h \<longleftrightarrow> (\<forall>b \<ge> next_block h. blocks h b = None)"

lemma length_size_bytes [simp]: "length (size_bytes n) = 8"
  by (simp add: size_bytes_def)

lemma bytes_size_bytes: "n < 2 ^ 64 \<Longrightarrow> bytes_size (size_bytes n) = n"
  by (simp add: bytes_size_def size_bytes_def be_nat_be_bytes_exact)

lemma object_live: "heap_wf h \<Longrightarrow> object h p xs \<Longrightarrow> fst p < next_block h"
  unfolding heap_wf_def object_def by (metis not_le option.distinct(1))

lemmas heap_simps = load_def store_def free_def ptr_sub_def OPENSSL_MALLOC_PREFIX_def

lemma object_load: "object h p xs \<Longrightarrow> n \<le> length xs \<Longrightarrow> load p n h = Some (take n xs)"
  by (cases p) (simp add: object_def heap_simps)

lemma object_store:
  assumes "object h p xs" "off + length ys \<le> length xs"
  obtains h' where "store (fst p, snd p + off) ys h = Some h'" "object h' p (blit xs off ys)"
    "\<forall>b. b \<noteq> fst p \<longrightarrow> blocks h' b = blocks h b"
    "next_block h' = next_block h" "outcomes h' = outcomes h" "released h' = released h" "junk h' = junk h"
proof -
  have "blit (size_bytes (length xs) @ xs) (8 + off) ys = size_bytes (length xs) @ blit xs off ys"
    by (simp add: blit_def)
  with assms show thesis
    by (intro that [of "h\<lparr>blocks := (blocks h)(fst p \<mapsto> size_bytes (length xs) @ blit xs off ys)\<rparr>"])
       (cases p; simp add: object_def heap_simps)+
qed

lemma malloc_ok:
  assumes "heap_wf h" "n + OPENSSL_MALLOC_PREFIX < 2 ^ 64" "fst (mem_next (outcomes h))"
  obtains p h' where "OPENSSL_malloc n h = Some (Some p, h')"
    "object h' p (map (\<lambda>i. junk h (i + 8)) [0..<n])" "fst p = next_block h"
    "\<forall>b. b \<noteq> fst p \<longrightarrow> blocks h' b = blocks h b" "heap_wf h'"
    "next_block h' = Suc (next_block h)" "outcomes h' = snd (mem_next (outcomes h))" "released h' = released h"
proof -
  have "size_add n 8 = n + 8" using assms(2) by (simp add: size_add_exact OPENSSL_MALLOC_PREFIX_def)
  moreover have "blit (map (junk h) [0..<n + 8]) 0 (size_bytes n) = size_bytes n @ map (\<lambda>i. junk h (i + 8)) [0..<n]"
    by (simp add: blit_def drop_map map_add_upt [symmetric, of 8 n] comp_def)
  ultimately show thesis
    using assms
    by (intro that [of "(next_block h, 8)" "h\<lparr>outcomes := snd (mem_next (outcomes h)), next_block := next_block h + 1,
          blocks := (blocks h)(next_block h \<mapsto> size_bytes n @ map (\<lambda>i. junk h (i + 8)) [0..<n])\<rparr>"])
      (auto simp: OPENSSL_malloc_def malloc_def heap_simps object_def heap_wf_def split: prod.splits)
qed

lemma malloc_fails:
  "\<not> fst (mem_next (outcomes h)) \<Longrightarrow>
   OPENSSL_malloc n h = Some (None, h\<lparr>outcomes := snd (mem_next (outcomes h))\<rparr>)"
  by (auto simp: OPENSSL_malloc_def malloc_def split: prod.splits)

text \<open>
  The sum in \<open>OPENSSL_malloc\<close> is not checked: for a size within eight bytes of the top of
  the address space the C library is asked for fewer than eight bytes, and the size is
  written past their end.
\<close>

lemma malloc_overflow:
  assumes "n < 2 ^ 64" "2 ^ 64 \<le> n + OPENSSL_MALLOC_PREFIX" "fst (mem_next (outcomes h))"
  shows "OPENSSL_malloc n h = None"
proof -
  have "size_add n 8 = n + 8 - 2 ^ 64"
    using assms(1,2) by (simp add: size_add_def OPENSSL_MALLOC_PREFIX_def le_mod_geq)
  then have "size_add n 8 < 8" using assms(1) by simp
  then show ?thesis
    using assms(3) by (auto simp: OPENSSL_malloc_def malloc_def heap_simps split: prod.splits)
qed

text \<open>Freeing zeroes the whole block before it is given back.\<close>

lemma free_object:
  assumes "object h p xs"
  shows "OPENSSL_free (Some p) h =
    Some (h\<lparr>blocks := (blocks h)(fst p := None),
           released := (fst p, replicate (length xs + OPENSSL_MALLOC_PREFIX) 0) # released h\<rparr>)"
proof -
  obtain b where p: "p = (b, 8)" using assms by (cases p) (simp add: object_def OPENSSL_MALLOC_PREFIX_def)
  have len: "length xs + 8 < 2 ^ 64" using assms by (simp add: object_def OPENSSL_MALLOC_PREFIX_def)
  then have "bytes_size (size_bytes (length xs)) = length xs" "size_add (length xs) 8 = length xs + 8"
    by (simp_all add: bytes_size_bytes size_add_exact)
  moreover have "blit (size_bytes (length xs) @ xs) 0 (replicate (length xs + 8) 0) = replicate (length xs + 8) 0"
    by (simp add: blit_def)
  ultimately show ?thesis
    using assms
    by (simp add: p object_def OPENSSL_free_def OPENSSL_cleanse_def sdallocx_def heap_simps)
qed

lemma realloc_null: "OPENSSL_realloc None n h = OPENSSL_malloc n h"
  by (simp add: OPENSSL_realloc_def)

lemma object_header:
  assumes "object h p xs"
  obtains q where "ptr_sub p OPENSSL_MALLOC_PREFIX = Some q" "load q 8 h = Some (size_bytes (length xs))"
  using assms by (cases p) (auto simp: object_def heap_simps)

lemma realloc_object:
  assumes h: "heap_wf h" "object h p xs" and n: "n + OPENSSL_MALLOC_PREFIX < 2 ^ 64" "fst (mem_next (outcomes h))"
  obtains q h' where "OPENSSL_realloc (Some p) n h = Some (Some q, h')"
    "object h' q (take n xs @ map (\<lambda>i. junk h (i + 8)) [length xs..<n])"
    "fst q = next_block h" "blocks h' (fst p) = None"
    "released h' = (fst p, replicate (length xs + OPENSSL_MALLOC_PREFIX) 0) # released h"
    "\<forall>b. b \<noteq> fst p \<longrightarrow> b \<noteq> fst q \<longrightarrow> blocks h' b = blocks h b"
proof -
  obtain r where r: "ptr_sub p OPENSSL_MALLOC_PREFIX = Some r" "load r 8 h = Some (size_bytes (length xs))"
    using object_header [OF h(2)] .
  have len: "length xs < 2 ^ 64" using h(2) by (simp add: object_def)
  from malloc_ok [OF h(1) n] obtain q h1 where
    q: "OPENSSL_malloc n h = Some (Some q, h1)" "object h1 q (map (\<lambda>i. junk h (i + 8)) [0..<n])"
      "fst q = next_block h" "\<forall>b. b \<noteq> fst q \<longrightarrow> blocks h1 b = blocks h b" "heap_wf h1"
      "next_block h1 = Suc (next_block h)" "outcomes h1 = snd (mem_next (outcomes h))" "released h1 = released h" .
  have ne: "fst p \<noteq> fst q" using object_live [OF h] q(3) by simp
  then have p1: "object h1 p xs" using h(2) q(4) by (simp add: object_def)
  define k where "k = (if length xs < n then length xs else n)"
  have k: "k \<le> length xs" "k \<le> n" by (simp_all add: k_def)
  have ld: "load p k h1 = Some (take k xs)" using object_load [OF p1 k(1)] .
  have "0 + length (take k xs) \<le> length (map (\<lambda>i. junk h (i + 8)) [0..<n])" using k by simp
  from object_store [OF q(2) this] obtain h2 where
    st: "store (fst q, snd q + 0) (take k xs) h1 = Some h2"
      "object h2 q (blit (map (\<lambda>i. junk h (i + 8)) [0..<n]) 0 (take k xs))"
      "\<forall>b. b \<noteq> fst q \<longrightarrow> blocks h2 b = blocks h1 b" "next_block h2 = next_block h1"
      "outcomes h2 = outcomes h1" "released h2 = released h1" "junk h2 = junk h1" .
  then have h2: "store q (take k xs) h1 = Some h2"
      "object h2 q (blit (map (\<lambda>i. junk h (i + 8)) [0..<n]) 0 (take k xs))"
      "\<forall>b. b \<noteq> fst q \<longrightarrow> blocks h2 b = blocks h1 b" "released h2 = released h1" by simp_all
  have "object h2 p xs" using p1 h2(3) ne by (simp add: object_def)
  note fr = free_object [OF this]
  have "take k xs = take n xs" by (simp add: k_def)
  moreover have "drop k (map (\<lambda>i. junk h (i + 8)) [0..<n]) = map (\<lambda>i. junk h (i + 8)) [length xs..<n]"
    by (simp add: k_def drop_map)
  ultimately have "blit (map (\<lambda>i. junk h (i + 8)) [0..<n]) 0 (take k xs) =
      take n xs @ map (\<lambda>i. junk h (i + 8)) [length xs..<n]"
    using k by (auto simp: blit_def min_def drop_map split: if_splits)
  with h2(2) have "object h2 q (take n xs @ map (\<lambda>i. junk h (i + 8)) [length xs..<n])" by simp
  moreover define h3 where "h3 = h2\<lparr>blocks := (blocks h2)(fst p := None),
           released := (fst p, replicate (length xs + OPENSSL_MALLOC_PREFIX) 0) # released h2\<rparr>"
  ultimately have o: "object h3 q (take n xs @ map (\<lambda>i. junk h (i + 8)) [length xs..<n])"
    using ne by (simp add: object_def)
  have e: "OPENSSL_realloc (Some p) n h = Some (Some q, h3)"
    using r q(1) ld h2(1) fr
    by (cases "length xs < n") (simp_all add: OPENSSL_realloc_def bytes_size_bytes [OF len] Let_def h3_def k_def)
  have f: "\<forall>b. b \<noteq> fst p \<longrightarrow> b \<noteq> fst q \<longrightarrow> blocks h3 b = blocks h b"
    using q(4) h2(3) by (simp add: h3_def)
  have "blocks h3 (fst p) = None"
    "released h3 = (fst p, replicate (length xs + OPENSSL_MALLOC_PREFIX) 0) # released h"
    using q(8) h2(4) by (simp_all add: h3_def)
  then show thesis using that [OF e o q(3) _ _ f] by simp
qed

text \<open>When the new block cannot be allocated the old object stays as it was.\<close>

lemma realloc_fails:
  assumes "object h p xs" "\<not> fst (mem_next (outcomes h))"
  shows "OPENSSL_realloc (Some p) n h = Some (None, h\<lparr>outcomes := snd (mem_next (outcomes h))\<rparr>)"
proof -
  obtain q where "ptr_sub p OPENSSL_MALLOC_PREFIX = Some q" "load q 8 h = Some (size_bytes (length xs))"
    using object_header [OF assms(1)] .
  then show ?thesis by (simp add: OPENSSL_realloc_def malloc_fails [OF assms(2)])
qed

text \<open>A fresh object with given contents.\<close>

definition allocates :: "u8 list \<Rightarrow> heap \<Rightarrow> ptr option \<times> heap \<Rightarrow> bool" where
  "allocates xs h r \<longleftrightarrow> (case r of (p, h') \<Rightarrow>
     case p of
       None \<Rightarrow> \<not> fst (mem_next (outcomes h)) \<and> blocks h' = blocks h
     | Some p \<Rightarrow> object h' p xs \<and> fst p = next_block h \<and> heap_wf h' \<and> (\<forall>b. b \<noteq> fst p \<longrightarrow> blocks h' b = blocks h b))"

lemma alloc_and_store:
  assumes "heap_wf h" "length xs + OPENSSL_MALLOC_PREFIX < 2 ^ 64"
  obtains p h' where "OPENSSL_malloc (length xs) h = Some (p, h')"
    "p = None \<Longrightarrow> allocates xs h (None, h')"
    "\<And>q. p = Some q \<Longrightarrow> \<exists>h''. store q xs h' = Some h'' \<and> allocates xs h (Some q, h'')"
proof (cases "fst (mem_next (outcomes h))")
  case True
  from malloc_ok [OF assms True] obtain p h1 where
    p: "OPENSSL_malloc (length xs) h = Some (Some p, h1)" "object h1 p (map (\<lambda>i. junk h (i + 8)) [0..<length xs])"
      "fst p = next_block h" "\<forall>b. b \<noteq> fst p \<longrightarrow> blocks h1 b = blocks h b" "heap_wf h1"
      "next_block h1 = Suc (next_block h)" "outcomes h1 = snd (mem_next (outcomes h))" "released h1 = released h" .
  have "0 + length xs \<le> length (map (\<lambda>i. junk h (i + 8)) [0..<length xs])" by simp
  from object_store [OF p(2) this] obtain h2 where
    st: "store (fst p, snd p + 0) xs h1 = Some h2"
      "object h2 p (blit (map (\<lambda>i. junk h (i + 8)) [0..<length xs]) 0 xs)"
      "\<forall>b. b \<noteq> fst p \<longrightarrow> blocks h2 b = blocks h1 b" "next_block h2 = next_block h1"
      "outcomes h2 = outcomes h1" "released h2 = released h1" "junk h2 = junk h1" .
  then have "store p xs h1 = Some h2" "object h2 p (blit (map (\<lambda>i. junk h (i + 8)) [0..<length xs]) 0 xs)"
    "\<forall>b. b \<noteq> fst p \<longrightarrow> blocks h2 b = blocks h1 b" "next_block h2 = next_block h1" by simp_all
  moreover from this p have "heap_wf h2" by (auto simp: heap_wf_def)
  moreover have "blit (map (\<lambda>i. junk h (i + 8)) [0..<length xs]) 0 xs = xs" by (simp add: blit_def)
  ultimately show thesis using p by (intro that [OF p(1)]) (auto simp: allocates_def)
next
  case False
  then show thesis by (intro that [OF malloc_fails]) (auto simp: allocates_def)
qed

lemma memdup:
  assumes "heap_wf h" "length xs + OPENSSL_MALLOC_PREFIX < 2 ^ 64" "xs \<noteq> []"
  obtains r where "OPENSSL_memdup xs h = Some r" "allocates xs h r"
proof -
  from alloc_and_store [OF assms(1,2)] obtain p h' where
    p: "OPENSSL_malloc (length xs) h = Some (p, h')" "p = None \<Longrightarrow> allocates xs h (None, h')"
      "\<And>q. p = Some q \<Longrightarrow> \<exists>h''. store q xs h' = Some h'' \<and> allocates xs h (Some q, h'')" by metis
  show thesis
  proof (cases p)
    case None
    then show thesis using p(1,2) assms(3) by (intro that [of "(None, h')"]) (simp_all add: OPENSSL_memdup_def)
  next
    case (Some q)
    with p(3) obtain h'' where "store q xs h' = Some h''" "allocates xs h (Some q, h'')" by metis
    with Some p(1) assms(3) show thesis by (intro that [of "(Some q, h'')"]) (simp_all add: OPENSSL_memdup_def)
  qed
qed

lemma strlen_iff: "strlen s = Some n \<longleftrightarrow> n < length s \<and> s ! n = 0 \<and> (\<forall>i < n. s ! i \<noteq> 0)"
proof (induction s arbitrary: n)
  case (Cons c s)
  show ?case by (cases n) (auto simp: Cons.IH All_less_Suc2)
qed simp

lemma strdup:
  assumes "heap_wf h" "strlen s = Some n" "n + 1 + OPENSSL_MALLOC_PREFIX < 2 ^ 64"
  obtains r where "OPENSSL_strdup (Some s) h = Some r" "allocates (take n s @ [0]) h r"
proof -
  have n: "take (n + 1) s = take n s @ [0]" "length (take (n + 1) s) = n + 1" "size_add n 1 = n + 1"
    using assms(2,3) by (simp_all add: strlen_iff take_Suc_conv_app_nth size_add_exact)
  from alloc_and_store [OF assms(1), of "take (n + 1) s"] assms(3) n obtain p h' where
    p: "OPENSSL_malloc (n + 1) h = Some (p, h')" "p = None \<Longrightarrow> allocates (take (n + 1) s) h (None, h')"
      "\<And>q. p = Some q \<Longrightarrow> \<exists>h''. store q (take (n + 1) s) h' = Some h'' \<and> allocates (take (n + 1) s) h (Some q, h'')"
    by metis
  show thesis
  proof (cases p)
    case None
    then show thesis using p(1,2) assms(2) n by (intro that [of "(None, h')"]) (simp_all add: OPENSSL_strdup_def)
  next
    case (Some q)
    with p(3) obtain h'' where "store q (take (n + 1) s) h' = Some h''" "allocates (take (n + 1) s) h (Some q, h'')"
      by metis
    with Some p(1) assms(2) n show thesis by (intro that [of "(Some q, h'')"]) (simp_all add: OPENSSL_strdup_def)
  qed
qed

lemma strnlen_take: "OPENSSL_strnlen s n = Some k \<Longrightarrow> k \<le> n \<and> k \<le> length s \<and> 0 \<notin> set (take k s)"
  by (induction s n arbitrary: k rule: OPENSSL_strnlen.induct) (auto split: if_splits)

lemma strnlen_iff:
  "OPENSSL_strnlen s n = (case strlen (take n s) of Some k \<Rightarrow> Some k | None \<Rightarrow> if n \<le> length s then Some n else None)"
  by (induction s n rule: OPENSSL_strnlen.induct) (auto split: option.splits)

section \<open>Bounded copies\<close>

text \<open>
  \<open>strlcpy\<close> writes a terminated string whenever there is room for the terminator, never
  beyond \<open>dst_size\<close>, and returns what an unbounded copy would have needed.
\<close>

lemma strlcpy_loop_eq:
  assumes "strlen src = Some n" "l + n < 2 ^ 64" "sz \<le> length dst"
  shows "strlcpy_loop l dst src sz =
    Some (if sz = 0 then dst else take (min n (sz - 1)) src @ [0] @ drop (min n (sz - 1) + 1) dst, l + n)"
  using assms
proof (induction l dst src sz arbitrary: n rule: strlcpy_loop.induct)
  case (1 l dst c src sz)
  show ?case
  proof (cases "sz > 1 \<and> c \<noteq> 0")
    case True
    then obtain m where m: "n = Suc m" "strlen src = Some m" using "1.prems"(1) by auto
    from True "1.prems" obtain x xs where dst: "dst = x # xs" by (cases dst) auto
    have "size_add l 1 = l + 1" using "1.prems" m by (simp add: size_add_exact)
    moreover obtain k where "sz = Suc (Suc k)" using True by (metis less_imp_Suc_add plus_nat.simps(2) One_nat_def add_0)
    ultimately show ?thesis
      using "1.IH" [OF True dst m(2)] "1.prems" m dst True by simp
  next
    case False
    have "size_add l n = l + n" using "1.prems" by (simp add: size_add_exact)
    then show ?thesis
      using False "1.prems" by (cases dst) (auto simp: min_def split: if_splits)
  qed
qed simp

lemma strlcpy_eq:
  "strlen src = Some n \<Longrightarrow> n < 2 ^ 64 \<Longrightarrow> sz \<le> length dst \<Longrightarrow>
   OPENSSL_strlcpy dst src sz =
     Some (if sz = 0 then dst else take (min n (sz - 1)) src @ [0] @ drop (min n (sz - 1) + 1) dst, n)"
  by (simp add: OPENSSL_strlcpy_def strlcpy_loop_eq)

lemma tolower_zero [simp]: "OPENSSL_tolower (sint c) = 0 \<longleftrightarrow> c = (0 :: u8)"
  by (auto simp: OPENSSL_tolower_def signed_eq_0_iff)

lemma tolower_0 [simp]: "OPENSSL_tolower 0 = 0"
  by (simp add: OPENSSL_tolower_def)

lemma strcasecmp_antisym:
  "OPENSSL_strcasecmp as bs = Some r \<Longrightarrow> OPENSSL_strcasecmp bs as = Some (- r)"
  by (induction "as" bs rule: OPENSSL_strcasecmp.induct) (auto simp: Let_def split: if_splits)

lemma strcasecmp_equal:
  "OPENSSL_strcasecmp as bs = Some 0 \<longleftrightarrow>
   (\<exists>n. strlen as = Some n \<and> strlen bs = Some n \<and>
     map (OPENSSL_tolower \<circ> sint) (take n as) = map (OPENSSL_tolower \<circ> sint) (take n bs))"
proof (induction "as" bs rule: OPENSSL_strcasecmp.induct)
  case (1 a "as" b bs)
  show ?case
  proof (cases "OPENSSL_tolower (sint a) = OPENSSL_tolower (sint b)")
    case True
    show ?thesis
    proof (cases "a = 0")
      case zero: True
      with True have "b = 0" by (metis tolower_zero)
      with zero show ?thesis by simp
    next
      case False
      with True have "b \<noteq> 0" by (metis tolower_zero)
      with True False 1 show ?thesis by (auto simp: Let_def)
    qed
  next
    case False
    then have "a \<noteq> b" by auto
    with False show ?thesis by (auto simp: Let_def take_Cons split: if_splits nat.splits)
  qed
qed auto


section \<open>The properties\<close>

text \<open>
  C39.  \<open>OPENSSL_malloc\<close> adds its prefix without a check.  For every size that fits, a granted
  request gives a fresh object of that size, the rest of the heap as it was; for a size within eight
  bytes of the top of the address space a granted request is of fewer than eight bytes, and writing
  the size there is out of bounds.\<close>

theorem malloc_outcome:
  assumes "heap_wf h" "n < 2 ^ 64" "fst (mem_next (outcomes h))"
  shows "if n + OPENSSL_MALLOC_PREFIX < 2 ^ 64
    then \<exists>p h' xs. OPENSSL_malloc n h = Some (Some p, h') \<and> object h' p xs \<and> length xs = n \<and>
      blocks h (fst p) = None \<and> heap_wf h' \<and> (\<forall>b. b \<noteq> fst p \<longrightarrow> blocks h' b = blocks h b)
    else OPENSSL_malloc n h = None"
proof (cases "n + OPENSSL_MALLOC_PREFIX < 2 ^ 64")
  case True
  obtain p h' where "OPENSSL_malloc n h = Some (Some p, h')"
    "object h' p (map (\<lambda>i. junk h (i + 8)) [0..<n])" "fst p = next_block h"
    "\<forall>b. b \<noteq> fst p \<longrightarrow> blocks h' b = blocks h b" "heap_wf h'"
    by (rule malloc_ok [OF assms(1) True assms(3)])
  moreover have "blocks h (next_block h) = None" using assms(1) by (simp add: heap_wf_def)
  ultimately show ?thesis using True by auto
next
  case False
  then show ?thesis using malloc_overflow [OF assms(2) _ assms(3)] by simp
qed

definition empty_heap :: heap where
  "empty_heap = \<lparr>blocks = Map.empty, next_block = 0, outcomes = [], junk = \<lambda>_. 0xcc, released = []\<rparr>"

lemma empty_heap_ok: "heap_wf empty_heap" "fst (mem_next (outcomes empty_heap))"
  by (simp_all add: empty_heap_def heap_wf_def mem_next_def)

theorem malloc_outcome_witness:
  "OPENSSL_malloc (2 ^ 64 - 1) empty_heap = None \<and>
   (\<exists>p h' xs. OPENSSL_malloc 3 empty_heap = Some (Some p, h') \<and> object h' p xs \<and> length xs = 3)"
  using malloc_outcome [OF empty_heap_ok(1) _ empty_heap_ok(2), of "2 ^ 64 - 1"]
    malloc_outcome [OF empty_heap_ok(1) _ empty_heap_ok(2), of 3]
  by (auto simp: OPENSSL_MALLOC_PREFIX_def)

text \<open>
  C40.  \<open>OPENSSL_free\<close> of a live object: the memory handed back to the C library holds only zeros, the
  whole block with its prefix, and nothing else of the heap changes.\<close>

theorem free_wipes:
  assumes "object h p xs"
  shows "\<exists>h'. OPENSSL_free (Some p) h = Some h' \<and> blocks h' = (blocks h)(fst p := None) \<and>
    released h' = (fst p, replicate (length xs + 8) 0) # released h"
  using free_object [OF assms] by (simp add: OPENSSL_MALLOC_PREFIX_def)

theorem free_wipes_witness:
  "\<exists>h'. OPENSSL_free (Some (0, 8)) (empty_heap\<lparr>blocks := [0 \<mapsto> size_bytes 2 @ [7, 7]]\<rparr>) = Some h' \<and>
     released h' = [(0, replicate 10 0)]"
proof -
  have "object (empty_heap\<lparr>blocks := [0 \<mapsto> size_bytes 2 @ [7, 7]]\<rparr>) (0, 8) [7, 7]"
    by (simp add: object_def OPENSSL_MALLOC_PREFIX_def flip: numeral_2_eq_2)
  from free_wipes [OF this] show ?thesis by (auto simp: empty_heap_def)
qed

text \<open>
  \<open>OPENSSL_realloc\<close> of a live object gives a new object that starts with as many of the old bytes
  as fit, wipes and releases the old one, and leaves every other block alone; when the request is
  refused the old object is still there.\<close>

theorem realloc_moves:
  assumes "heap_wf h" "object h p xs" "n + OPENSSL_MALLOC_PREFIX < 2 ^ 64"
  shows "if fst (mem_next (outcomes h))
    then \<exists>q h' ys. OPENSSL_realloc (Some p) n h = Some (Some q, h') \<and> object h' q ys \<and> length ys = n \<and>
      take (min n (length xs)) ys = take n xs \<and> blocks h' (fst p) = None \<and>
      released h' = (fst p, replicate (length xs + 8) 0) # released h \<and>
      (\<forall>b. b \<noteq> fst p \<longrightarrow> b \<noteq> fst q \<longrightarrow> blocks h' b = blocks h b)
    else \<exists>h'. OPENSSL_realloc (Some p) n h = Some (None, h') \<and> object h' p xs"
proof (cases "fst (mem_next (outcomes h))")
  case True
  obtain q h' where "OPENSSL_realloc (Some p) n h = Some (Some q, h')"
    "object h' q (take n xs @ map (\<lambda>i. junk h (i + 8)) [length xs..<n])" "blocks h' (fst p) = None"
    "released h' = (fst p, replicate (length xs + OPENSSL_MALLOC_PREFIX) 0) # released h"
    "\<forall>b. b \<noteq> fst p \<longrightarrow> b \<noteq> fst q \<longrightarrow> blocks h' b = blocks h b"
    by (rule realloc_object [OF assms True])
  with True show ?thesis
    by (auto simp: OPENSSL_MALLOC_PREFIX_def min_def intro!: exI [of _ "take n xs @ map (\<lambda>i. junk h (i + 8)) [length xs..<n]"])
next
  case False
  with realloc_fails [OF assms(2) False, of n] assms(2) show ?thesis by (simp add: object_def)
qed

text \<open>
  \<open>OPENSSL_strlcpy\<close> copies the longest prefix of the source that fits with a terminating zero,
  writes nothing beyond it, and returns the length of the source, so truncation can be seen.\<close>

theorem strlcpy_truncates:
  assumes "strlen src = Some n" "n < 2 ^ 64" "sz \<le> length dst"
  shows "OPENSSL_strlcpy dst src sz =
     Some (if sz = 0 then dst else take (min n (sz - 1)) src @ [0] @ drop (min n (sz - 1) + 1) dst, n)"
  by (rule strlcpy_eq [OF assms])

end
