(* ===== verification/Names.thy ===== *)
theory Names
  imports Mbstring Mem
begin

unbundle bit_operations_syntax

text \<open>
  The names of a certificate (\<open>crypto/x509v3/v3_utl.c\<close>): comparison of host names, with wildcards, of
  mail addresses and of IP addresses, and the checks of a certificate against one of them.  A
  character string is the list of its bytes; a result \<open>int\<close> that is only 0 or 1 is a \<open>bool\<close>.
\<close>

section \<open>Comparing names\<close>

definition X509_CHECK_FLAG_NO_WILDCARDS :: u32 where "X509_CHECK_FLAG_NO_WILDCARDS = 0x2"
definition X509_CHECK_FLAG_NO_PARTIAL_WILDCARDS :: u32 where "X509_CHECK_FLAG_NO_PARTIAL_WILDCARDS = 0x4"
definition X509_CHECK_FLAG_MULTI_LABEL_WILDCARDS :: u32 where "X509_CHECK_FLAG_MULTI_LABEL_WILDCARDS = 0x8"
definition X509_CHECK_FLAG_SINGLE_LABEL_SUBDOMAINS :: u32 where "X509_CHECK_FLAG_SINGLE_LABEL_SUBDOMAINS = 0x10"
definition X509_CHECK_FLAG_NEVER_CHECK_SUBJECT :: u32 where "X509_CHECK_FLAG_NEVER_CHECK_SUBJECT = 0x20"
definition X509_CHECK_FLAG_DOT_SUBDOMAINS :: u32 where "X509_CHECK_FLAG_DOT_SUBDOMAINS = 0x8000"

fun skip_prefix_loop :: "u8 list \<Rightarrow> nat \<Rightarrow> u32 \<Rightarrow> u8 list" where
  "skip_prefix_loop [] subject_len flags = []"
| "skip_prefix_loop (c # pattern) subject_len flags =
     (if length (c # pattern) > subject_len \<and> c \<noteq> 0 then
        if flags AND X509_CHECK_FLAG_SINGLE_LABEL_SUBDOMAINS \<noteq> 0 \<and> c = 0x2e then c # pattern
        else skip_prefix_loop pattern subject_len flags
      else c # pattern)"

definition skip_prefix :: "u8 list \<Rightarrow> nat \<Rightarrow> u32 \<Rightarrow> u8 list" where
  "skip_prefix p subject_len flags =
     (if flags AND X509_CHECK_FLAG_DOT_SUBDOMAINS = 0 then p
      else
        let pattern = skip_prefix_loop p subject_len flags
        in if length pattern = subject_len then pattern else p)"

fun nocase_loop :: "u8 list \<Rightarrow> u8 list \<Rightarrow> bool" where
  "nocase_loop (l # pattern) (r # subject) =
     (if l = 0 then False
      else
        let l' = (if 0x41 \<le> l \<and> l \<le> 0x5a then (l - 0x41) + 0x61 else l);
            r' = (if 0x41 \<le> r \<and> r \<le> 0x5a then (r - 0x41) + 0x61 else r)
        in if l \<noteq> r \<and> l' \<noteq> r' then False else nocase_loop pattern subject)"
| "nocase_loop _ _ = True"

definition equal_nocase :: "u8 list \<Rightarrow> u8 list \<Rightarrow> u32 \<Rightarrow> bool" where
  "equal_nocase pattern subject flags =
     (let pattern = skip_prefix pattern (length subject) flags
      in if length pattern \<noteq> length subject then False else nocase_loop pattern subject)"

definition equal_case :: "u8 list \<Rightarrow> u8 list \<Rightarrow> u32 \<Rightarrow> bool" where
  "equal_case pattern subject flags =
     (let pattern = skip_prefix pattern (length subject) flags
      in if length pattern \<noteq> length subject then False else pattern = subject)"

text \<open>The search for the last \<open>@\<close>: \<open>None\<close> for a domain that differs, else the final \<open>i\<close>.\<close>

fun email_loop :: "u8 list \<Rightarrow> u8 list \<Rightarrow> nat \<Rightarrow> nat option" where
  "email_loop a b 0 = Some 0"
| "email_loop a b (Suc i) =
     (if a ! i = 0x40 \<or> b ! i = 0x40 then
        if \<not> equal_nocase (drop i a) (drop i b) 0 then None else Some i
      else email_loop a b i)"

definition equal_email :: "u8 list \<Rightarrow> u8 list \<Rightarrow> u32 \<Rightarrow> bool" where
  "equal_email a b unused_flags =
     (if length a \<noteq> length b then False
      else case email_loop a b (length a) of
             None \<Rightarrow> False
           | Some i \<Rightarrow>
               let i = (if i = 0 then length a else i)
               in equal_case (take i a) (take i b) 0)"

definition xn_dashes :: "u8 list" where "xn_dashes = [0x78, 0x6e, 0x2d, 0x2d, 0]"

definition is_alnum :: "u8 \<Rightarrow> bool" where
  "is_alnum c \<longleftrightarrow> 0x61 \<le> c \<and> c \<le> 0x7a \<or> 0x41 \<le> c \<and> c \<le> 0x5a \<or> 0x30 \<le> c \<and> c \<le> 0x39"

definition wildcard_match :: "u8 list \<Rightarrow> u8 list \<Rightarrow> u8 list \<Rightarrow> u32 \<Rightarrow> bool" where
  "wildcard_match prefix suffix subject flags =
     (if length subject < length prefix + length suffix then False
      else if \<not> equal_nocase prefix (take (length prefix) subject) flags then False
      else
        let wildcard = drop (length prefix) (take (length subject - length suffix) subject);
            wildcard_end = drop (length subject - length suffix) subject
        in if \<not> equal_nocase wildcard_end suffix flags then False
           else
             let whole = (prefix = [] \<and> suffix \<noteq> [] \<and> hd suffix = 0x2e);
                 allow_idna = whole;
                 allow_multi = (whole \<and> flags AND X509_CHECK_FLAG_MULTI_LABEL_WILDCARDS \<noteq> 0)
             in if whole \<and> wildcard = [] then False
                else if \<not> allow_idna \<and> length subject \<ge> 4 \<and> OPENSSL_strncasecmp subject xn_dashes 4 = Some 0 then False
                else if wildcard = [0x2a] then True
                else list_all (\<lambda>p. is_alnum p \<or> p = 0x2d \<or> allow_multi \<and> p = 0x2e) wildcard)"

definition LABEL_START :: u32 where "LABEL_START = 1"
definition LABEL_END :: u32 where "LABEL_END = 2"
definition LABEL_HYPHEN :: u32 where "LABEL_HYPHEN = 4"
definition LABEL_IDNA :: u32 where "LABEL_IDNA = 8"

text \<open>The pointer \<open>star\<close> is an index.  \<open>None\<close> is the early return of the null pointer.\<close>

fun valid_star_loop :: "u32 \<Rightarrow> nat \<Rightarrow> u8 list \<Rightarrow> nat option \<Rightarrow> u32 \<Rightarrow> nat \<Rightarrow> (nat option \<times> u32 \<times> nat) option" where
  "valid_star_loop flags i [] star state dots = Some (star, state, dots)"
| "valid_star_loop flags i (c # p) star state dots =
     (if c = 0x2a then
        let atstart = (state AND LABEL_START \<noteq> 0); atend = (p = [] \<or> hd p = 0x2e)
        in if star \<noteq> None \<or> state AND LABEL_IDNA \<noteq> 0 \<or> dots \<noteq> 0 then None
           else if flags AND X509_CHECK_FLAG_NO_PARTIAL_WILDCARDS \<noteq> 0 \<and> (\<not> atstart \<or> \<not> atend) then None
           else if \<not> atstart \<and> \<not> atend then None
           else valid_star_loop flags (i + 1) p (Some i) (state AND NOT LABEL_START) dots
      else if is_alnum c then
        let state = (if state AND LABEL_START \<noteq> 0 \<and> length (c # p) \<ge> 4 \<and> OPENSSL_strncasecmp (c # p) xn_dashes 4 = Some 0
                     then state OR LABEL_IDNA else state)
        in valid_star_loop flags (i + 1) p star (state AND NOT (LABEL_HYPHEN OR LABEL_START)) dots
      else if c = 0x2e then
        if state AND (LABEL_HYPHEN OR LABEL_START) \<noteq> 0 then None
        else valid_star_loop flags (i + 1) p star LABEL_START (dots + 1)
      else if c = 0x2d then
        if state AND LABEL_START \<noteq> 0 then None
        else valid_star_loop flags (i + 1) p star (state OR LABEL_HYPHEN) dots
      else None)"

definition valid_star :: "u8 list \<Rightarrow> u32 \<Rightarrow> nat option" where
  "valid_star p flags =
     (case valid_star_loop flags 0 p None LABEL_START 0 of
        None \<Rightarrow> None
      | Some (star, state, dots) \<Rightarrow>
          if state AND (LABEL_START OR LABEL_HYPHEN) \<noteq> 0 \<or> dots < 2 then None else star)"

definition equal_wildcard :: "u8 list \<Rightarrow> u8 list \<Rightarrow> u32 \<Rightarrow> bool" where
  "equal_wildcard pattern subject flags =
     (let star = (if \<not> (length subject > 1 \<and> hd subject = 0x2e) then valid_star pattern flags else None)
      in case star of
           None \<Rightarrow> equal_nocase pattern subject flags
         | Some star \<Rightarrow> wildcard_match (take star pattern) (drop (star + 1) pattern) subject flags)"

fun looks_like_dns_loop :: "u8 list \<Rightarrow> nat \<Rightarrow> nat \<Rightarrow> nat \<Rightarrow> bool" where
  "looks_like_dns_loop [] i len label_start = True"
| "looks_like_dns_loop (c # s) i len label_start =
     (if is_alnum c \<or> c = 0x2d \<and> i > label_start \<or> c = 0x5f \<or> c = 0x3a then looks_like_dns_loop s (i + 1) len label_start
      else if c = 0x2e \<and> i > label_start \<and> i < len - 1 then looks_like_dns_loop s (i + 1) len (i + 1)
      else False)"

definition x509v3_looks_like_dns_name :: "u8 list \<Rightarrow> bool" where
  "x509v3_looks_like_dns_name inp =
     (let inp = (if length inp > 0 \<and> inp ! (length inp - 1) = 0x2e then take (length inp - 1) inp else inp);
          inp = (if length inp \<ge> 2 \<and> inp ! 0 = 0x2a \<and> inp ! 1 = 0x2e then drop 2 inp else inp)
      in if length inp = 0 then False else looks_like_dns_loop inp 0 (length inp) 0)"

section \<open>Checking a certificate\<close>

definition GEN_EMAIL :: int where "GEN_EMAIL = 1"
definition GEN_DNS :: int where "GEN_DNS = 2"
definition GEN_IPADD :: int where "GEN_IPADD = 7"
definition NID_undef :: int where "NID_undef = 0"
definition NID_commonName :: int where "NID_commonName = 13"
definition NID_pkcs9_emailAddress :: int where "NID_pkcs9_emailAddress = 48"
definition V_ASN1_OCTET_STRING :: int where "V_ASN1_OCTET_STRING = 4"

text \<open>
  What the check reads of a certificate: its subject alternative names, if it has that extension and
  it can be decoded, each with its type, and the entries of its subject with their object identifiers.
\<close>

record X509 =
  subject_alt_names :: "(int \<times> ASN1_STRING) list option"
  subject_entries :: "(int \<times> ASN1_STRING) list"

text \<open>The result with \<open>*peername\<close>, \<open>None\<close> for what was there before; a copy may fail for want of memory.\<close>

definition peer_copy :: "bool list \<Rightarrow> bool \<Rightarrow> u8 list \<Rightarrow> u8 list option option" where
  "peer_copy mem ok s = (if ok then Some (if fst (mem_next mem) then Some (takeWhile (\<lambda>c. c \<noteq> 0) s) else None) else None)"

definition do_check_string ::
    "bool list \<Rightarrow> bool list \<Rightarrow> (nat \<Rightarrow> u8) \<Rightarrow> ASN1_STRING \<Rightarrow> int \<Rightarrow> (u8 list \<Rightarrow> u8 list \<Rightarrow> u32 \<Rightarrow> bool) \<Rightarrow> u32 \<Rightarrow> int \<Rightarrow> u8 list \<Rightarrow>
     (int \<times> u8 list option option) option" where
  "do_check_string mem copy_mem fresh a cmp_type equal flags check_type b =
     (case asn1_data a of
        None \<Rightarrow> Some (0, None)
      | Some d \<Rightarrow>
          if asn1_length a = 0 then Some (0, None)
          else
            let data = take (asn1_length a) d
            in if cmp_type > 0 then
                 if cmp_type \<noteq> asn1_type a then Some (0, None)
                 else
                   let rv = (if cmp_type = V_ASN1_IA5STRING then equal data b flags
                             else asn1_length a = length b \<and> data = b)
                   in Some (if rv then 1 else 0, peer_copy copy_mem rv data)
               else
                 (case ASN1_STRING_to_UTF8 mem fresh (Some a) of
                    None \<Rightarrow> None
                  | Some (Inl _) \<Rightarrow> Some (-1, None)
                  | Some (Inr (astr, astrlen)) \<Rightarrow>
                      let astr = take astrlen astr;
                          rv = (if check_type = GEN_DNS \<and> \<not> x509v3_looks_like_dns_name astr then False
                                else equal astr b flags)
                      in Some (if rv then 1 else 0, peer_copy copy_mem rv astr)))"

text \<open>The two loops over names: the first result that is not 0.  \<open>mems\<close> has the outcomes of the allocations for each name.\<close>

fun check_names :: "(nat \<Rightarrow> ASN1_STRING \<Rightarrow> (int \<times> u8 list option option) option) \<Rightarrow> nat \<Rightarrow> int \<Rightarrow> (int \<times> ASN1_STRING) list \<Rightarrow>
    (int \<times> u8 list option option) option" where
  "check_names check i type [] = Some (0, None)"
| "check_names check i type ((t, str) # gens) =
     (if t \<noteq> type then check_names check (i + 1) type gens
      else case check i str of
             None \<Rightarrow> None
           | Some (rv, name) \<Rightarrow> if rv \<noteq> 0 then Some (rv, name) else check_names check (i + 1) type gens)"

definition do_x509_check ::
    "(nat \<Rightarrow> bool list \<times> bool list) \<Rightarrow> (nat \<Rightarrow> u8) \<Rightarrow> X509 \<Rightarrow> u8 list \<Rightarrow> u32 \<Rightarrow> int \<Rightarrow> (int \<times> u8 list option option) option" where
  "do_x509_check mems fresh x chk flags check_type =
     (let flags = flags AND NOT X509_CHECK_FLAG_DOT_SUBDOMAINS;
          (cnid, alt_type, flags, equal) =
            (if check_type = GEN_EMAIL then (NID_pkcs9_emailAddress, V_ASN1_IA5STRING, flags, equal_email)
             else if check_type = GEN_DNS then
               let flags = (if length chk > 1 \<and> hd chk = 0x2e then flags OR X509_CHECK_FLAG_DOT_SUBDOMAINS else flags)
               in (NID_commonName, V_ASN1_IA5STRING, flags,
                   if flags AND X509_CHECK_FLAG_NO_WILDCARDS \<noteq> 0 then equal_nocase else equal_wildcard)
             else (NID_undef, V_ASN1_OCTET_STRING, flags, equal_case));
          check = (\<lambda>cmp_type i str. do_check_string (fst (mems i)) (snd (mems i)) fresh str cmp_type equal flags check_type chk)
      in case subject_alt_names x of
           Some gens \<Rightarrow> check_names (check alt_type) 0 check_type gens
         | None \<Rightarrow>
             if cnid = NID_undef \<or> flags AND X509_CHECK_FLAG_NEVER_CHECK_SUBJECT \<noteq> 0 then Some (0, None)
             else check_names (check (-1)) 0 cnid (subject_entries x))"

definition X509_check_host where
  "X509_check_host mems fresh x chk flags =
     (case chk of
        None \<Rightarrow> Some (-2, None)
      | Some chk \<Rightarrow> if 0 \<in> set chk then Some (-2, None) else do_x509_check mems fresh x chk flags GEN_DNS)"

definition X509_check_email where
  "X509_check_email mems fresh x chk flags =
     (case chk of
        None \<Rightarrow> Some (-2)
      | Some chk \<Rightarrow> if 0 \<in> set chk then Some (-2) else map_option fst (do_x509_check mems fresh x chk flags GEN_EMAIL))"

text \<open>An address is given by its bytes.\<close>

definition X509_check_ip where
  "X509_check_ip mems fresh x chk flags =
     (case chk of None \<Rightarrow> Some (-2) | Some chk \<Rightarrow> map_option fst (do_x509_check mems fresh x chk flags GEN_IPADD))"

section \<open>Comparison without case\<close>

definition lower :: "u8 \<Rightarrow> u8" where
  "lower c = (if 0x41 \<le> c \<and> c \<le> 0x5a then c - 0x41 + 0x61 else c)"

definition nocase :: "u8 list \<Rightarrow> u8 list \<Rightarrow> bool" where
  "nocase l r \<longleftrightarrow> list_all2 (\<lambda>a b. a \<noteq> 0 \<and> lower a = lower b) l r"

lemma nocase_loop_iff: "length l = length r \<Longrightarrow> nocase_loop l r \<longleftrightarrow> nocase l r"
  by (induction l r rule: list_induct2) (auto simp: nocase_def lower_def Let_def)

lemma nocase_length: "nocase l r \<Longrightarrow> length l = length r"
  by (simp add: nocase_def list_all2_lengthD)

lemma equal_nocase_iff: "flags AND X509_CHECK_FLAG_DOT_SUBDOMAINS = 0 \<Longrightarrow> equal_nocase l r flags \<longleftrightarrow> nocase l r"
  using nocase_length by (auto simp: equal_nocase_def skip_prefix_def Let_def nocase_loop_iff)

lemma lower_upper: "0x41 \<le> c \<Longrightarrow> c \<le> 0x5a \<Longrightarrow> unat (lower c) = unat c + 32"
proof -
  assume c: "0x41 \<le> c" "c \<le> 0x5a"
  then have "lower c = c + 0x20" by (simp add: lower_def algebra_simps)
  moreover have "unat c \<le> 90" using c by (simp add: word_le_nat_alt)
  ultimately show ?thesis by (simp add: unat_word_ariths)
qed

lemma lower_keeps:
  "is_alnum (lower c) \<longleftrightarrow> is_alnum c" "lower c = 0x2e \<longleftrightarrow> c = 0x2e" "lower c = 0x2a \<longleftrightarrow> c = 0x2a"
  "lower c = 0x2d \<longleftrightarrow> c = 0x2d" "lower c = 0 \<longleftrightarrow> c = 0"
proof -
  have "(is_alnum (lower c) \<longleftrightarrow> is_alnum c) \<and> (lower c = 0x2e \<longleftrightarrow> c = 0x2e) \<and> (lower c = 0x2a \<longleftrightarrow> c = 0x2a) \<and>
    (lower c = 0x2d \<longleftrightarrow> c = 0x2d) \<and> (lower c = 0 \<longleftrightarrow> c = 0)"
  proof (cases "0x41 \<le> c \<and> c \<le> 0x5a")
    case True
    then show ?thesis
      using lower_upper [of c] by (auto simp: is_alnum_def word_le_nat_alt word_unat_eq_iff)
  next
    case False
    then have "lower c = c" by (simp add: lower_def)
    then show ?thesis by simp
  qed
  then show "is_alnum (lower c) \<longleftrightarrow> is_alnum c" "lower c = 0x2e \<longleftrightarrow> c = 0x2e" "lower c = 0x2a \<longleftrightarrow> c = 0x2a"
    "lower c = 0x2d \<longleftrightarrow> c = 0x2d" "lower c = 0 \<longleftrightarrow> c = 0"
    by blast+
qed

lemma lower_class:
  assumes "lower a = lower b"
  shows "is_alnum a \<longleftrightarrow> is_alnum b" "a = 0x2e \<longleftrightarrow> b = 0x2e" "a = 0x2a \<longleftrightarrow> b = 0x2a" "a = 0x2d \<longleftrightarrow> b = 0x2d" "a = 0 \<longleftrightarrow> b = 0"
  using lower_keeps [of a] lower_keeps [of b] assms by simp_all

section \<open>Labels\<close>

fun labels :: "u8 list \<Rightarrow> u8 list list" where
  "labels [] = [[]]"
| "labels (c # p) = (if c = 0x2e then [] # labels p else (c # hd (labels p)) # tl (labels p))"

lemma labels_nonempty [simp]: "labels p \<noteq> []"
  by (cases p) auto

lemma labels_Cons_ex: obtains l ls where "labels p = l # ls"
  using labels_nonempty [of p] by (cases "labels p") auto

lemma labels_append:
  "0x2e \<notin> set a \<Longrightarrow> labels (a @ p) = (a @ hd (labels p)) # tl (labels p)"
  by (induction a) auto

lemma labels_no_dot: "l \<in> set (labels p) \<Longrightarrow> 0x2e \<notin> set l"
proof (induction p arbitrary: l)
  case (Cons c p)
  obtain m ms where "labels p = m # ms" by (rule labels_Cons_ex)
  then show ?case using Cons by (auto split: if_splits)
qed simp

lemma labels_split: "0x2e \<notin> set a \<Longrightarrow> labels (a @ 0x2e # p) = a # labels p"
  by (simp add: labels_append)

lemma labels_plain: "0x2e \<notin> set p \<Longrightarrow> labels p = [p]"
  using labels_append [of p "[]"] by simp

lemma labels_single: "labels p = [l] \<longleftrightarrow> p = l \<and> 0x2e \<notin> set l"
proof
  show "labels p = [l] \<Longrightarrow> p = l \<and> 0x2e \<notin> set l"
  proof (induction p arbitrary: l)
    case (Cons c p)
    obtain m ms where m: "labels p = m # ms" by (rule labels_Cons_ex)
    then show ?case using Cons.prems Cons.IH [of m] by (auto split: if_splits)
  qed simp
qed (use labels_plain in blast)

lemma labels_Cons2: "labels p = l # m # ls \<longleftrightarrow> (\<exists>q. p = l @ 0x2e # q \<and> 0x2e \<notin> set l \<and> labels q = m # ls)"
proof (induction p arbitrary: l)
  case (Cons c p)
  obtain k ks where k: "labels p = k # ks" by (rule labels_Cons_ex)
  show ?case
  proof (cases "c = 0x2e")
    case True
    then show ?thesis by (cases l) auto
  next
    case False
    then show ?thesis using k Cons [of "tl l"] by (cases l) auto
  qed
qed auto

lemma nocase_labels: "nocase x y \<Longrightarrow> list_all2 nocase (labels x) (labels y)"
  unfolding nocase_def
proof (induction rule: list_all2_induct)
  case (Cons a x b y)
  obtain l ls m ms where "labels x = l # ls" "labels y = m # ms" by (meson labels_Cons_ex)
  moreover have "a = 0x2e \<longleftrightarrow> b = 0x2e" using Cons(1) lower_class(2) by blast
  ultimately show ?case using Cons by (auto simp: nocase_def)
qed (simp add: nocase_def)

lemma labels_nocase: "list_all2 nocase (labels x) (labels y) \<Longrightarrow> nocase x y"
proof (induction x arbitrary: y)
  case Nil
  then show ?case by (cases y) (auto simp: nocase_def split: if_splits)
next
  case (Cons a x)
  obtain l ls where l: "labels x = l # ls" by (rule labels_Cons_ex)
  show ?case
  proof (cases y)
    case Nil
    then show ?thesis using Cons.prems l by (auto simp: nocase_def split: if_splits)
  next
    case y: (Cons b y')
    obtain m ms where m: "labels y' = m # ms" by (rule labels_Cons_ex)
    show ?thesis
      using Cons.prems Cons.IH [of y'] l m unfolding y
      by (auto simp: nocase_def split: if_splits)
  qed
qed

section \<open>Patterns with a wildcard\<close>

definition ldh :: "u8 \<Rightarrow> bool" where
  "ldh c \<longleftrightarrow> is_alnum c \<or> c = 0x2d"

definition idna :: "u8 list \<Rightarrow> bool" where
  "idna p \<longleftrightarrow> length p \<ge> 4 \<and> OPENSSL_strncasecmp p xn_dashes 4 = Some 0"

lemma classes [simp]: "\<not> is_alnum 0x2d" "\<not> is_alnum 0x2a" "\<not> is_alnum 0x2e" "\<not> is_alnum 0" "ldh 0x2d" "\<not> ldh 0x2a" "\<not> ldh 0x2e" "\<not> ldh 0"
  by (simp_all add: is_alnum_def ldh_def)

text \<open>The rest of a label from a state of the scan, when the wildcard has been found.\<close>

definition tail_ok :: "u32 \<Rightarrow> u8 list \<Rightarrow> bool" where
  "tail_ok s x \<longleftrightarrow> list_all ldh x \<and>
     (if s = 1 then x \<noteq> [] \<and> hd x \<noteq> 0x2d \<and> last x \<noteq> 0x2d
      else if x = [] then s \<noteq> 4 \<and> s \<noteq> 12 else last x \<noteq> 0x2d)"

definition plain_label :: "u8 list \<Rightarrow> bool" where
  "plain_label l \<longleftrightarrow> l \<noteq> [] \<and> list_all ldh l \<and> hd l \<noteq> 0x2d \<and> last l \<noteq> 0x2d"

lemma tail_ok_1: "tail_ok 1 x = plain_label x"
  by (auto simp: tail_ok_def plain_label_def)

definition accepts :: "(nat option \<times> u32 \<times> nat) option \<Rightarrow> nat \<Rightarrow> bool" where
  "accepts r k \<longleftrightarrow> (\<exists>st d. r = Some (Some k, st, d) \<and> st AND (LABEL_START OR LABEL_HYPHEN) = 0 \<and> 2 \<le> d)"

lemma valid_star_accepts: "valid_star p flags = Some k \<longleftrightarrow> accepts (valid_star_loop flags 0 p None LABEL_START 0) k"
  by (auto simp: valid_star_def accepts_def not_less split: option.splits)

definition scan_states :: "u32 set" where
  "scan_states = {0, 1, 4, 8, 12}"

lemmas label_bits = LABEL_START_def LABEL_HYPHEN_def LABEL_IDNA_def

lemma tail_ok_alnum:
  assumes "is_alnum c" "s' = 0 \<or> s' = 8"
  shows "tail_ok s' l \<longleftrightarrow> tail_ok s (c # l)"
proof -
  have "c \<noteq> 0x2d" "ldh c" using assms(1) by (auto simp: ldh_def)
  then show ?thesis using assms(2) by (auto simp: tail_ok_def)
qed

lemma scan_after_star:
  "s \<in> scan_states \<Longrightarrow>
   accepts (valid_star_loop flags i p (Some k) s d) k \<longleftrightarrow>
     tail_ok s (hd (labels p)) \<and> list_all plain_label (tl (labels p)) \<and> d + length (labels p) \<ge> 3"
proof (induction p arbitrary: i s d)
  case Nil
  then show ?case by (auto simp: accepts_def tail_ok_def scan_states_def label_bits)
next
  case (Cons c p)
  obtain l ls where l: "labels p = l # ls" by (rule labels_Cons_ex)
  consider "c = 0x2a" | "is_alnum c" | "c = 0x2e" | "c = 0x2d" | "\<not> ldh c" "c \<noteq> 0x2a" "c \<noteq> 0x2e"
    by (auto simp: ldh_def)
  then show ?case
  proof cases
    case 1
    then show ?thesis by (simp add: accepts_def tail_ok_def)
  next
    case 2
    then have c: "c \<noteq> 0x2a" "c \<noteq> 0x2e" "c \<noteq> 0x2d" by auto
    let ?s = "(if s AND LABEL_START \<noteq> 0 \<and> length (c # p) \<ge> 4 \<and> OPENSSL_strncasecmp (c # p) xn_dashes 4 = Some 0
        then s OR LABEL_IDNA else s) AND NOT (LABEL_HYPHEN OR LABEL_START)"
    have s: "?s = 0 \<or> ?s = 8" using Cons.prems by (auto simp: scan_states_def label_bits)
    then have "?s \<in> scan_states" by (auto simp: scan_states_def)
    from Cons.IH [OF this, of "i + 1" d]
    have "accepts (valid_star_loop flags i (c # p) (Some k) s d) k \<longleftrightarrow>
      tail_ok ?s l \<and> list_all plain_label ls \<and> d + length (labels p) \<ge> 3"
      using 2 c by (simp add: l Let_def)
    moreover have "tail_ok ?s l \<longleftrightarrow> tail_ok s (c # l)"
      by (rule tail_ok_alnum [OF 2 s])
    ultimately show ?thesis using c l by simp
  next
    case 3
    have "1 \<in> scan_states" by (simp add: scan_states_def)
    from Cons.IH [OF this, of "i + 1" "d + 1"] 3 show ?thesis
      using Cons.prems l by (auto simp: scan_states_def label_bits tail_ok_1 accepts_def tail_ok_def [of _ "[]"])
  next
    case 4
    show ?thesis
    proof (cases "s = 1")
      case True
      then show ?thesis using 4 by (simp add: label_bits accepts_def tail_ok_def)
    next
      case False
      have s: "s OR LABEL_HYPHEN \<in> {4, 12}" using False Cons.prems by (auto simp: scan_states_def label_bits)
      then have "s OR LABEL_HYPHEN \<in> scan_states" by (auto simp: scan_states_def)
      from Cons.IH [OF this, of "i + 1" d] 4 False Cons.prems show ?thesis
        using s l by (auto simp: scan_states_def label_bits tail_ok_def)
    qed
  next
    case 5
    then show ?thesis by (auto simp: accepts_def tail_ok_def ldh_def)
  qed
qed

lemma scan_no_star: "0 < d \<Longrightarrow> \<not> accepts (valid_star_loop flags i p None s d) k"
proof (induction flags i p "None :: nat option" s d rule: valid_star_loop.induct)
  case (2 flags i c p s d)
  then show ?case by (auto simp: Let_def accepts_def)
qed (simp add: accepts_def)

lemma sint_of_ascii: "0 \<le> k \<Longrightarrow> k < 128 \<Longrightarrow> sint (of_int k :: u8) = k"
  using signed_take_bit_int_eq_self [of 7 k] by (simp add: sint_sbintrunc')

lemma unat_of_nat_of_u8: "n < 256 \<Longrightarrow> unat (of_nat n :: u8) = n"
  by (simp add: unat_of_nat)

lemma OPENSSL_tolower_lower: "OPENSSL_tolower (sint c) = sint (lower (c::u8))"
proof (cases "0x41 \<le> c \<and> c \<le> 0x5a")
  case True
  then have u: "65 \<le> unat c" "unat c \<le> 90" by (simp_all add: word_le_nat_alt)
  have "0 \<le> int (unat c)" "int (unat c) < 128" using u by linarith+
  from sint_of_ascii [OF this] have c: "sint c = int (unat c)" by simp
  have "lower c = of_nat (unat c + 32)"
    using lower_upper [of c] True u by (simp add: word_unat_eq_iff unat_of_nat del: of_nat_add)
  then have "lower c = of_int (int (unat c + 32))" by (simp only: of_int_of_nat_eq)
  moreover have "0 \<le> int (unat c + 32)" "int (unat c + 32) < 128" using u by linarith+
  ultimately have "sint (lower c) = int (unat c + 32)" using sint_of_ascii by metis
  then have "sint (lower c) = int (unat c) + 32" by (simp only: of_nat_add of_nat_numeral)
  moreover have "OPENSSL_tolower (int (unat c)) = int (unat c) + 32" 
  proof -
    have "65 \<le> int (unat c)" "int (unat c) \<le> 90" using u by linarith+
    then show ?thesis unfolding OPENSSL_tolower_def by presburger
  qed
  ultimately show ?thesis by (simp only: c)
next
  case False
  have "\<not> (65 \<le> sint c \<and> sint c \<le> 90)"
  proof
    assume s: "65 \<le> sint c \<and> sint c \<le> 90"
    then have n: "sint c = int (nat (sint c))" "nat (sint c) < 256" by auto
    have "c = of_nat (nat (sint c))" 
    proof -
      have "c = of_int (sint c)" by simp
      also have "\<dots> = of_int (int (nat (sint c)))" using n(1) by simp
      finally show ?thesis by (simp only: of_int_of_nat_eq)
    qed
    then have "unat c = nat (sint c)" using n(2) by (metis unat_of_nat_of_u8)
    then show False using False s by (auto simp: word_le_nat_alt)
  qed
  then have "OPENSSL_tolower (sint c) = sint c" by (auto simp: OPENSSL_tolower_def)
  moreover have "lower c = c" using False by (auto simp: lower_def)
  ultimately show ?thesis by simp
qed

lemma strncasecmp_step:
  "OPENSSL_strncasecmp (a # as) (b # bs) (Suc n) = Some 0 \<longleftrightarrow>
   lower a = lower b \<and> (b = 0 \<or> OPENSSL_strncasecmp as bs n = Some 0)"
proof -
  have "sint (lower b) = 0 \<longleftrightarrow> b = 0" using lower_keeps(5) [of b] by (simp add: signed_eq_0_iff)
  moreover have "sint (lower a) = sint (lower b) \<longleftrightarrow> lower a = lower b" by (auto intro: signed_word_eqI)
  ultimately show ?thesis by (auto simp: Let_def OPENSSL_tolower_lower)
qed

lemma strncasecmp_4:
  "OPENSSL_strncasecmp (a # b # c # e # p) xn_dashes 4 = Some 0 \<longleftrightarrow>
   lower a = 0x78 \<and> lower b = 0x6e \<and> c = 0x2d \<and> e = 0x2d"
proof -
  have "(4::nat) = Suc (Suc (Suc (Suc 0)))" by simp
  moreover have "lower 0x78 = 0x78" "lower 0x6e = 0x6e" "lower 0x2d = 0x2d" by (simp_all add: lower_def)
  ultimately show ?thesis
    unfolding xn_dashes_def by (simp only: strncasecmp_step) (simp add: lower_keeps(4))
qed

lemma idna_iff:
  "idna p \<longleftrightarrow> (\<exists>a b q. p = a # b # 0x2d # 0x2d # q \<and> lower a = 0x78 \<and> lower b = 0x6e)"
proof (cases "length p \<ge> 4")
  case True
  then have "Suc (Suc (Suc (Suc 0))) \<le> length p" by simp
  then obtain a b c e q where p: "p = a # b # c # e # q" by (auto simp: Suc_le_length_iff)
  show ?thesis unfolding idna_def p strncasecmp_4 by auto
next
  case False
  then show ?thesis by (auto simp: idna_def)
qed

lemma idna_label: "idna (hd (labels p)) \<longleftrightarrow> idna p"
  unfolding idna_iff
proof
  assume "\<exists>a b q. p = a # b # 0x2d # 0x2d # q \<and> lower a = 0x78 \<and> lower b = 0x6e"
  then obtain a b q where p: "p = a # b # 0x2d # 0x2d # q" "lower a = 0x78" "lower b = 0x6e" by blast
  then have "a \<noteq> 0x2e" "b \<noteq> 0x2e" using lower_keeps(2) [of a] lower_keeps(2) [of b] by auto
  with p show "\<exists>a b q. hd (labels p) = a # b # 0x2d # 0x2d # q \<and> lower a = 0x78 \<and> lower b = 0x6e" by simp
next
  assume "\<exists>a b q. hd (labels p) = a # b # 0x2d # 0x2d # q \<and> lower a = 0x78 \<and> lower b = 0x6e"
  then obtain a b q where q: "hd (labels p) = a # b # 0x2d # 0x2d # q" "lower a = 0x78" "lower b = 0x6e" by blast
  obtain l ls where l: "labels p = l # ls" by (rule labels_Cons_ex)
  have "\<exists>r. p = l @ r"
    using l by (cases ls) (auto simp: labels_single labels_Cons2)
  with q l show "\<exists>a b q. p = a # b # 0x2d # 0x2d # q \<and> lower a = 0x78 \<and> lower b = 0x6e" by auto
qed

text \<open>The label with the wildcard, from a state of the scan in which it has not been found yet.\<close>

definition star_label_from :: "u32 \<Rightarrow> u32 \<Rightarrow> u8 list \<Rightarrow> nat \<Rightarrow> bool" where
  "star_label_from flags s l j \<longleftrightarrow> j < length l \<and> l ! j = 0x2a \<and> list_all ldh (take j l) \<and>
     (if s = 1 \<and> j = 0 then tail_ok 0 (drop 1 l) \<and> (flags AND X509_CHECK_FLAG_NO_PARTIAL_WILDCARDS = 0 \<or> length l = 1)
      else j + 1 = length l \<and> flags AND X509_CHECK_FLAG_NO_PARTIAL_WILDCARDS = 0 \<and> s \<noteq> 8 \<and> s \<noteq> 12 \<and>
        (if j = 0 then s \<noteq> 4 else l ! (j - 1) \<noteq> 0x2d) \<and> (s = 1 \<longrightarrow> hd l \<noteq> 0x2d \<and> \<not> idna l))"

lemma not_accepts_None [simp]: "\<not> accepts None k"
  by (simp add: accepts_def)

lemma hd_labels_empty: "p = [] \<or> hd p = 0x2e \<longleftrightarrow> hd (labels p) = []"
  by (cases p) auto

lemma accepts_star: "accepts (valid_star_loop flags i p (Some j) s d) k \<Longrightarrow> k = j"
proof (induction flags i p "Some j" s d rule: valid_star_loop.induct)
  case (1 flags i state dots)
  then show ?case by (simp add: accepts_def)
next
  case (2 flags i c p state dots)
  show ?case
    using 2(5) 2(2-4) [OF _ _ _] unfolding valid_star_loop.simps Let_def
    by (simp split: if_split_asm)
qed

lemma star_label_from_Cons:
  assumes "ldh c" "s' \<noteq> 1" "s' = 4 \<or> s' = 12 \<longleftrightarrow> c = 0x2d"
    and "s' = 8 \<or> s' = 12 \<longleftrightarrow> s = 8 \<or> s = 12 \<or> s = 1 \<and> (c = 0x2d \<or> idna (c # l))"
  shows "i \<le> k \<and> star_label_from flags s (c # l) (k - i) \<longleftrightarrow> i + 1 \<le> k \<and> star_label_from flags s' l (k - (i + 1))"
proof (cases "k \<le> i")
  case True
  have "c \<noteq> 0x2a" using assms(1) by auto
  then show ?thesis using True by (auto simp: star_label_from_def)
next
  case False
  then obtain j where j: "k = i + Suc j" using less_imp_Suc_add [of i k] by auto
  have "(c # l) ! j \<noteq> 0x2d \<longleftrightarrow> (if j = 0 then c \<noteq> 0x2d else l ! (j - 1) \<noteq> 0x2d)" by (cases j) auto
  then have "star_label_from flags s (c # l) (Suc j) \<longleftrightarrow> star_label_from flags s' l j"
    using assms by (auto simp: star_label_from_def)
  then show ?thesis by (simp add: j)
qed

lemma scan_before_star:
  assumes "s \<in> scan_states"
  shows "accepts (valid_star_loop flags i p None s 0) k \<longleftrightarrow>
    length (labels p) \<ge> 3 \<and> list_all plain_label (tl (labels p)) \<and> i \<le> k \<and> star_label_from flags s (hd (labels p)) (k - i)"
  using assms
proof (induction p arbitrary: i s)
  case Nil
  then show ?case by (simp add: accepts_def)
next
  case (Cons c p)
  obtain l ls where l: "labels p = l # ls" by (rule labels_Cons_ex)
  consider "c = 0x2a" | "is_alnum c" | "c = 0x2e" | "c = 0x2d" | "\<not> ldh c" "c \<noteq> 0x2a" "c \<noteq> 0x2e"
    by (auto simp: ldh_def)
  then show ?case
  proof cases
    case 1
    have lc: "labels (c # p) = (c # l) # ls" using 1 l by simp
    show ?thesis
    proof (cases "k = i")
      case True
      have s': "s AND NOT LABEL_START \<in> scan_states" using Cons.prems by (auto simp: scan_states_def label_bits)
      have "accepts (valid_star_loop flags i (c # p) None s 0) i \<longleftrightarrow>
          s \<noteq> 8 \<and> s \<noteq> 12 \<and> (flags AND X509_CHECK_FLAG_NO_PARTIAL_WILDCARDS = 0 \<or> s = 1 \<and> l = []) \<and> (s = 1 \<or> l = []) \<and>
          accepts (valid_star_loop flags (i + 1) p (Some i) (s AND NOT LABEL_START) 0) i"
        using 1 Cons.prems hd_labels_empty [of p] l by (auto simp: Let_def scan_states_def label_bits)
      also have "\<dots> \<longleftrightarrow> length (labels (c # p)) \<ge> 3 \<and> list_all plain_label ls \<and> star_label_from flags s (c # l) 0"
        using Cons.prems 1 unfolding scan_after_star [OF s'] lc
        by (auto simp: l star_label_from_def tail_ok_def scan_states_def label_bits)
      finally show ?thesis using True lc by simp
    next
      case False
      have "\<not> accepts (valid_star_loop flags i (c # p) None s 0) k"
        using 1 False accepts_star [of flags "i + 1" p i "s AND NOT LABEL_START" 0 k] by (auto simp: Let_def)
      moreover have "\<not> (i \<le> k \<and> star_label_from flags s (c # l) (k - i))"
        using 1 False by (auto simp: star_label_from_def take_Cons' )
      ultimately show ?thesis using lc by simp
    qed
  next
    case 3
    then show ?thesis
      using scan_no_star [of 1 flags "i + 1" p LABEL_START k] by (auto simp: star_label_from_def)
  next
    case 5
    then show ?thesis by (auto simp: star_label_from_def ldh_def l take_Cons')
  next
    case 4
    show ?thesis
    proof (cases "s = 1")
      case True
      then show ?thesis using 4 by (auto simp: label_bits star_label_from_def l)
    next
      case False
      have s: "s OR LABEL_HYPHEN \<in> {4, 12}" "s OR LABEL_HYPHEN = 12 \<longleftrightarrow> s = 8 \<or> s = 12"
        using False Cons.prems by (auto simp: scan_states_def label_bits)
      then have "s OR LABEL_HYPHEN \<in> scan_states" by (auto simp: scan_states_def)
      note IH = Cons.IH [OF this, of "i + 1"]
      have "s OR LABEL_HYPHEN \<noteq> 1" using s(1) by auto
      from star_label_from_Cons [OF _ this, of c s l i k flags] s False 4
      have "i \<le> k \<and> star_label_from flags s (c # l) (k - i) \<longleftrightarrow>
          i + 1 \<le> k \<and> star_label_from flags (s OR LABEL_HYPHEN) l (k - (i + 1))" by auto
      moreover have "s AND LABEL_START = 0" using False Cons.prems by (auto simp: scan_states_def label_bits)
      ultimately show ?thesis using 4 IH by (auto simp: l)
    qed
  next
    case 2
    then have c: "c \<noteq> 0x2a" "c \<noteq> 0x2e" "c \<noteq> 0x2d" "ldh c" by (auto simp: ldh_def)
    let ?s = "(if s AND LABEL_START \<noteq> 0 \<and> length (c # p) \<ge> 4 \<and> OPENSSL_strncasecmp (c # p) xn_dashes 4 = Some 0
        then s OR LABEL_IDNA else s) AND NOT (LABEL_HYPHEN OR LABEL_START)"
    have i: "idna (c # l) \<longleftrightarrow> length (c # p) \<ge> 4 \<and> OPENSSL_strncasecmp (c # p) xn_dashes 4 = Some 0"
      using idna_label [of "c # p"] c l by (simp add: idna_def)
    have s: "?s = (if s = 8 \<or> s = 12 \<or> s = 1 \<and> idna (c # l) then 8 else 0)"
      using Cons.prems unfolding i [symmetric] by (auto simp: scan_states_def label_bits)
    then have "?s \<in> scan_states" by (auto simp: scan_states_def)
    note IH = Cons.IH [OF this, of "i + 1"]
    have "i \<le> k \<and> star_label_from flags s (c # l) (k - i) \<longleftrightarrow> i + 1 \<le> k \<and> star_label_from flags ?s l (k - (i + 1))"
      by (rule star_label_from_Cons [OF c(4)]) (unfold s, use c(3) in auto)
    moreover have "valid_star_loop flags i (c # p) None s 0 = valid_star_loop flags (i + 1) p None ?s 0"
      using 2 c by (simp add: Let_def)
    ultimately show ?thesis using IH c(2) l by auto
  qed
qed

text \<open>
  A label with a wildcard: \<open>*\<close> alone, or with a rest after it or before it.  \<open>k\<close> is the place of the
  wildcard.
\<close>

definition star_label :: "u32 \<Rightarrow> u8 list \<Rightarrow> nat \<Rightarrow> bool" where
  "star_label flags l k \<longleftrightarrow>
     l = [0x2a] \<and> k = 0 \<or>
     flags AND X509_CHECK_FLAG_NO_PARTIAL_WILDCARDS = 0 \<and>
       ((\<exists>b. l = 0x2a # b \<and> k = 0 \<and> b \<noteq> [] \<and> list_all ldh b \<and> last b \<noteq> 0x2d) \<or>
        (\<exists>a. l = a @ [0x2a] \<and> k = length a \<and> plain_label a \<and> \<not> idna a))"

lemma idna_snoc_star: "idna (a @ [0x2a]) \<longleftrightarrow> idna a"
  by (auto simp: idna_iff append_eq_Cons_conv)

lemma star_label_from_1: "star_label_from flags 1 l k \<longleftrightarrow> star_label flags l k"
proof (cases k)
  case 0
  show ?thesis
  proof (cases l)
    case Nil
    then show ?thesis by (simp add: star_label_from_def star_label_def)
  next
    case (Cons c b)
    then show ?thesis
      using 0 by (auto simp: star_label_from_def star_label_def tail_ok_def plain_label_def)
  qed
next
  case (Suc j)
  have "star_label_from flags 1 l k \<longleftrightarrow> (\<exists>a. l = a @ [0x2a] \<and> k = length a \<and> list_all ldh a \<and>
      flags AND X509_CHECK_FLAG_NO_PARTIAL_WILDCARDS = 0 \<and> last a \<noteq> 0x2d \<and> hd a \<noteq> 0x2d \<and> \<not> idna a)" (is "?l \<longleftrightarrow> ?r")
  proof
    assume l: ?l
    define a where "a = take k l"
    have la: "l = a @ [0x2a]" "length a = k"
    proof -
      have k: "k < length l" "length l = Suc k" "l ! k = 0x2a" using l Suc by (auto simp: star_label_from_def)
      show "l = a @ [0x2a]" using take_Suc_conv_app_nth [OF k(1)] k(2,3) by (simp add: a_def)
      show "length a = k" using k by (simp add: a_def)
    qed
    have "a \<noteq> []" using la Suc by auto
    then have "last a = l ! (k - 1)" "hd a = hd l" using la Suc by (auto simp: last_conv_nth nth_append)
    then show ?r using l la Suc by (auto simp: star_label_from_def idna_snoc_star intro!: exI [of _ a])
  next
    assume ?r
    then obtain a where a: "l = a @ [0x2a]" "k = length a" "list_all ldh a"
      "flags AND X509_CHECK_FLAG_NO_PARTIAL_WILDCARDS = 0" "last a \<noteq> 0x2d" "hd a \<noteq> 0x2d" "\<not> idna a" by blast
    have "a \<noteq> []" using a(2) Suc by auto
    then have "l ! (k - 1) = last a" "hd l = hd a" using a(1,2) by (simp_all add: last_conv_nth nth_append)
    moreover have "l ! k = 0x2a" "take k l = a" "k < length l" "k + 1 = length l" using a(1,2) by simp_all
    moreover have "\<not> idna l" using a(1,7) idna_snoc_star by simp
    ultimately show ?l using a(3-6) Suc by (simp add: star_label_from_def)
  qed
  moreover have "k = length a \<Longrightarrow> a \<noteq> []" "k \<noteq> 0" for a :: "u8 list" using Suc by auto
  ultimately show ?thesis unfolding star_label_def plain_label_def by blast
qed

definition star_pattern :: "u32 \<Rightarrow> u8 list \<Rightarrow> nat \<Rightarrow> bool" where
  "star_pattern flags p k \<longleftrightarrow>
     length (labels p) \<ge> 3 \<and> star_label flags (hd (labels p)) k \<and> list_all plain_label (tl (labels p))"

lemma valid_star_iff: "valid_star p flags = Some k \<longleftrightarrow> star_pattern flags p k"
proof -
  have "(1::u32) \<in> scan_states" by (simp add: scan_states_def)
  from scan_before_star [OF this, of flags 0 p k] show ?thesis
    by (auto simp: valid_star_accepts star_pattern_def LABEL_START_def star_label_from_1)
qed

section \<open>Matching\<close>

text \<open>What the first label of a name may be: the wildcard stands for characters of one label.\<close>

definition star_matches :: "u8 list \<Rightarrow> nat \<Rightarrow> u8 list \<Rightarrow> bool" where
  "star_matches l k m \<longleftrightarrow>
     (\<exists>a wild b. m = a @ wild @ b \<and> nocase (take k l) a \<and> nocase b (drop (k + 1) l) \<and>
        (wild = [0x2a] \<or> list_all ldh wild) \<and> (if l = [0x2a] then wild \<noteq> [] else \<not> idna m))"

lemma wildcard_match_parts:
  assumes "length a = length prefix" "length c = length suffix"
    and flags: "flags AND X509_CHECK_FLAG_DOT_SUBDOMAINS = 0" "flags AND X509_CHECK_FLAG_MULTI_LABEL_WILDCARDS = 0"
  shows "wildcard_match prefix suffix (a @ wild @ c) flags \<longleftrightarrow>
    nocase prefix a \<and> nocase c suffix \<and>
    (if prefix = [] \<and> suffix \<noteq> [] \<and> hd suffix = 0x2e then wild \<noteq> [] else \<not> idna (a @ wild @ c)) \<and>
    (wild = [0x2a] \<or> list_all ldh wild)"
proof -
  let ?s = "a @ wild @ c"
  have ldh: "ldh = (\<lambda>p. is_alnum p \<or> p = 0x2d)" by (simp add: fun_eq_iff ldh_def)
  have e: "take (length prefix) ?s = a" "drop (length prefix) (take (length ?s - length suffix) ?s) = wild"
    "drop (length ?s - length suffix) ?s = c" "\<not> length ?s < length prefix + length suffix"
    using assms(1,2) by simp_all
  have i: "length ?s \<ge> 4 \<and> OPENSSL_strncasecmp ?s xn_dashes 4 = Some 0 \<longleftrightarrow> idna ?s" by (simp add: idna_def)
  show ?thesis
    unfolding wildcard_match_def Let_def e equal_nocase_iff [OF flags(1)] i ldh using flags(2) e(4) by auto
qed

lemma nocase_no_dot: "nocase x y \<Longrightarrow> 0x2e \<in> set x \<longleftrightarrow> 0x2e \<in> set y"
  unfolding nocase_def
proof (induction rule: list_all2_induct)
  case (Cons a x b y)
  then show ?case using lower_class(2) [where a = a and b = b] by auto
qed simp

lemma nocase_append: "length a = length b \<Longrightarrow> nocase (a @ c) (b @ d) \<longleftrightarrow> nocase a b \<and> nocase c d"
  by (simp add: nocase_def list_all2_append)

lemma nocase_dot: "nocase (0x2e # x) (c # y) \<longleftrightarrow> c = 0x2e \<and> nocase x y" "nocase (c # y) (0x2e # x) \<longleftrightarrow> c = 0x2e \<and> nocase y x"
  using lower_class(2) [where a = "0x2e" and b = c] lower_class(2) [where a = c and b = "0x2e"] by (auto simp: nocase_def)

lemma ldh_no_dot: "list_all ldh x \<Longrightarrow> 0x2e \<notin> set x"
  by (auto simp: list_all_iff)

lemma star_label_no_dot: "star_label flags l k \<Longrightarrow> 0x2e \<notin> set l \<and> k < length l"
  by (auto simp: star_label_def plain_label_def dest: ldh_no_dot)

lemma split_three:
  assumes "m + n \<le> length s"
  obtains a wild c where "s = a @ wild @ c" "length a = m" "length c = n"
proof
  let ?j = "length s - m - n"
  have "drop m s = take ?j (drop m s) @ drop (length s - n) s"
    using append_take_drop_id [of ?j "drop m s"] assms by (simp add: add.commute)
  then show "s = take m s @ take ?j (drop m s) @ drop (length s - n) s" by (metis append_take_drop_id)
qed (use assms in simp_all)

lemma star_pattern_match:
  assumes flags: "flags AND X509_CHECK_FLAG_DOT_SUBDOMAINS = 0" "flags AND X509_CHECK_FLAG_MULTI_LABEL_WILDCARDS = 0"
    and l: "labels p = l # ls" "2 \<le> length ls" "star_label flags l k"
  shows "wildcard_match (take k p) (drop (k + 1) p) s flags \<longleftrightarrow>
    (\<exists>m ms. labels s = m # ms \<and> star_matches l k m \<and> list_all2 nocase ms ls)"
proof -
  have k: "0x2e \<notin> set l" "k < length l" using star_label_no_dot [OF l(3)] by auto
  obtain l2 ls2 where ls2: "ls = l2 # ls2" using l(2) by (cases ls) auto
  obtain q where p: "p = l @ 0x2e # q" and q: "labels q = ls"
    using l(1) unfolding ls2 labels_Cons2 by blast
  have tk: "take k p = take k l" "drop (k + 1) p = drop (k + 1) l @ 0x2e # q" using k(2) by (simp_all add: p)
  have whole: "take k l = [] \<and> drop (k + 1) l @ 0x2e # q \<noteq> [] \<and> hd (drop (k + 1) l @ 0x2e # q) = 0x2e \<longleftrightarrow> l = [0x2a]"
  proof
    assume w: "take k l = [] \<and> drop (k + 1) l @ 0x2e # q \<noteq> [] \<and> hd (drop (k + 1) l @ 0x2e # q) = 0x2e"
    then have "k = 0" using k(2) by auto
    have "drop (k + 1) l = []"
    proof (rule ccontr)
      assume "drop (k + 1) l \<noteq> []"
      then have "hd (drop (k + 1) l) \<in> set l" by (meson hd_in_set in_set_dropD)
      then show False using w k(1) \<open>drop (k + 1) l \<noteq> []\<close> by simp
    qed
    then show "l = [0x2a]" using \<open>k = 0\<close> l(3) by (auto simp: star_label_def)
  next
    assume "l = [0x2a]"
    then show "take k l = [] \<and> drop (k + 1) l @ 0x2e # q \<noteq> [] \<and> hd (drop (k + 1) l @ 0x2e # q) = 0x2e"
      using k(2) by simp
  qed
  show ?thesis
  proof
    assume w: "wildcard_match (take k p) (drop (k + 1) p) s flags"
    have len: "length (take k l) + length (drop (k + 1) l @ 0x2e # q) \<le> length s"
      using w unfolding tk by (auto simp: wildcard_match_def split: if_splits)
    obtain a wild c where s: "s = a @ wild @ c" and la: "length a = length (take k l)"
      and lc: "length c = length (drop (k + 1) l @ 0x2e # q)"
      by (rule split_three [OF len])
    note w = w [unfolded tk s wildcard_match_parts [OF la lc flags] whole]
    have nc: "nocase c (drop (k + 1) l @ 0x2e # q)" using w by blast
    define b where "b = take (length (drop (k + 1) l)) c"
    obtain e q' where c: "c = b @ e # q'" and lb: "length b = length (drop (k + 1) l)"
    proof -
      have "length (drop (k + 1) l) < length c" using lc by simp
      then show thesis using id_take_nth_drop [of "length (drop (k + 1) l)" c] that [of "c ! length (drop (k + 1) l)"]
        by (simp add: b_def)
    qed
    have b: "nocase b (drop (k + 1) l)" "e = 0x2e" "nocase q' q"
      using nc unfolding c nocase_append [OF lb] nocase_dot by blast+
    have "0x2e \<notin> set a" using w nocase_no_dot [of "take k l" a] k(1) by (auto dest: in_set_takeD)
    moreover have "0x2e \<notin> set b" using b(1) nocase_no_dot [of b] k(1) by (auto dest: in_set_dropD)
    moreover have "0x2e \<notin> set wild" using w by (auto dest: ldh_no_dot)
    ultimately have ls: "labels s = (a @ wild @ b) # labels q'"
      using labels_split [of "a @ wild @ b" q'] by (simp add: s c b(2))
    have "idna s \<longleftrightarrow> idna (a @ wild @ b)" using idna_label [of s] ls by simp
    then have i: "if l = [0x2a] then wild \<noteq> [] else \<not> idna (a @ wild @ b)" using w unfolding s by presburger
    have "star_matches l k (a @ wild @ b)"
      unfolding star_matches_def
      by (rule exI [of _ a], rule exI [of _ wild], rule exI [of _ b]) (use w b(1) i in \<open>simp only: simp_thms\<close>)
    moreover have "list_all2 nocase (labels q') ls" using nocase_labels [OF b(3)] q by simp
    ultimately show "\<exists>m ms. labels s = m # ms \<and> star_matches l k m \<and> list_all2 nocase ms ls" using ls by blast
  next
    assume "\<exists>m ms. labels s = m # ms \<and> star_matches l k m \<and> list_all2 nocase ms ls"
    then obtain m ms where m: "labels s = m # ms" "star_matches l k m" "list_all2 nocase ms ls" by blast
    then obtain m2 ms2 where "ms = m2 # ms2" unfolding ls2 by (cases ms) auto
    then obtain q' where s: "s = m @ 0x2e # q'" and q': "labels q' = ms" using m(1) unfolding \<open>ms = _\<close> labels_Cons2 by blast
    obtain a wild b where ab: "m = a @ wild @ b" "nocase (take k l) a" "nocase b (drop (k + 1) l)"
      "wild = [0x2a] \<or> list_all ldh wild" "if l = [0x2a] then wild \<noteq> [] else \<not> idna m"
      using m(2) by (auto simp: star_matches_def)
    have n: "nocase q' q" using m(3) q q' labels_nocase by simp
    have la: "length a = length (take k l)" and lb: "length b = length (drop (k + 1) l)"
      using nocase_length [OF ab(2)] nocase_length [OF ab(3)] by simp_all
    have lc: "length (b @ 0x2e # q') = length (drop (k + 1) l @ 0x2e # q)"
      using lb nocase_length [OF n] by simp
    have s': "s = a @ wild @ (b @ 0x2e # q')" by (simp add: s ab(1))
    have "idna s \<longleftrightarrow> idna m" using idna_label [of s] m(1) by simp
    then show "wildcard_match (take k p) (drop (k + 1) p) s flags"
      unfolding tk s' wildcard_match_parts [OF la lc flags] whole
      using ab n nocase_append [OF lb] nocase_dot(1) by (auto simp: s')
  qed
qed

text \<open>When a name of a certificate matches a host name.\<close>

definition dns_match :: "u32 \<Rightarrow> u8 list \<Rightarrow> u8 list \<Rightarrow> bool" where
  "dns_match flags p s \<longleftrightarrow>
     (if \<exists>k. star_pattern flags p k then
        \<exists>k m ms. star_pattern flags p k \<and> labels s = m # ms \<and> star_matches (hd (labels p)) k m \<and>
          list_all2 nocase ms (tl (labels p))
      else nocase p s)"

lemma star_pattern_unique: "star_pattern flags p k \<Longrightarrow> star_pattern flags p j \<Longrightarrow> j = k"
  using valid_star_iff [of p flags] by (metis option.inject)

lemma nocase_Nil: "nocase p [] \<longleftrightarrow> p = []" "nocase [] p \<longleftrightarrow> p = []"
  by (simp_all add: nocase_def)

lemma no_leading_dot:
  assumes "star_pattern flags p k" "hd s = 0x2e" "s \<noteq> []"
  shows "\<not> nocase p s" "labels s = m # ms \<Longrightarrow> \<not> star_matches (hd (labels p)) k m"
proof -
  obtain l ls where l: "labels p = l # ls" by (rule labels_Cons_ex)
  have sl: "star_label flags l k" using assms(1) l by (simp add: star_pattern_def)
  obtain s' where s: "s = 0x2e # s'" using assms(2,3) by (cases s) auto
  show "\<not> nocase p s"
  proof
    assume "nocase p s"
    then obtain c p' where p: "p = c # p'" "lower c = lower 0x2e" unfolding s by (cases p) (auto simp: nocase_def)
    then have "p = 0x2e # p'" using lower_class(2) [OF p(2)] by simp
    then show False using l star_label_no_dot [OF sl] by auto
  qed
  assume "labels s = m # ms"
  then have "m = []" by (simp add: s)
  show "\<not> star_matches (hd (labels p)) k m"
  proof
    assume "star_matches (hd (labels p)) k m"
    then have "nocase (take k l) []" "nocase [] (drop (k + 1) l)" "l \<noteq> [0x2a]"
      using \<open>m = []\<close> l by (auto simp: star_matches_def split: if_splits)
    then have "take k l = []" "drop (k + 1) l = []" by (simp_all only: nocase_Nil)
    then show False using sl \<open>l \<noteq> [0x2a]\<close> by (auto simp: star_label_def plain_label_def)
  qed
qed

lemma equal_wildcard_iff:
  assumes flags: "flags AND X509_CHECK_FLAG_DOT_SUBDOMAINS = 0" "flags AND X509_CHECK_FLAG_MULTI_LABEL_WILDCARDS = 0"
  shows "equal_wildcard p s flags \<longleftrightarrow> dns_match flags p s"
proof (cases "\<exists>k. star_pattern flags p k")
  case False
  then have "valid_star p flags = None" using valid_star_iff [of p flags] by (metis option.exhaust)
  then show ?thesis using False by (simp add: equal_wildcard_def dns_match_def equal_nocase_iff [OF flags(1)])
next
  case True
  then obtain k where k: "star_pattern flags p k" by blast
  obtain l ls where l: "labels p = l # ls" by (rule labels_Cons_ex)
  have d: "dns_match flags p s \<longleftrightarrow> (\<exists>m ms. labels s = m # ms \<and> star_matches l k m \<and> list_all2 nocase ms ls)"
  proof -
    have "dns_match flags p s \<longleftrightarrow> (\<exists>j m ms. star_pattern flags p j \<and> labels s = m # ms \<and> star_matches l j m \<and> list_all2 nocase ms ls)"
      using True l by (simp add: dns_match_def)
    then show ?thesis using k star_pattern_unique [OF k] by blast
  qed
  show ?thesis
  proof (cases "length s > 1 \<and> hd s = 0x2e")
    case True
    then have "hd s = 0x2e" "s \<noteq> []" by auto
    note no = no_leading_dot [OF k this]
    have "\<not> dns_match flags p s" using no(2) l unfolding d by auto
    moreover have "equal_wildcard p s flags \<longleftrightarrow> nocase p s"
      using True by (simp add: equal_wildcard_def equal_nocase_iff [OF flags(1)])
    ultimately show ?thesis using no(1) by blast
  next
    case False
    moreover have "valid_star p flags = Some k" using k valid_star_iff by blast
    moreover have "wildcard_match (take k p) (drop (k + 1) p) s flags \<longleftrightarrow> dns_match flags p s"
      unfolding d by (rule star_pattern_match [OF flags l]) (use k l in \<open>auto simp: star_pattern_def\<close>)
    ultimately show ?thesis by (auto simp: equal_wildcard_def)
  qed
qed

text \<open>The bytes of a string that has any.\<close>

definition string_bytes :: "ASN1_STRING \<Rightarrow> u8 list option" where
  "string_bytes a = (case asn1_data a of None \<Rightarrow> None | Some d \<Rightarrow> if asn1_length a = 0 then None else Some (take (asn1_length a) d))"

lemma check_names_first:
  assumes "\<And>i str. check i str = Some (if good str then 1 else 0, name i str)"
  shows "\<exists>n. check_names check i type gens = Some (if \<exists>str. (type, str) \<in> set gens \<and> good str then 1 else 0, n)"
proof (induction gens arbitrary: i)
  case (Cons g gens)
  obtain t str where g: "g = (t, str)" by force
  obtain n where "check_names check (i + 1) type gens = Some (if \<exists>str. (type, str) \<in> set gens \<and> good str then 1 else 0, n)"
    using Cons by blast
  then show ?case using assms [of i str] by (auto simp: g)
qed simp

text \<open>
  C10.  A host name against a certificate with subject alternative names: the check succeeds if and
  only if one of its DNS names, an IA5String, matches; common names are not looked at.  A name with a
  wildcard has at least three labels, the wildcard is in the first one, and it matches names with as
  many labels, equal to its own without regard to case except for the first: there the wildcard stands
  for letters, digits and hyphens, for at least one if it is the whole label, and for none of an
  internationalised label otherwise.  Any other name has to be equal.
\<close>

theorem host_check_with_alt_names:
  assumes "0 \<notin> set host" "\<not> (length host > 1 \<and> hd host = 0x2e)"
    and flags: "flags AND (X509_CHECK_FLAG_DOT_SUBDOMAINS OR X509_CHECK_FLAG_MULTI_LABEL_WILDCARDS OR X509_CHECK_FLAG_NO_WILDCARDS) = 0"
    and names: "subject_alt_names x = Some gens"
  shows "\<exists>name. X509_check_host mems fresh x (Some host) flags =
    Some (if \<exists>str p. (GEN_DNS, str) \<in> set gens \<and> asn1_type str = V_ASN1_IA5STRING \<and> string_bytes str = Some p \<and>
            dns_match flags p host then 1 else 0, name)"
proof -
  have f: "flags AND X509_CHECK_FLAG_DOT_SUBDOMAINS = 0" "flags AND X509_CHECK_FLAG_MULTI_LABEL_WILDCARDS = 0"
    "flags AND X509_CHECK_FLAG_NO_WILDCARDS = 0"
    using flags by (simp_all add: bit.conj_disj_distrib or_eq_0_iff)
  have nf: "flags AND NOT X509_CHECK_FLAG_DOT_SUBDOMAINS = flags"
  proof -
    have "flags = (flags AND X509_CHECK_FLAG_DOT_SUBDOMAINS) OR (flags AND NOT X509_CHECK_FLAG_DOT_SUBDOMAINS)"
      by (simp add: bit.conj_disj_distrib [symmetric])
    then show ?thesis using f(1) by simp
  qed
  have d: "0 < V_ASN1_IA5STRING" "GEN_DNS \<noteq> GEN_EMAIL" by (simp_all add: V_ASN1_IA5STRING_def GEN_DNS_def GEN_EMAIL_def)
  let ?good = "\<lambda>str. asn1_type str = V_ASN1_IA5STRING \<and> (\<exists>p. string_bytes str = Some p \<and> dns_match flags p host)"
  have check: "\<exists>n. do_check_string m cm fresh str V_ASN1_IA5STRING equal_wildcard flags GEN_DNS host = Some (if ?good str then 1 else 0, n)"
    for m cm str
    using d by (auto simp: do_check_string_def string_bytes_def equal_wildcard_iff [OF f(1,2)] Let_def split: option.splits)
  define name where "name i str = snd (the (do_check_string (fst (mems i)) (snd (mems i)) fresh str V_ASN1_IA5STRING equal_wildcard flags GEN_DNS host))" for i str
  have name: "do_check_string (fst (mems i)) (snd (mems i)) fresh str V_ASN1_IA5STRING equal_wildcard flags GEN_DNS host =
      Some (if ?good str then 1 else 0, name i str)" for i str
    using check [of "fst (mems i)" "snd (mems i)" str] by (auto simp only: name_def option.sel prod.sel)
  have "\<exists>n. check_names (\<lambda>i str. do_check_string (fst (mems i)) (snd (mems i)) fresh str V_ASN1_IA5STRING equal_wildcard flags GEN_DNS host) 0 GEN_DNS gens =
      Some (if \<exists>str. (GEN_DNS, str) \<in> set gens \<and> ?good str then 1 else 0, n)"
    by (rule check_names_first [OF name])
  then obtain n where n: "check_names (\<lambda>i str. do_check_string (fst (mems i)) (snd (mems i)) fresh str V_ASN1_IA5STRING equal_wildcard flags GEN_DNS host) 0 GEN_DNS gens =
      Some (if \<exists>str. (GEN_DNS, str) \<in> set gens \<and> ?good str then 1 else 0, n)" by blast
  have "X509_check_host mems fresh x (Some host) flags = do_x509_check mems fresh x host flags GEN_DNS"
    using assms(1) by (simp add: X509_check_host_def)
  also have "\<dots> = check_names (\<lambda>i str. do_check_string (fst (mems i)) (snd (mems i)) fresh str V_ASN1_IA5STRING equal_wildcard flags GEN_DNS host) 0 GEN_DNS gens"
    unfolding do_x509_check_def nf using assms(2) names d(2) f(3) by (simp only: Let_def prod.case if_False if_True not_False_eq_True refl option.case simp_thms)
  finally show ?thesis unfolding n by (intro exI [of _ n]) (auto intro!: arg_cong [where f = Some])
qed

theorem host_check_with_alt_names_witness:
  "let p = \<lparr>asn1_type = V_ASN1_IA5STRING, asn1_data = Some [0x2a, 0x2e, 0x61, 0x2e, 0x62, 0], asn1_length = 5\<rparr>;
       x = \<lparr>subject_alt_names = Some [(GEN_EMAIL, p), (GEN_DNS, p)], subject_entries = []\<rparr>
   in (\<exists>name. X509_check_host (\<lambda>_. ([], [])) (\<lambda>_. 0) x (Some [0x78, 0x2e, 0x41, 0x2e, 0x62]) 0 = Some (1, name)) \<and>
      (\<exists>name. X509_check_host (\<lambda>_. ([], [])) (\<lambda>_. 0) x (Some [0x78, 0x2e, 0x78, 0x2e, 0x61, 0x2e, 0x62]) 0 = Some (0, name))"
proof -
  define p where "p = \<lparr>asn1_type = V_ASN1_IA5STRING, asn1_data = Some [0x2a, 0x2e, 0x61, 0x2e, 0x62, 0], asn1_length = 5\<rparr>"
  define x where "x = \<lparr>subject_alt_names = Some [(GEN_EMAIL, p), (GEN_DNS, p)], subject_entries = []\<rparr>"
  have gens: "subject_alt_names x = Some [(GEN_EMAIL, p), (GEN_DNS, p)]" by (simp add: x_def)
  have bytes: "asn1_type p = V_ASN1_IA5STRING" "string_bytes p = Some [0x2a, 0x2e, 0x61, 0x2e, 0x62]"
    by (simp_all add: p_def string_bytes_def)
  have d: "GEN_EMAIL \<noteq> GEN_DNS" by (simp add: GEN_EMAIL_def GEN_DNS_def)
  have match: "dns_match 0 [0x2a, 0x2e, 0x61, 0x2e, 0x62] [0x78, 0x2e, 0x41, 0x2e, 0x62]"
    "\<not> dns_match 0 [0x2a, 0x2e, 0x61, 0x2e, 0x62] [0x78, 0x2e, 0x78, 0x2e, 0x61, 0x2e, 0x62]"
    by (subst equal_wildcard_iff [symmetric], simp, simp, code_simp)+
  have good: "(\<exists>str q. (GEN_DNS, str) \<in> set [(GEN_EMAIL, p), (GEN_DNS, p)] \<and> asn1_type str = V_ASN1_IA5STRING \<and>
      string_bytes str = Some q \<and> dns_match 0 q host) \<longleftrightarrow> dns_match 0 [0x2a, 0x2e, 0x61, 0x2e, 0x62] host" for host
    using bytes d by auto
  note th = host_check_with_alt_names [where x = x and flags = 0 and mems = "\<lambda>_. ([], [])" and fresh = "\<lambda>_. 0", OF _ _ _ gens, unfolded good]
  have "\<exists>name. X509_check_host (\<lambda>_. ([], [])) (\<lambda>_. 0) x (Some [0x78, 0x2e, 0x41, 0x2e, 0x62]) 0 = Some (1, name)"
    using th [of "[0x78, 0x2e, 0x41, 0x2e, 0x62]"] match(1) by simp
  moreover have "\<exists>name. X509_check_host (\<lambda>_. ([], [])) (\<lambda>_. 0) x (Some [0x78, 0x2e, 0x78, 0x2e, 0x61, 0x2e, 0x62]) 0 = Some (0, name)"
    using th [of "[0x78, 0x2e, 0x78, 0x2e, 0x61, 0x2e, 0x62]"] match(2) by simp
  ultimately show ?thesis by (simp add: Let_def p_def x_def)
qed

end
