(* ===== verification/Consttime.thy ===== *)
theory Consttime
  imports Prelude
begin

text \<open>
  The constant-time helpers of \<open>crypto/internal.h\<close> on a 64-bit platform: masks of all ones
  or all zeros computed without branching, and the choice between two values by a mask.
  Each is shown equal to the comparison that its comment names.
\<close>

section \<open>The code\<close>

type_synonym crypto_word = u64

definition value_barrier_w :: "crypto_word \<Rightarrow> crypto_word" where
  "value_barrier_w a = a"

definition constant_time_msb_w :: "crypto_word \<Rightarrow> crypto_word" where
  "constant_time_msb_w a = 0 - drop_bit (8 * 8 - 1) a"

definition constant_time_lt_w :: "crypto_word \<Rightarrow> crypto_word \<Rightarrow> crypto_word" where
  "constant_time_lt_w a b = constant_time_msb_w (a XOR ((a XOR b) OR ((a - b) XOR a)))"

definition constant_time_lt_8 :: "crypto_word \<Rightarrow> crypto_word \<Rightarrow> u8" where
  "constant_time_lt_8 a b = ucast (constant_time_lt_w a b)"

definition constant_time_ge_w :: "crypto_word \<Rightarrow> crypto_word \<Rightarrow> crypto_word" where
  "constant_time_ge_w a b = NOT (constant_time_lt_w a b)"

definition constant_time_ge_8 :: "crypto_word \<Rightarrow> crypto_word \<Rightarrow> u8" where
  "constant_time_ge_8 a b = ucast (constant_time_ge_w a b)"

definition constant_time_is_zero_w :: "crypto_word \<Rightarrow> crypto_word" where
  "constant_time_is_zero_w a = constant_time_msb_w (NOT a AND (a - 1))"

definition constant_time_is_zero_8 :: "crypto_word \<Rightarrow> u8" where
  "constant_time_is_zero_8 a = ucast (constant_time_is_zero_w a)"

definition constant_time_eq_w :: "crypto_word \<Rightarrow> crypto_word \<Rightarrow> crypto_word" where
  "constant_time_eq_w a b = constant_time_is_zero_w (a XOR b)"

definition constant_time_eq_8 :: "crypto_word \<Rightarrow> crypto_word \<Rightarrow> u8" where
  "constant_time_eq_8 a b = ucast (constant_time_eq_w a b)"

text \<open>An \<open>int\<close> is a 32-bit word read as signed; the cast to the word sign-extends.\<close>

definition constant_time_eq_int :: "u32 \<Rightarrow> u32 \<Rightarrow> crypto_word" where
  "constant_time_eq_int a b = constant_time_eq_w (scast a) (scast b)"

definition constant_time_eq_int_8 :: "u32 \<Rightarrow> u32 \<Rightarrow> u8" where
  "constant_time_eq_int_8 a b = constant_time_eq_8 (scast a) (scast b)"

definition constant_time_select_w :: "crypto_word \<Rightarrow> crypto_word \<Rightarrow> crypto_word \<Rightarrow> crypto_word" where
  "constant_time_select_w m a b =
     (value_barrier_w m AND a) OR (value_barrier_w (NOT m) AND b)"

definition constant_time_select_8 :: "u8 \<Rightarrow> u8 \<Rightarrow> u8 \<Rightarrow> u8" where
  "constant_time_select_8 m a b = ucast (constant_time_select_w (ucast m) (ucast a) (ucast b))"

definition constant_time_select_int :: "crypto_word \<Rightarrow> u32 \<Rightarrow> u32 \<Rightarrow> u32" where
  "constant_time_select_int m a b = ucast (constant_time_select_w m (scast a) (scast b))"

section \<open>What the masks mean\<close>

definition CONSTTIME_TRUE_W :: crypto_word where "CONSTTIME_TRUE_W = NOT 0"
definition CONSTTIME_FALSE_W :: crypto_word where "CONSTTIME_FALSE_W = 0"
definition CONSTTIME_TRUE_8 :: u8 where "CONSTTIME_TRUE_8 = 0xff"
definition CONSTTIME_FALSE_8 :: u8 where "CONSTTIME_FALSE_8 = 0"

abbreviation mask_w :: "bool \<Rightarrow> crypto_word" where
  "mask_w P \<equiv> (if P then CONSTTIME_TRUE_W else CONSTTIME_FALSE_W)"

abbreviation mask_8 :: "bool \<Rightarrow> u8" where
  "mask_8 P \<equiv> (if P then CONSTTIME_TRUE_8 else CONSTTIME_FALSE_8)"

text \<open>The most significant bit, by value.\<close>

lemma bit_63_iff: "bit (w :: u64) 63 \<longleftrightarrow> 2 ^ 63 \<le> uint w"
proof -
  have "uint w < 2 ^ 64" using uint_lt2p [of w] by simp
  then have "uint w div 2 ^ 63 = (if 2 ^ 63 \<le> uint w then 1 else 0)"
    using div_pos_geq [of "2 ^ 63 :: int" "uint w"] by (auto simp: div_pos_geq)
  then have "bit (uint w) 63 \<longleftrightarrow> 2 ^ 63 \<le> uint w" by (simp add: bit_iff_odd)
  then show ?thesis by (simp add: bit_uint_iff)
qed

lemma msb_w [simp]: "constant_time_msb_w a = mask_w (bit a 63)"
proof -
  have "drop_bit 63 a = of_bool (bit a 63)"
  proof (rule bit_word_eqI)
    fix n
    show "bit (drop_bit 63 a) n = bit (of_bool (bit a 63) :: u64) n"
      using bit_imp_le_length [of a "63 + n"] by (cases "n = 0") (auto simp: bit_drop_bit_eq bit_of_bool_iff)
  qed
  then show ?thesis
    by (simp add: constant_time_msb_w_def CONSTTIME_TRUE_W_def CONSTTIME_FALSE_W_def)
qed

lemma uint_sub_u64:
  "uint (a - b :: u64) = (if uint b \<le> uint a then uint a - uint b else uint a - uint b + 2 ^ 64)"
  using uint_sub_if' [of a b] by simp

lemma lt_msb:
  "0 \<le> x \<Longrightarrow> x < 2 ^ 64 \<Longrightarrow> 0 \<le> y \<Longrightarrow> y < 2 ^ 64 \<Longrightarrow>
   z = (if y \<le> x then x - y else x - y + 2 ^ 64) \<Longrightarrow>
   ((2 ^ 63 \<le> x) \<noteq> (((2 ^ 63 \<le> x) \<noteq> (2 ^ 63 \<le> y)) \<or> ((2 ^ 63 \<le> z) \<noteq> (2 ^ 63 \<le> x)))) \<longleftrightarrow> x < (y :: int)"
  by simp presburger

lemma lt_w: "constant_time_lt_w a b = mask_w (a < b)"
proof -
  have "bit (a XOR ((a XOR b) OR ((a - b) XOR a))) 63 \<longleftrightarrow>
      (bit a 63 \<noteq> ((bit a 63 \<noteq> bit b 63) \<or> (bit (a - b) 63 \<noteq> bit a 63)))"
    by (simp add: bit_simps)
  also have "\<dots> \<longleftrightarrow> a < b"
    unfolding bit_63_iff word_less_alt
    by (rule lt_msb [OF _ _ _ _ uint_sub_u64]) (use uint_lt2p [of a] uint_lt2p [of b] in simp_all)
  finally have "bit (a XOR ((a XOR b) OR ((a - b) XOR a))) 63 \<longleftrightarrow> a < b" .
  then show ?thesis by (simp add: constant_time_lt_w_def)
qed

lemma is_zero_w: "constant_time_is_zero_w a = mask_w (a = 0)"
proof -
  have "bit (NOT a AND (a - 1)) 63 \<longleftrightarrow> a = 0"
  proof (cases "a = 0")
    case False
    then have "1 \<le> uint a" by (metis uint_0_iff uint_ge_0 zless_imp_add1_zle order_le_less add_0)
    then have "uint (a - 1) = uint a - 1" by (simp add: uint_sub_u64)
    moreover have "bit (NOT a AND (a - 1)) 63 \<longleftrightarrow> \<not> bit a 63 \<and> bit (a - 1) 63"
      by (simp add: bit_simps)
    ultimately show ?thesis using False by (auto simp: bit_63_iff)
  qed (simp add: bit_simps)
  then show ?thesis by (simp add: constant_time_is_zero_w_def)
qed

lemma ucast_minus_one: "ucast (- 1 :: u64) = (0xff :: u8)"
proof -
  have "(0xff :: u8) = - 1" by simp
  then show ?thesis
    by (intro bit_word_eqI) (simp only:, auto simp: bit_simps)
qed

lemma xor_eq_zero_iff: "a XOR b = 0 \<longleftrightarrow> a = (b :: 'a::len word)"
  by (metis xor.right_neutral xor.left_commute xor_self_eq)

lemma mask_casts [simp]:
  "ucast (mask_w P) = mask_8 P" "NOT (mask_w P) = mask_w (\<not> P)"
  by (simp_all add: CONSTTIME_TRUE_W_def CONSTTIME_FALSE_W_def CONSTTIME_TRUE_8_def CONSTTIME_FALSE_8_def
      ucast_minus_one)

lemma eq_w: "constant_time_eq_w a b = mask_w (a = b)"
  by (auto simp: constant_time_eq_w_def is_zero_w xor_eq_zero_iff)

lemma select_w [simp]: "constant_time_select_w (mask_w P) a b = (if P then a else b)"
  by (simp add: constant_time_select_w_def value_barrier_w_def CONSTTIME_TRUE_W_def CONSTTIME_FALSE_W_def)

lemma select_8 [simp]: "constant_time_select_8 (mask_8 P) a b = (if P then a else b)"
proof -
  have "bit (constant_time_select_8 (mask_8 P) a b) n = bit (if P then a else b) n" if "n < 8" for n
  proof -
    have "(0xff :: u8) = - 1" by simp
    then have "bit (0xff :: u8) n" using that by (simp only:, simp)
    with that show ?thesis
      by (simp add: constant_time_select_8_def constant_time_select_w_def value_barrier_w_def
          CONSTTIME_TRUE_8_def CONSTTIME_FALSE_8_def bit_simps)
  qed
  then show ?thesis by (intro bit_word_eqI) simp
qed
text \<open>The variants derived from these.\<close>

lemma consttime_8:
  "constant_time_lt_8 a b = mask_8 (a < b)" "constant_time_ge_8 a b = mask_8 (b \<le> a)"
  "constant_time_is_zero_8 a = mask_8 (a = 0)" "constant_time_eq_8 a b = mask_8 (a = b)"
  by (simp_all add: constant_time_lt_8_def constant_time_ge_8_def constant_time_ge_w_def lt_w is_zero_w eq_w
      constant_time_is_zero_8_def constant_time_eq_8_def not_less del: if_cancel split del: if_split)

lemma ge_w: "constant_time_ge_w a b = mask_w (b \<le> a)"
  by (simp add: constant_time_ge_w_def lt_w not_less split del: if_split)

lemma ucast_scast_int [simp]: "ucast (scast b :: u64) = (b :: u32)"
  by (rule bit_word_eqI) (auto simp: bit_simps)

lemma scast_int_iff: "scast a = (scast b :: u64) \<longleftrightarrow> a = (b :: u32)"
proof
  assume "scast a = (scast b :: u64)"
  then have "ucast (scast a :: u64) = (ucast (scast b :: u64) :: u32)" by simp
  then show "a = b" by simp
qed simp

lemma eq_int: "constant_time_eq_int a b = mask_w (a = b)" "constant_time_eq_int_8 a b = mask_8 (a = b)"
  by (simp_all add: constant_time_eq_int_def constant_time_eq_int_8_def eq_w consttime_8 scast_int_iff)

lemma select_int [simp]: "constant_time_select_int (mask_w P) a b = (if P then a else b)"
  by (simp add: constant_time_select_int_def)


section \<open>The properties\<close>

text \<open>
  Every constant-time comparison is the comparison it names, as a mask of all ones or all
  zeros, and a selection by such a mask picks its second or third argument; words, bytes and
  \<open>int\<close>s alike.\<close>

theorem constant_time_comparisons:
  "constant_time_lt_w a b = mask_w (a < b) \<and> constant_time_ge_w a b = mask_w (b \<le> a) \<and>
   constant_time_eq_w a b = mask_w (a = b) \<and> constant_time_is_zero_w a = mask_w (a = 0) \<and>
   constant_time_lt_8 a b = mask_8 (a < b) \<and> constant_time_ge_8 a b = mask_8 (b \<le> a) \<and>
   constant_time_eq_8 a b = mask_8 (a = b) \<and> constant_time_is_zero_8 a = mask_8 (a = 0) \<and>
   constant_time_eq_int i j = mask_w (i = j) \<and> constant_time_eq_int_8 i j = mask_8 (i = j) \<and>
   constant_time_select_w (constant_time_lt_w a b) c d = (if a < b then c else d) \<and>
   constant_time_select_8 (constant_time_eq_8 a b) x y = (if a = b then x else y) \<and>
   constant_time_select_int (constant_time_ge_w a b) i j = (if b \<le> a then i else j)"
  by (simp only: lt_w ge_w eq_w is_zero_w consttime_8 eq_int select_w select_8 select_int simp_thms)

end
