(* ===== verification/Base64.thy ===== *)
theory Base64
  imports Consttime
begin

text \<open>
  \<open>crypto/base64/base64.c\<close>: encoding and decoding, in one piece and streamed through an
  \<open>EVP_ENCODE_CTX\<close>.  What a function writes through its pointer \<open>out\<close> is a list in the
  result; the NUL that the encoder puts after its last write is part of it only where
  stated.
\<close>

section \<open>The code\<close>

definition constant_time_lt_args_8 :: "u8 \<Rightarrow> u8 \<Rightarrow> u8" where
  "constant_time_lt_args_8 a b =
     (let aw = ucast a :: crypto_word; bw = ucast b in ucast (constant_time_msb_w (aw - bw)))"

definition constant_time_in_range_8 :: "u8 \<Rightarrow> u8 \<Rightarrow> u8 \<Rightarrow> u8" where
  "constant_time_in_range_8 a lo hi = constant_time_lt_args_8 (a - lo) (hi - lo + 1)"

definition conv_bin2ascii :: "u8 \<Rightarrow> u8" where
  "conv_bin2ascii a =
     (let a = a AND 0x3f;
          ret = constant_time_select_8 (constant_time_eq_8 (ucast a) 62) 43 47;
          ret = constant_time_select_8 (constant_time_lt_args_8 a 62) (a - 52 + 48) ret;
          ret = constant_time_select_8 (constant_time_lt_args_8 a 52) (a - 26 + 97) ret
      in constant_time_select_8 (constant_time_lt_args_8 a 26) (a + 65) ret)"

definition EVP_EncodedLength :: "size_t \<Rightarrow> size_t option" where
  "EVP_EncodedLength len =
     (if size_add len 2 < len then None
      else let len = size_add len 2 div 3
           in if size_mul len 4 div 4 \<noteq> len then None
              else let len = size_mul len 4
                   in if size_add len 1 < len then None else Some (size_add len 1))"

text \<open>The loop of \<open>EVP_EncodeBlock\<close>; the results are what is written and the count.\<close>

fun encode_block_loop :: "u8 list \<Rightarrow> size_t \<Rightarrow> u8 list \<times> size_t" where
  "encode_block_loop [] ret = ([], ret)"
| "encode_block_loop (a # b # c # src) ret =
     (let l = push_bit 16 (ucast a) OR push_bit 8 (ucast b) OR ucast c :: u32;
          (dst, ret) = encode_block_loop src (size_add ret 4)
      in (conv_bin2ascii (ucast (drop_bit 18 l)) # conv_bin2ascii (ucast (drop_bit 12 l)) #
          conv_bin2ascii (ucast (drop_bit 6 l)) # conv_bin2ascii (ucast l) # dst, ret))"
| "encode_block_loop [a] ret =
     (let l = push_bit 16 (ucast a) :: u32
      in ([conv_bin2ascii (ucast (drop_bit 18 l)), conv_bin2ascii (ucast (drop_bit 12 l)), 61, 61],
          size_add ret 4))"
| "encode_block_loop [a, b] ret =
     (let l = push_bit 16 (ucast a) OR push_bit 8 (ucast b) :: u32
      in ([conv_bin2ascii (ucast (drop_bit 18 l)), conv_bin2ascii (ucast (drop_bit 12 l)),
           conv_bin2ascii (ucast (drop_bit 6 l)), 61], size_add ret 4))"

text \<open>The first result includes the final NUL, the second does not count it.\<close>

definition EVP_EncodeBlock :: "u8 list \<Rightarrow> u8 list \<times> size_t" where
  "EVP_EncodeBlock src = (case encode_block_loop src 0 of (dst, ret) \<Rightarrow> (dst @ [0], ret))"

record EVP_ENCODE_CTX =
  data_used :: nat
  ctx_data :: "u8 list"
  eof_seen :: bool
  error_encountered :: bool

definition sizeof_data :: nat where "sizeof_data = 48"

definition EVP_EncodeInit :: EVP_ENCODE_CTX where
  "EVP_EncodeInit = \<lparr>data_used = 0, ctx_data = replicate sizeof_data 0, eof_seen = False, error_encountered = False\<rparr>"

text \<open>
  The loop over whole lines of input: what is written so far grows by the encoding and a
  newline.  \<open>Inl\<close> is the early return on overflow of the count.
\<close>

function encode_lines_loop :: "u8 list \<Rightarrow> size_t \<Rightarrow> u8 list \<Rightarrow> u8 list + (u8 list \<times> size_t \<times> u8 list)" where
  "encode_lines_loop out tot xs =
     (if length xs \<ge> sizeof_data then
        (case EVP_EncodeBlock (take sizeof_data xs) of (dst, encoded) \<Rightarrow>
           let out = out @ take encoded dst @ [10]
           in if size_add (size_add tot encoded) 1 < tot then Inl out
              else encode_lines_loop out (size_add (size_add tot encoded) 1) (drop sizeof_data xs))
      else Inr (out, tot, xs))"
  by pat_completeness auto
termination
  by (relation "measure (\<lambda>(_, _, xs). length xs)") (auto simp: sizeof_data_def)

declare encode_lines_loop.simps [simp del]

text \<open>The results are the context, what is written (a NUL follows it) and \<open>*out_len\<close>.\<close>

definition EVP_EncodeUpdate :: "EVP_ENCODE_CTX \<Rightarrow> u8 list \<Rightarrow> EVP_ENCODE_CTX \<times> u8 list \<times> nat" where
  "EVP_EncodeUpdate ctx xs =
     (if length xs = 0 then (ctx, [], 0)
      else if sizeof_data - data_used ctx > length xs then
        (ctx\<lparr>ctx_data := blit (ctx_data ctx) (data_used ctx) xs, data_used := data_used ctx + length xs\<rparr>, [], 0)
      else
        let (ctx, out, tot, xs) =
              (if data_used ctx \<noteq> 0 then
                 let todo = sizeof_data - data_used ctx;
                     data = blit (ctx_data ctx) (data_used ctx) (take todo xs);
                     (dst, encoded) = EVP_EncodeBlock data
                 in (ctx\<lparr>ctx_data := data, data_used := 0\<rparr>, take encoded dst @ [10], size_add encoded 1, drop todo xs)
               else (ctx, [], 0, xs))
        in case encode_lines_loop out tot xs of
             Inl out \<Rightarrow> (ctx, out, 0)
           | Inr (out, tot, xs) \<Rightarrow>
               let ctx = (if length xs \<noteq> 0 then ctx\<lparr>ctx_data := blit (ctx_data ctx) 0 xs\<rparr> else ctx)
               in (ctx\<lparr>data_used := length xs\<rparr>, out, if tot > int_max then 0 else tot))"

text \<open>Here what is written includes the NUL; \<open>*out_len\<close> does not count it.\<close>

definition EVP_EncodeFinal :: "EVP_ENCODE_CTX \<Rightarrow> EVP_ENCODE_CTX \<times> u8 list \<times> nat" where
  "EVP_EncodeFinal ctx =
     (if data_used ctx = 0 then (ctx, [], 0)
      else case EVP_EncodeBlock (take (data_used ctx) (ctx_data ctx)) of (dst, encoded) \<Rightarrow>
        (ctx\<lparr>data_used := 0\<rparr>, take encoded dst @ [10, 0], size_add encoded 1))"

definition EVP_DecodedLength :: "size_t \<Rightarrow> size_t option" where
  "EVP_DecodedLength len = (if len mod 4 \<noteq> 0 then None else Some (len div 4 * 3))"

definition EVP_DecodeInit :: EVP_ENCODE_CTX where
  "EVP_DecodeInit = \<lparr>data_used = 0, ctx_data = replicate sizeof_data 0, eof_seen = False, error_encountered = False\<rparr>"

definition base64_ascii_to_bin :: "u8 \<Rightarrow> u8" where
  "base64_ascii_to_bin a =
     (let is_upper = constant_time_in_range_8 a 65 90;
          is_lower = constant_time_in_range_8 a 97 122;
          is_digit = constant_time_in_range_8 a 48 57;
          is_plus = constant_time_eq_8 (ucast a) 43;
          is_slash = constant_time_eq_8 (ucast a) 47;
          is_equals = constant_time_eq_8 (ucast a) 61;
          ret = 0xff;
          ret = constant_time_select_8 is_upper (a - 65) ret;
          ret = constant_time_select_8 is_lower (a - 97 + 26) ret;
          ret = constant_time_select_8 is_digit (a - 48 + 52) ret;
          ret = constant_time_select_8 is_plus 62 ret;
          ret = constant_time_select_8 is_slash 63 ret
      in constant_time_select_8 is_equals 0 ret)"

definition base64_decode_quad :: "u8 \<Rightarrow> u8 \<Rightarrow> u8 \<Rightarrow> u8 \<Rightarrow> u8 list option" where
  "base64_decode_quad in0 in1 in2 in3 =
     (let a = base64_ascii_to_bin in0; b = base64_ascii_to_bin in1;
          c = base64_ascii_to_bin in2; d = base64_ascii_to_bin in3
      in if a = 0xff \<or> b = 0xff \<or> c = 0xff \<or> d = 0xff then None
         else
           let v = push_bit 18 (ucast a) OR push_bit 12 (ucast b) OR push_bit 6 (ucast c) OR ucast d :: u32;
               padding_pattern =
                 push_bit 3 (of_bool (in0 = 61)) OR push_bit 2 (of_bool (in1 = 61)) OR
                 push_bit 1 (of_bool (in2 = 61)) OR of_bool (in3 = 61) :: nat
           in if padding_pattern = 0 then Some [ucast (drop_bit 16 v), ucast (drop_bit 8 v), ucast v]
              else if padding_pattern = 1 then Some [ucast (drop_bit 16 v), ucast (drop_bit 8 v)]
              else if padding_pattern = 3 then Some [ucast (drop_bit 16 v)]
              else None)"

text \<open>
  The loop of \<open>EVP_DecodeUpdate\<close>; the first result tells whether it ran to the end of the
  input, the last two are what is written and \<open>bytes_out\<close>.
\<close>

fun decode_update_loop :: "EVP_ENCODE_CTX \<Rightarrow> u8 list \<Rightarrow> size_t \<Rightarrow> u8 list \<Rightarrow> bool \<times> EVP_ENCODE_CTX \<times> u8 list \<times> size_t" where
  "decode_update_loop ctx out bytes_out [] = (True, ctx, out, bytes_out)"
| "decode_update_loop ctx out bytes_out (c # xs) =
     (if c \<in> {32, 9, 13, 10} then decode_update_loop ctx out bytes_out xs
      else if eof_seen ctx then (False, ctx\<lparr>error_encountered := True\<rparr>, out, bytes_out)
      else
        let ctx = ctx\<lparr>ctx_data := (ctx_data ctx)[data_used ctx := c], data_used := data_used ctx + 1\<rparr>
        in if data_used ctx = 4 then
             (case base64_decode_quad (ctx_data ctx ! 0) (ctx_data ctx ! 1) (ctx_data ctx ! 2) (ctx_data ctx ! 3) of
                None \<Rightarrow> (False, ctx\<lparr>error_encountered := True\<rparr>, out, bytes_out)
              | Some bytes \<Rightarrow>
                  let ctx = ctx\<lparr>data_used := 0\<rparr>;
                      ctx = (if length bytes < 3 then ctx\<lparr>eof_seen := True\<rparr> else ctx)
                  in decode_update_loop ctx (out @ bytes) (size_add bytes_out (length bytes)) xs)
           else decode_update_loop ctx out bytes_out xs)"

text \<open>The results are the return value, the context, what is written and \<open>*out_len\<close>.\<close>

definition EVP_DecodeUpdate :: "EVP_ENCODE_CTX \<Rightarrow> u8 list \<Rightarrow> int \<times> EVP_ENCODE_CTX \<times> u8 list \<times> nat" where
  "EVP_DecodeUpdate ctx xs =
     (if error_encountered ctx then (- 1, ctx, [], 0)
      else case decode_update_loop ctx [] 0 xs of (ok, ctx, out, bytes_out) \<Rightarrow>
        if \<not> ok then (- 1, ctx, out, 0)
        else if bytes_out > int_max then (- 1, ctx\<lparr>error_encountered := True\<rparr>, out, 0)
        else if eof_seen ctx then (0, ctx, out, bytes_out)
        else (1, ctx, out, bytes_out))"

definition EVP_DecodeFinal :: "EVP_ENCODE_CTX \<Rightarrow> int" where
  "EVP_DecodeFinal ctx = (if error_encountered ctx \<or> data_used ctx \<noteq> 0 then - 1 else 1)"

fun decode_base64_loop :: "u8 list \<Rightarrow> u8 list option" where
  "decode_base64_loop (a # b # c # d # xs) =
     (case base64_decode_quad a b c d of
        None \<Rightarrow> None
      | Some bytes \<Rightarrow>
          if length bytes \<noteq> 3 \<and> xs \<noteq> [] then None else map_option ((@) bytes) (decode_base64_loop xs))"
| "decode_base64_loop _ = Some []"

definition EVP_DecodeBase64 :: "size_t \<Rightarrow> u8 list \<Rightarrow> u8 list option" where
  "EVP_DecodeBase64 max_out xs =
     (if length xs mod 4 \<noteq> 0 then None
      else case EVP_DecodedLength (length xs) of
        None \<Rightarrow> None
      | Some max_len \<Rightarrow> if max_out < max_len then None else decode_base64_loop xs)"

definition trim_line :: "u8 list \<Rightarrow> u8 list" where
  "trim_line src =
     rev (dropWhile (\<lambda>c. c \<in> {32, 9, 13, 10}) (rev (dropWhile (\<lambda>c. c = 32 \<or> c = 9) src)))"

definition EVP_DecodeBlock :: "u8 list \<Rightarrow> u8 list option" where
  "EVP_DecodeBlock src =
     (let src = trim_line src
      in case EVP_DecodedLength (length src) of
           None \<Rightarrow> None
         | Some dst_len \<Rightarrow>
             if dst_len > int_max then None
             else (case EVP_DecodeBase64 dst_len src of
                     None \<Rightarrow> None
                   | Some dst \<Rightarrow> Some (dst @ replicate ((3 - length dst mod 3) mod 3) 0)))"

section \<open>The alphabet\<close>

text \<open>Differences of byte values, wrapped at 64 and at 8 bits.\<close>

lemma wrapped_64: "0 \<le> x \<Longrightarrow> x < 256 \<Longrightarrow> 0 \<le> y \<Longrightarrow> y < 256 \<Longrightarrow>
    2 ^ 63 \<le> (if y \<le> x then x - y else x - y + 2 ^ 64) \<longleftrightarrow> x < (y :: int)"
  by auto

lemma wrapped_8: "0 \<le> x \<Longrightarrow> x < 256 \<Longrightarrow> 0 \<le> l \<Longrightarrow> l \<le> h \<Longrightarrow> h - l < 255 \<Longrightarrow> h < 256 \<Longrightarrow>
    (if l \<le> x then x - l else x - l + 2 ^ 8) < h - l + 1 \<longleftrightarrow> l \<le> x \<and> x \<le> (h :: int)"
  by auto

lemma uint_u8: "0 \<le> uint (a :: u8)" "uint (a :: u8) < 256"
  using uint_lt2p [of a] by simp_all

lemma lt_args_8: "constant_time_lt_args_8 a b = mask_8 (a < b)"
proof -
  have u: "uint (ucast a :: u64) = uint a" "uint (ucast b :: u64) = uint b"
    by (simp_all add: uint_up_ucast is_up)
  have "bit (ucast a - ucast b :: u64) 63 \<longleftrightarrow> a < b"
    unfolding bit_63_iff uint_sub_u64 u word_less_alt by (rule wrapped_64) (simp_all add: uint_u8)
  then show ?thesis by (simp add: constant_time_lt_args_8_def)
qed

lemma ucast_8_eq_iff: "ucast (a :: u8) = (ucast b :: u64) \<longleftrightarrow> a = b"
proof
  assume "ucast a = (ucast b :: u64)"
  then have "uint (ucast a :: u64) = uint (ucast b :: u64)" by simp
  then have "uint a = uint b" by (simp add: uint_up_ucast is_up)
  then show "a = b" by (simp only: word_uint_eq_iff)
qed simp

text \<open>The index of a character, and the character of an index, without masks.\<close>

lemma in_range_8:
  assumes "lo \<le> hi" "hi - lo < 255"
  shows "constant_time_in_range_8 a lo hi = mask_8 (lo \<le> a \<and> a \<le> hi)"
proof -
  have "a - lo < hi - lo + 1 \<longleftrightarrow> lo \<le> a \<and> a \<le> hi"
  proof -
    have le: "uint lo \<le> uint hi" using assms(1) by (simp add: word_le_def)
    have "uint (hi - lo) = uint hi - uint lo" using le by (simp add: uint_sub_if')
    moreover from this assms(2) have lt: "uint hi - uint lo < 255" by (simp add: word_less_alt)
    ultimately have "uint (hi - lo + 1) = uint hi - uint lo + 1" by (simp add: uint_plus_if')
    moreover have "uint (a - lo) = (if uint lo \<le> uint a then uint a - uint lo else uint a - uint lo + 2 ^ 8)"
      by (simp add: uint_sub_if')
    ultimately show ?thesis
      using wrapped_8 [OF uint_u8 [of a] uint_u8(1) [of lo] le lt uint_u8(2)]
      by (simp add: word_less_alt word_le_def)
  qed
  then show ?thesis by (simp add: constant_time_in_range_8_def lt_args_8)
qed

lemma conv_bin2ascii_eq:
  "conv_bin2ascii a =
     (let a = a AND 0x3f
      in if a < 26 then a + 65 else if a < 52 then a - 26 + 97 else if a < 62 then a - 52 + 48
         else if a = 62 then 43 else 47)"
  using ucast_8_eq_iff [of "a AND 0x3f" 62]
  by (simp add: conv_bin2ascii_def Let_def lt_args_8 consttime_8)

lemma base64_ascii_to_bin_eq:
  "base64_ascii_to_bin a =
     (if a = 61 then 0 else if a = 47 then 63 else if a = 43 then 62
      else if 48 \<le> a \<and> a \<le> 57 then a - 48 + 52 else if 97 \<le> a \<and> a \<le> 122 then a - 97 + 26
      else if 65 \<le> a \<and> a \<le> 90 then a - 65 else 0xff)"
  using ucast_8_eq_iff [of a 61] ucast_8_eq_iff [of a 47] ucast_8_eq_iff [of a 43]
  by (simp add: base64_ascii_to_bin_def Let_def in_range_8 consttime_8)

lemma conv_table:
  "list_all (\<lambda>n. base64_ascii_to_bin (conv_bin2ascii (word_of_nat n)) = word_of_nat n \<and>
     conv_bin2ascii (word_of_nat n) \<notin> {61, 32, 9, 13, 10}) [0..<64]"
  unfolding conv_bin2ascii_eq base64_ascii_to_bin_eq by code_simp

lemma conv_bin2ascii_inverse:
  "base64_ascii_to_bin (conv_bin2ascii a) = a AND 0x3f"
  "conv_bin2ascii a \<noteq> 61" "conv_bin2ascii a \<notin> {32, 9, 13, 10}"
proof -
  define w where "w = a AND 0x3f"
  have "w = take_bit 6 a" by (simp add: w_def take_bit_eq_mask mask_eq_exp_minus_1)
  then have "unat w = take_bit 6 (unat a)" by (simp only: unsigned_take_bit_eq)
  then have "unat w < 64" using take_bit_nat_less_exp [of 6 "unat a"] by simp
  then have "unat w \<in> set [0..<64]" by simp
  moreover have "word_of_nat (unat w) = w" by simp
  ultimately have "base64_ascii_to_bin (conv_bin2ascii w) = w \<and> conv_bin2ascii w \<notin> {61, 32, 9, 13, 10}"
    using conv_table unfolding list_all_iff by metis
  moreover have "conv_bin2ascii w = conv_bin2ascii a"
    by (simp add: conv_bin2ascii_eq w_def and.assoc)
  ultimately show "base64_ascii_to_bin (conv_bin2ascii a) = a AND 0x3f"
    "conv_bin2ascii a \<noteq> 61" "conv_bin2ascii a \<notin> {32, 9, 13, 10}"
    by (auto simp: w_def)
qed

lemma sextet_not_ff: "a AND 0x3f \<noteq> (0xff :: u8)"
proof
  assume "a AND 0x3f = (0xff :: u8)"
  then have "bit (a AND 0x3f) 7 = bit (0xff :: u8) 7" by simp
  then show False by (simp add: bit_simps)
qed

lemma bit_sextet_mask: "bit (63 :: int) k \<longleftrightarrow> k < 6"
  using bit_mask_iff [of 6 k, where 'a = int] by (simp add: mask_eq_exp_minus_1)

lemma sextets:
  assumes "\<And>n. 24 \<le> n \<Longrightarrow> \<not> bit (l :: u32) n"
  shows "push_bit 18 (ucast (ucast (drop_bit 18 l) AND 0x3f :: u8)) OR
    push_bit 12 (ucast (ucast (drop_bit 12 l) AND 0x3f :: u8)) OR
    push_bit 6 (ucast (ucast (drop_bit 6 l) AND 0x3f :: u8)) OR ucast (ucast l AND 0x3f :: u8) = l" (is "?v = l")
proof (rule bit_word_eqI)
  fix n assume "n < LENGTH(32)"
  consider "n < 6" | "6 \<le> n \<and> n < 12" | "12 \<le> n \<and> n < 18" | "18 \<le> n \<and> n < 24" | "24 \<le> n" by linarith
  then show "bit ?v n = bit l n"
    using \<open>n < LENGTH(32)\<close> assms [of n]
    by cases (auto simp: bit_simps bit_sextet_mask)
qed

section \<open>One quad\<close>

definition triple :: "u8 \<Rightarrow> u8 \<Rightarrow> u8 \<Rightarrow> u32" where
  "triple a b c = push_bit 16 (ucast a) OR push_bit 8 (ucast b) OR ucast c"

lemma triple_bytes:
  "ucast (drop_bit 16 (triple a b c)) = a" "ucast (drop_bit 8 (triple a b c)) = b" "ucast (triple a b c) = c"
  by (rule bit_word_eqI; auto simp: triple_def bit_simps dest: bit_imp_le_length)+

lemma triple_high: "24 \<le> n \<Longrightarrow> \<not> bit (triple a b c) n"
  by (auto simp: triple_def bit_simps dest: bit_imp_le_length)

lemma triple_sextets:
  "push_bit 18 (ucast (ucast (drop_bit 18 (triple a b c)) AND 0x3f :: u8)) OR
    push_bit 12 (ucast (ucast (drop_bit 12 (triple a b c)) AND 0x3f :: u8)) OR
    push_bit 6 (ucast (ucast (drop_bit 6 (triple a b c)) AND 0x3f :: u8)) OR
    ucast (ucast (triple a b c) AND 0x3f :: u8) = triple a b c"
  by (rule sextets) (rule triple_high)

lemma triple_no_c: "ucast (triple a b 0) AND 0x3f = (0 :: u8)"
  by (simp add: triple_bytes)

lemma triple_no_bc: "ucast (drop_bit 6 (triple a 0 0)) AND 0x3f = (0 :: u8)"
  by (rule bit_word_eqI) (auto simp: triple_def bit_simps bit_sextet_mask)

lemma ascii_equals: "base64_ascii_to_bin 61 = 0"
  by (simp add: base64_ascii_to_bin_eq)

lemma decode_quad:
  assumes x: "base64_ascii_to_bin i0 = x0" "base64_ascii_to_bin i1 = x1"
      "base64_ascii_to_bin i2 = x2" "base64_ascii_to_bin i3 = x3"
    and valid: "x0 \<noteq> 0xff" "x1 \<noteq> 0xff" "x2 \<noteq> 0xff" "x3 \<noteq> 0xff"
    and v: "push_bit 18 (ucast x0) OR push_bit 12 (ucast x1) OR push_bit 6 (ucast x2) OR ucast x3 = triple a b c"
    and pad: "i0 \<noteq> 61" "i1 \<noteq> 61"
  shows "i2 \<noteq> 61 \<Longrightarrow> i3 \<noteq> 61 \<Longrightarrow> base64_decode_quad i0 i1 i2 i3 = Some [a, b, c]"
    and "i2 \<noteq> 61 \<Longrightarrow> i3 = 61 \<Longrightarrow> base64_decode_quad i0 i1 i2 i3 = Some [a, b]"
    and "i2 = 61 \<Longrightarrow> i3 = 61 \<Longrightarrow> base64_decode_quad i0 i1 i2 i3 = Some [a]"
  unfolding base64_decode_quad_def Let_def x v using valid pad by (simp_all add: triple_bytes)

lemma decode_quad_3:
  "base64_decode_quad (conv_bin2ascii (ucast (drop_bit 18 (triple a b c))))
     (conv_bin2ascii (ucast (drop_bit 12 (triple a b c)))) (conv_bin2ascii (ucast (drop_bit 6 (triple a b c))))
     (conv_bin2ascii (ucast (triple a b c))) = Some [a, b, c]"
  by (rule decode_quad(1) [OF conv_bin2ascii_inverse(1) conv_bin2ascii_inverse(1)
        conv_bin2ascii_inverse(1) conv_bin2ascii_inverse(1)
        sextet_not_ff sextet_not_ff sextet_not_ff sextet_not_ff triple_sextets])
    (rule conv_bin2ascii_inverse)+

lemma decode_quad_2:
  "base64_decode_quad (conv_bin2ascii (ucast (drop_bit 18 (triple a b 0))))
     (conv_bin2ascii (ucast (drop_bit 12 (triple a b 0)))) (conv_bin2ascii (ucast (drop_bit 6 (triple a b 0)))) 61 =
   Some [a, b]"
  by (rule decode_quad(2) [OF conv_bin2ascii_inverse(1) conv_bin2ascii_inverse(1)
        conv_bin2ascii_inverse(1) ascii_equals sextet_not_ff sextet_not_ff sextet_not_ff _
        triple_sextets [of a b 0, unfolded triple_no_c]])
    (rule conv_bin2ascii_inverse refl | simp)+

lemma decode_quad_1:
  "base64_decode_quad (conv_bin2ascii (ucast (drop_bit 18 (triple a 0 0))))
     (conv_bin2ascii (ucast (drop_bit 12 (triple a 0 0)))) 61 61 = Some [a]"
  by (rule decode_quad(3) [OF conv_bin2ascii_inverse(1) conv_bin2ascii_inverse(1)
        ascii_equals ascii_equals sextet_not_ff sextet_not_ff _ _
        triple_sextets [of a 0 0, unfolded triple_no_c triple_no_bc]])
    (rule conv_bin2ascii_inverse refl | simp)+

section \<open>Whole blocks\<close>

lemma groups_Suc: "(5 + n) div 3 = Suc (Suc (Suc n) div 3)" for n :: nat
  by presburger

definition b64 :: "u8 list \<Rightarrow> u8 list" where
  "b64 xs = fst (encode_block_loop xs 0)"

lemma encode_block_loop_eq:
  "encode_block_loop xs ret = (b64 xs, (ret + 4 * ((length xs + 2) div 3)) mod 2 ^ 64)" if "ret < 2 ^ 64"
proof -
  have "fst (encode_block_loop xs ret) = fst (encode_block_loop xs ret') \<and>
      (ret < 2 ^ 64 \<longrightarrow> snd (encode_block_loop xs ret) = (ret + 4 * ((length xs + 2) div 3)) mod 2 ^ 64)" for ret ret'
  proof (induction xs ret arbitrary: ret' rule: encode_block_loop.induct)
    case (2 a b c src ret)
    note IH = "2.IH" [OF refl]
    have "snd (encode_block_loop src (size_add ret 4)) = (size_add ret 4 + 4 * ((length src + 2) div 3)) mod 2 ^ 64"
      using IH [of 0] by (simp add: size_add_def)
    also have "\<dots> = (ret + 4 * ((length (a # b # c # src) + 2) div 3)) mod 2 ^ 64"
      unfolding size_add_def mod_add_left_eq by (simp add: add.assoc groups_Suc)
    finally show ?case
      using IH [of "size_add ret' 4"] by (auto simp: Let_def split: prod.splits)
  qed (simp_all add: size_add_def Let_def)
  then show ?thesis using that unfolding b64_def by (metis prod.collapse)
qed

lemma b64_simps [simp]:
  "b64 [] = []"
  "b64 (a # b # c # xs) =
    conv_bin2ascii (ucast (drop_bit 18 (triple a b c))) # conv_bin2ascii (ucast (drop_bit 12 (triple a b c))) #
    conv_bin2ascii (ucast (drop_bit 6 (triple a b c))) # conv_bin2ascii (ucast (triple a b c)) # b64 xs"
  "b64 [a] = [conv_bin2ascii (ucast (drop_bit 18 (triple a 0 0))),
    conv_bin2ascii (ucast (drop_bit 12 (triple a 0 0))), 61, 61]"
  "b64 [a, b] = [conv_bin2ascii (ucast (drop_bit 18 (triple a b 0))),
    conv_bin2ascii (ucast (drop_bit 12 (triple a b 0))), conv_bin2ascii (ucast (drop_bit 6 (triple a b 0))), 61]"
  using encode_block_loop_eq [of "size_add 0 4" xs]
  by (auto simp: b64_def Let_def triple_def size_add_def split: prod.splits)

lemma length_b64: "length (b64 xs) = 4 * ((length xs + 2) div 3)"
proof -
  have "length (b64 xs) = 4 * ((length xs + 2) div 3)" for ret :: nat
    by (induction xs ret rule: encode_block_loop.induct) (simp_all add: groups_Suc)
  then show ?thesis .
qed

lemma decode_b64 [simp]: "decode_base64_loop (b64 xs) = Some xs"
proof -
  have "decode_base64_loop (b64 xs) = Some xs" for ret :: nat
    by (induction xs ret rule: encode_block_loop.induct)
       (simp_all add: decode_quad_1 decode_quad_2 decode_quad_3)
  then show ?thesis .
qed

lemma encode_block_eq:
  "EVP_EncodeBlock xs = (b64 xs @ [0], (4 * ((length xs + 2) div 3)) mod 2 ^ 64)"
  by (simp add: EVP_EncodeBlock_def encode_block_loop_eq)

lemma take_encoded:
  assumes "length xs < 2 ^ 63"
  shows "take (snd (EVP_EncodeBlock xs)) (fst (EVP_EncodeBlock xs)) = b64 xs"
    and "snd (EVP_EncodeBlock xs) = length (b64 xs)"
proof -
  have "4 * ((length xs + 2) div 3) < 2 ^ 64" using assms by simp
  then show "snd (EVP_EncodeBlock xs) = length (b64 xs)" by (simp add: encode_block_eq length_b64)
  then show "take (snd (EVP_EncodeBlock xs)) (fst (EVP_EncodeBlock xs)) = b64 xs" by (simp add: encode_block_eq)
qed

lemma decode_encode_block:
  assumes "length xs < 2 ^ 63" "3 * ((length xs + 2) div 3) \<le> max_out"
  shows "EVP_DecodeBase64 max_out (take (snd (EVP_EncodeBlock xs)) (fst (EVP_EncodeBlock xs))) = Some xs"
  using assms unfolding take_encoded(1) [OF assms(1)]
  by (simp add: EVP_DecodeBase64_def EVP_DecodedLength_def length_b64)

text \<open>The length that \<open>EVP_EncodedLength\<close> promises is what \<open>EVP_EncodeBlock\<close> writes.\<close>

lemma encoded_length:
  assumes "len < 2 ^ 64"
  shows "EVP_EncodedLength len =
    (if 4 * ((len + 2) div 3) + 1 < 2 ^ 64 then Some (4 * ((len + 2) div 3) + 1) else None)"
proof (cases "len + 2 < 2 ^ 64")
  case True
  define n where "n = (len + 2) div 3"
  have n: "4 * n < 2 * 2 ^ 64" using True by (simp add: n_def)
  have len: "size_add len 2 = len + 2" using True by (rule size_add_exact)
  have eq: "EVP_EncodedLength len = (if size_mul n 4 div 4 \<noteq> n then None
      else if size_add (size_mul n 4) 1 < size_mul n 4 then None else Some (size_add (size_mul n 4) 1))"
    unfolding EVP_EncodedLength_def len n_def Let_def by simp
  show ?thesis
  proof (cases "4 * n + 1 < 2 ^ 64")
    case fits: True
    then have "size_mul n 4 = 4 * n" "size_add (4 * n) 1 = 4 * n + 1"
      by (simp_all add: size_mul_exact size_add_exact mult.commute)
    with fits show ?thesis unfolding eq n_def [symmetric] by simp
  next
    case False
    have "odd (4 * n + 1)" "even (2 ^ 64 :: nat)" by simp_all
    then have "4 * n + 1 \<noteq> 2 ^ 64" by metis
    with False have ge: "2 ^ 64 \<le> 4 * n" by linarith
    then have "size_mul n 4 = 4 * n - 2 ^ 64"
      using n by (simp add: size_mul_def mult.commute le_mod_geq)
    then have "size_mul n 4 div 4 \<noteq> n" using ge by simp
    with False show ?thesis unfolding eq n_def [symmetric] by simp
  qed
next
  case False
  then have "size_add len 2 < len" using size_add_less_iff [OF assms, of 2] by simp
  then show ?thesis using False by (simp add: EVP_EncodedLength_def)
qed

lemma encoded_length_written:
  "EVP_EncodedLength (length xs) = Some n \<Longrightarrow> length xs < 2 ^ 64 \<Longrightarrow> length (fst (EVP_EncodeBlock xs)) = n"
  by (auto simp: encoded_length encode_block_eq length_b64 split: if_splits)

section \<open>Streaming\<close>

text \<open>Whole lines of 48 bytes, and what is left of the last one.\<close>

function full_lines :: "u8 list \<Rightarrow> u8 list" where
  "full_lines ys = (if sizeof_data \<le> length ys
     then b64 (take sizeof_data ys) @ [10] @ full_lines (drop sizeof_data ys) else [])"
  by pat_completeness auto
termination
  by (relation "measure length") (auto simp: sizeof_data_def)

declare full_lines.simps [simp del]

definition last_line :: "u8 list \<Rightarrow> u8 list" where
  "last_line ys = drop (sizeof_data * (length ys div sizeof_data)) ys"

lemma full_lines_short [simp]: "length ys < sizeof_data \<Longrightarrow> full_lines ys = []"
  by (simp add: full_lines.simps)

lemma last_line_short [simp]: "length ys < sizeof_data \<Longrightarrow> last_line ys = ys"
  by (simp add: last_line_def)

lemma full_lines_step: "length ys = sizeof_data \<Longrightarrow> full_lines (ys @ zs) = b64 ys @ [10] @ full_lines zs"
  by (simp add: full_lines.simps [of "ys @ zs"])

lemma last_line_step: "length ys = sizeof_data \<Longrightarrow> last_line (ys @ zs) = last_line zs"
proof -
  have "(48 + length zs) div 48 = Suc (length zs div 48)" by (simp add: le_div_geq)
  then show "length ys = sizeof_data \<Longrightarrow> ?thesis" by (simp add: last_line_def sizeof_data_def)
qed

lemma length_last_line [simp]: "length (last_line ys) < sizeof_data"
  using mod_less_divisor [of 48 "length ys"]
  by (simp add: last_line_def sizeof_data_def minus_mult_div_eq_mod del: mod_less_divisor)

lemma lines_append:
  "full_lines (ys @ zs) = full_lines ys @ full_lines (last_line ys @ zs) \<and>
   last_line (ys @ zs) = last_line (last_line ys @ zs)"
proof (induction ys rule: full_lines.induct)
  case (1 ys)
  show ?case
  proof (cases "sizeof_data \<le> length ys")
    case True
    have "ys = take sizeof_data ys @ drop sizeof_data ys" by simp
    moreover have l: "length (take sizeof_data ys) = sizeof_data" using True by simp
    ultimately show ?thesis
      using 1 [OF True] full_lines_step [OF l] last_line_step [OF l] by (metis append_assoc)
  qed simp
qed

lemma length_full_lines: "length (full_lines ys) = 65 * (length ys div 48)"
proof (induction ys rule: full_lines.induct)
  case (1 ys)
  show ?case
  proof (cases "sizeof_data \<le> length ys")
    case True
    then have "length ys div 48 = Suc ((length ys - 48) div 48)" by (simp add: sizeof_data_def le_div_geq)
    then show ?thesis
      using 1 [OF True] True by (simp add: full_lines.simps [of ys] length_b64 sizeof_data_def)
  qed (simp add: sizeof_data_def)
qed

text \<open>The loop of \<open>EVP_EncodeUpdate\<close>.\<close>

lemma encode_lines_loop_eq:
  "tot + 65 * (length xs div 48) < 2 ^ 63 \<Longrightarrow> length xs < 2 ^ 63 \<Longrightarrow>
   encode_lines_loop out tot xs = Inr (out @ full_lines xs, tot + length (full_lines xs), last_line xs)"
proof (induction out tot xs rule: encode_lines_loop.induct)
  case (1 out tot xs)
  show ?case
  proof (cases "sizeof_data \<le> length xs")
    case True
    have l: "length (take sizeof_data xs) = sizeof_data" using True by simp
    have split: "xs = take sizeof_data xs @ drop sizeof_data xs" by simp
    obtain dst encoded where e: "EVP_EncodeBlock (take sizeof_data xs) = (dst, encoded)" by force
    then have enc: "take encoded dst = b64 (take sizeof_data xs)" "encoded = 64"
      using take_encoded [of "take sizeof_data xs"] l by (simp_all add: length_b64 sizeof_data_def)
    have d: "length xs div 48 = Suc ((length xs - 48) div 48)"
      using True by (simp add: sizeof_data_def le_div_geq)
    have "tot + 64 + 1 < 2 ^ 64" using "1.prems" d by simp
    then have add: "size_add (size_add tot 64) 1 = tot + 65" by (simp add: size_add_exact)
    have IH: "encode_lines_loop (out @ b64 (take sizeof_data xs) @ [10]) (tot + 65) (drop sizeof_data xs) =
        Inr (out @ b64 (take sizeof_data xs) @ [10] @ full_lines (drop sizeof_data xs),
          tot + 65 + length (full_lines (drop sizeof_data xs)), last_line (drop sizeof_data xs))"
      using "1.IH" [OF True e [symmetric] refl] "1.prems" d enc add
      by (simp add: sizeof_data_def)
    have "last_line xs = last_line (drop sizeof_data xs)" using last_line_step [OF l] split by metis
    then show ?thesis
      using True e enc add IH
      by (simp add: encode_lines_loop.simps [of out tot xs] full_lines.simps [of xs] length_b64 sizeof_data_def)
  qed (simp add: encode_lines_loop.simps)
qed

definition pending :: "EVP_ENCODE_CTX \<Rightarrow> u8 list" where
  "pending ctx = take (data_used ctx) (ctx_data ctx)"

definition encode_wf :: "EVP_ENCODE_CTX \<Rightarrow> bool" where
  "encode_wf ctx \<longleftrightarrow> length (ctx_data ctx) = sizeof_data \<and> data_used ctx < sizeof_data"

lemma encode_init: "encode_wf EVP_EncodeInit" "pending EVP_EncodeInit = []"
  by (simp_all add: encode_wf_def pending_def EVP_EncodeInit_def sizeof_data_def)

lemma length_pending: "encode_wf ctx \<Longrightarrow> length (pending ctx) = data_used ctx"
  by (simp add: encode_wf_def pending_def)

lemma encode_update:
  assumes wf: "encode_wf ctx" and len: "length xs < 2 ^ 62"
  shows "encode_wf (fst (EVP_EncodeUpdate ctx xs)) \<and>
    pending (fst (EVP_EncodeUpdate ctx xs)) = last_line (pending ctx @ xs) \<and>
    snd (EVP_EncodeUpdate ctx xs) = (full_lines (pending ctx @ xs),
      if length (full_lines (pending ctx @ xs)) > int_max then 0 else length (full_lines (pending ctx @ xs)))"
proof -
  have used: "data_used ctx < sizeof_data" "length (ctx_data ctx) = sizeof_data"
    "length (pending ctx) = data_used ctx"
    using wf length_pending [OF wf] by (simp_all add: encode_wf_def)
  consider "xs = []" | "xs \<noteq> []" "length xs < sizeof_data - data_used ctx"
    | "xs \<noteq> []" "sizeof_data - data_used ctx \<le> length xs" by linarith
  then show ?thesis
  proof cases
    case 1
    then show ?thesis using wf used by (simp add: EVP_EncodeUpdate_def)
  next
    case 2
    then have "length (pending ctx @ xs) < sizeof_data" using used by simp
    with 2 used show ?thesis
      by (simp add: EVP_EncodeUpdate_def encode_wf_def) (simp add: pending_def take_blit_end)
  next
    case 3
    define todo where "todo = (if data_used ctx = 0 then 0 else sizeof_data - data_used ctx)"
    define front where "front = full_lines (pending ctx @ take todo xs)"
    define ctx1 where "ctx1 = (if data_used ctx \<noteq> 0
      then ctx\<lparr>ctx_data := blit (ctx_data ctx) (data_used ctx) (take todo xs), data_used := 0\<rparr> else ctx)"
    define rest where "rest = drop todo xs"
    have full: "length (pending ctx @ take todo xs) = sizeof_data" if "data_used ctx \<noteq> 0"
      using that 3 used by (simp add: todo_def)
    have front: "front = (if data_used ctx = 0 then [] else b64 (pending ctx @ take todo xs) @ [10])"
      using full full_lines_step [of "pending ctx @ take todo xs" "[]"] used
      by (auto simp: front_def todo_def sizeof_data_def)
    have lf: "length front \<le> 65" using full
      by (cases "data_used ctx = 0") (simp_all only: front length_append length_b64 sizeof_data_def if_True if_False, simp_all)
    have all: "full_lines (pending ctx @ xs) = front @ full_lines rest" "last_line (pending ctx @ xs) = last_line rest"
    proof -
      have "pending ctx @ xs = (pending ctx @ take todo xs) @ rest" by (simp add: rest_def)
      moreover have "last_line (pending ctx @ take todo xs) = []"
        using last_line_step [OF full, of "[]"] used by (cases "data_used ctx = 0") (simp_all add: todo_def sizeof_data_def)
      ultimately show "full_lines (pending ctx @ xs) = front @ full_lines rest"
        "last_line (pending ctx @ xs) = last_line rest"
        using lines_append [of "pending ctx @ take todo xs" rest] by (simp_all add: front_def)
    qed
    have "length rest < 2 ^ 62" using len by (simp add: rest_def)
    then have loop: "encode_lines_loop front (length front) rest =
        Inr (front @ full_lines rest, length front + length (full_lines rest), last_line rest)"
      using lf by (intro encode_lines_loop_eq) simp_all
    have start: "(if data_used ctx \<noteq> 0 then
             let todo = sizeof_data - data_used ctx;
                 data = blit (ctx_data ctx) (data_used ctx) (take todo xs);
                 (dst, encoded) = EVP_EncodeBlock data
             in (ctx\<lparr>ctx_data := data, data_used := 0\<rparr>, take encoded dst @ [10], size_add encoded 1, drop todo xs)
           else (ctx, [], 0, xs)) = (ctx1, front, length front, rest)"
    proof (cases "data_used ctx = 0")
      case False
      have data: "blit (ctx_data ctx) (data_used ctx) (take todo xs) = pending ctx @ take todo xs"
        using full [OF False] used by (simp add: blit_def pending_def)
      obtain dst encoded where e: "EVP_EncodeBlock (pending ctx @ take todo xs) = (dst, encoded)" by force
      with take_encoded [of "pending ctx @ take todo xs"] full [OF False]
      have "take encoded dst = b64 (pending ctx @ take todo xs)" "encoded = 64"
        by (simp_all add: length_b64 sizeof_data_def)
      with False data e full [OF False] show ?thesis
        by (simp add: todo_def ctx1_def front rest_def length_b64 sizeof_data_def size_add_def Let_def)
    qed (simp add: ctx1_def front rest_def todo_def)
    have ctx1: "length (ctx_data ctx1) = sizeof_data" using used 3 by (simp add: ctx1_def todo_def)
    define ctx2 where "ctx2 = (if last_line rest \<noteq> []
      then ctx1\<lparr>ctx_data := blit (ctx_data ctx1) 0 (last_line rest)\<rparr> else ctx1)\<lparr>data_used := length (last_line rest)\<rparr>"
    have "EVP_EncodeUpdate ctx xs = (ctx2, front @ full_lines rest,
       if length front + length (full_lines rest) > int_max then 0 else length front + length (full_lines rest))"
      unfolding EVP_EncodeUpdate_def start using 3 by (simp add: loop ctx2_def)
    moreover have "pending ctx2 = last_line rest" "encode_wf ctx2"
      using ctx1 less_imp_le [OF length_last_line [of rest]] take_blit_end [of 0 "last_line rest" "ctx_data ctx1"]
      by (simp_all add: encode_wf_def pending_def ctx2_def)
    ultimately show ?thesis by (simp add: all)
  qed
qed

lemma encode_final:
  assumes "encode_wf ctx"
  shows "encode_wf (fst (EVP_EncodeFinal ctx)) \<and> pending (fst (EVP_EncodeFinal ctx)) = [] \<and>
    snd (EVP_EncodeFinal ctx) = (if pending ctx = [] then ([], 0)
      else (b64 (pending ctx) @ [10, 0], length (b64 (pending ctx)) + 1))"
proof -
  have used: "length (pending ctx) = data_used ctx" "length (pending ctx) < 48" "length (ctx_data ctx) = sizeof_data"
    using assms length_pending [OF assms] by (simp_all add: encode_wf_def sizeof_data_def)
  obtain dst encoded where e: "EVP_EncodeBlock (pending ctx) = (dst, encoded)" by force
  with take_encoded [of "pending ctx"] used
  have d: "take encoded dst = b64 (pending ctx)" "encoded = length (b64 (pending ctx))" by simp_all
  have "length (b64 (pending ctx)) + 1 < 2 ^ 64" using used by (simp add: length_b64)
  then show ?thesis
    using assms used e d
    by (auto simp: EVP_EncodeFinal_def encode_wf_def pending_def size_add_exact sizeof_data_def
        split: prod.splits)
qed

text \<open>
  A whole encoding: any number of updates, then the end.  What all calls write, the NULs
  aside, depends only on the concatenation of the inputs.
\<close>

fun encode_updates :: "EVP_ENCODE_CTX \<Rightarrow> u8 list list \<Rightarrow> EVP_ENCODE_CTX \<times> (u8 list \<times> nat) list" where
  "encode_updates ctx [] = (ctx, [])"
| "encode_updates ctx (xs # xss) =
     (case EVP_EncodeUpdate ctx xs of (ctx, out, out_len) \<Rightarrow>
        case encode_updates ctx xss of (ctx, outs) \<Rightarrow> (ctx, (out, out_len) # outs))"

text \<open>What each update of an encoding writes, with its \<open>*out_len\<close>, and all that is written.\<close>

definition encode_calls :: "u8 list list \<Rightarrow> (u8 list \<times> nat) list" where
  "encode_calls xss = snd (encode_updates EVP_EncodeInit xss)"

definition encode_stream :: "u8 list list \<Rightarrow> u8 list" where
  "encode_stream xss =
     (case encode_updates EVP_EncodeInit xss of (ctx, outs) \<Rightarrow>
        case EVP_EncodeFinal ctx of (_, final, n) \<Rightarrow> concat (map fst outs) @ take n final)"

definition pem :: "u8 list \<Rightarrow> u8 list" where
  "pem xs = full_lines xs @ (if last_line xs = [] then [] else b64 (last_line xs) @ [10])"

definition announced :: "u8 list \<times> nat \<Rightarrow> bool" where
  "announced call = (case call of (out, out_len) \<Rightarrow> out_len = (if length out \<le> int_max then length out else 0))"

lemma encode_updates_eq:
  "encode_wf ctx \<Longrightarrow> list_all (\<lambda>xs. length xs < 2 ^ 62) xss \<Longrightarrow>
   encode_wf (fst (encode_updates ctx xss)) \<and>
   pending (fst (encode_updates ctx xss)) = last_line (pending ctx @ concat xss) \<and>
   concat (map fst (snd (encode_updates ctx xss))) = full_lines (pending ctx @ concat xss) \<and>
   list_all announced (snd (encode_updates ctx xss))"
proof (induction xss arbitrary: ctx)
  case Nil
  then show ?case using length_pending [of ctx] by (simp add: encode_wf_def)
next
  case (Cons xs xss)
  obtain ctx' out n where u: "EVP_EncodeUpdate ctx xs = (ctx', out, n)" by (rule prod_cases3)
  with encode_update [OF Cons.prems(1), of xs] Cons.prems have
    c: "encode_wf ctx'" "pending ctx' = last_line (pending ctx @ xs)" "out = full_lines (pending ctx @ xs)"
      "announced (out, n)"
    by (simp_all add: announced_def)
  from Cons.IH [OF c(1)] Cons.prems lines_append [of "pending ctx @ xs" "concat xss"] u c(2-4)
  show ?case by (auto split: prod.splits)
qed

theorem encode_stream_eq:
  "list_all (\<lambda>xs. length xs < 2 ^ 62) xss \<Longrightarrow> encode_stream xss = pem (concat xss)"
  using encode_updates_eq [OF encode_init(1), of xss] encode_final [of "fst (encode_updates EVP_EncodeInit xss)"]
  by (auto simp: encode_stream_def pem_def encode_init(2) split: prod.splits)

lemma encode_calls_announced:
  "list_all (\<lambda>xs. length xs < 2 ^ 62) xss \<Longrightarrow> list_all announced (encode_calls xss)"
  using encode_updates_eq [OF encode_init(1), of xss] by (simp add: encode_calls_def)

text \<open>Decoding: white space is skipped, and an update can be split anywhere.\<close>

definition is_space :: "u8 \<Rightarrow> bool" where
  "is_space c \<longleftrightarrow> c \<in> {32, 9, 13, 10}"

lemma decode_loop_filter:
  "decode_update_loop ctx out n xs = decode_update_loop ctx out n (filter (\<lambda>c. \<not> is_space c) xs)"
proof (induction ctx out n xs rule: decode_update_loop.induct)
  case (2 ctx out n c xs)
  then show ?case by (cases "c \<in> {32, 9, 13, 10}") (auto simp: is_space_def Let_def split: option.splits)
qed simp

lemma decode_loop_append:
  "decode_update_loop ctx out n (xs @ ys) =
   (case decode_update_loop ctx out n xs of (ok, ctx', out', n') \<Rightarrow>
      if ok then decode_update_loop ctx' out' n' ys else (ok, ctx', out', n'))"
proof (induction ctx out n xs rule: decode_update_loop.induct)
  case (2 ctx out n c xs)
  then show ?case by (cases "c \<in> {32, 9, 13, 10}") (auto simp: Let_def split: option.splits)
qed simp

lemma b64_no_space: "filter (\<lambda>c. \<not> is_space c) (b64 xs) = b64 xs"
proof -
  have "filter (\<lambda>c. \<not> is_space c) (b64 xs) = b64 xs" for ret :: nat
    by (induction xs ret rule: encode_block_loop.induct)
       (use conv_bin2ascii_inverse(3) in \<open>simp_all add: is_space_def\<close>)
  then show ?thesis .
qed

lemma b64_append: "length xs mod 3 = 0 \<Longrightarrow> b64 (xs @ ys) = b64 xs @ b64 ys"
proof -
  have "length xs mod 3 = 0 \<longrightarrow> b64 (xs @ ys) = b64 xs @ b64 ys" for ret :: nat
  proof (induction xs ret rule: encode_block_loop.induct)
    case (2 a b c src ret)
    then show ?case by (auto simp: mod_Suc split: if_splits)
  qed simp_all
  then show "length xs mod 3 = 0 \<Longrightarrow> b64 (xs @ ys) = b64 xs @ b64 ys" by (rule mp)
qed

lemma pem_no_space: "filter (\<lambda>c. \<not> is_space c) (pem xs) = b64 xs"
proof (induction xs rule: full_lines.induct)
  case (1 xs)
  have newline: "is_space 10" by (simp add: is_space_def)
  show ?case
  proof (cases "sizeof_data \<le> length xs")
    case True
    have l: "length (take sizeof_data xs) = sizeof_data" using True by simp
    have "last_line xs = last_line (drop sizeof_data xs)"
      using last_line_step [OF l, of "drop sizeof_data xs"] by simp
    then have "pem xs = b64 (take sizeof_data xs) @ [10] @ pem (drop sizeof_data xs)"
      using True by (simp add: pem_def full_lines.simps [of xs])
    moreover have "b64 xs = b64 (take sizeof_data xs) @ b64 (drop sizeof_data xs)"
      using b64_append [of "take sizeof_data xs" "drop sizeof_data xs"] l by (simp add: sizeof_data_def)
    ultimately show ?thesis using 1 [OF True] by (simp add: b64_no_space newline)
  qed (simp add: pem_def b64_no_space newline)
qed

declare decode_update_loop.simps [simp del]

text \<open>What the loop writes does not depend on what is written already.\<close>

lemma decode_loop_result:
  "\<exists>ok c bytes. \<forall>out n. n < 2 ^ 64 \<longrightarrow>
     decode_update_loop ctx out n xs = (ok, c, out @ bytes, (n + length bytes) mod 2 ^ 64)"
proof (induction xs arbitrary: ctx)
  case (Cons x xs)
  define ctx1 where "ctx1 = ctx\<lparr>ctx_data := (ctx_data ctx)[data_used ctx := x], data_used := data_used ctx + 1\<rparr>"
  define quad where "quad = base64_decode_quad (ctx_data ctx1 ! 0) (ctx_data ctx1 ! 1) (ctx_data ctx1 ! 2) (ctx_data ctx1 ! 3)"
  have step: "decode_update_loop ctx out n (x # xs) =
     (if x \<in> {32, 9, 13, 10} then decode_update_loop ctx out n xs
      else if eof_seen ctx then (False, ctx\<lparr>error_encountered := True\<rparr>, out, n)
      else if data_used ctx1 = 4 then
        (case quad of None \<Rightarrow> (False, ctx1\<lparr>error_encountered := True\<rparr>, out, n)
         | Some bytes \<Rightarrow> decode_update_loop
              (if length bytes < 3 then ctx1\<lparr>data_used := 0, eof_seen := True\<rparr> else ctx1\<lparr>data_used := 0\<rparr>)
              (out @ bytes) (size_add n (length bytes)) xs)
      else decode_update_loop ctx1 out n xs)" for out n
    unfolding ctx1_def quad_def by (simp only: decode_update_loop.simps Let_def)
  show ?case
  proof (cases "x \<notin> {32, 9, 13, 10} \<and> \<not> eof_seen ctx \<and> data_used ctx1 = 4")
    case True
    show ?thesis
    proof (cases quad)
      case (Some bytes)
      obtain ok c rest where IH: "\<And>out n. n < 2 ^ 64 \<Longrightarrow> decode_update_loop
          (if length bytes < 3 then ctx1\<lparr>data_used := 0, eof_seen := True\<rparr> else ctx1\<lparr>data_used := 0\<rparr>) out n xs =
          (ok, c, out @ rest, (n + length rest) mod 2 ^ 64)"
        using Cons.IH by blast
      have "decode_update_loop ctx out n (x # xs) = (ok, c, out @ bytes @ rest, (n + length (bytes @ rest)) mod 2 ^ 64)"
        for out n
        using True Some IH [of "size_add n (length bytes)" "out @ bytes"]
        by (simp add: step size_add_def mod_add_left_eq add.assoc)
      then show ?thesis by blast
    next
      case None
      then show ?thesis
        using True by (intro exI [of _ False] exI [of _ "ctx1\<lparr>error_encountered := True\<rparr>"] exI [of _ "[]"]) (simp add: step)
    qed
  next
    case False
    obtain ok c rest where 1: "\<And>out n. n < 2 ^ 64 \<Longrightarrow>
        decode_update_loop ctx out n xs = (ok, c, out @ rest, (n + length rest) mod 2 ^ 64)" using Cons.IH by blast
    obtain ok1 c1 rest1 where 2: "\<And>out n. n < 2 ^ 64 \<Longrightarrow>
        decode_update_loop ctx1 out n xs = (ok1, c1, out @ rest1, (n + length rest1) mod 2 ^ 64)" using Cons.IH by blast
    consider "x \<in> {32, 9, 13, 10}" | "x \<notin> {32, 9, 13, 10}" "eof_seen ctx"
      | "x \<notin> {32, 9, 13, 10}" "\<not> eof_seen ctx" "data_used ctx1 \<noteq> 4" using False by blast
    then show ?thesis
    proof cases
      case 1
      then show ?thesis using \<open>\<And>out n. n < 2 ^ 64 \<Longrightarrow> decode_update_loop ctx out n xs = _\<close> by (auto simp: step)
    next
      case 2
      then show ?thesis
        by (intro exI [of _ False] exI [of _ "ctx\<lparr>error_encountered := True\<rparr>"] exI [of _ "[]"]) (simp add: step)
    next
      case 3
      then show ?thesis using 2 by (auto simp: step)
    qed
  qed
next
  case Nil
  show ?case
    by (intro exI [of _ True] exI [of _ ctx] exI [of _ "[]"]) (simp add: decode_update_loop.simps)
qed

text \<open>Any number of updates; \<open>None\<close> is a return value of minus one.\<close>

fun decode_updates :: "EVP_ENCODE_CTX \<Rightarrow> u8 list list \<Rightarrow> (EVP_ENCODE_CTX \<times> u8 list) option" where
  "decode_updates ctx [] = Some (ctx, [])"
| "decode_updates ctx (xs # xss) =
     (case EVP_DecodeUpdate ctx xs of (ret, ctx, out, n) \<Rightarrow>
        if ret = - 1 then None
        else map_option (\<lambda>(ctx, outs). (ctx, take n out @ outs)) (decode_updates ctx xss))"

lemma decode_loop_error:
  "decode_update_loop ctx out n xs = (True, c, bytes, k) \<Longrightarrow> error_encountered c = error_encountered ctx"
proof (induction ctx out n xs rule: decode_update_loop.induct)
  case (2 ctx out n x xs)
  show ?case
  proof (cases "x \<in> {32, 9, 13, 10}")
    case False
    then show ?thesis
      using 2(2,3) [OF False] "2.prems"
      by (simp add: decode_update_loop.simps Let_def split: if_splits option.splits)
  qed (use 2 in \<open>simp add: decode_update_loop.simps\<close>)
qed (simp add: decode_update_loop.simps)

lemma decode_updates_eq:
  assumes "\<not> error_encountered ctx" "length bytes \<le> int_max"
    and "decode_update_loop ctx [] 0 (concat xss) = (True, c, bytes, k)" "\<not> error_encountered c"
  shows "decode_updates ctx xss = Some (c, bytes)"
  using assms
proof (induction xss arbitrary: ctx bytes k)
  case (Cons xs xss)
  obtain ok c1 b1 where 1: "\<And>out n. n < 2 ^ 64 \<Longrightarrow>
      decode_update_loop ctx out n xs = (ok, c1, out @ b1, (n + length b1) mod 2 ^ 64)"
    using decode_loop_result by blast
  obtain ok2 c2 b2 where 2: "\<And>out n. n < 2 ^ 64 \<Longrightarrow>
      decode_update_loop c1 out n (concat xss) = (ok2, c2, out @ b2, (n + length b2) mod 2 ^ 64)"
    using decode_loop_result by blast
  have ok: "ok" "ok2" "c2 = c" "bytes = b1 @ b2"
    using Cons.prems(3) 1 [of 0 "[]"] 2 [of "length b1 mod 2 ^ 64" b1]
    by (auto simp: decode_loop_append split: if_splits)
  have c1: "\<not> error_encountered c1"
    using decode_loop_error [of ctx "[]" 0 xs c1] 1 [of 0 "[]"] ok(1) Cons.prems(1) by auto
  have b1: "length b1 \<le> int_max" "length b2 \<le> int_max" using ok(4) Cons.prems(2) by simp_all
  then have k: "length b1 mod 2 ^ 64 = length b1" by (simp add: int_max_def)
  have "decode_updates c1 xss = Some (c, b2)"
    using Cons.IH [OF c1 b1(2) _ Cons.prems(4)] 2 [of 0 "[]"] ok by simp
  then show ?case
    using 1 [of 0 "[]"] ok c1 b1(1) k Cons.prems(1) by (simp add: EVP_DecodeUpdate_def)
qed (simp add: decode_update_loop.simps)

text \<open>The text of an encoding: each quad in turn.\<close>

definition decode_ready :: "EVP_ENCODE_CTX \<Rightarrow> bool" where
  "decode_ready ctx \<longleftrightarrow> 4 \<le> length (ctx_data ctx) \<and> data_used ctx = 0 \<and> \<not> eof_seen ctx"

lemma decode_loop_quad:
  assumes "decode_ready ctx" "\<forall>c \<in> {c0, c1, c2, c3}. c \<notin> {32, 9, 13, 10}"
    and "base64_decode_quad c0 c1 c2 c3 = Some bytes"
  shows "\<exists>ctx'. 4 \<le> length (ctx_data ctx') \<and> data_used ctx' = 0 \<and> eof_seen ctx' = (length bytes < 3) \<and>
    (\<forall>out n xs. decode_update_loop ctx out n (c0 # c1 # c2 # c3 # xs) =
       decode_update_loop ctx' (out @ bytes) (size_add n (length bytes)) xs)"
proof -
  obtain y0 y1 y2 y3 ys where data: "ctx_data ctx = y0 # y1 # y2 # y3 # ys"
    using assms(1) by (auto simp: decode_ready_def numeral_eq_Suc Suc_le_length_iff)
  define ctx1 where "ctx1 = ctx\<lparr>ctx_data := c0 # c1 # c2 # c3 # ys, data_used := 0\<rparr>"
  define ctx' where "ctx' = (if length bytes < 3 then ctx1\<lparr>eof_seen := True\<rparr> else ctx1)"
  have "decode_update_loop ctx out n (c0 # c1 # c2 # c3 # xs) =
       decode_update_loop ctx' (out @ bytes) (size_add n (length bytes)) xs" for out n xs
    using assms by (simp add: decode_update_loop.simps Let_def decode_ready_def ctx'_def ctx1_def data)
  moreover have "4 \<le> length (ctx_data ctx')" "data_used ctx' = 0" "eof_seen ctx' = (length bytes < 3)"
    using assms(1) by (simp_all add: ctx'_def ctx1_def decode_ready_def)
  ultimately show ?thesis by blast
qed

lemma conv_no_space [simp]:
  "conv_bin2ascii a \<noteq> 32" "conv_bin2ascii a \<noteq> 9" "conv_bin2ascii a \<noteq> 13" "conv_bin2ascii a \<noteq> 10"
  using conv_bin2ascii_inverse(3) [of a] by auto

lemma triples_induct [case_names none one two three]:
  fixes P :: "u8 list \<Rightarrow> bool"
  assumes "P []" "\<And>a. P [a]" "\<And>a b. P [a, b]" "\<And>a b c xs. P xs \<Longrightarrow> P (a # b # c # xs)"
  shows "P xs"
  by (rule encode_block_loop.induct [of "\<lambda>xs _. P xs"]) (use assms in auto)

lemma decode_loop_b64:
  "decode_ready ctx \<Longrightarrow> n < 2 ^ 64 \<Longrightarrow>
   \<exists>ctx'. data_used ctx' = 0 \<and>
     decode_update_loop ctx out n (b64 xs) = (True, ctx', out @ xs, (n + length xs) mod 2 ^ 64)"
proof (induction xs arbitrary: ctx out n rule: triples_induct)
  case none
  then show ?case by (auto simp: decode_update_loop.simps decode_ready_def)
next
  case (three a b c xs)
  obtain ctx1 where c1: "4 \<le> length (ctx_data ctx1)" "data_used ctx1 = 0" "\<not> eof_seen ctx1"
    "\<And>out n xs. decode_update_loop ctx out n (conv_bin2ascii (ucast (drop_bit 18 (triple a b c))) #
      conv_bin2ascii (ucast (drop_bit 12 (triple a b c))) # conv_bin2ascii (ucast (drop_bit 6 (triple a b c))) #
      conv_bin2ascii (ucast (triple a b c)) # xs) = decode_update_loop ctx1 (out @ [a, b, c]) (size_add n (length [a, b, c])) xs"
    using decode_loop_quad [OF three.prems(1) _ decode_quad_3, of a b c] by auto
  have l3: "length [a, b, c] = 3" by simp
  have m: "(size_add n 3 + length xs) mod 2 ^ 64 = (n + length (a # b # c # xs)) mod 2 ^ 64"
    unfolding size_add_def mod_add_left_eq by (simp add: add_ac)
  have "decode_ready ctx1" using c1 by (simp add: decode_ready_def)
  from three.IH [OF this, of "size_add n 3" "out @ [a, b, c]"]
  show ?case
    using c1(4) [of out n "b64 xs", unfolded l3] m by (auto simp: size_add_def)
next
  case (one a)
  show ?case
    using decode_loop_quad [OF one.prems(1) _ decode_quad_1, of a]
    by (fastforce simp: decode_update_loop.simps size_add_def)
next
  case (two a b)
  show ?case
    using decode_loop_quad [OF two.prems(1) _ decode_quad_2, of a b]
    by (fastforce simp: decode_update_loop.simps size_add_def)
qed

theorem streaming_round_trip:
  assumes xss: "list_all (\<lambda>xs. length xs < 2 ^ 62) xss" and yss: "concat yss = encode_stream xss"
    and len: "length (concat xss) \<le> int_max"
  shows "\<exists>ctx. decode_updates EVP_DecodeInit yss = Some (ctx, concat xss) \<and> EVP_DecodeFinal ctx = 1"
proof -
  have "decode_ready EVP_DecodeInit" by (simp add: decode_ready_def EVP_DecodeInit_def sizeof_data_def)
  from decode_loop_b64 [OF this, of 0 "[]" "concat xss"] obtain ctx where
    c: "data_used ctx = 0"
    "decode_update_loop EVP_DecodeInit [] 0 (b64 (concat xss)) = (True, ctx, concat xss, length (concat xss) mod 2 ^ 64)"
    by auto
  have d: "decode_update_loop EVP_DecodeInit [] 0 (concat yss) = (True, ctx, concat xss, length (concat xss) mod 2 ^ 64)"
    unfolding yss encode_stream_eq [OF xss]
    using c(2) decode_loop_filter [of EVP_DecodeInit "[]" 0 "pem (concat xss)"] by (simp add: pem_no_space)
  have "\<not> error_encountered EVP_DecodeInit" by (simp add: EVP_DecodeInit_def)
  with decode_loop_error [OF d] decode_updates_eq [OF _ len d] c(1) show ?thesis
    by (simp add: EVP_DecodeFinal_def)
qed

text \<open>An invalid character or data after the padding is an error in every later call.\<close>

lemma decode_error_sticks:
  assumes "fst (EVP_DecodeUpdate ctx xs) = - 1"
  shows "fst (EVP_DecodeUpdate (fst (snd (EVP_DecodeUpdate ctx xs))) ys) = - 1"
proof -
  have "error_encountered c" if "decode_update_loop ctx out n xs = (False, c, bytes, k)" for out n c bytes k
    using that
  proof (induction ctx out n xs rule: decode_update_loop.induct)
    case (2 ctx out n x xs)
    show ?case
    proof (cases "x \<in> {32, 9, 13, 10}")
      case False
      then show ?thesis
        using 2(2,3) [OF False] "2.prems"
        by (auto simp: decode_update_loop.simps Let_def split: if_splits option.splits)
    qed (use 2 in \<open>simp add: decode_update_loop.simps\<close>)
  qed (simp add: decode_update_loop.simps)
  with assms show ?thesis by (auto simp: EVP_DecodeUpdate_def split: prod.splits if_splits)
qed


section \<open>The properties\<close>

text \<open>
  C17.  What \<open>EVP_EncodeBlock\<close> writes, \<open>EVP_DecodeBase64\<close> reads back, given an output buffer of the
  size its contract asks for.\<close>

theorem base64_round_trip:
  assumes "length xs < 2 ^ 63" "3 * ((length xs + 2) div 3) \<le> max_out"
  shows "EVP_DecodeBase64 max_out (take (snd (EVP_EncodeBlock xs)) (fst (EVP_EncodeBlock xs))) = Some xs"
  by (rule decode_encode_block [OF assms])

theorem base64_round_trip_witness:
  "EVP_DecodeBase64 6 (take (snd (EVP_EncodeBlock [1, 2, 3, 0xff])) (fst (EVP_EncodeBlock [1, 2, 3, 0xff]))) =
   Some [1, 2, 3, 0xff]"
  by (rule base64_round_trip) simp_all

text \<open>
  C18.  The streaming interface.  Every call of \<open>EVP_EncodeUpdate\<close> sets \<open>*out_len\<close> to the number of
  bytes it writes, or to zero if they are more than \<open>INT_MAX\<close>.  However the bytes are cut into calls
  of \<open>EVP_EncodeUpdate\<close>, and however the text that these and \<open>EVP_EncodeFinal\<close> write is cut into
  calls of \<open>EVP_DecodeUpdate\<close>, the decoder returns the bytes, up to \<open>INT_MAX\<close> of them, and its last
  call reports success.\<close>

theorem base64_streaming:
  assumes "list_all (\<lambda>xs. length xs < 2 ^ 62) xss" "concat yss = encode_stream xss"
    and "length (concat xss) \<le> int_max"
  shows "(\<forall>(out, out_len)\<in>set (encode_calls xss). out_len = (if length out \<le> int_max then length out else 0)) \<and>
    (\<exists>ctx. decode_updates EVP_DecodeInit yss = Some (ctx, concat xss) \<and> EVP_DecodeFinal ctx = 1)"
  using encode_calls_announced [OF assms(1)] streaming_round_trip [OF assms]
  by (auto simp: list_all_iff announced_def)

theorem base64_streaming_witness:
  "map snd (encode_calls [replicate 48 0]) = [65] \<and>
   (\<exists>ctx. decode_updates EVP_DecodeInit [take 2 (encode_stream [[1], [2, 3]]), drop 2 (encode_stream [[1], [2, 3]])] =
     Some (ctx, [1, 2, 3]) \<and> EVP_DecodeFinal ctx = 1)"
proof -
  have "map fst (encode_calls [replicate 48 0]) = [full_lines (replicate 48 0)]"
    using encode_update [OF encode_init(1), of "replicate 48 0"]
    by (auto simp: encode_calls_def encode_init(2) split: prod.splits)
  then obtain n where "encode_calls [replicate 48 0] = [(full_lines (replicate 48 0), n)]" by auto
  moreover have "n = 65" if "encode_calls [replicate 48 0] = [(full_lines (replicate 48 0), n)]"
    using base64_streaming [of "[replicate 48 0]" "[encode_stream [replicate 48 0]]"] that
    by (simp add: length_full_lines int_max_def)
  ultimately show ?thesis
    using base64_streaming [of "[[1], [2, 3]]" "[take 2 (encode_stream [[1], [2, 3]]), drop 2 (encode_stream [[1], [2, 3]])]"]
    by (simp add: int_max_def)
qed

text \<open>
  \<open>EVP_EncodedLength\<close> is exact: it fails if and only if the size is not a \<open>size_t\<close>, and otherwise
  gives the number of bytes that \<open>EVP_EncodeBlock\<close> writes, the terminating zero included.\<close>

theorem base64_encoded_length:
  assumes "length xs < 2 ^ 64"
  shows "EVP_EncodedLength (length xs) =
    (if length (fst (EVP_EncodeBlock xs)) < 2 ^ 64 then Some (length (fst (EVP_EncodeBlock xs))) else None)"
  using encoded_length [OF assms] length_b64 [of xs] by (simp add: encode_block_eq)

text \<open>
  An invalid character, or data after the padding, is an error in this call of
  \<open>EVP_DecodeUpdate\<close> and in every later one, whatever it is given.\<close>

theorem base64_error_sticks:
  assumes "fst (EVP_DecodeUpdate ctx xs) = - 1"
  shows "decode_updates (fst (snd (EVP_DecodeUpdate ctx xs))) (ys # yss) = None"
  using decode_error_sticks [OF assms, of ys] by (auto split: prod.splits)

end
