(* ===== verification/Buf.thy ===== *)
theory Buf
  imports Mem
begin

text \<open>
  \<open>crypto/buf/buf.c\<close>: a byte buffer that grows.  \<open>buf_data\<close> holds \<open>buf_max\<close> bytes, the first
  \<open>buf_length\<close> of them in use.  An operation that may allocate takes the outcome of the
  allocation and what fresh memory holds.
\<close>

section \<open>The code\<close>

record BUF_MEM =
  buf_length :: size_t
  buf_data :: "u8 list"
  buf_max :: size_t

definition BUF_MEM_new :: "bool \<Rightarrow> BUF_MEM option" where
  "BUF_MEM_new mem_ok = (if mem_ok then Some \<lparr>buf_length = 0, buf_data = [], buf_max = 0\<rparr> else None)"

definition BUF_MEM_reserve :: "bool \<Rightarrow> (nat \<Rightarrow> u8) \<Rightarrow> size_t \<Rightarrow> BUF_MEM \<Rightarrow> bool \<times> BUF_MEM" where
  "BUF_MEM_reserve mem_ok fresh cap buf =
     (if buf_max buf \<ge> cap then (True, buf)
      else
        let n = size_add cap 3
        in if n < cap then (False, buf)
           else
             let n = n div 3; alloc_size = size_mul n 4
             in if alloc_size div 4 \<noteq> n then (False, buf)
                else if \<not> mem_ok then (False, buf)
                else (True, buf\<lparr>buf_data := take alloc_size (buf_data buf) @ map fresh [buf_max buf..<alloc_size],
                            buf_max := alloc_size\<rparr>))"

definition BUF_MEM_grow :: "bool \<Rightarrow> (nat \<Rightarrow> u8) \<Rightarrow> size_t \<Rightarrow> BUF_MEM \<Rightarrow> size_t \<times> BUF_MEM" where
  "BUF_MEM_grow mem_ok fresh len buf =
     (case BUF_MEM_reserve mem_ok fresh len buf of (ok, buf) \<Rightarrow>
        if \<not> ok then (0, buf)
        else
          let buf = (if buf_length buf < len
                     then buf\<lparr>buf_data := blit (buf_data buf) (buf_length buf) (replicate (len - buf_length buf) 0)\<rparr>
                     else buf)
          in (len, buf\<lparr>buf_length := len\<rparr>))"

definition BUF_MEM_grow_clean :: "bool \<Rightarrow> (nat \<Rightarrow> u8) \<Rightarrow> size_t \<Rightarrow> BUF_MEM \<Rightarrow> size_t \<times> BUF_MEM" where
  "BUF_MEM_grow_clean = BUF_MEM_grow"

definition BUF_MEM_append :: "bool \<Rightarrow> (nat \<Rightarrow> u8) \<Rightarrow> u8 list \<Rightarrow> BUF_MEM \<Rightarrow> bool \<times> BUF_MEM" where
  "BUF_MEM_append mem_ok fresh xs buf =
     (if length xs = 0 then (True, buf)
      else
        let new_len = size_add (buf_length buf) (length xs)
        in if new_len < length xs then (False, buf)
           else (case BUF_MEM_reserve mem_ok fresh new_len buf of (ok, buf) \<Rightarrow>
             if \<not> ok then (False, buf)
             else (True, buf\<lparr>buf_data := blit (buf_data buf) (buf_length buf) xs, buf_length := new_len\<rparr>)))"

section \<open>The buffer as a byte string\<close>

definition buf_wf :: "BUF_MEM \<Rightarrow> bool" where
  "buf_wf buf \<longleftrightarrow> length (buf_data buf) = buf_max buf \<and> buf_length buf \<le> buf_max buf \<and> buf_max buf < 2 ^ 64"

definition buf_bytes :: "BUF_MEM \<Rightarrow> u8 list" where
  "buf_bytes buf = take (buf_length buf) (buf_data buf)"

text \<open>A reservation succeeds exactly when the rounded size is a \<open>size_t\<close> and memory is there.\<close>

definition can_reserve :: "bool \<Rightarrow> size_t \<Rightarrow> BUF_MEM \<Rightarrow> bool" where
  "can_reserve mem_ok cap buf \<longleftrightarrow> cap \<le> buf_max buf \<or> (mem_ok \<and> (cap + 3) div 3 * 4 < 2 ^ 64)"

lemma reserve_spec:
  assumes wf: "buf_wf buf" and cap: "cap < 2 ^ 64"
  shows "if can_reserve mem_ok cap buf
    then \<exists>buf'. BUF_MEM_reserve mem_ok fresh cap buf = (True, buf') \<and> buf_wf buf' \<and> cap \<le> buf_max buf' \<and>
      buf_length buf' = buf_length buf \<and> buf_bytes buf' = buf_bytes buf
    else BUF_MEM_reserve mem_ok fresh cap buf = (False, buf)"
proof (cases "cap \<le> buf_max buf")
  case False
  show ?thesis
  proof (cases "cap + 3 < 2 ^ 64")
    case True
    define n where "n = (cap + 3) div 3"
    have add: "size_add cap 3 = cap + 3" using True by (rule size_add_exact)
    have n: "cap \<le> n * 4" "n * 4 < 2 * 2 ^ 64" using True by (simp_all add: n_def)
    have "size_mul n 4 div 4 = n \<longleftrightarrow> n * 4 < 2 ^ 64"
    proof (cases "n * 4 < 2 ^ 64")
      case False
      then have "size_mul n 4 = n * 4 - 2 ^ 64" using n(2) by (simp add: size_mul_def le_mod_geq)
      with False show ?thesis by simp
    qed (simp add: size_mul_exact)
    then have eq: "BUF_MEM_reserve mem_ok fresh cap buf =
        (if n * 4 < 2 ^ 64 \<and> mem_ok
         then (True, buf\<lparr>buf_data := take (n * 4) (buf_data buf) @ map fresh [buf_max buf..<n * 4], buf_max := n * 4\<rparr>)
         else (False, buf))"
      using False add by (simp add: BUF_MEM_reserve_def size_mul_exact Let_def flip: n_def)
    have can: "can_reserve mem_ok cap buf \<longleftrightarrow> n * 4 < 2 ^ 64 \<and> mem_ok"
      using False by (auto simp: can_reserve_def n_def)
    show ?thesis
      unfolding can eq using wf n False by (auto simp: buf_wf_def buf_bytes_def)
  next
    case over: False
    then have "size_add cap 3 < cap" using size_add_less_iff [OF cap, of 3] by simp
    moreover have "2 ^ 64 div 3 \<le> (cap + 3) div 3" using over by (intro div_le_mono) simp
    then have "\<not> can_reserve mem_ok cap buf" using False by (simp add: can_reserve_def)
    ultimately show ?thesis using False by (simp add: BUF_MEM_reserve_def)
  qed
qed (use wf in \<open>simp add: BUF_MEM_reserve_def can_reserve_def\<close>)

theorem append_spec:
  assumes wf: "buf_wf buf" and xs: "length xs < 2 ^ 64"
  shows "if xs = [] \<or> (buf_length buf + length xs < 2 ^ 64 \<and> can_reserve mem_ok (buf_length buf + length xs) buf)
    then \<exists>buf'. BUF_MEM_append mem_ok fresh xs buf = (True, buf') \<and> buf_wf buf' \<and> buf_bytes buf' = buf_bytes buf @ xs
    else BUF_MEM_append mem_ok fresh xs buf = (False, buf)"
proof (cases "xs = []")
  case True
  then show ?thesis using wf by (simp add: BUF_MEM_append_def)
next
  case ne: False
  have len: "buf_length buf < 2 ^ 64" using wf by (simp add: buf_wf_def)
  show ?thesis
  proof (cases "buf_length buf + length xs < 2 ^ 64")
    case True
    then have add: "size_add (buf_length buf) (length xs) = buf_length buf + length xs" by (rule size_add_exact)
    note r = reserve_spec [OF wf True, of mem_ok fresh]
    show ?thesis
    proof (cases "can_reserve mem_ok (buf_length buf + length xs) buf")
      case can: True
      then obtain b where b: "BUF_MEM_reserve mem_ok fresh (buf_length buf + length xs) buf = (True, b)"
        "buf_wf b" "buf_length buf + length xs \<le> buf_max b" "buf_length b = buf_length buf" "buf_bytes b = buf_bytes buf"
        using r by auto
      have le: "buf_length b + length xs \<le> length (buf_data b)" using b by (simp add: buf_wf_def)
      from take_blit_end [OF this] b le can True ne show ?thesis
        by (auto simp: BUF_MEM_append_def add buf_wf_def buf_bytes_def)
    next
      case False
      then show ?thesis using r ne by (simp add: BUF_MEM_append_def add)
    qed
  next
    case False
    then have "size_add (buf_length buf) (length xs) < length xs"
      using size_add_less_iff [OF xs len] by (simp add: size_add_def add.commute)
    with False ne show ?thesis by (simp add: BUF_MEM_append_def)
  qed
qed

text \<open>Growing pads with zeros; shrinking keeps a prefix.\<close>

theorem grow_spec:
  assumes wf: "buf_wf buf" and len: "len < 2 ^ 64"
  shows "if can_reserve mem_ok len buf
    then \<exists>buf'. BUF_MEM_grow mem_ok fresh len buf = (len, buf') \<and> buf_wf buf' \<and>
      buf_bytes buf' = take len (buf_bytes buf) @ replicate (len - buf_length buf) 0
    else BUF_MEM_grow mem_ok fresh len buf = (0, buf)"
proof (cases "can_reserve mem_ok len buf")
  case True
  then obtain b where b: "BUF_MEM_reserve mem_ok fresh len buf = (True, b)"
    "buf_wf b" "len \<le> buf_max b" "buf_length b = buf_length buf" "buf_bytes b = buf_bytes buf"
    using reserve_spec [OF assms, of mem_ok fresh] by auto
  show ?thesis
  proof (cases "buf_length buf < len")
    case lt: True
    have le: "buf_length b + length (replicate (len - buf_length b) (0 :: u8)) \<le> length (buf_data b)"
      using b lt by (simp add: buf_wf_def)
    from take_blit_end [OF this] b le lt True show ?thesis
      by (auto simp: BUF_MEM_grow_def buf_wf_def buf_bytes_def min_def)
  next
    case False
    then have "take len (buf_data b) = take len (buf_bytes b)" using b(4) by (simp add: buf_bytes_def min_def)
    with False b True show ?thesis by (auto simp: BUF_MEM_grow_def buf_wf_def buf_bytes_def)
  qed
next
  case False
  then show ?thesis using reserve_spec [OF assms, of mem_ok fresh] by (simp add: BUF_MEM_grow_def)
qed


section \<open>The properties\<close>

text \<open>
  Appending adds exactly the bytes given, or fails and leaves the buffer as it was; it fails
  only when the length or the rounded capacity is not a \<open>size_t\<close> or memory is refused.\<close>

theorem buffer_append:
  assumes "buf_wf buf" "length xs < 2 ^ 64"
  shows "if xs = [] \<or> (buf_length buf + length xs < 2 ^ 64 \<and> can_reserve mem_ok (buf_length buf + length xs) buf)
    then \<exists>buf'. BUF_MEM_append mem_ok fresh xs buf = (True, buf') \<and> buf_wf buf' \<and> buf_bytes buf' = buf_bytes buf @ xs
    else BUF_MEM_append mem_ok fresh xs buf = (False, buf)"
  by (rule append_spec [OF assms])

text \<open>
  \<open>BUF_MEM_grow\<close> sets the length: a shorter one truncates, a longer one appends zeros, so no
  uninitialised memory becomes visible; on failure nothing changes.\<close>

theorem buffer_grow:
  assumes "buf_wf buf" "len < 2 ^ 64"
  shows "if can_reserve mem_ok len buf
    then \<exists>buf'. BUF_MEM_grow mem_ok fresh len buf = (len, buf') \<and> buf_wf buf' \<and>
      buf_bytes buf' = take len (buf_bytes buf) @ replicate (len - buf_length buf) 0
    else BUF_MEM_grow mem_ok fresh len buf = (0, buf)"
  by (rule grow_spec [OF assms])

end
