(* ===== verification/Stack.thy ===== *)
theory Stack
  imports Compare
begin

text \<open>
  \<open>crypto/stack/stack.c\<close>: a growable array of pointers, searched by a comparison function
  and sorted on demand.  A pointer to an element is \<open>'p option\<close> (\<open>None\<close> is \<open>NULL\<close>), a
  comparison function is a value of \<open>'c\<close> that the argument \<open>call\<close> applies, as the
  \<open>call_cmp_func\<close> of the code does.  The stack argument is \<open>None\<close> for a \<open>NULL\<close> stack.
\<close>

section \<open>The code\<close>

record ('p, 'c) stack =
  st_num :: size_t
  st_data :: "'p option list"
  st_sorted :: bool
  st_num_alloc :: size_t
  st_comp :: "'c option"

definition kMinSize :: nat where "kMinSize = 4"

text \<open>\<open>sizeof(void *)\<close>\<close>

definition sizeof_ptr :: nat where "sizeof_ptr = 8"

definition sk_new :: "bool list \<Rightarrow> 'c option \<Rightarrow> ('p, 'c) stack option \<times> bool list" where
  "sk_new mem compar =
     (case mem_next mem of (ok, mem) \<Rightarrow>
        if \<not> ok then (None, mem)
        else case mem_next mem of (ok, mem) \<Rightarrow>
          if \<not> ok then (None, mem)
          else (Some \<lparr>st_num = 0, st_data = replicate kMinSize None, st_sorted = False,
                      st_num_alloc = kMinSize, st_comp = compar\<rparr>, mem))"

definition sk_new_null :: "bool list \<Rightarrow> ('p, 'c) stack option \<times> bool list" where
  "sk_new_null mem = sk_new mem None"

definition sk_num :: "('p, 'c) stack option \<Rightarrow> size_t" where
  "sk_num sk = (case sk of None \<Rightarrow> 0 | Some sk \<Rightarrow> st_num sk)"

definition sk_zero :: "('p, 'c) stack option \<Rightarrow> ('p, 'c) stack option" where
  "sk_zero sk =
     (case sk of
        None \<Rightarrow> None
      | Some sk \<Rightarrow>
          if st_num sk = 0 then Some sk
          else Some (sk\<lparr>st_data := blit (st_data sk) 0 (replicate (st_num sk) None), st_num := 0, st_sorted := False\<rparr>))"

definition sk_value :: "('p, 'c) stack option \<Rightarrow> size_t \<Rightarrow> 'p option" where
  "sk_value sk i =
     (case sk of None \<Rightarrow> None | Some sk \<Rightarrow> if i \<ge> st_num sk then None else st_data sk ! i)"

definition sk_set :: "('p, 'c) stack option \<Rightarrow> size_t \<Rightarrow> 'p option \<Rightarrow> 'p option \<times> ('p, 'c) stack option" where
  "sk_set sk i value =
     (case sk of
        None \<Rightarrow> (None, None)
      | Some sk \<Rightarrow>
          if i \<ge> st_num sk then (None, Some sk) else (value, Some (sk\<lparr>st_data := (st_data sk)[i := value]\<rparr>)))"

text \<open>\<open>free_elem\<close> is \<open>call_free_func\<close> applied to \<open>free_func\<close>, on the state \<open>'s\<close> it works on.\<close>

definition sk_pop_free_ex :: "('p, 'c) stack option \<Rightarrow> ('p \<Rightarrow> 's \<Rightarrow> 's) \<Rightarrow> 's \<Rightarrow> 's" where
  "sk_pop_free_ex sk free_elem s =
     (case sk of
        None \<Rightarrow> s
      | Some sk \<Rightarrow>
          foldl (\<lambda>s p. case p of None \<Rightarrow> s | Some p \<Rightarrow> free_elem p s) s (take (st_num sk) (st_data sk)))"

text \<open>The new \<open>num_alloc\<close> of \<open>sk_insert\<close>: doubled, or one more where that overflows.\<close>

definition alloc_overflows :: "size_t \<Rightarrow> size_t \<Rightarrow> bool" where
  "alloc_overflows num_alloc new_alloc \<longleftrightarrow>
     new_alloc < num_alloc \<or> size_mul new_alloc sizeof_ptr div sizeof_ptr \<noteq> new_alloc"

definition grow_alloc :: "size_t \<Rightarrow> size_t option" where
  "grow_alloc num_alloc =
     (let new_alloc = size_mul num_alloc 2;
          new_alloc = (if alloc_overflows num_alloc new_alloc then size_add num_alloc 1 else new_alloc)
      in if alloc_overflows num_alloc new_alloc then None else Some new_alloc)"

text \<open>\<open>mem_ok\<close> is the outcome of the reallocation, \<open>fresh\<close> what new memory holds.\<close>

definition sk_insert ::
    "bool \<Rightarrow> (nat \<Rightarrow> 'p option) \<Rightarrow> ('p, 'c) stack option \<Rightarrow> 'p option \<Rightarrow> size_t \<Rightarrow> size_t \<times> ('p, 'c) stack option" where
  "sk_insert mem_ok fresh sk p pos =
     (case sk of
        None \<Rightarrow> (0, None)
      | Some sk \<Rightarrow>
          (case (if st_num_alloc sk \<le> size_add (st_num sk) 1 then
                   (case grow_alloc (st_num_alloc sk) of
                      None \<Rightarrow> None
                    | Some new_alloc \<Rightarrow>
                        if \<not> mem_ok then None
                        else Some (sk\<lparr>st_data := take new_alloc (st_data sk) @ map fresh [st_num_alloc sk..<new_alloc],
                                      st_num_alloc := new_alloc\<rparr>))
                 else Some sk) of
             None \<Rightarrow> (0, Some sk)
           | Some sk \<Rightarrow>
               let data = (if pos \<ge> st_num sk then (st_data sk)[st_num sk := p]
                           else (blit (st_data sk) (pos + 1)
                                   (take (st_num sk - pos) (drop pos (st_data sk))))[pos := p])
               in (size_add (st_num sk) 1,
                   Some (sk\<lparr>st_data := data, st_num := size_add (st_num sk) 1, st_sorted := False\<rparr>))))"

definition sk_delete :: "('p, 'c) stack option \<Rightarrow> size_t \<Rightarrow> 'p option \<times> ('p, 'c) stack option" where
  "sk_delete sk pos =
     (case sk of
        None \<Rightarrow> (None, None)
      | Some sk \<Rightarrow>
          if pos \<ge> st_num sk then (None, Some sk)
          else
            let data = (if pos \<noteq> st_num sk - 1
                        then blit (st_data sk) pos (take (st_num sk - pos - 1) (drop (pos + 1) (st_data sk)))
                        else st_data sk)
            in (st_data sk ! pos, Some (sk\<lparr>st_data := data, st_num := st_num sk - 1\<rparr>)))"

text \<open>The linear searches: the least index below \<open>num\<close> that satisfies \<open>P\<close>.\<close>

function find_index :: "('e \<Rightarrow> bool) \<Rightarrow> 'e list \<Rightarrow> size_t \<Rightarrow> size_t \<Rightarrow> size_t option" where
  "find_index P data num i =
     (if i < num then if P (data ! i) then Some i else find_index P data num (i + 1) else None)"
  by pat_completeness auto
termination
  by (relation "measure (\<lambda>(_, _, num, i). num - i)") auto

declare find_index.simps [simp del]

definition sk_delete_ptr :: "('p, 'c) stack option \<Rightarrow> 'p option \<Rightarrow> 'p option \<times> ('p, 'c) stack option" where
  "sk_delete_ptr sk p =
     (case sk of
        None \<Rightarrow> (None, None)
      | Some s \<Rightarrow>
          (case find_index (\<lambda>q. q = p) (st_data s) (st_num s) 0 of
             None \<Rightarrow> (None, sk)
           | Some i \<Rightarrow> sk_delete sk i))"

definition sk_is_sorted :: "('p, 'c) stack option \<Rightarrow> bool" where
  "sk_is_sorted sk = (case sk of None \<Rightarrow> True | Some sk \<Rightarrow> st_sorted sk)"

text \<open>The binary search of \<open>sk_find\<close>; \<open>cmp\<close> is the comparison with the element searched.\<close>

function bsearch_loop :: "('e \<Rightarrow> int) \<Rightarrow> 'e list \<Rightarrow> size_t \<Rightarrow> size_t \<Rightarrow> size_t option" where
  "bsearch_loop cmp data lo hi =
     (if lo < hi then
        let mid = lo + (hi - lo - 1) div 2;
            r = cmp (data ! mid)
        in if r > 0 then bsearch_loop cmp data (mid + 1) hi
           else if r < 0 then bsearch_loop cmp data lo mid
           else if hi - lo = 1 then Some mid
           else bsearch_loop cmp data lo (mid + 1)
      else None)"
  by pat_completeness auto
termination
  by (relation "measure (\<lambda>(_, _, lo, hi). hi - lo)") auto

declare bsearch_loop.simps [simp del]

definition sk_find ::
    "('c \<Rightarrow> 'p option \<Rightarrow> 'p option \<Rightarrow> int) \<Rightarrow> ('p, 'c) stack option \<Rightarrow> 'p option \<Rightarrow> size_t option" where
  "sk_find call sk p =
     (case sk of
        None \<Rightarrow> None
      | Some s \<Rightarrow>
          (case st_comp s of
             None \<Rightarrow> find_index (\<lambda>q. q = p) (st_data s) (st_num s) 0
           | Some compar \<Rightarrow>
               if p = None then None
               else if \<not> sk_is_sorted sk then
                 find_index (\<lambda>elem. call compar p elem = 0) (st_data s) (st_num s) 0
               else bsearch_loop (call compar p) (st_data s) 0 (st_num s)))"

definition sk_shift :: "('p, 'c) stack option \<Rightarrow> 'p option \<times> ('p, 'c) stack option" where
  "sk_shift sk =
     (case sk of
        None \<Rightarrow> (None, None)
      | Some s \<Rightarrow> if st_num s = 0 then (None, sk) else sk_delete sk 0)"

definition sk_push ::
    "bool \<Rightarrow> (nat \<Rightarrow> 'p option) \<Rightarrow> ('p, 'c) stack \<Rightarrow> 'p option \<Rightarrow> size_t \<times> ('p, 'c) stack option" where
  "sk_push mem_ok fresh sk p = sk_insert mem_ok fresh (Some sk) p (st_num sk)"

definition sk_pop :: "('p, 'c) stack option \<Rightarrow> 'p option \<times> ('p, 'c) stack option" where
  "sk_pop sk =
     (case sk of
        None \<Rightarrow> (None, None)
      | Some s \<Rightarrow> if st_num s = 0 then (None, sk) else sk_delete sk (st_num s - 1))"

definition sk_dup ::
    "bool list \<Rightarrow> (nat \<Rightarrow> 'p option) \<Rightarrow> ('p, 'c) stack option \<Rightarrow> ('p, 'c) stack option \<times> bool list" where
  "sk_dup mem fresh sk =
     (case sk of
        None \<Rightarrow> (None, mem)
      | Some s \<Rightarrow>
          (case sk_new mem (st_comp s) of (ret, mem) \<Rightarrow>
             case ret of
               None \<Rightarrow> (None, mem)
             | Some ret \<Rightarrow>
                 (case mem_next mem of (ok, mem) \<Rightarrow>
                    if \<not> ok then (None, mem)
                    else
                      let data = take (st_num_alloc s) (st_data ret) @ map fresh [kMinSize..<st_num_alloc s]
                      in (Some (ret\<lparr>st_data := blit data 0 (take (st_num s) (st_data s)), st_num := st_num s,
                            st_sorted := st_sorted s, st_num_alloc := st_num_alloc s, st_comp := st_comp s\<rparr>), mem))))"

text \<open>\<open>qs\<close> is the \<open>qsort\<close> of the C library: an argument, what is relied on is \<open>sorts\<close>.\<close>

definition sk_sort ::
    "(('p option \<Rightarrow> 'p option \<Rightarrow> int) \<Rightarrow> 'p option list \<Rightarrow> 'p option list) \<Rightarrow>
     ('c \<Rightarrow> 'p option \<Rightarrow> 'p option \<Rightarrow> int) \<Rightarrow> ('p, 'c) stack option \<Rightarrow> ('p, 'c) stack option" where
  "sk_sort qs call sk =
     (case sk of
        None \<Rightarrow> None
      | Some s \<Rightarrow>
          (case st_comp s of
             None \<Rightarrow> sk
           | Some compar \<Rightarrow>
               if st_sorted s then sk
               else
                 let s = (if st_num s \<ge> 2
                          then s\<lparr>st_data := blit (st_data s) 0 (qs (call compar) (take (st_num s) (st_data s)))\<rparr>
                          else s)
                 in Some (s\<lparr>st_sorted := True\<rparr>)))"

definition sk_set_cmp_func :: "('p, 'c) stack \<Rightarrow> 'c option \<Rightarrow> 'c option \<times> ('p, 'c) stack" where
  "sk_set_cmp_func sk compar =
     (let old = st_comp sk;
          sk = (if st_comp sk \<noteq> compar then sk\<lparr>st_sorted := False\<rparr> else sk)
      in (old, sk\<lparr>st_comp := compar\<rparr>))"

text \<open>
  The loop of \<open>sk_deep_copy\<close>: copying works on a state \<open>'s\<close> and may fail; the copies made
  so far are then freed in order.
\<close>

fun deep_copy_loop ::
    "('p \<Rightarrow> 's \<Rightarrow> 'p option \<times> 's) \<Rightarrow> ('p \<Rightarrow> 's \<Rightarrow> 's) \<Rightarrow> 'p option list \<Rightarrow> 'p option list \<Rightarrow> 's \<Rightarrow>
     'p option list option \<times> 's" where
  "deep_copy_loop copy free_elem copied [] s = (Some copied, s)"
| "deep_copy_loop copy free_elem copied (None # ps) s = deep_copy_loop copy free_elem (copied @ [None]) ps s"
| "deep_copy_loop copy free_elem copied (Some p # ps) s =
     (case copy p s of (q, s) \<Rightarrow>
        case q of
          None \<Rightarrow> (None, foldl (\<lambda>s p. case p of None \<Rightarrow> s | Some p \<Rightarrow> free_elem p s) s copied)
        | Some q \<Rightarrow> deep_copy_loop copy free_elem (copied @ [Some q]) ps s)"

definition sk_deep_copy ::
    "bool list \<Rightarrow> (nat \<Rightarrow> 'p option) \<Rightarrow> ('p, 'c) stack option \<Rightarrow> ('p \<Rightarrow> 's \<Rightarrow> 'p option \<times> 's) \<Rightarrow> ('p \<Rightarrow> 's \<Rightarrow> 's) \<Rightarrow> 's \<Rightarrow>
     (('p, 'c) stack option \<times> 's) \<times> bool list" where
  "sk_deep_copy mem fresh sk copy free_elem s =
     (case sk_dup mem fresh sk of (ret, mem) \<Rightarrow>
        case ret of
          None \<Rightarrow> ((None, s), mem)
        | Some ret \<Rightarrow>
            (case deep_copy_loop copy free_elem [] (take (st_num ret) (st_data ret)) s of (data, s) \<Rightarrow>
               case data of
                 None \<Rightarrow> ((None, s), mem)
               | Some data \<Rightarrow> ((Some (ret\<lparr>st_data := blit (st_data ret) 0 data\<rparr>), s), mem)))"

section \<open>The stack as a list\<close>

definition elems :: "('p, 'c) stack \<Rightarrow> 'p option list" where
  "elems sk = take (st_num sk) (st_data sk)"

definition stack_wf :: "('p, 'c) stack \<Rightarrow> bool" where
  "stack_wf sk \<longleftrightarrow> length (st_data sk) = st_num_alloc sk \<and> st_num sk \<le> st_num_alloc sk \<and>
     0 < st_num_alloc sk \<and> sizeof_ptr * st_num_alloc sk < 2 ^ 64"

text \<open>The flag is set only if the elements are in ascending order.\<close>

definition flag_ok :: "('c \<Rightarrow> 'p option \<Rightarrow> 'p option \<Rightarrow> int) \<Rightarrow> ('p, 'c) stack \<Rightarrow> bool" where
  "flag_ok call sk \<longleftrightarrow>
     (st_sorted sk \<longrightarrow> (\<forall>c. st_comp sk = Some c \<longrightarrow> ascending (call c) (elems sk)))"

definition insert_at :: "'a list \<Rightarrow> nat \<Rightarrow> 'a \<Rightarrow> 'a list" where
  "insert_at xs i x = take i xs @ x # drop i xs"

definition delete_at :: "'a list \<Rightarrow> nat \<Rightarrow> 'a list" where
  "delete_at xs i = take i xs @ drop (Suc i) xs"

lemma length_elems: "stack_wf sk \<Longrightarrow> length (elems sk) = st_num sk"
  by (simp add: elems_def stack_wf_def)

lemma num_bound: "stack_wf sk \<Longrightarrow> st_num sk + 1 < 2 ^ 64"
  by (simp add: stack_wf_def sizeof_ptr_def)

lemma elems_nth: "i < st_num sk \<Longrightarrow> elems sk ! i = st_data sk ! i"
  by (simp add: elems_def)

text \<open>Growing: the products and sums of \<open>sk_insert\<close> are exact when they are used.\<close>

lemma alloc_fits: "m < 2 ^ 64 \<Longrightarrow> \<not> alloc_overflows n m \<Longrightarrow> n \<le> m \<and> sizeof_ptr * m < 2 ^ 64"
proof -
  assume m: "m < 2 ^ 64" "\<not> alloc_overflows n m"
  then have "(m * 8) mod 2 ^ 64 div 8 = m" by (simp add: alloc_overflows_def size_mul_def sizeof_ptr_def)
  moreover have "(m * 8) mod 2 ^ 64 < 8 * 2 ^ 61" by simp
  ultimately have "m < 2 ^ 61" by (metis less_mult_imp_div_less mult.commute)
  with m show ?thesis by (simp add: alloc_overflows_def sizeof_ptr_def)
qed

lemma grow_alloc_Some:
  assumes "grow_alloc n = Some m" "0 < n" "sizeof_ptr * n < 2 ^ 64"
  shows "n < m" "sizeof_ptr * m < 2 ^ 64"
proof -
  have n: "n < 2 ^ 61" using assms(3) by (simp add: sizeof_ptr_def)
  then have e: "size_mul n 2 = 2 * n" "size_add n 1 = n + 1" by (simp_all add: size_mul_def size_add_def)
  with assms(1) have m: "\<not> alloc_overflows n m" "m = 2 * n \<or> m = n + 1"
    by (auto simp: grow_alloc_def Let_def split: if_splits)
  then show "n < m" using assms(2) by auto
  have "m < 2 ^ 64" using m(2) n by auto
  with m(1) show "sizeof_ptr * m < 2 ^ 64" using alloc_fits by blast
qed

lemma alloc_overflows_iff: "n \<le> m \<Longrightarrow> sizeof_ptr * m < 2 ^ 64 \<Longrightarrow> \<not> alloc_overflows n m"
  by (simp add: alloc_overflows_def size_mul_def sizeof_ptr_def mult.commute)

lemma grow_alloc_fails:
  assumes "0 < n" "sizeof_ptr * n < 2 ^ 64"
  shows "grow_alloc n = None \<longleftrightarrow> 2 ^ 64 \<le> sizeof_ptr * (n + 1)"
proof
  have n: "n < 2 ^ 61" using assms(2) by (simp add: sizeof_ptr_def)
  then have e: "size_mul n 2 = 2 * n" "size_add n 1 = n + 1" by (simp_all add: size_mul_def size_add_def)
  show "2 ^ 64 \<le> sizeof_ptr * (n + 1)" if "grow_alloc n = None"
  proof -
    have "alloc_overflows n (n + 1)"
      using that unfolding grow_alloc_def Let_def e by (auto split: if_splits)
    then show ?thesis using alloc_overflows_iff [of n "n + 1"] by (metis le_add1 not_le)
  qed
  assume le: "2 ^ 64 \<le> sizeof_ptr * (n + 1)"
  have "alloc_overflows n (2 * n)" "alloc_overflows n (n + 1)"
    using le n assms(1) alloc_fits [of "2 * n" n] alloc_fits [of "n + 1" n] by (auto simp: sizeof_ptr_def)
  then show "grow_alloc n = None" unfolding grow_alloc_def Let_def e by simp
qed

text \<open>Insertion: on failure nothing changes.\<close>

definition has_room :: "bool \<Rightarrow> ('p, 'c) stack \<Rightarrow> bool" where
  "has_room mem_ok sk \<longleftrightarrow> st_num sk + 1 < st_num_alloc sk \<or>
     (mem_ok \<and> sizeof_ptr * (st_num_alloc sk + 1) < 2 ^ 64)"

lemma blit_insert:
  assumes "n < length b" "i \<le> n"
  shows "take (Suc n) ((blit b (i + 1) (take (n - i) (drop i b)))[i := x]) = insert_at (take n b) i x"
proof -
  have l: "length (take (n - i) (drop i b)) = n - i" using assms by simp
  have "blit b (i + 1) (take (n - i) (drop i b)) = take (i + 1) b @ take (n - i) (drop i b) @ drop (Suc n) b"
    using assms l by (simp add: blit_def)
  also have "take (i + 1) b = take i b @ [b ! i]" using assms by (simp add: take_Suc_conv_app_nth)
  finally have "(blit b (i + 1) (take (n - i) (drop i b)))[i := x] =
      take i b @ [x] @ take (n - i) (drop i b) @ drop (Suc n) b"
    using assms by (simp add: list_update_append)
  moreover have "take (n - i) (drop i b) = drop i (take n b)" by (simp add: drop_take)
  ultimately show ?thesis
    using assms l by (simp add: insert_at_def Suc_diff_le)
qed

lemma take_update_end: "n < length b \<Longrightarrow> take (Suc n) (b[n := x]) = take n b @ [x]"
  by (simp add: take_Suc_conv_app_nth)

theorem sk_insert_spec:
  assumes wf: "stack_wf sk"
  shows "if has_room mem_ok sk
    then \<exists>sk'. sk_insert mem_ok fresh (Some sk) p i = (st_num sk + 1, Some sk') \<and> stack_wf sk' \<and>
      elems sk' = insert_at (elems sk) i p \<and> \<not> st_sorted sk' \<and> st_comp sk' = st_comp sk
    else sk_insert mem_ok fresh (Some sk) p i = (0, Some sk)"
proof -
  have num: "size_add (st_num sk) 1 = st_num sk + 1" using num_bound [OF wf] by (simp add: size_add_exact)
  have grown: "\<exists>sk1. (if st_num_alloc sk \<le> st_num sk + 1 then
                   (case grow_alloc (st_num_alloc sk) of
                      None \<Rightarrow> None
                    | Some new_alloc \<Rightarrow>
                        if \<not> mem_ok then None
                        else Some (sk\<lparr>st_data := take new_alloc (st_data sk) @ map fresh [st_num_alloc sk..<new_alloc],
                                      st_num_alloc := new_alloc\<rparr>))
                 else Some sk) = (if has_room mem_ok sk then Some sk1 else None) \<and>
      (has_room mem_ok sk \<longrightarrow> stack_wf sk1 \<and> st_num sk1 = st_num sk \<and> st_num sk < length (st_data sk1) \<and>
        elems sk1 = elems sk \<and> st_comp sk1 = st_comp sk)"
  proof (cases "st_num_alloc sk \<le> st_num sk + 1")
    case True
    show ?thesis
    proof (cases "grow_alloc (st_num_alloc sk)")
      case None
      then have "\<not> has_room mem_ok sk"
        using grow_alloc_fails [of "st_num_alloc sk"] wf True by (auto simp: has_room_def stack_wf_def)
      then show ?thesis using None True by simp
    next
      case (Some m)
      then have m: "st_num_alloc sk < m" "sizeof_ptr * m < 2 ^ 64" "has_room mem_ok sk \<longleftrightarrow> mem_ok"
        using grow_alloc_Some [OF Some] grow_alloc_fails [of "st_num_alloc sk"] wf True
        by (auto simp: has_room_def stack_wf_def)
      then show ?thesis
        using Some True wf
        by (intro exI [of _ "sk\<lparr>st_data := take m (st_data sk) @ map fresh [st_num_alloc sk..<m], st_num_alloc := m\<rparr>"])
           (auto simp: stack_wf_def elems_def)
    qed
  next
    case False
    then show ?thesis
      using wf by (intro exI [of _ sk]) (auto simp: has_room_def stack_wf_def)
  qed
  then obtain sk1 where eq: "(if st_num_alloc sk \<le> st_num sk + 1 then
                   (case grow_alloc (st_num_alloc sk) of
                      None \<Rightarrow> None
                    | Some new_alloc \<Rightarrow>
                        if \<not> mem_ok then None
                        else Some (sk\<lparr>st_data := take new_alloc (st_data sk) @ map fresh [st_num_alloc sk..<new_alloc],
                                      st_num_alloc := new_alloc\<rparr>))
                 else Some sk) = (if has_room mem_ok sk then Some sk1 else None)"
    and sk1: "has_room mem_ok sk \<Longrightarrow> stack_wf sk1" "has_room mem_ok sk \<Longrightarrow> st_num sk1 = st_num sk"
      "has_room mem_ok sk \<Longrightarrow> st_num sk < length (st_data sk1)"
      "has_room mem_ok sk \<Longrightarrow> elems sk1 = elems sk" "has_room mem_ok sk \<Longrightarrow> st_comp sk1 = st_comp sk" by blast
  show ?thesis
  proof (cases "has_room mem_ok sk")
    case True
    note sk1 = sk1 [OF True]
    define data where "data = (if i \<ge> st_num sk1 then (st_data sk1)[st_num sk1 := p]
      else (blit (st_data sk1) (i + 1) (take (st_num sk1 - i) (drop i (st_data sk1))))[i := p])"
    define sk' where "sk' = sk1\<lparr>st_data := data, st_num := st_num sk + 1, st_sorted := False\<rparr>"
    have "sk_insert mem_ok fresh (Some sk) p i = (st_num sk + 1, Some sk')"
      unfolding sk_insert_def option.case num eq using True sk1(2) num by (simp add: sk'_def data_def)
    moreover have "elems sk' = insert_at (elems sk) i p"
    proof (cases "i \<ge> st_num sk1")
      case True
      then show ?thesis
        using sk1 length_elems [OF wf] take_update_end [of "st_num sk" "st_data sk1" p]
        by (simp add: sk'_def data_def elems_def insert_at_def)
    next
      case False
      then show ?thesis
        using sk1 blit_insert [of "st_num sk" "st_data sk1" i p]
        by (simp add: sk'_def data_def elems_def)
    qed
    moreover have "length data = length (st_data sk1)"
      using sk1 by (simp add: data_def)
    then have "stack_wf sk'" using sk1 by (simp add: stack_wf_def sk'_def)
    ultimately show ?thesis using True sk1 by (auto simp: sk'_def)
  next
    case False
    then show ?thesis unfolding sk_insert_def option.case num eq by simp
  qed
qed

lemma sk_push_spec:
  assumes "stack_wf sk"
  shows "if has_room mem_ok sk
    then \<exists>sk'. sk_push mem_ok fresh sk p = (st_num sk + 1, Some sk') \<and> stack_wf sk' \<and>
      elems sk' = elems sk @ [p] \<and> \<not> st_sorted sk' \<and> st_comp sk' = st_comp sk
    else sk_push mem_ok fresh sk p = (0, Some sk)"
proof -
  have "insert_at (elems sk) (st_num sk) p = elems sk @ [p]"
    by (simp add: insert_at_def flip: length_elems [OF assms])
  with sk_insert_spec [OF assms, of mem_ok fresh p "st_num sk"] show ?thesis by (simp only: sk_push_def)
qed

lemma blit_delete:
  assumes "n \<le> length b" "i < n"
  shows "take (n - 1) (if i \<noteq> n - 1 then blit b i (take (n - i - 1) (drop (i + 1) b)) else b) = delete_at (take n b) i"
proof (cases "i = n - 1")
  case True
  then show ?thesis using assms by (simp add: delete_at_def min_def)
next
  case False
  have "take (n - i - 1) (drop (i + 1) b) = drop (Suc i) (take n b)" by (simp add: drop_take)
  moreover have "length (take (n - i - 1) (drop (i + 1) b)) = n - i - 1" using assms by simp
  ultimately show ?thesis using assms False by (auto simp: blit_def delete_at_def min_def)
qed

theorem sk_delete_spec:
  assumes wf: "stack_wf sk"
  shows "if i < st_num sk
    then \<exists>sk'. sk_delete (Some sk) i = (elems sk ! i, Some sk') \<and> stack_wf sk' \<and>
      elems sk' = delete_at (elems sk) i \<and> st_sorted sk' = st_sorted sk \<and> st_comp sk' = st_comp sk
    else sk_delete (Some sk) i = (None, Some sk)"
proof (cases "i < st_num sk")
  case True
  define sk' where "sk' = sk\<lparr>st_data := (if i \<noteq> st_num sk - 1
      then blit (st_data sk) i (take (st_num sk - i - 1) (drop (i + 1) (st_data sk))) else st_data sk),
      st_num := st_num sk - 1\<rparr>"
  have "sk_delete (Some sk) i = (elems sk ! i, Some sk')"
    using True by (simp add: sk_delete_def sk'_def elems_nth)
  moreover have "elems sk' = delete_at (elems sk) i"
    using blit_delete [of "st_num sk" "st_data sk" i] wf True by (simp add: elems_def sk'_def stack_wf_def)
  moreover have "stack_wf sk'" using wf True by (auto simp: stack_wf_def sk'_def)
  ultimately show ?thesis using True by (auto simp: sk'_def)
qed (simp add: sk_delete_def)

lemma set_delete_at: "set (delete_at xs i) \<subseteq> set xs"
  by (auto simp: delete_at_def dest: in_set_takeD in_set_dropD)

lemma ascending_delete_at: "ascending cmp xs \<Longrightarrow> ascending cmp (delete_at xs i)"
proof -
  assume a: "ascending cmp xs"
  show ?thesis
  proof (cases "i < length xs")
    case True
    then have "ascending cmp (take i xs @ xs ! i # drop (Suc i) xs)" using a by (simp add: id_take_nth_drop [symmetric])
    then show ?thesis by (simp add: ascending_def delete_at_def sorted_wrt_append)
  qed (use a in \<open>simp add: delete_at_def\<close>)
qed

lemma sk_delete_flag:
  assumes "stack_wf sk" "flag_ok call sk" "i < st_num sk"
  shows "flag_ok call (the (snd (sk_delete (Some sk) i)))"
  using sk_delete_spec [OF assms(1), of i] assms by (auto simp: flag_ok_def ascending_delete_at)

section \<open>Searching\<close>

lemma find_index_iff:
  "find_index P data num i = Some j \<longleftrightarrow> i \<le> j \<and> j < num \<and> P (data ! j) \<and> (\<forall>k. i \<le> k \<longrightarrow> k < j \<longrightarrow> \<not> P (data ! k))"
proof (induction P data num i rule: find_index.induct)
  case (1 P data num i)
  show ?case
  proof (cases "i < num \<and> \<not> P (data ! i)")
    case True
    then have "find_index P data num i = find_index P data num (i + 1)"
      by (simp add: find_index.simps [of P data num i])
    with 1 True show ?thesis by (auto simp: Suc_le_eq) (metis le_neq_implies_less)
  next
    case False
    then show ?thesis by (auto simp: find_index.simps [of P data num i])
  qed
qed

lemma find_index_None: "find_index P data num i = None \<longleftrightarrow> (\<forall>j. i \<le> j \<longrightarrow> j < num \<longrightarrow> \<not> P (data ! j))"
proof (induction P data num i rule: find_index.induct)
  case (1 P data num i)
  show ?case
  proof (cases "i < num \<and> \<not> P (data ! i)")
    case True
    then have "find_index P data num i = find_index P data num (i + 1)"
      by (simp add: find_index.simps [of P data num i])
    with 1 True show ?thesis by (auto simp: Suc_le_eq) (metis le_neq_implies_less)
  next
    case False
    then show ?thesis by (auto simp: find_index.simps [of P data num i])
  qed
qed

text \<open>On ascending data the binary search finds what the linear one finds.\<close>

lemma bsearch_eq_find_index:
  assumes up: "\<And>i j. i < j \<Longrightarrow> j < num \<Longrightarrow> cmp (data ! j) > 0 \<Longrightarrow> cmp (data ! i) > 0"
    and down: "\<And>i j. i < j \<Longrightarrow> j < num \<Longrightarrow> cmp (data ! i) < 0 \<Longrightarrow> cmp (data ! j) < 0"
    and "lo \<le> hi" "hi \<le> num"
    and low: "\<And>i. i < lo \<Longrightarrow> cmp (data ! i) > 0"
    and high: "\<And>i. hi \<le> i \<Longrightarrow> i < num \<Longrightarrow> cmp (data ! i) < 0 \<or> (\<exists>k < hi. cmp (data ! k) = 0)"
  shows "bsearch_loop cmp data lo hi = find_index (\<lambda>e. cmp e = 0) data num 0"
  using assms(3-)
proof (induction "hi - lo" arbitrary: lo hi rule: less_induct)
  case less
  show ?case
  proof (cases "lo < hi")
    case True
    define mid where "mid = lo + (hi - lo - 1) div 2"
    have mid: "lo \<le> mid" "mid < hi" using True by (auto simp: mid_def)
    have step: "bsearch_loop cmp data lo hi =
        (if cmp (data ! mid) > 0 then bsearch_loop cmp data (mid + 1) hi
         else if cmp (data ! mid) < 0 then bsearch_loop cmp data lo mid
         else if hi - lo = 1 then Some mid else bsearch_loop cmp data lo (mid + 1))"
      using True by (subst bsearch_loop.simps) (simp add: Let_def mid_def)
    consider "cmp (data ! mid) > 0" | "cmp (data ! mid) < 0" | "cmp (data ! mid) = 0" by linarith
    then show ?thesis
    proof cases
      case 1
      have "cmp (data ! i) > 0" if "i < mid + 1" for i
        using that 1 up [of i mid] mid less.prems(2) by (cases "i = mid") auto
      then have "bsearch_loop cmp data (mid + 1) hi = find_index (\<lambda>e. cmp e = 0) data num 0"
        using mid less.prems by (intro less.hyps) auto
      with 1 step show ?thesis by simp
    next
      case 2
      have "cmp (data ! i) < 0" if "mid \<le> i" "i < num" for i
        using that 2 down [of mid i] by (cases "i = mid") auto
      then have "bsearch_loop cmp data lo mid = find_index (\<lambda>e. cmp e = 0) data num 0"
        using mid less.prems by (intro less.hyps) auto
      with 2 step show ?thesis by simp
    next
      case 3
      show ?thesis
      proof (cases "hi - lo = 1")
        case one: True
        then have "mid = lo" by (simp add: mid_def)
        moreover have "find_index (\<lambda>e. cmp e = 0) data num 0 = Some lo"
          using 3 less.prems mid \<open>mid = lo\<close> by (auto simp: find_index_iff dest!: less.prems(3))
        ultimately show ?thesis using 3 step one by simp
      next
        case False
        then have "mid + 1 < hi" using True by (simp add: mid_def)
        then have "bsearch_loop cmp data lo (mid + 1) = find_index (\<lambda>e. cmp e = 0) data num 0"
          using mid less.prems 3 by (intro less.hyps) auto
        with 3 step False show ?thesis by simp
      qed
    qed
  next
    case False
    have "cmp (data ! j) \<noteq> 0" if "j < num" for j
      using False less.prems(1,3,4) that by (cases "j < lo") (force simp: not_less)+
    then have "find_index (\<lambda>e. cmp e = 0) data num 0 = None" by (simp add: find_index_None)
    with False show ?thesis by (simp add: bsearch_loop.simps)
  qed
qed

context comparator
begin

lemma bsearch_sorted:
  assumes "ascending cmp (take num data)" "num \<le> length data"
  shows "bsearch_loop (cmp x) data 0 num = find_index (\<lambda>e. cmp x e = 0) data num 0"
proof (rule bsearch_eq_find_index)
  have le: "cmp (data ! i) (data ! j) \<le> 0" if "i < j" "j < num" for i j
    using assms that by (auto simp: ascending_def sorted_wrt_iff_nth_less)
  show "i < j \<Longrightarrow> j < num \<Longrightarrow> cmp x (data ! j) > 0 \<Longrightarrow> cmp x (data ! i) > 0" for i j
    using sign_mono(1) [OF le] by blast
  show "i < j \<Longrightarrow> j < num \<Longrightarrow> cmp x (data ! i) < 0 \<Longrightarrow> cmp x (data ! j) < 0" for i j
    using sign_mono(2) [OF le] by blast
qed auto

end

text \<open>
  So a search returns the first match whether or not the stack is sorted, as long as the
  flag is right.
\<close>

definition first_match :: "('e \<Rightarrow> bool) \<Rightarrow> 'e list \<Rightarrow> nat option \<Rightarrow> bool" where
  "first_match P xs r \<longleftrightarrow> (case r of
     Some i \<Rightarrow> i < length xs \<and> P (xs ! i) \<and> (\<forall>j < i. \<not> P (xs ! j))
   | None \<Rightarrow> \<forall>x \<in> set xs. \<not> P x)"

lemma find_index_first_match:
  "num \<le> length data \<Longrightarrow> first_match P (take num data) (find_index P data num 0)"
proof (cases "find_index P data num 0")
  case None
  assume "num \<le> length data"
  moreover have "\<forall>j < num. \<not> P (data ! j)" using None by (simp add: find_index_None)
  ultimately show ?thesis unfolding None by (auto simp: first_match_def in_set_conv_nth)
next
  case (Some i)
  assume "num \<le> length data"
  moreover have "i < num" "P (data ! i)" "\<forall>j < i. \<not> P (data ! j)" using Some by (simp_all add: find_index_iff)
  ultimately show ?thesis unfolding Some by (simp add: first_match_def)
qed

theorem sk_find_spec:
  assumes "stack_wf sk" "flag_ok call sk" "st_comp sk = Some c" "comparator (call c)" "p \<noteq> None"
  shows "first_match (\<lambda>e. call c p e = 0) (elems sk) (sk_find call (Some sk) p)"
proof -
  have n: "st_num sk \<le> length (st_data sk)" using assms(1) by (simp add: stack_wf_def)
  have "sk_find call (Some sk) p = find_index (\<lambda>e. call c p e = 0) (st_data sk) (st_num sk) 0"
    using assms comparator.bsearch_sorted [OF assms(4) _ n, of p]
    by (auto simp: sk_find_def sk_is_sorted_def flag_ok_def elems_def)
  then show ?thesis using find_index_first_match [OF n] by (simp add: elems_def)
qed

lemma sk_find_pointer:
  assumes "stack_wf sk" "st_comp sk = None"
  shows "first_match (\<lambda>e. e = p) (elems sk) (sk_find call (Some sk) p)"
proof -
  have n: "st_num sk \<le> length (st_data sk)" using assms(1) by (simp add: stack_wf_def)
  show ?thesis using find_index_first_match [OF n] assms(2) by (simp add: elems_def sk_find_def)
qed

section \<open>Sorting, copying\<close>

theorem sk_sort_spec:
  assumes "stack_wf sk" "flag_ok call sk" "st_comp sk = Some c" "sorts qs" "comparator (call c)"
  shows "\<exists>sk'. sk_sort qs call (Some sk) = Some sk' \<and> stack_wf sk' \<and> flag_ok call sk' \<and> st_sorted sk' \<and>
    mset (elems sk') = mset (elems sk) \<and> ascending (call c) (elems sk') \<and> st_comp sk' = st_comp sk"
proof (cases "st_sorted sk")
  case True
  then show ?thesis using assms by (auto simp: sk_sort_def flag_ok_def)
next
  case False
  define xs where "xs = (if st_num sk \<ge> 2 then qs (call c) (elems sk) else elems sk)"
  have perm: "mset xs = mset (elems sk)" using assms(4) by (simp add: xs_def sorts_def)
  then have len: "length xs = st_num sk" using length_elems [OF assms(1)] by (metis size_mset)
  have asc: "ascending (call c) xs"
  proof (cases "st_num sk \<ge> 2")
    case False
    then have "elems sk = [] \<or> (\<exists>x. elems sk = [x])"
      using length_elems [OF assms(1)] by (cases "elems sk" rule: remdups_adj.cases) auto
    with False show ?thesis by (auto simp: xs_def ascending_def)
  qed (use assms(4,5) in \<open>simp add: xs_def sorts_def\<close>)
  define sk' where "sk' = sk\<lparr>st_data := blit (st_data sk) 0 xs, st_sorted := True\<rparr>"
  have le: "length xs \<le> length (st_data sk)" using len assms(1) by (simp add: stack_wf_def)
  have "blit (st_data sk) 0 (elems sk) = st_data sk"
    using assms(1) by (simp add: blit_def elems_def stack_wf_def min_def)
  then have "sk_sort qs call (Some sk) = Some sk'"
    using False assms(3) by (simp add: sk_sort_def sk'_def xs_def elems_def Let_def)
  moreover have "elems sk' = xs" using len le take_blit_end [of 0 xs "st_data sk"] by (simp add: elems_def sk'_def)
  moreover have "stack_wf sk'" using assms(1) le by (simp add: stack_wf_def sk'_def)
  ultimately show ?thesis using perm asc assms(3) by (auto simp: flag_ok_def sk'_def)
qed

lemma sk_dup_spec:
  assumes "stack_wf sk" "sk_dup mem fresh (Some sk) = (Some sk', mem')"
  shows "stack_wf sk' \<and> elems sk' = elems sk \<and> st_comp sk' = st_comp sk \<and> st_sorted sk' = st_sorted sk"
proof -
  define data where "data = take (st_num_alloc sk) (replicate kMinSize None) @ map fresh [kMinSize..<st_num_alloc sk]"
  have len: "length data = st_num_alloc sk" by (simp add: data_def)
  have "st_data sk' = blit data 0 (elems sk) \<and> st_num sk' = st_num sk \<and> st_num_alloc sk' = st_num_alloc sk \<and>
      st_comp sk' = st_comp sk \<and> st_sorted sk' = st_sorted sk"
    using assms(2) by (auto simp: sk_dup_def sk_new_def data_def elems_def Let_def split: prod.splits if_splits)
  then show ?thesis
    using assms(1) len length_elems [OF assms(1)] take_blit_end [of 0 "elems sk" data]
    by (auto simp: stack_wf_def elems_def)
qed

text \<open>Setting an element, and the binary search of any array: it looks between its bounds only.\<close>

lemma sk_set_spec:
  assumes "stack_wf sk" "i < st_num sk"
  shows "\<exists>sk'. sk_set (Some sk) i p = (p, Some sk') \<and> stack_wf sk' \<and> elems sk' = (elems sk)[i := p] \<and>
    st_num sk' = st_num sk \<and> st_sorted sk' = st_sorted sk \<and> st_comp sk' = st_comp sk"
  using assms by (simp add: sk_set_def stack_wf_def elems_def take_update_swap)

lemma bsearch_loop_found:
  "bsearch_loop cmp data lo hi = Some m \<Longrightarrow> lo \<le> m \<and> m < hi \<and> cmp (data ! m) = 0"
proof (induction cmp data lo hi rule: bsearch_loop.induct)
  case (1 cmp data lo hi)
  define mid where "mid = lo + (hi - lo - 1) div 2"
  have mid: "lo < hi \<Longrightarrow> lo \<le> mid \<and> mid < hi" by (auto simp: mid_def)
  show ?case
    using "1.prems" [unfolded bsearch_loop.simps [of cmp data lo hi] Let_def mid_def [symmetric]]
      "1.IH" [OF _ mid_def refl] mid
    by (fastforce split: if_splits)
qed

text \<open>A small stack, for the examples.\<close>

definition three :: "(nat, unit) stack" where
  "three = \<lparr>st_num = 3, st_data = [Some 1, Some 2, Some 3, None], st_sorted = True, st_num_alloc = 4, st_comp = Some ()\<rparr>"

definition compare_nat :: "unit \<Rightarrow> nat option \<Rightarrow> nat option \<Rightarrow> int" where
  "compare_nat c a b = (case a of None \<Rightarrow> (case b of None \<Rightarrow> 0 | Some _ \<Rightarrow> - 1)
     | Some a \<Rightarrow> (case b of None \<Rightarrow> 1 | Some b \<Rightarrow> int a - int b))"

interpretation compare_nat: comparator "compare_nat c" for c
  by unfold_locales (auto simp: compare_nat_def split: option.splits)

lemma three_ok: "stack_wf three" "flag_ok compare_nat three"
  by (simp_all add: three_def stack_wf_def sizeof_ptr_def flag_ok_def elems_def ascending_def compare_nat_def)

section \<open>The properties\<close>

text \<open>
  \<open>sk_insert\<close>: when there is room, or the array can grow, the pointer is inserted at the
  index, or at the end when the index is beyond it, and the number of elements is returned; the
  stack no longer counts as sorted.  Otherwise it returns zero and the stack is as it was.\<close>

theorem stack_insert:
  assumes "stack_wf sk"
  shows "if has_room mem_ok sk
    then \<exists>sk'. sk_insert mem_ok fresh (Some sk) p i = (st_num sk + 1, Some sk') \<and> stack_wf sk' \<and>
      elems sk' = take i (elems sk) @ p # drop i (elems sk) \<and> \<not> st_sorted sk' \<and> st_comp sk' = st_comp sk
    else sk_insert mem_ok fresh (Some sk) p i = (0, Some sk)"
  using sk_insert_spec [OF assms, of mem_ok fresh p i] unfolding insert_at_def .

text \<open>
  \<open>sk_delete\<close> removes and returns the element at the index, keeps the order of the others and
  keeps a sorted stack sorted; beyond the end it changes nothing and returns \<open>NULL\<close>.\<close>

theorem stack_delete:
  assumes "stack_wf sk" "flag_ok call sk"
  shows "if i < st_num sk
    then \<exists>sk'. sk_delete (Some sk) i = (elems sk ! i, Some sk') \<and> stack_wf sk' \<and> flag_ok call sk' \<and>
      elems sk' = take i (elems sk) @ drop (Suc i) (elems sk) \<and> st_sorted sk' = st_sorted sk
    else sk_delete (Some sk) i = (None, Some sk)"
  using sk_delete_spec [OF assms(1), of i] sk_delete_flag [OF assms, of i]
  by (auto simp: delete_at_def)

text \<open>
  \<open>sk_find\<close> with a comparison function returns the first element that compares equal, and
  fails if and only if there is none, by linear search on an unsorted stack and by binary search on
  a sorted one; the flag has to be right and the function a total preorder.\<close>

theorem stack_find:
  assumes "stack_wf sk" "flag_ok call sk" "st_comp sk = Some c" "comparator (call c)" "p \<noteq> None"
  shows "case sk_find call (Some sk) p of
      Some i \<Rightarrow> i < st_num sk \<and> call c p (elems sk ! i) = 0 \<and> (\<forall>j<i. call c p (elems sk ! j) \<noteq> 0)
    | None \<Rightarrow> \<forall>e\<in>set (elems sk). call c p e \<noteq> 0"
  using sk_find_spec [OF assms] length_elems [OF assms(1)] by (simp add: first_match_def split: option.splits)

text \<open>
  C37.  \<open>sk_sort\<close>, with any sorting function of the C library, leaves the same elements in ascending
  order and the stack well-formed; a search after it finds an element exactly when the stack before
  it held one that compares equal.\<close>

theorem stack_sort_find:
  assumes "stack_wf sk" "flag_ok call sk" "st_comp sk = Some c" "sorts qs" "comparator (call c)" "p \<noteq> None"
  shows "\<exists>sk'. sk_sort qs call (Some sk) = Some sk' \<and> stack_wf sk' \<and> mset (elems sk') = mset (elems sk) \<and>
    ascending (call c) (elems sk') \<and>
    (sk_find call (Some sk') p \<noteq> None \<longleftrightarrow> (\<exists>e\<in>set (elems sk). call c p e = 0))"
proof -
  obtain sk' where sk': "sk_sort qs call (Some sk) = Some sk'" "stack_wf sk'" "flag_ok call sk'"
    "mset (elems sk') = mset (elems sk)" "ascending (call c) (elems sk')" "st_comp sk' = Some c"
    using sk_sort_spec [OF assms(1-5)] assms(3) by auto
  have set: "set (elems sk') = set (elems sk)" using sk'(4) by (metis set_mset_mset)
  have "sk_find call (Some sk') p \<noteq> None \<longleftrightarrow> (\<exists>e\<in>set (elems sk'). call c p e = 0)"
    using sk_find_spec [OF sk'(2,3,6) assms(5,6)]
    by (auto simp: first_match_def split: option.splits)
  with sk' show ?thesis unfolding set by blast
qed

theorem stack_sort_find_witness:
  "\<exists>sk'. sk_sort qsort compare_nat
       (Some \<lparr>st_num = 2, st_data = [Some 5, Some 4, None, None], st_sorted = False, st_num_alloc = 4, st_comp = Some ()\<rparr>)
     = Some sk' \<and> sk_find compare_nat (Some sk') (Some 5) \<noteq> None \<and> ascending (compare_nat ()) (elems sk')"
proof -
  let ?sk = "\<lparr>st_num = 2, st_data = [Some 5, Some 4, None, None], st_sorted = False, st_num_alloc = 4, st_comp = Some ()\<rparr>"
  have "stack_wf ?sk" "flag_ok compare_nat ?sk"
    by (simp_all add: stack_wf_def sizeof_ptr_def flag_ok_def)
  moreover have "Some 5 \<in> set (elems ?sk)" "compare_nat () (Some 5) (Some 5) = 0"
    by (simp_all add: elems_def compare_nat_def)
  ultimately show ?thesis
    using stack_sort_find [of ?sk compare_nat "()" qsort "Some 5"] qsort_sorts compare_nat.comparator_axioms [of "()"]
    by (metis option.distinct(1) select_convs(5))
qed

text \<open>
  C38.  \<open>sk_set\<close> leaves the flag of a sorted stack as it was, so a search can miss an element that
  is there: whenever an element below the middle one is replaced by a greater element than the middle
  one, which equals none of the others, the stack still counts as sorted without being so, and
  \<open>sk_find\<close> does not find the new element.\<close>

theorem stack_set_unsorts:
  assumes "stack_wf sk" "st_sorted sk" "st_comp sk = Some c" "comparator (call c)" "p \<noteq> None"
    and i: "i < (st_num sk - 1) div 2" and greater: "call c p (elems sk ! ((st_num sk - 1) div 2)) > 0"
    and other: "\<forall>e\<in>set (elems sk). call c p e \<noteq> 0"
  shows "\<exists>sk'. sk_set (Some sk) i p = (p, Some sk') \<and> elems sk' = (elems sk)[i := p] \<and> st_sorted sk' \<and>
    \<not> flag_ok call sk' \<and> p \<in> set (elems sk') \<and> call c p p = 0 \<and> sk_find call (Some sk') p = None"
proof -
  define mid where "mid = (st_num sk - 1) div 2"
  have n: "i < st_num sk" "mid < st_num sk" "i < mid" using i by (auto simp: mid_def)
  note len = length_elems [OF assms(1)]
  obtain sk' where sk': "sk_set (Some sk) i p = (p, Some sk')" "stack_wf sk'" "elems sk' = (elems sk)[i := p]"
    "st_num sk' = st_num sk" "st_sorted sk'" "st_comp sk' = Some c"
    using sk_set_spec [OF assms(1) n(1), of p] assms(2,3) by auto
  have at: "st_data sk' ! j = (elems sk)[i := p] ! j" if "j < st_num sk" for j
    using sk'(3) that unfolding sk'(4) elems_def by (metis nth_take sk'(4))
  have gr: "call c p (st_data sk' ! mid) > 0" using at [OF n(2)] n len greater by (simp add: mid_def)
  have step: "bsearch_loop (call c p) (st_data sk') 0 (st_num sk) = bsearch_loop (call c p) (st_data sk') (mid + 1) (st_num sk)"
    using gr n by (subst bsearch_loop.simps) (simp add: Let_def mid_def)
  have "bsearch_loop (call c p) (st_data sk') (mid + 1) (st_num sk) = None"
  proof (rule ccontr)
    assume "bsearch_loop (call c p) (st_data sk') (mid + 1) (st_num sk) \<noteq> None"
    then obtain m where m: "mid + 1 \<le> m" "m < st_num sk" "call c p (st_data sk' ! m) = 0"
      using bsearch_loop_found by blast
    then have "st_data sk' ! m = elems sk ! m" using at n by simp
    then show False using m(2,3) other len by (metis nth_mem)
  qed
  then have "sk_find call (Some sk') p = None"
    using step sk' assms(5) by (simp add: sk_find_def sk_is_sorted_def)
  moreover have "\<not> ascending (call c) (elems sk')"
  proof
    assume "ascending (call c) (elems sk')"
    then have "call c (elems sk' ! i) (elems sk' ! mid) \<le> 0"
      using n len unfolding ascending_def sk'(3) by (auto dest: sorted_wrt_nth_less)
    then show False using greater n len by (simp add: sk'(3) mid_def)
  qed
  moreover have "p \<in> set (elems sk')" using n len set_update_memI [of i "elems sk" p] by (simp add: sk'(3))
  ultimately show ?thesis using sk' comparator.refl [OF assms(4)] by (auto simp: flag_ok_def)
qed

theorem stack_set_unsorts_witness:
  "flag_ok compare_nat three \<and>
   (\<exists>sk'. sk_set (Some three) 0 (Some 9) = (Some 9, Some sk') \<and> elems sk' = [Some 9, Some 2, Some 3] \<and>
      st_sorted sk' \<and> sk_find compare_nat (Some sk') (Some 9) = None)"
proof -
  have three: "st_sorted three" "st_comp three = Some ()" "st_num three = 3" "elems three = [Some 1, Some 2, Some 3]"
    by (simp_all add: three_def elems_def)
  from stack_set_unsorts [OF three_ok(1) three(1,2), of compare_nat "Some 9" 0] three_ok(2) compare_nat.comparator_axioms
  show ?thesis by (auto simp: three compare_nat_def)
qed

end
