(* ===== verification/Lhash.thy ===== *)
theory Lhash
  imports Mem "HOL-Library.Multiset"
begin

text \<open>
  \<open>crypto/lhash/lhash.c\<close>: a chained hash table that resizes itself.  The table stores its
  hash and comparison functions; the \<open>call_hash_func\<close> and \<open>call_cmp_func\<close> helpers of the
  code only cast and apply them.  A chain is a list, a \<open>LHASH_ITEM **\<close> is a position in a
  chain, the length of the chain standing for the pointer to the final \<open>NULL\<close>.
\<close>

section \<open>The code\<close>

definition kMinNumBuckets :: nat where "kMinNumBuckets = 16"
definition kMaxAverageChainLength :: nat where "kMaxAverageChainLength = 2"
definition kMinAverageChainLength :: nat where "kMinAverageChainLength = 1"

record 'a LHASH_ITEM =
  item_data :: 'a
  item_hash :: u32

record 'a LHASH =
  num_items :: size_t
  buckets :: "'a LHASH_ITEM list list"
  num_buckets :: size_t
  callback_depth :: nat
  lh_comp :: "'a \<Rightarrow> 'a \<Rightarrow> int"
  lh_hash :: "'a \<Rightarrow> u32"

definition lh_new :: "bool list \<Rightarrow> ('a \<Rightarrow> u32) \<Rightarrow> ('a \<Rightarrow> 'a \<Rightarrow> int) \<Rightarrow> 'a LHASH option" where
  "lh_new mem hash cmp =
     (case mem_next mem of (ok, mem) \<Rightarrow>
        if \<not> ok then None
        else if \<not> fst (mem_next mem) then None
        else Some \<lparr>num_items = 0, buckets = replicate kMinNumBuckets [], num_buckets = kMinNumBuckets,
                   callback_depth = 0, lh_comp = cmp, lh_hash = hash\<rparr>)"

definition lh_num_items :: "'a LHASH \<Rightarrow> size_t" where
  "lh_num_items lh = num_items lh"

text \<open>The position of the first item of a chain whose data satisfies \<open>P\<close>.\<close>

fun chain_pos :: "('a \<Rightarrow> bool) \<Rightarrow> 'a LHASH_ITEM list \<Rightarrow> nat" where
  "chain_pos P [] = 0"
| "chain_pos P (cur # chain) = (if P (item_data cur) then 0 else Suc (chain_pos P chain))"

definition get_next_ptr_and_hash :: "'a LHASH \<Rightarrow> 'a \<Rightarrow> u32 \<times> nat \<times> nat" where
  "get_next_ptr_and_hash lh data =
     (let hash = lh_hash lh data;
          bucket = unat hash mod num_buckets lh
      in (hash, bucket, chain_pos (\<lambda>cur. lh_comp lh cur data = 0) (buckets lh ! bucket)))"

definition get_next_ptr_by_key :: "'a LHASH \<Rightarrow> 'k \<Rightarrow> u32 \<Rightarrow> ('k \<Rightarrow> 'a \<Rightarrow> int) \<Rightarrow> nat \<times> nat" where
  "get_next_ptr_by_key lh key key_hash cmp_key =
     (let bucket = unat key_hash mod num_buckets lh
      in (bucket, chain_pos (\<lambda>cur. cmp_key key cur = 0) (buckets lh ! bucket)))"

definition lh_retrieve :: "'a LHASH \<Rightarrow> 'a \<Rightarrow> 'a option" where
  "lh_retrieve lh data =
     (case get_next_ptr_and_hash lh data of (_, b, i) \<Rightarrow>
        if i = length (buckets lh ! b) then None else Some (item_data (buckets lh ! b ! i)))"

definition lh_retrieve_key :: "'a LHASH \<Rightarrow> 'k \<Rightarrow> u32 \<Rightarrow> ('k \<Rightarrow> 'a \<Rightarrow> int) \<Rightarrow> 'a option" where
  "lh_retrieve_key lh key key_hash cmp_key =
     (case get_next_ptr_by_key lh key key_hash cmp_key of (b, i) \<Rightarrow>
        if i = length (buckets lh ! b) then None else Some (item_data (buckets lh ! b ! i)))"

text \<open>One turn of the inner loop of \<open>lh_rebucket\<close>: an item moves to the front of its new chain.\<close>

definition move_item :: "size_t \<Rightarrow> 'a LHASH_ITEM list list \<Rightarrow> 'a LHASH_ITEM \<Rightarrow> 'a LHASH_ITEM list list" where
  "move_item new_num_buckets new_buckets cur =
     (let new_bucket = unat (item_hash cur) mod new_num_buckets
      in new_buckets[new_bucket := cur # new_buckets ! new_bucket])"

definition lh_rebucket :: "bool \<Rightarrow> 'a LHASH \<Rightarrow> size_t \<Rightarrow> 'a LHASH" where
  "lh_rebucket mem_ok lh new_num_buckets =
     (let alloc_size = size_mul 8 new_num_buckets
      in if alloc_size div 8 \<noteq> new_num_buckets then lh
         else if \<not> mem_ok then lh
         else lh\<lparr>num_buckets := new_num_buckets,
                buckets := foldl (foldl (move_item new_num_buckets)) (replicate new_num_buckets [])
                             (take (num_buckets lh) (buckets lh))\<rparr>)"

definition lh_maybe_resize :: "bool \<Rightarrow> 'a LHASH \<Rightarrow> 'a LHASH" where
  "lh_maybe_resize mem_ok lh =
     (if callback_depth lh > 0 then lh
      else
        let avg_chain_length = num_items lh div num_buckets lh
        in if avg_chain_length > kMaxAverageChainLength then
             let new_num_buckets = size_mul (num_buckets lh) 2
             in if new_num_buckets > num_buckets lh then lh_rebucket mem_ok lh new_num_buckets else lh
           else if avg_chain_length < kMinAverageChainLength \<and> num_buckets lh > kMinNumBuckets then
             let new_num_buckets = num_buckets lh div 2
             in lh_rebucket mem_ok lh (if new_num_buckets < kMinNumBuckets then kMinNumBuckets else new_num_buckets)
           else lh)"

text \<open>The results are the return value, \<open>*old_data\<close> and the table.\<close>

definition lh_insert :: "bool list \<Rightarrow> 'a LHASH \<Rightarrow> 'a \<Rightarrow> (bool \<times> 'a option) \<times> 'a LHASH" where
  "lh_insert mem lh data =
     (case get_next_ptr_and_hash lh data of (hash, b, i) \<Rightarrow>
        let chain = buckets lh ! b
        in if i \<noteq> length chain then
             ((True, Some (item_data (chain ! i))),
              lh\<lparr>buckets := (buckets lh)[b := chain[i := (chain ! i)\<lparr>item_data := data\<rparr>]]\<rparr>)
           else (case mem_next mem of (ok, mem) \<Rightarrow>
             if \<not> ok then ((False, None), lh)
             else
               let item = \<lparr>item_data = data, item_hash = hash\<rparr>;
                   lh = lh\<lparr>buckets := (buckets lh)[b := chain @ [item]], num_items := size_add (num_items lh) 1\<rparr>
               in ((True, None), lh_maybe_resize (fst (mem_next mem)) lh)))"

definition lh_delete :: "bool \<Rightarrow> 'a LHASH \<Rightarrow> 'a \<Rightarrow> 'a option \<times> 'a LHASH" where
  "lh_delete mem_ok lh data =
     (case get_next_ptr_and_hash lh data of (_, b, i) \<Rightarrow>
        let chain = buckets lh ! b
        in if i = length chain then (None, lh)
           else
             let lh = lh\<lparr>buckets := (buckets lh)[b := take i chain @ drop (Suc i) chain],
                        num_items := num_items lh - 1\<rparr>
             in (Some (item_data (chain ! i)), lh_maybe_resize mem_ok lh))"

text \<open>A callback that leaves the table alone and works on a state of its own.\<close>

definition UINT_MAX :: nat where "UINT_MAX = 2 ^ 32 - 1"

definition lh_doall_arg :: "bool \<Rightarrow> 'a LHASH option \<Rightarrow> ('a \<Rightarrow> 's \<Rightarrow> 's) \<Rightarrow> 's \<Rightarrow> 's \<times> 'a LHASH option" where
  "lh_doall_arg mem_ok lh func arg =
     (case lh of
        None \<Rightarrow> (arg, None)
      | Some lh \<Rightarrow>
          let lh = (if callback_depth lh < UINT_MAX then lh\<lparr>callback_depth := callback_depth lh + 1\<rparr> else lh);
              arg = foldl (foldl (\<lambda>arg cur. func (item_data cur) arg)) arg (take (num_buckets lh) (buckets lh));
              lh = (if callback_depth lh < UINT_MAX then lh\<lparr>callback_depth := callback_depth lh - 1\<rparr> else lh)
          in (arg, Some (lh_maybe_resize mem_ok lh)))"

definition lh_strhash :: "u8 list option \<Rightarrow> u32" where
  "lh_strhash c = (case c of None \<Rightarrow> 0 | Some c \<Rightarrow> OPENSSL_hash32 (takeWhile (\<lambda>x. x \<noteq> 0) c))"

section \<open>The contract of a keyed set\<close>

text \<open>
  A set of elements, at most one for each key, the keys given by an equivalence that the
  state carries.  \<open>put\<close> and \<open>remove\<close> describe what an update does to the content; what a
  lookup returns afterwards follows here.
\<close>

locale keyed_set =
  fixes wf :: "'s \<Rightarrow> bool" and same :: "'s \<Rightarrow> 'a \<Rightarrow> 'a \<Rightarrow> bool" and content :: "'s \<Rightarrow> 'a set"
    and lookup :: "'s \<Rightarrow> 'a \<Rightarrow> 'a option"
  assumes same: "wf s \<Longrightarrow> equivp (same s)"
    and lookup: "wf s \<Longrightarrow> lookup s x = Some y \<longleftrightarrow> y \<in> content s \<and> same s y x"
begin

definition put :: "'s \<Rightarrow> 'a \<Rightarrow> 's \<Rightarrow> bool" where
  "put s x s' \<longleftrightarrow> wf s' \<and> same s' = same s \<and> content s' = insert x {y \<in> content s. \<not> same s y x}"

definition remove :: "'s \<Rightarrow> 'a \<Rightarrow> 's \<Rightarrow> bool" where
  "remove s x s' \<longleftrightarrow> wf s' \<and> same s' = same s \<and> content s' = {y \<in> content s. \<not> same s y x}"

lemma lookup_None: "wf s \<Longrightarrow> lookup s x = None \<longleftrightarrow> (\<forall>y \<in> content s. \<not> same s y x)"
  using lookup [of s x] by (cases "lookup s x") auto

lemma lookup_same:
  assumes "wf s" "same s x z"
  shows "lookup s x = lookup s z"
proof (rule option_ext)
  fix y
  have "same s y x \<longleftrightarrow> same s y z" using same [OF assms(1)] assms(2) by (metis equivp_symp equivp_transp)
  then show "lookup s x = Some y \<longleftrightarrow> lookup s z = Some y" by (simp add: lookup [OF assms(1)])
qed

lemma lookup_put:
  assumes "wf s" "put s x s'"
  shows "lookup s' z = (if same s x z then Some x else lookup s z)"
proof (rule option_ext)
  fix y
  have p: "wf s'" "same s' = same s" "content s' = insert x {y \<in> content s. \<not> same s y x}"
    using assms(2) by (simp_all add: put_def)
  have "same s y x \<longleftrightarrow> same s y z" if "same s x z"
    using same [OF assms(1)] that by (metis equivp_symp equivp_transp)
  moreover have "\<not> same s y x" if "\<not> same s x z" "same s y z"
    using same [OF assms(1)] that by (metis equivp_symp equivp_transp)
  ultimately show "lookup s' z = Some y \<longleftrightarrow> (if same s x z then Some x else lookup s z) = Some y"
    by (auto simp: lookup [OF assms(1)] lookup [OF p(1)] p(2,3))
qed

lemma lookup_remove:
  assumes "wf s" "remove s x s'"
  shows "lookup s' z = (if same s x z then None else lookup s z)"
proof (rule option_ext)
  fix y
  have p: "wf s'" "same s' = same s" "content s' = {y \<in> content s. \<not> same s y x}"
    using assms(2) by (simp_all add: remove_def)
  have "same s y x \<longleftrightarrow> same s y z" if "same s x z"
    using same [OF assms(1)] that by (metis equivp_symp equivp_transp)
  moreover have "\<not> same s y x" if "\<not> same s x z" "same s y z"
    using same [OF assms(1)] that by (metis equivp_symp equivp_transp)
  ultimately show "lookup s' z = Some y \<longleftrightarrow> (if same s x z then None else lookup s z) = Some y"
    by (auto simp: lookup [OF assms(1)] lookup [OF p(1)] p(2,3))
qed

end

section \<open>The table as a set\<close>

definition lh_same :: "'a LHASH \<Rightarrow> 'a \<Rightarrow> 'a \<Rightarrow> bool" where
  "lh_same lh a b \<longleftrightarrow> lh_comp lh a b = 0"

definition table_data :: "'a LHASH_ITEM list list \<Rightarrow> 'a multiset" where
  "table_data bs = image_mset item_data (mset (concat bs))"

definition lh_content :: "'a LHASH \<Rightarrow> 'a set" where
  "lh_content lh = set_mset (table_data (buckets lh))"

definition at_most_one :: "('a \<Rightarrow> 'a \<Rightarrow> bool) \<Rightarrow> 'a multiset \<Rightarrow> bool" where
  "at_most_one R M \<longleftrightarrow> (\<forall>z. size (filter_mset (\<lambda>x. R x z) M) \<le> 1)"

text \<open>Every item caches its hash and is in the chain that the hash selects.\<close>

definition item_ok :: "('a \<Rightarrow> u32) \<Rightarrow> size_t \<Rightarrow> nat \<Rightarrow> 'a LHASH_ITEM \<Rightarrow> bool" where
  "item_ok hash n b it \<longleftrightarrow> item_hash it = hash (item_data it) \<and> unat (item_hash it) mod n = b"

definition table_ok :: "('a \<Rightarrow> u32) \<Rightarrow> 'a LHASH_ITEM list list \<Rightarrow> bool" where
  "table_ok hash bs \<longleftrightarrow> (\<forall>b < length bs. \<forall>it \<in> set (bs ! b). item_ok hash (length bs) b it)"

definition lh_wf :: "'a LHASH \<Rightarrow> bool" where
  "lh_wf lh \<longleftrightarrow> equivp (lh_same lh) \<and> (\<forall>a b. lh_same lh a b \<longrightarrow> lh_hash lh a = lh_hash lh b) \<and>
     length (buckets lh) = num_buckets lh \<and> kMinNumBuckets \<le> num_buckets lh \<and>
     table_ok (lh_hash lh) (buckets lh) \<and> at_most_one (lh_same lh) (table_data (buckets lh)) \<and>
     num_items lh = size (table_data (buckets lh))"

lemma table_split:
  assumes "b < length bs"
  shows "table_data bs = image_mset item_data (mset (bs ! b)) + table_data (take b bs @ drop (Suc b) bs)"
    and "table_data (bs[b := ch]) = image_mset item_data (mset ch) + table_data (take b bs @ drop (Suc b) bs)"
proof -
  have "concat bs = concat (take b bs) @ bs ! b @ concat (drop (Suc b) bs)"
    by (metis assms concat.simps(2) concat_append id_take_nth_drop)
  then show "table_data bs = image_mset item_data (mset (bs ! b)) + table_data (take b bs @ drop (Suc b) bs)"
    by (simp add: table_data_def)
  show "table_data (bs[b := ch]) = image_mset item_data (mset ch) + table_data (take b bs @ drop (Suc b) bs)"
    using assms by (simp add: table_data_def upd_conv_take_nth_drop)
qed

lemma table_ok_update:
  assumes "table_ok hash bs" "b < length bs"
    and "\<And>it. it \<in> set ch \<Longrightarrow> item_ok hash (length bs) b it"
  shows "table_ok hash (bs[b := ch])"
  using assms by (auto simp: table_ok_def nth_list_update)

lemma chain_pos_le: "chain_pos P ch \<le> length ch"
  by (induction ch) auto

lemma chain_pos_found: "chain_pos P ch \<noteq> length ch \<Longrightarrow> P (item_data (ch ! chain_pos P ch))"
  by (induction ch) auto

lemma chain_pos_absent: "chain_pos P ch = length ch \<longleftrightarrow> (\<forall>it \<in> set ch. \<not> P (item_data it))"
  by (induction ch) auto

lemma at_most_oneD:
  assumes "at_most_one R M" "x \<in># M" "y \<in># M" "R x z" "R y z"
  shows "x = y"
proof (rule ccontr)
  assume ne: "x \<noteq> y"
  let ?F = "filter_mset (\<lambda>x. R x z) M"
  have "x \<in># ?F" "y \<in># ?F" using assms by simp_all
  then have "{#x, y#} \<subseteq># ?F" using ne by (metis insert_subset_eq_iff mset_add single_subset_iff add_mset_remove_trivial insert_noteq_member)
  then have "size {#x, y#} \<le> size ?F" by (rule size_mset_mono)
  moreover have "size ?F \<le> 1" using assms(1) by (simp add: at_most_one_def)
  ultimately show False by simp
qed

text \<open>Where the search for \<open>x\<close> ends.\<close>

definition bucket_of :: "'a LHASH \<Rightarrow> 'a \<Rightarrow> nat" where
  "bucket_of lh x = unat (lh_hash lh x) mod num_buckets lh"

definition chain_of :: "'a LHASH \<Rightarrow> 'a \<Rightarrow> 'a LHASH_ITEM list" where
  "chain_of lh x = buckets lh ! bucket_of lh x"

definition pos_of :: "'a LHASH \<Rightarrow> 'a \<Rightarrow> nat" where
  "pos_of lh x = chain_pos (\<lambda>y. lh_same lh y x) (chain_of lh x)"

lemma get_next_ptr_eq: "get_next_ptr_and_hash lh x = (lh_hash lh x, bucket_of lh x, pos_of lh x)"
  by (simp add: get_next_ptr_and_hash_def bucket_of_def pos_of_def chain_of_def Let_def lh_same_def)

lemma bucket_less: "lh_wf lh \<Longrightarrow> bucket_of lh x < length (buckets lh)"
  by (simp add: lh_wf_def bucket_of_def kMinNumBuckets_def)

lemma chain_subset: "lh_wf lh \<Longrightarrow> it \<in> set (chain_of lh x) \<Longrightarrow> item_data it \<in> lh_content lh"
  using bucket_less [of lh x] nth_mem unfolding lh_content_def table_data_def chain_of_def by fastforce

lemma same_in_chain:
  assumes wf: "lh_wf lh" and y: "y \<in> lh_content lh" "lh_same lh y x"
  obtains it where "it \<in> set (chain_of lh x)" "item_data it = y"
proof -
  obtain it b where it: "b < length (buckets lh)" "it \<in> set (buckets lh ! b)" "item_data it = y"
    using y(1) by (auto simp: lh_content_def table_data_def in_set_conv_nth) (metis nth_mem)
  then have "item_ok (lh_hash lh) (num_buckets lh) b it" using wf by (auto simp: lh_wf_def table_ok_def)
  then have "b = bucket_of lh y" using it(3) unfolding item_ok_def bucket_of_def by metis
  also have "\<dots> = bucket_of lh x" using wf y(2) by (auto simp: lh_wf_def bucket_of_def)
  finally show thesis using it by (intro that) (simp_all add: chain_of_def)
qed

lemma lh_lookup:
  assumes wf: "lh_wf lh"
  shows "lh_retrieve lh x = Some y \<longleftrightarrow> y \<in> lh_content lh \<and> lh_same lh y x"
proof (cases "pos_of lh x = length (chain_of lh x)")
  case True
  then have "\<forall>it \<in> set (chain_of lh x). \<not> lh_same lh (item_data it) x"
    unfolding pos_of_def chain_pos_absent .
  then have "\<not> (y \<in> lh_content lh \<and> lh_same lh y x)" using same_in_chain [OF wf] by metis
  with True show ?thesis by (simp add: lh_retrieve_def get_next_ptr_eq flip: chain_of_def)
next
  case False
  define z where "z = item_data (chain_of lh x ! pos_of lh x)"
  have z: "lh_same lh z x" using chain_pos_found False unfolding pos_of_def z_def by metis
  have "pos_of lh x < length (chain_of lh x)" using False chain_pos_le unfolding pos_of_def by (metis le_neq_implies_less)
  then have zc: "z \<in> lh_content lh" using chain_subset [OF wf nth_mem] by (simp add: z_def)
  have "at_most_one (lh_same lh) (table_data (buckets lh))" using wf by (simp add: lh_wf_def)
  then have "y \<in> lh_content lh \<and> lh_same lh y x \<longleftrightarrow> y = z"
    using at_most_oneD z zc unfolding lh_content_def by metis
  moreover have "lh_retrieve lh x = Some z"
    using False by (simp add: lh_retrieve_def get_next_ptr_eq z_def flip: chain_of_def)
  ultimately show ?thesis by auto
qed

interpretation lh: keyed_set lh_wf lh_same lh_content lh_retrieve
  by unfold_locales (simp add: lh_wf_def, rule lh_lookup)

section \<open>Resizing\<close>

lemma move_item_ok:
  assumes "table_ok hash bs" "length bs = n" "0 < n" "item_hash it = hash (item_data it)"
  shows "table_ok hash (move_item n bs it)" "length (move_item n bs it) = n"
    and "table_data (move_item n bs it) = add_mset (item_data it) (table_data bs)"
proof -
  define b where "b = unat (item_hash it) mod n"
  have b: "b < length bs" using assms(2,3) by (simp add: b_def)
  have eq: "move_item n bs it = bs[b := it # bs ! b]" by (simp add: move_item_def b_def Let_def)
  have "item_ok hash (length bs) b it" using assms(2,4) unfolding item_ok_def b_def by metis
  then have "item_ok hash (length bs) b x" if "x \<in> set (it # bs ! b)" for x
    using that assms(1) b by (cases "x = it") (simp_all add: table_ok_def)
  then show "table_ok hash (move_item n bs it)" unfolding eq by (intro table_ok_update [OF assms(1) b])
  show "length (move_item n bs it) = n" using assms(2) by (simp add: eq)
  show "table_data (move_item n bs it) = add_mset (item_data it) (table_data bs)"
    unfolding eq table_split [OF b] by simp
qed

lemma move_items_ok:
  "table_ok hash bs \<Longrightarrow> length bs = n \<Longrightarrow> 0 < n \<Longrightarrow> (\<forall>it \<in> set its. item_hash it = hash (item_data it)) \<Longrightarrow>
   table_ok hash (foldl (move_item n) bs its) \<and> length (foldl (move_item n) bs its) = n \<and>
   table_data (foldl (move_item n) bs its) = image_mset item_data (mset its) + table_data bs"
  by (induction its arbitrary: bs) (simp_all add: move_item_ok)

lemma foldl_chains: "foldl (foldl f) a xss = foldl f a (concat xss)"
  by (induction xss arbitrary: a) simp_all

lemma rebucket_ok:
  assumes wf: "lh_wf lh" and n: "kMinNumBuckets \<le> n"
  shows "lh_wf (lh_rebucket mem_ok lh n)" "table_data (buckets (lh_rebucket mem_ok lh n)) = table_data (buckets lh)"
    and "lh_same (lh_rebucket mem_ok lh n) = lh_same lh" "lh_hash (lh_rebucket mem_ok lh n) = lh_hash lh"
      "num_items (lh_rebucket mem_ok lh n) = num_items lh"
      "callback_depth (lh_rebucket mem_ok lh n) = callback_depth lh"
    and "mem_ok \<Longrightarrow> 8 * n < 2 ^ 64 \<Longrightarrow> num_buckets (lh_rebucket mem_ok lh n) = n"
proof -
  define bs where "bs = foldl (foldl (move_item n)) (replicate n []) (take (num_buckets lh) (buckets lh))"
  have "item_hash it = lh_hash lh (item_data it)" if "it \<in> set (concat (buckets lh))" for it
    using that wf by (auto simp: lh_wf_def table_ok_def item_ok_def in_set_conv_nth) (metis nth_mem)
  moreover have "table_ok (lh_hash lh) (replicate n [])" by (simp add: table_ok_def)
  moreover have "bs = foldl (move_item n) (replicate n []) (concat (buckets lh))"
    using wf by (simp add: bs_def foldl_chains lh_wf_def)
  moreover have "table_data (replicate n []) = {#}" by (simp add: table_data_def)
  ultimately have bs: "table_ok (lh_hash lh) bs" "length bs = n" "table_data bs = table_data (buckets lh)"
    using move_items_ok [of "lh_hash lh" "replicate n []" n "concat (buckets lh)"] n
    by (simp_all add: kMinNumBuckets_def table_data_def)
  have r: "lh_rebucket mem_ok lh n = (if size_mul 8 n div 8 \<noteq> n \<or> \<not> mem_ok then lh
      else lh\<lparr>num_buckets := n, buckets := bs\<rparr>)"
    by (simp add: lh_rebucket_def Let_def bs_def)
  show "lh_wf (lh_rebucket mem_ok lh n)"
    using wf bs n by (simp add: r lh_wf_def lh_same_def [abs_def])
  show "table_data (buckets (lh_rebucket mem_ok lh n)) = table_data (buckets lh)" using bs by (simp add: r)
  show "lh_same (lh_rebucket mem_ok lh n) = lh_same lh" by (intro ext) (simp add: r lh_same_def)
  show "lh_hash (lh_rebucket mem_ok lh n) = lh_hash lh" "num_items (lh_rebucket mem_ok lh n) = num_items lh"
    "callback_depth (lh_rebucket mem_ok lh n) = callback_depth lh" by (simp_all add: r)
  show "num_buckets (lh_rebucket mem_ok lh n) = n" if "mem_ok" "8 * n < 2 ^ 64"
    unfolding r using that by (simp add: size_mul_exact)
qed

definition resize_target :: "'a LHASH \<Rightarrow> size_t" where
  "resize_target lh =
     (if num_items lh div num_buckets lh > kMaxAverageChainLength \<and> size_mul (num_buckets lh) 2 > num_buckets lh
      then size_mul (num_buckets lh) 2
      else if num_items lh div num_buckets lh < kMinAverageChainLength
      then max kMinNumBuckets (num_buckets lh div 2) else num_buckets lh)"

lemma maybe_resize_cases:
  "lh_maybe_resize mem_ok lh = lh \<or> lh_maybe_resize mem_ok lh = lh_rebucket mem_ok lh (resize_target lh)"
  by (auto simp: lh_maybe_resize_def Let_def resize_target_def kMaxAverageChainLength_def
      kMinAverageChainLength_def max_def)

lemma resize_target_min: "lh_wf lh \<Longrightarrow> kMinNumBuckets \<le> resize_target lh"
  by (auto simp: resize_target_def lh_wf_def)

lemma maybe_resize_ok:
  assumes "lh_wf lh"
  shows "lh_wf (lh_maybe_resize mem_ok lh)"
    "table_data (buckets (lh_maybe_resize mem_ok lh)) = table_data (buckets lh)"
    "lh_same (lh_maybe_resize mem_ok lh) = lh_same lh"
    "num_items (lh_maybe_resize mem_ok lh) = num_items lh"
    "callback_depth (lh_maybe_resize mem_ok lh) = callback_depth lh"
  using maybe_resize_cases [of mem_ok lh] rebucket_ok [OF assms resize_target_min [OF assms], of mem_ok] assms
  by auto

section \<open>Insertion and deletion\<close>

lemma at_most_one_insert:
  assumes "equivp R" "at_most_one R M" "\<forall>y \<in># M. \<not> R y x"
  shows "at_most_one R (add_mset x M)"
proof -
  have "filter_mset (\<lambda>y. R y z) M = {#}" if "R x z" for z
    using that assms(1,3) by (auto simp: filter_mset_eq_mempty_iff) (metis equivp_symp equivp_transp)
  then show ?thesis using assms(2) by (auto simp: at_most_one_def)
qed

lemma at_most_one_subset: "at_most_one R M \<Longrightarrow> N \<subseteq># M \<Longrightarrow> at_most_one R N"
  unfolding at_most_one_def by (meson le_trans multiset_filter_mono size_mset_mono)

lemma filter_same:
  assumes "equivp R" "at_most_one R M" "M = add_mset y N" "R y x"
  shows "set_mset N = {z \<in> set_mset M. \<not> R z x}"
proof -
  have "size (filter_mset (\<lambda>z. R z x) M) \<le> 1" using assms(2) by (simp add: at_most_one_def)
  then have "filter_mset (\<lambda>z. R z x) N = {#}" using assms(3,4) by simp
  then show ?thesis using assms(3,4) by (auto simp: filter_mset_eq_mempty_iff)
qed

lemma chain_data: "lh_wf lh \<Longrightarrow> it \<in> set (chain_of lh x) \<Longrightarrow> item_ok (lh_hash lh) (num_buckets lh) (bucket_of lh x) it"
  using bucket_less [of lh x] by (auto simp: lh_wf_def table_ok_def chain_of_def)

lemma lh_same_update [simp]:
  "lh_same (lh\<lparr>buckets := bs, num_items := n\<rparr>) = lh_same lh" "lh_same (lh\<lparr>buckets := bs\<rparr>) = lh_same lh"
  by (intro ext; simp add: lh_same_def)+

lemma lh_wf_update:
  assumes "lh_wf lh" "table_ok (lh_hash lh) bs" "length bs = length (buckets lh)"
    and "at_most_one (lh_same lh) (table_data bs)" "n = size (table_data bs)"
  shows "lh_wf (lh\<lparr>buckets := bs, num_items := n\<rparr>)"
proof -
  have "lh_hash (lh\<lparr>buckets := bs, num_items := n\<rparr>) = lh_hash lh" by simp
  with assms show ?thesis unfolding lh_wf_def lh_same_update by simp
qed

text \<open>The update before the resizing; the same for a deletion.\<close>

definition same_shape :: "'a LHASH \<Rightarrow> 'a LHASH \<Rightarrow> bool" where
  "same_shape lh lh1 \<longleftrightarrow> num_buckets lh1 = num_buckets lh \<and> callback_depth lh1 = callback_depth lh"

lemma insert_step:
  assumes wf: "lh_wf lh" and room: "num_items lh + 1 < 2 ^ 64"
    and r: "lh_insert mem lh x = ((ok, old), lh')"
  shows "if lh_retrieve lh x = None \<and> \<not> fst (mem_next mem) then \<not> ok \<and> old = None \<and> lh' = lh
    else ok \<and> old = lh_retrieve lh x \<and> (\<exists>lh1. lh.put lh x lh1 \<and> same_shape lh lh1 \<and>
      num_items lh1 = num_items lh + (if lh_retrieve lh x = None then 1 else 0) \<and>
      lh' = (if lh_retrieve lh x = None then lh_maybe_resize (fst (mem_next (snd (mem_next mem)))) lh1 else lh1))"
proof -
  define b where "b = bucket_of lh x"
  define i where "i = pos_of lh x"
  define chain where "chain = chain_of lh x"
  have b: "b < length (buckets lh)" using bucket_less [OF wf] by (simp add: b_def)
  have chain: "buckets lh ! b = chain" by (simp add: chain_def chain_of_def b_def)
  have w: "equivp (lh_same lh)" "at_most_one (lh_same lh) (table_data (buckets lh))"
    "length (buckets lh) = num_buckets lh" "table_ok (lh_hash lh) (buckets lh)"
    "num_items lh = size (table_data (buckets lh))"
    "\<And>a b. lh_same lh a b \<Longrightarrow> lh_hash lh a = lh_hash lh b"
    using wf by (simp_all add: lh_wf_def)
  have retrieve: "lh_retrieve lh x = (if i = length chain then None else Some (item_data (chain ! i)))"
    by (simp add: lh_retrieve_def get_next_ptr_eq flip: b_def i_def, simp add: chain)
  show ?thesis
  proof (cases "i = length chain")
    case absent: True
    show ?thesis
    proof (cases "fst (mem_next mem)")
      case False
      then show ?thesis
        using r absent retrieve
        by (auto simp: lh_insert_def get_next_ptr_eq Let_def simp flip: b_def i_def split: prod.splits)
           (simp_all add: chain)
    next
      case True
      define item where "item = \<lparr>item_data = x, item_hash = lh_hash lh x\<rparr>"
      define lh1 where "lh1 = lh\<lparr>buckets := (buckets lh)[b := chain @ [item]], num_items := num_items lh + 1\<rparr>"
      have lh': "ok" "old = None" "lh' = lh_maybe_resize (fst (mem_next (snd (mem_next mem)))) lh1"
      proof -
        obtain ms where ms: "mem_next mem = (True, ms)" using True by (cases "mem_next mem") simp
        have "lh_insert mem lh x = ((True, None), lh_maybe_resize (fst (mem_next ms)) lh1)"
          unfolding lh_insert_def get_next_ptr_eq prod.case Let_def b_def [symmetric] i_def [symmetric] chain ms
            size_add_exact [OF room] lh1_def item_def
          using absent by simp
        then show "ok" "old = None" "lh' = lh_maybe_resize (fst (mem_next (snd (mem_next mem)))) lh1"
          using r ms by simp_all
      qed
      have none: "\<forall>y \<in># table_data (buckets lh). \<not> lh_same lh y x"
        using lh.lookup_None [OF wf, of x] retrieve absent by (simp add: lh_content_def)
      have data: "table_data (buckets lh1) = add_mset x (table_data (buckets lh))"
        unfolding lh1_def by (simp add: table_split [OF b] chain item_def)
      have "item_ok (lh_hash lh) (length (buckets lh)) b item"
        by (simp add: item_def b_def item_ok_def bucket_of_def w(3))
      then have "item_ok (lh_hash lh) (length (buckets lh)) b y" if "y \<in> set (chain @ [item])" for y
        using that chain_data [OF wf, of y x] w(3) by (auto simp: chain_def b_def)
      then have "table_ok (lh_hash lh) ((buckets lh)[b := chain @ [item]])"
        by (rule table_ok_update [OF w(4) b])
      then have wf1: "lh_wf lh1"
        using data at_most_one_insert [OF w(1,2) none] w(5) unfolding lh1_def
        by (intro lh_wf_update [OF wf]) simp_all
      have same1: "lh_same lh1 = lh_same lh" by (simp add: lh1_def)
      have "lh.put lh x lh1" using wf1 data none same1 by (auto simp: lh.put_def lh_content_def)
      then show ?thesis using lh' True absent retrieve by (auto simp: lh1_def same_shape_def)
    qed
  next
    case False
    then have i: "i < length chain" using chain_pos_le unfolding i_def chain_def pos_of_def by (metis le_neq_implies_less)
    define old_item where "old_item = chain ! i"
    define y where "y = item_data old_item"
    define lh1 where "lh1 = lh\<lparr>buckets := (buckets lh)[b := chain[i := old_item\<lparr>item_data := x\<rparr>]]\<rparr>"
    have lh': "ok" "old = Some y" "lh' = lh1"
      using r False
      by (auto simp: lh_insert_def get_next_ptr_eq Let_def lh1_def y_def old_item_def simp flip: b_def i_def split: if_splits)
         (auto simp: chain)
    have y: "lh_same lh y x" using False chain_pos_found unfolding y_def old_item_def i_def chain_def pos_of_def by metis
    have mem: "old_item \<in> set chain" using i by (simp add: old_item_def)
    define N where "N = image_mset item_data (mset chain - {#old_item#}) + table_data (take b (buckets lh) @ drop (Suc b) (buckets lh))"
    have "mset chain = add_mset old_item (mset chain - {#old_item#})" using mem by simp
    then have "image_mset item_data (mset chain) = add_mset y (image_mset item_data (mset chain - {#old_item#}))"
      unfolding y_def by (metis image_mset_add_mset)
    then have dataM: "table_data (buckets lh) = add_mset y N"
      unfolding table_split(1) [OF b] chain N_def by simp
    have data1: "table_data (buckets lh1) = add_mset x N"
      unfolding lh1_def N_def by (simp add: table_split(2) [OF b] mset_update [OF i] old_item_def)
    note N = filter_same [OF w(1,2) dataM y]
    have "at_most_one (lh_same lh) N" using at_most_one_subset [OF w(2)] dataM by simp
    then have amo: "at_most_one (lh_same lh) (add_mset x N)"
      using at_most_one_insert [OF w(1)] N by simp
    have "item_ok (lh_hash lh) (length (buckets lh)) b z" if "z \<in> set (chain[i := old_item\<lparr>item_data := x\<rparr>])" for z
    proof -
      have "item_ok (lh_hash lh) (length (buckets lh)) b (old_item\<lparr>item_data := x\<rparr>)"
        using chain_data [OF wf, of old_item x] mem w(3) w(6) [OF y]
        by (simp add: chain_def b_def item_ok_def y_def bucket_of_def)
      moreover have "item_ok (lh_hash lh) (length (buckets lh)) b z" if "z \<in> set chain"
        using chain_data [OF wf, of z x] that w(3) by (simp add: chain_def b_def)
      ultimately show ?thesis using that set_update_subset_insert by fastforce
    qed
    then have ok: "table_ok (lh_hash lh) ((buckets lh)[b := chain[i := old_item\<lparr>item_data := x\<rparr>]])"
      by (rule table_ok_update [OF w(4) b])
    have "num_items lh = size (table_data (buckets lh1))" unfolding data1 w(5) dataM by simp
    then have "lh_wf (lh\<lparr>buckets := (buckets lh)[b := chain[i := old_item\<lparr>item_data := x\<rparr>]], num_items := num_items lh\<rparr>)"
      using amo data1 by (intro lh_wf_update [OF wf ok]) (simp_all add: lh1_def)
    moreover have "lh1 = lh\<lparr>buckets := (buckets lh)[b := chain[i := old_item\<lparr>item_data := x\<rparr>]], num_items := num_items lh\<rparr>"
      by (simp add: lh1_def)
    ultimately have wf1: "lh_wf lh1" by (simp only:)
    have same1: "lh_same lh1 = lh_same lh" by (simp add: lh1_def)
    have "lh.put lh x lh1" using wf1 same1 data1 N by (simp add: lh.put_def lh_content_def)
    moreover have "same_shape lh lh1" "num_items lh1 = num_items lh" by (simp_all add: same_shape_def lh1_def)
    ultimately show ?thesis using lh' False retrieve by (auto simp: y_def old_item_def)
  qed
qed

lemma delete_step:
  assumes wf: "lh_wf lh" and r: "lh_delete mem_ok lh x = (old, lh')"
  shows "old = lh_retrieve lh x \<and>
    (if lh_retrieve lh x = None then lh' = lh
     else \<exists>lh1. lh.remove lh x lh1 \<and> same_shape lh lh1 \<and> num_items lh1 + 1 = num_items lh \<and>
       lh' = lh_maybe_resize mem_ok lh1)"
proof -
  define b where "b = bucket_of lh x"
  define i where "i = pos_of lh x"
  define chain where "chain = chain_of lh x"
  have b: "b < length (buckets lh)" using bucket_less [OF wf] by (simp add: b_def)
  have chain: "buckets lh ! b = chain" by (simp add: chain_def chain_of_def b_def)
  have w: "equivp (lh_same lh)" "at_most_one (lh_same lh) (table_data (buckets lh))"
    "length (buckets lh) = num_buckets lh" "table_ok (lh_hash lh) (buckets lh)"
    "num_items lh = size (table_data (buckets lh))"
    using wf by (simp_all add: lh_wf_def)
  have retrieve: "lh_retrieve lh x = (if i = length chain then None else Some (item_data (chain ! i)))"
    by (simp add: lh_retrieve_def get_next_ptr_eq flip: b_def i_def, simp add: chain)
  show ?thesis
  proof (cases "i = length chain")
    case True
    have "lh_delete mem_ok lh x = (None, lh)"
      unfolding lh_delete_def get_next_ptr_eq prod.case Let_def b_def [symmetric] i_def [symmetric] chain
      using True by simp
    with r True retrieve show ?thesis by simp
  next
    case False
    then have i: "i < length chain" using chain_pos_le unfolding i_def chain_def pos_of_def by (metis le_neq_implies_less)
    define y where "y = item_data (chain ! i)"
    define lh1 where "lh1 = lh\<lparr>buckets := (buckets lh)[b := take i chain @ drop (Suc i) chain], num_items := num_items lh - 1\<rparr>"
    have "lh_delete mem_ok lh x = (Some y, lh_maybe_resize mem_ok lh1)"
      unfolding lh_delete_def get_next_ptr_eq prod.case Let_def b_def [symmetric] i_def [symmetric] chain
        lh1_def y_def using False by simp
    with r have lh': "old = Some y" "lh' = lh_maybe_resize mem_ok lh1" by simp_all
    have y: "lh_same lh y x" using False chain_pos_found unfolding y_def i_def chain_def pos_of_def by metis
    have "mset chain = add_mset (chain ! i) (mset (take i chain @ drop (Suc i) chain))"
      using i by (metis id_take_nth_drop mset.simps(2) mset_append union_mset_add_mset_right)
    then have dataM: "table_data (buckets lh) = add_mset y (table_data (buckets lh1))"
      unfolding lh1_def by (simp add: table_split [OF b] chain y_def)
    note N = filter_same [OF w(1,2) dataM y]
    have amo: "at_most_one (lh_same lh) (table_data (buckets lh1))" using at_most_one_subset [OF w(2)] dataM by simp
    have "item_ok (lh_hash lh) (length (buckets lh)) b z" if "z \<in> set (take i chain @ drop (Suc i) chain)" for z
    proof -
      have "z \<in> set chain" using that by (auto dest: in_set_takeD in_set_dropD)
      then show ?thesis using chain_data [OF wf, of z x] w(3) by (simp add: chain_def b_def)
    qed
    then have ok: "table_ok (lh_hash lh) ((buckets lh)[b := take i chain @ drop (Suc i) chain])"
      by (rule table_ok_update [OF w(4) b])
    have "num_items lh - 1 = size (table_data (buckets lh1))" using dataM w(5) by simp
    then have wf1: "lh_wf lh1"
      using amo unfolding lh1_def LHASH.simps by (intro lh_wf_update [OF wf ok]) simp_all
    have same1: "lh_same lh1 = lh_same lh" by (simp add: lh1_def)
    have "lh.remove lh x lh1" using wf1 same1 N by (simp add: lh.remove_def lh_content_def)
    moreover have "num_items lh1 = num_items lh - 1" "same_shape lh lh1" by (simp_all add: lh1_def same_shape_def)
    moreover have "num_items lh \<noteq> 0" unfolding w(5) dataM by simp
    ultimately show ?thesis using lh' False retrieve by (auto simp: y_def)
  qed
qed

lemma put_resize: "lh.put lh x lh1 \<Longrightarrow> lh.put lh x (lh_maybe_resize m lh1)"
  using maybe_resize_ok [of lh1 m] by (simp add: lh.put_def lh_content_def)

lemma remove_resize: "lh.remove lh x lh1 \<Longrightarrow> lh.remove lh x (lh_maybe_resize m lh1)"
  using maybe_resize_ok [of lh1 m] by (simp add: lh.remove_def lh_content_def)

lemma num_items_resize:
  "lh.put lh x lh1 \<Longrightarrow> num_items (lh_maybe_resize m lh1) = num_items lh1"
  "lh.remove lh x lh1 \<Longrightarrow> num_items (lh_maybe_resize m lh1) = num_items lh1"
  using maybe_resize_ok(4) by (auto simp: lh.put_def lh.remove_def)

theorem lh_insert_spec:
  assumes "lh_wf lh" "num_items lh + 1 < 2 ^ 64" "lh_insert mem lh x = ((ok, old), lh')"
  shows "if lh_retrieve lh x = None \<and> \<not> fst (mem_next mem) then \<not> ok \<and> old = None \<and> lh' = lh
    else ok \<and> old = lh_retrieve lh x \<and> lh.put lh x lh' \<and>
      num_items lh' = num_items lh + (if lh_retrieve lh x = None then 1 else 0)"
  using insert_step [OF assms] by (auto simp: put_resize num_items_resize split: if_splits)

theorem lh_delete_spec:
  assumes "lh_wf lh" "lh_delete mem_ok lh x = (old, lh')"
  shows "old = lh_retrieve lh x \<and>
    (if lh_retrieve lh x = None then lh' = lh
     else lh.remove lh x lh' \<and> num_items lh' + 1 = num_items lh)"
  using delete_step [OF assms] by (auto simp: remove_resize num_items_resize split: if_splits)

text \<open>
  The load stays bounded when nothing iterates over the table and the allocations succeed:
  fewer than three items per bucket, and above the minimum size at least one.
\<close>

definition load_ok :: "'a LHASH \<Rightarrow> bool" where
  "load_ok lh \<longleftrightarrow> num_items lh < 3 * num_buckets lh \<and>
     (num_buckets lh = kMinNumBuckets \<or> num_buckets lh \<le> num_items lh)"

text \<open>The number of buckets is always the minimum times a power of two.\<close>

definition pow_buckets :: "'a LHASH \<Rightarrow> bool" where
  "pow_buckets lh \<longleftrightarrow> (\<exists>k. num_buckets lh = kMinNumBuckets * 2 ^ k)"

lemma maybe_resize_eq:
  assumes "callback_depth lh = 0"
  shows "lh_maybe_resize mem_ok lh =
    (if num_items lh div num_buckets lh > 2 then
       if size_mul (num_buckets lh) 2 > num_buckets lh then lh_rebucket mem_ok lh (size_mul (num_buckets lh) 2) else lh
     else if num_items lh div num_buckets lh < 1 \<and> num_buckets lh > 16 then
       lh_rebucket mem_ok lh (if num_buckets lh div 2 < 16 then 16 else num_buckets lh div 2)
     else lh)"
  using assms by (simp add: lh_maybe_resize_def kMaxAverageChainLength_def kMinAverageChainLength_def
      kMinNumBuckets_def Let_def)

lemma maybe_resize_load:
  assumes wf: "lh_wf lh" and pow: "pow_buckets lh" and depth: "callback_depth lh = 0"
    and small: "num_buckets lh < 2 ^ 60"
    and near: "num_items lh \<le> 3 * num_buckets lh"
      "num_buckets lh = kMinNumBuckets \<or> num_buckets lh \<le> num_items lh + 1"
  shows "load_ok (lh_maybe_resize True lh)" "pow_buckets (lh_maybe_resize True lh)"
proof -
  obtain k where k: "num_buckets lh = 16 * 2 ^ k" using pow by (auto simp: pow_buckets_def kMinNumBuckets_def)
  have min: "16 \<le> num_buckets lh" using wf by (simp add: lh_wf_def kMinNumBuckets_def)
  define q where "q = num_items lh div num_buckets lh"
  have mul: "size_mul (num_buckets lh) 2 = 2 * num_buckets lh" using small by (simp add: size_mul_exact mult.commute)
  consider "q > 2" | "q = 1 \<or> q = 2" | "q = 0" "num_buckets lh > 16" | "q = 0" "num_buckets lh = 16"
    using min by linarith
  then have "load_ok (lh_maybe_resize True lh) \<and> pow_buckets (lh_maybe_resize True lh)"
  proof cases
    case 1
    have r: "lh_maybe_resize True lh = lh_rebucket True lh (2 * num_buckets lh)"
      using 1 min mul unfolding maybe_resize_eq [OF depth] q_def by simp
    have "3 * num_buckets lh \<le> q * num_buckets lh" using 1 by (intro mult_le_mono1) simp
    also have "\<dots> \<le> num_items lh" unfolding q_def by simp
    finally have "num_items lh = 3 * num_buckets lh" using near(1) by simp
    then show ?thesis
      unfolding r using rebucket_ok(5,7) [OF wf, of "2 * num_buckets lh" True] min small
      by (simp add: load_ok_def pow_buckets_def kMinNumBuckets_def k) (metis power_Suc)
  next
    case 2
    then have r: "lh_maybe_resize True lh = lh"
      unfolding maybe_resize_eq [OF depth] q_def by auto
    have "num_items lh < (q + 1) * num_buckets lh"
      unfolding q_def using min by (metis Suc_eq_plus1 dividend_less_div_times div_mult_self1_is_m less_le_trans zero_less_numeral mult_Suc)
    also have "\<dots> \<le> 3 * num_buckets lh" using 2 by (intro mult_le_mono1) auto
    finally have "num_items lh < 3 * num_buckets lh" .
    moreover have "1 * num_buckets lh \<le> q * num_buckets lh" using 2 by (intro mult_le_mono1) auto
    then have "num_buckets lh \<le> num_items lh" unfolding q_def by (metis div_times_less_eq_dividend le_trans mult_1)
    ultimately show ?thesis using r pow by (simp add: load_ok_def)
  next
    case 3
    then obtain j where j: "k = Suc j" using k by (cases k) auto
    have half: "num_buckets lh div 2 = 16 * 2 ^ j" using k j by simp
    have r: "lh_maybe_resize True lh = lh_rebucket True lh (num_buckets lh div 2)"
      using 3 half unfolding maybe_resize_eq [OF depth] q_def by simp
    have "num_items lh < num_buckets lh" using 3(1) min unfolding q_def by (simp add: div_eq_0_iff)
    moreover have "num_buckets lh \<le> num_items lh + 1" using near(2) 3(2) by (simp add: kMinNumBuckets_def)
    ultimately have items: "num_items lh + 1 = num_buckets lh" by simp
    have "1 \<le> (2 :: nat) ^ j" by simp
    then show ?thesis
      unfolding r using rebucket_ok(5,7) [OF wf, of "num_buckets lh div 2" True] items small k j half
      by (auto simp: load_ok_def pow_buckets_def kMinNumBuckets_def)
  next
    case 4
    then have r: "lh_maybe_resize True lh = lh"
      unfolding maybe_resize_eq [OF depth] q_def by simp
    have "num_items lh < num_buckets lh" using 4(1) min unfolding q_def by (simp add: div_eq_0_iff)
    then show ?thesis using r pow 4 by (simp add: load_ok_def kMinNumBuckets_def)
  qed
  then show "load_ok (lh_maybe_resize True lh)" "pow_buckets (lh_maybe_resize True lh)" by simp_all
qed

theorem insert_load:
  assumes "lh_wf lh" "pow_buckets lh" "load_ok lh" "callback_depth lh = 0" "num_buckets lh < 2 ^ 60"
  shows "load_ok (snd (lh_insert [] lh x)) \<and> pow_buckets (snd (lh_insert [] lh x))"
proof -
  obtain ok old lh' where r: "lh_insert [] lh x = ((ok, old), lh')" by (metis prod.collapse)
  have mem: "fst (mem_next [])" "snd (mem_next []) = []" by (simp_all add: mem_next_def)
  have room: "num_items lh + 1 < 2 ^ 64" using assms(3,5) by (simp add: load_ok_def)
  from insert_step [OF assms(1) room r] mem obtain lh1 where
    1: "lh.put lh x lh1" "same_shape lh lh1"
      "num_items lh1 = num_items lh + (if lh_retrieve lh x = None then 1 else 0)"
      "lh' = (if lh_retrieve lh x = None then lh_maybe_resize True lh1 else lh1)"
    by auto
  show ?thesis
  proof (cases "lh_retrieve lh x = None")
    case True
    have "lh_wf lh1" using 1(1) by (simp add: lh.put_def)
    moreover have "pow_buckets lh1" "callback_depth lh1 = 0" "num_buckets lh1 < 2 ^ 60"
      "num_items lh1 \<le> 3 * num_buckets lh1" "num_buckets lh1 = kMinNumBuckets \<or> num_buckets lh1 \<le> num_items lh1 + 1"
      using 1(2,3) True assms by (auto simp: same_shape_def load_ok_def pow_buckets_def)
    ultimately show ?thesis using maybe_resize_load [of lh1] 1(4) True r by simp
  next
    case False
    then have "lh' = lh1" "num_items lh1 = num_items lh" using 1(3,4) by (simp_all only: if_False add_0_right)
    then show ?thesis using 1(2) assms r by (simp add: same_shape_def load_ok_def pow_buckets_def)
  qed
qed

theorem delete_load:
  assumes "lh_wf lh" "pow_buckets lh" "load_ok lh" "callback_depth lh = 0" "num_buckets lh < 2 ^ 60"
  shows "load_ok (snd (lh_delete True lh x)) \<and> pow_buckets (snd (lh_delete True lh x))"
proof -
  obtain old lh' where r: "lh_delete True lh x = (old, lh')" by (metis prod.collapse)
  show ?thesis
  proof (cases "lh_retrieve lh x = None")
    case True
    then show ?thesis using delete_step [OF assms(1) r] assms r by simp
  next
    case False
    with delete_step [OF assms(1) r] obtain lh1 where
      1: "lh.remove lh x lh1" "same_shape lh lh1" "num_items lh1 + 1 = num_items lh" "lh' = lh_maybe_resize True lh1"
      by auto
    have "lh_wf lh1" using 1(1) by (simp add: lh.remove_def)
    moreover have "pow_buckets lh1" "callback_depth lh1 = 0" "num_buckets lh1 < 2 ^ 60"
      "num_items lh1 \<le> 3 * num_buckets lh1" "num_buckets lh1 = kMinNumBuckets \<or> num_buckets lh1 \<le> num_items lh1 + 1"
      using 1(2,3) assms by (auto simp: same_shape_def load_ok_def pow_buckets_def)
    ultimately show ?thesis using maybe_resize_load [of lh1] 1(4) r by simp
  qed
qed

lemma lh_new_wf:
  assumes "equivp (\<lambda>a b. cmp a b = 0)" "\<forall>a b. cmp a b = 0 \<longrightarrow> hash a = hash b" "lh_new mem hash cmp = Some lh"
  shows "lh_wf lh" "lh_content lh = {}" "load_ok lh" "pow_buckets lh" "callback_depth lh = 0"
proof -
  have lh: "lh = \<lparr>num_items = 0, buckets = replicate kMinNumBuckets [], num_buckets = kMinNumBuckets,
      callback_depth = 0, lh_comp = cmp, lh_hash = hash\<rparr>"
    using assms(3) by (auto simp: lh_new_def split: prod.splits if_splits)
  have data: "table_data (replicate kMinNumBuckets []) = {#}" by (simp add: table_data_def)
  have "lh_same lh = (\<lambda>a b. cmp a b = 0)" by (intro ext) (simp add: lh_same_def lh)
  then show "lh_wf lh" unfolding lh_wf_def using assms(1,2) by (simp add: lh data table_ok_def at_most_one_def)
  show "lh_content lh = {}" by (simp add: lh_content_def lh data)
  show "load_ok lh" "callback_depth lh = 0" by (simp_all add: load_ok_def lh kMinNumBuckets_def)
  show "pow_buckets lh" unfolding pow_buckets_def by (intro exI [of _ 0]) (simp add: lh)
qed

text \<open>An iteration visits every element once, and leaves the content as it was.\<close>

lemma doall_visits:
  assumes "lh_wf lh"
  shows "\<exists>xs. mset xs = table_data (buckets lh) \<and>
      fst (lh_doall_arg mem_ok (Some lh) func arg) = foldl (\<lambda>s x. func x s) arg xs"
    and "\<exists>lh'. snd (lh_doall_arg mem_ok (Some lh) func arg) = Some lh' \<and> lh_wf lh' \<and> lh_content lh' = lh_content lh"
proof -
  define xs where "xs = map item_data (concat (buckets lh))"
  have b: "take (num_buckets lh) (buckets lh) = buckets lh" using assms by (simp add: lh_wf_def)
  have "foldl (foldl (\<lambda>arg cur. func (item_data cur) arg)) arg (buckets lh) = foldl (\<lambda>s x. func x s) arg xs"
    by (simp add: foldl_chains xs_def foldl_map)
  then show "\<exists>xs. mset xs = table_data (buckets lh) \<and>
      fst (lh_doall_arg mem_ok (Some lh) func arg) = foldl (\<lambda>s x. func x s) arg xs"
    using b by (intro exI [of _ xs]) (simp add: lh_doall_arg_def Let_def xs_def table_data_def)
  obtain n where n: "snd (lh_doall_arg mem_ok (Some lh) func arg) = Some (lh_maybe_resize mem_ok (lh\<lparr>callback_depth := n\<rparr>))"
    by (rule that [of "if callback_depth lh < UINT_MAX \<and> \<not> callback_depth lh + 1 < UINT_MAX
          then callback_depth lh + 1 else callback_depth lh"])
      (auto simp: lh_doall_arg_def Let_def)
  have same: "lh_same (lh\<lparr>callback_depth := n\<rparr>) = lh_same lh" by (intro ext) (simp add: lh_same_def)
  then have "lh_wf (lh\<lparr>callback_depth := n\<rparr>)" using assms unfolding lh_wf_def same by simp
  from maybe_resize_ok [OF this] n
  show "\<exists>lh'. snd (lh_doall_arg mem_ok (Some lh) func arg) = Some lh' \<and> lh_wf lh' \<and> lh_content lh' = lh_content lh"
    by (simp add: lh_content_def)
qed


section \<open>Sequences of operations\<close>

text \<open>The allocations of an operation succeed or fail as its argument says.\<close>

datatype 'a lh_op = Insert 'a "bool list" | Delete 'a bool

fun run_op :: "'a LHASH \<Rightarrow> 'a lh_op \<Rightarrow> 'a LHASH" where
  "run_op lh (Insert x mem) = snd (lh_insert mem lh x)"
| "run_op lh (Delete x mem_ok) = snd (lh_delete mem_ok lh x)"

text \<open>The same on a partial function; an insertion of a new key fails when memory does.\<close>

fun map_op :: "('a \<Rightarrow> 'a \<Rightarrow> bool) \<Rightarrow> ('a \<Rightarrow> 'a option) \<Rightarrow> 'a lh_op \<Rightarrow> 'a \<Rightarrow> 'a option" where
  "map_op R m (Insert x mem) =
     (if m x = None \<and> \<not> fst (mem_next mem) then m else (\<lambda>z. if R x z then Some x else m z))"
| "map_op R m (Delete x _) = (\<lambda>z. if R x z then None else m z)"

lemma run_op_ok:
  assumes wf: "lh_wf lh" and room: "num_items lh + 1 < 2 ^ 64"
  shows "lh_wf (run_op lh op) \<and> lh_same (run_op lh op) = lh_same lh \<and>
    num_items (run_op lh op) \<le> num_items lh + 1 \<and> callback_depth (run_op lh op) = callback_depth lh \<and>
    lh_retrieve (run_op lh op) = map_op (lh_same lh) (lh_retrieve lh) op"
proof (cases op)
  case (Insert x mem)
  obtain ok old lh' where r: "lh_insert mem lh x = ((ok, old), lh')" by (metis prod.collapse)
  show ?thesis
  proof (cases "lh_retrieve lh x = None \<and> \<not> fst (mem_next mem)")
    case True
    with lh_insert_spec [OF wf room r] wf Insert r show ?thesis by simp
  next
    case False
    from insert_step [OF wf room r] False obtain lh1 m where
      1: "lh.put lh x lh1" "same_shape lh lh1" "lh' = lh1 \<or> lh' = lh_maybe_resize m lh1" by metis
    then have "callback_depth lh' = callback_depth lh"
      using maybe_resize_ok(5) [of lh1 m] by (auto simp: same_shape_def lh.put_def)
    moreover have p: "lh.put lh x lh'" using 1 put_resize by metis
    moreover have "lh_retrieve lh' = (\<lambda>z. if lh_same lh x z then Some x else lh_retrieve lh z)"
      using lh.lookup_put [OF wf p] by blast
    moreover have "num_items lh' \<le> num_items lh + 1"
      using lh_insert_spec [OF wf room r] False by (simp split: if_splits)
    moreover have "map_op (lh_same lh) (lh_retrieve lh) (Insert x mem) =
        (\<lambda>z. if lh_same lh x z then Some x else lh_retrieve lh z)"
      using False by (simp only: map_op.simps if_False)
    ultimately show ?thesis unfolding Insert run_op.simps r snd_conv by (simp add: lh.put_def)
  qed
next
  case (Delete x mem_ok)
  obtain old lh' where r: "lh_delete mem_ok lh x = (old, lh')" by force
  show ?thesis
  proof (cases "lh_retrieve lh x = None")
    case True
    have "map_op (lh_same lh) (lh_retrieve lh) (Delete x mem_ok) = lh_retrieve lh"
      using lh.lookup_same [OF wf] True by (intro ext) (metis map_op.simps(2))
    with lh_delete_spec [OF wf r] True wf Delete r show ?thesis by simp
  next
    case False
    from delete_step [OF wf r] False obtain lh1 where
      1: "lh.remove lh x lh1" "same_shape lh lh1" "lh' = lh_maybe_resize mem_ok lh1" by auto
    then have "callback_depth lh' = callback_depth lh"
      using maybe_resize_ok(5) [of lh1 mem_ok] by (auto simp: same_shape_def lh.remove_def)
    moreover have p: "lh.remove lh x lh'" using 1 remove_resize by metis
    moreover have "lh_retrieve lh' = (\<lambda>z. if lh_same lh x z then None else lh_retrieve lh z)"
      using lh.lookup_remove [OF wf p] by blast
    moreover have "num_items lh' \<le> num_items lh + 1"
      using lh_delete_spec [OF wf r] False by simp
    ultimately show ?thesis unfolding Delete run_op.simps map_op.simps r snd_conv
      by (simp add: lh.remove_def)
  qed
qed

lemma run_ops_ok:
  "lh_wf lh \<Longrightarrow> num_items lh + length ops < 2 ^ 64 \<Longrightarrow>
   lh_wf (foldl run_op lh ops) \<and> lh_same (foldl run_op lh ops) = lh_same lh \<and>
   num_items (foldl run_op lh ops) \<le> num_items lh + length ops \<and>
   lh_retrieve (foldl run_op lh ops) = foldl (map_op (lh_same lh)) (lh_retrieve lh) ops"
proof (induction ops arbitrary: lh)
  case (Cons op ops)
  have "num_items lh + 1 < 2 ^ 64" using Cons.prems(2) by simp
  note step = run_op_ok [OF Cons.prems(1) this, of op]
  have "num_items (run_op lh op) + length ops < 2 ^ 64" using step Cons.prems(2) by simp
  from Cons.IH [OF _ this] step show ?case by simp
qed simp

text \<open>An operation whose allocations all succeed.\<close>

fun lucky :: "'a lh_op \<Rightarrow> bool" where
  "lucky (Insert x mem) = (mem = [])"
| "lucky (Delete x mem_ok) = mem_ok"

lemma buckets_bound: "load_ok lh \<Longrightarrow> num_items lh < 2 ^ 60 \<Longrightarrow> num_buckets lh < 2 ^ 60"
  by (auto simp: load_ok_def kMinNumBuckets_def)

lemma run_ops_load:
  "lh_wf lh \<Longrightarrow> pow_buckets lh \<Longrightarrow> load_ok lh \<Longrightarrow> callback_depth lh = 0 \<Longrightarrow> list_all lucky ops \<Longrightarrow>
   num_items lh + length ops < 2 ^ 60 \<Longrightarrow> load_ok (foldl run_op lh ops) \<and> pow_buckets (foldl run_op lh ops)"
proof (induction ops arbitrary: lh)
  case (Cons op ops)
  have "num_items lh + 1 < 2 ^ 64" "num_items lh < 2 ^ 60" using Cons.prems(6) by simp_all
  note step = run_op_ok [OF Cons.prems(1) this(1), of op] and small = buckets_bound [OF Cons.prems(3) this(2)]
  have "load_ok (run_op lh op) \<and> pow_buckets (run_op lh op)"
    using insert_load [OF Cons.prems(1-4) small] delete_load [OF Cons.prems(1-4) small] Cons.prems(5)
    by (cases op) simp_all
  moreover have "num_items (run_op lh op) + length ops < 2 ^ 60" using step Cons.prems(6) by simp
  ultimately show ?case using Cons.IH [of "run_op lh op"] step Cons.prems(4,5) by simp
qed simp

section \<open>The properties\<close>

text \<open>
  C35.  The table refines a partial function.  After any sequence of insertions and deletions, each
  with its own allocation failures, every lookup in the table gives what the same sequence of updates
  of a partial function gives, the invariant holds, and the number of items is the number of elements.\<close>

theorem table_refines_map:
  assumes "lh_wf lh" "num_items lh + length ops < 2 ^ 64"
  shows "lh_wf (foldl run_op lh ops) \<and>
    lh_retrieve (foldl run_op lh ops) = foldl (map_op (\<lambda>a b. lh_comp lh a b = 0)) (lh_retrieve lh) ops \<and>
    num_items (foldl run_op lh ops) = size (table_data (buckets (foldl run_op lh ops)))"
proof -
  have "lh_same lh = (\<lambda>a b. lh_comp lh a b = 0)" by (intro ext) (simp add: lh_same_def)
  moreover have "num_items (foldl run_op lh ops) = size (table_data (buckets (foldl run_op lh ops)))"
    using run_ops_ok [OF assms] by (simp add: lh_wf_def)
  ultimately show ?thesis using run_ops_ok [OF assms] by metis
qed

definition by_last_digit :: "nat LHASH" where
  "by_last_digit = the (lh_new [] (\<lambda>a. of_nat (a mod 10)) (\<lambda>a b. int (a mod 10) - int (b mod 10)))"

lemma by_last_digit_ok:
  "lh_wf by_last_digit" "num_items by_last_digit = 0" "load_ok by_last_digit" "pow_buckets by_last_digit"
  "callback_depth by_last_digit = 0" "lh_comp by_last_digit a b = int (a mod 10) - int (b mod 10)"
  "lh_retrieve by_last_digit x = None"
proof -
  let ?hash = "\<lambda>a :: nat. of_nat (a mod 10) :: u32" and ?cmp = "\<lambda>a b. int (a mod 10) - int (b mod 10)"
  have eq: "equivp (\<lambda>a b. ?cmp a b = 0)" by (auto simp: equivp_def fun_eq_iff)
  have lh: "lh_new [] ?hash ?cmp = Some by_last_digit"
    by (simp add: by_last_digit_def lh_new_def mem_next_def)
  have hash: "\<forall>a b. ?cmp a b = 0 \<longrightarrow> ?hash a = ?hash b" by (metis eq_iff_diff_eq_0 of_nat_eq_iff)
  note new = lh_new_wf [OF eq hash lh]
  show "lh_wf by_last_digit" "load_ok by_last_digit" "pow_buckets by_last_digit" "callback_depth by_last_digit = 0"
    using new by blast+
  show "lh_retrieve by_last_digit x = None" using lh.lookup_None [OF new(1)] new(2) by simp
  show "num_items by_last_digit = 0" "lh_comp by_last_digit a b = ?cmp a b"
    using lh by (simp_all add: lh_new_def mem_next_def) (metis LHASH.select_convs)+
qed

theorem table_refines_map_witness:
  "lh_retrieve (foldl run_op by_last_digit [Insert 12 [], Insert 7 [False], Insert 32 [], Insert 5 [], Delete 15 True]) 2
     = Some 32 \<and>
   lh_retrieve (foldl run_op by_last_digit [Insert 12 [], Insert 7 [False], Insert 32 [], Insert 5 [], Delete 15 True]) 5
     = None"
proof -
  let ?ops = "[Insert 12 [], Insert 7 [False], Insert 32 [], Insert 5 [], Delete 15 True]"
  have "lh_retrieve (foldl run_op by_last_digit ?ops) =
      foldl (map_op (\<lambda>a b. lh_comp by_last_digit a b = 0)) (lh_retrieve by_last_digit) ?ops"
    using table_refines_map [of by_last_digit ?ops] by (simp add: by_last_digit_ok)
  then show ?thesis by (simp add: by_last_digit_ok mem_next_def)
qed

text \<open>
  C36.  The return values: an insertion reports the element it replaced, if any, and fails exactly when
  the key is new and no memory is granted for the item, leaving the table as it was; a deletion returns
  the element it removed.\<close>

theorem table_results:
  assumes "lh_wf lh" "num_items lh + 1 < 2 ^ 64"
  shows "fst (lh_insert mem lh x) =
      (if lh_retrieve lh x = None \<and> \<not> fst (mem_next mem) then (False, None) else (True, lh_retrieve lh x)) \<and>
    (lh_retrieve lh x = None \<and> \<not> fst (mem_next mem) \<longrightarrow> snd (lh_insert mem lh x) = lh) \<and>
    fst (lh_delete mem_ok lh x) = lh_retrieve lh x"
proof -
  obtain ok old lh' old' lh'' where r: "lh_insert mem lh x = ((ok, old), lh')" "lh_delete mem_ok lh x = (old', lh'')"
    by (metis prod.collapse)
  from lh_insert_spec [OF assms r(1)] lh_delete_spec [OF assms(1) r(2)] r show ?thesis
    by (simp split: if_splits)
qed

theorem table_results_witness:
  "fst (lh_insert [False] by_last_digit 4) = (False, None) \<and> fst (lh_insert [] by_last_digit 4) = (True, None) \<and>
   fst (lh_delete True by_last_digit 4) = None"
  using table_results [OF by_last_digit_ok(1), of "[False]" 4] table_results [OF by_last_digit_ok(1), of "[]" 4]
  by (simp add: by_last_digit_ok mem_next_def)

text \<open>
  The load factor: in a new table, as long as allocations succeed, after any sequence of
  insertions and deletions there are fewer than three items for every bucket, so chains stay short on
  average, and no more buckets than items unless the table has its minimal size of 16.\<close>

theorem table_load:
  assumes "equivp (\<lambda>a b. cmp a b = 0)" "\<forall>a b. cmp a b = 0 \<longrightarrow> hash a = hash b" "lh_new mem hash cmp = Some lh"
    and "list_all lucky ops" "length ops < 2 ^ 60"
  shows "num_items (foldl run_op lh ops) < 3 * num_buckets (foldl run_op lh ops) \<and>
    (num_buckets (foldl run_op lh ops) = 16 \<or> num_buckets (foldl run_op lh ops) \<le> num_items (foldl run_op lh ops)) \<and>
    (\<exists>k. num_buckets (foldl run_op lh ops) = 16 * 2 ^ k)"
proof -
  note new = lh_new_wf [OF assms(1-3)]
  have "num_items lh = 0" using assms(3) by (auto simp: lh_new_def split: prod.splits if_splits)
  with run_ops_load [OF new(1,4,3,5) assms(4)] assms(5) show ?thesis
    by (simp add: load_ok_def pow_buckets_def kMinNumBuckets_def)
qed

end
