(* ===== verification/Blocks.thy ===== *)
theory Blocks
  imports Prelude
begin

unbundle bit_operations_syntax

text \<open>
  The digests of \<open>crypto/fipsmodule\<close> hand whole blocks of their input to a block function
  \<open>(state, data, num)\<close>.  \<open>fold_blocks\<close> says what such a function means: one compression per
  block, in order.  \<open>block_loop\<close> is the contract of the code's loops, \<open>block_function\<close> the one
  the collectors rely on; the first gives the second.
\<close>

section \<open>Rotations and loops of the code\<close>

definition ROTATE :: "u32 \<Rightarrow> nat \<Rightarrow> u32" where
  "ROTATE a n = push_bit n a OR drop_bit (32 - n) a"

lemma rotate_left:
  assumes "0 < n" "n < LENGTH('a)"
  shows "push_bit n a OR drop_bit (LENGTH('a) - n) a = word_rotr (LENGTH('a) - n) (a :: 'a :: len word)"
proof (rule bit_word_eqI)
  fix k assume k: "k < LENGTH('a)"
  show "bit (push_bit n a OR drop_bit (LENGTH('a) - n) a) k \<longleftrightarrow> bit (word_rotr (LENGTH('a) - n) a) k"
  proof (cases "n \<le> k")
    case True
    then have "(k + (LENGTH('a) - n)) mod LENGTH('a) = k - n"
      using assms k by (simp add: le_mod_geq)
    moreover have "\<not> bit a (LENGTH('a) - n + k)"
      using True assms bit_imp_le_length [of a "LENGTH('a) - n + k"] by auto
    ultimately show ?thesis using True k
      by (simp add: bit_simps bit_word_rotr_iff add.commute)
  next
    case False
    then have "(k + (LENGTH('a) - n)) mod LENGTH('a) = LENGTH('a) - n + k"
      using assms by simp
    then show ?thesis using False k by (simp add: bit_simps bit_word_rotr_iff add.commute)
  qed
qed

lemma rotate_right:
  assumes "0 < n" "n < LENGTH('a)"
  shows "drop_bit n a OR push_bit (LENGTH('a) - n) a = word_rotr n (a :: 'a :: len word)"
  using rotate_left [of "LENGTH('a) - n" a] assms by (simp add: or.commute)

lemma ROTATE_rotr: "0 < n \<Longrightarrow> n < 32 \<Longrightarrow> ROTATE a n = word_rotr (32 - n) a"
  using rotate_left [of n a] by (simp add: ROTATE_def)

lemma ROTATE_rotl:
  assumes "0 < n" "n < 32"
  shows "ROTATE a n = word_rotl n a"
proof -
  have "word_rotr (32 - n) a = word_rotl n a"
  proof (rule bit_word_eqI)
    fix k assume "k < LENGTH(32)"
    then show "bit (word_rotr (32 - n) a) k \<longleftrightarrow> bit (word_rotl n a) k"
      using assms by (simp add: bit_word_rotr_iff bit_word_rotl_iff)
  qed
  then show ?thesis using ROTATE_rotr [OF assms] by simp
qed

text \<open>\<open>for (i = lo; i < hi; i += step) body\<close>\<close>

function for_loop :: "nat \<Rightarrow> nat \<Rightarrow> nat \<Rightarrow> (nat \<Rightarrow> 's \<Rightarrow> 's) \<Rightarrow> 's \<Rightarrow> 's" where
  "for_loop i hi step body s = (if i < hi \<and> 0 < step then for_loop (i + step) hi step body (body i s) else s)"
  by pat_completeness auto
termination by (relation "measure (\<lambda>(i, hi, _). hi - i)") auto

declare for_loop.simps [simp del]

lemma for_loop_fold:
  assumes "0 < step" "\<And>k s. body (i + step * k) s = fold f [i + step * k..<i + step * k + step] s"
  shows "for_loop i (i + step * n) step body s = fold f [i..<i + step * n] s"
  using assms(2)
proof (induction n arbitrary: i s)
  case 0
  then show ?case by (subst for_loop.simps) simp
next
  case (Suc n)
  have e: "i + step * Suc n = (i + step) + step * n" by simp
  have "[i..<(i + step) + step * n] = [i..<i + step] @ [i + step..<(i + step) + step * n]"
    by (rule upt_add_eq_append) simp
  moreover have "i < (i + step) + step * n" using assms(1) by simp
  then have "for_loop i ((i + step) + step * n) step body s = for_loop (i + step) ((i + step) + step * n) step body (body i s)"
    using assms(1) by (subst for_loop.simps) (simp only: simp_thms if_True)
  moreover have "body i s = fold f [i..<i + step] s" using Suc.prems [of 0] by simp
  moreover have "body (i + step + step * k) s = fold f [i + step + step * k..<i + step + step * k + step] s" for k s
    using Suc.prems [of "Suc k"] by (simp add: add.assoc)
  ultimately show ?case using Suc.IH [of "i + step"] unfolding e by (simp only: fold_append o_apply)
qed

section \<open>Words of a block\<close>

text \<open>The words that a code's \<open>HOST_c2l\<close> reads one after the other.\<close>

primrec load_words :: "(u8 list \<Rightarrow> 'a :: len word \<times> u8 list) \<Rightarrow> nat \<Rightarrow> u8 list \<Rightarrow> 'a word list" where
  "load_words c2l 0 data = []"
| "load_words c2l (Suc n) data = (let (l, data) = c2l data in l # load_words c2l n data)"

lemma length_load_words [simp]: "length (load_words c2l n data) = n"
  by (induction n arbitrary: data) (auto simp: split: prod.splits)

lemma load_words_nth:
  assumes "\<And>d. snd (c2l d) = drop k d" "i < n"
  shows "load_words c2l n data ! i = fst (c2l (drop (k * i) data))"
  using assms(2)
proof (induction n arbitrary: data i)
  case (Suc n)
  then show ?case
    by (cases i) (simp_all add: case_prod_beta assms(1) add.commute)
qed simp

definition be_words :: "nat \<Rightarrow> u8 list \<Rightarrow> 'a :: len word list" where
  "be_words k m = map (\<lambda>i. of_nat (be_nat (take k (drop (k * i) m)))) [0..<16]"

definition le_words :: "nat \<Rightarrow> u8 list \<Rightarrow> 'a :: len word list" where
  "le_words k m = map (\<lambda>i. of_nat (be_nat (rev (take k (drop (k * i) m))))) [0..<16]"

lemma slice_take:
  assumes "i < 16" shows "take k (drop (k * i) (take (16 * k) m)) = take k (drop (k * i) m)"
proof -
  have "k * i + k \<le> 16 * k" using mult_le_mono2 [of "Suc i" 16 k] assms by (simp add: mult.commute)
  then show ?thesis by (simp add: take_drop min_def)
qed

lemma be_words_take: "be_words k (take (16 * k) m) = be_words k m"
  by (simp add: be_words_def slice_take)

lemma le_words_take: "le_words k (take (16 * k) m) = le_words k m"
  by (simp add: le_words_def slice_take)

lemma load_words_map:
  assumes "\<And>d. k \<le> length d \<Longrightarrow> c2l d = (val (take k d), drop k d)" "k * n \<le> length data"
  shows "load_words c2l n data = map (\<lambda>i. val (take k (drop (k * i) data))) [0..<n]"
  using assms(2)
proof (induction n arbitrary: data)
  case (Suc n)
  have "k * n \<le> length (drop k data)" using Suc.prems by simp
  then have "load_words c2l n (drop k data) = map (\<lambda>i. val (take k (drop (k * i) (drop k data)))) [0..<n]"
    by (rule Suc.IH)
  then show ?case using assms(1) [of data] Suc.prems
    unfolding map_upt_Suc by (simp add: add.commute)
qed simp

section \<open>Message schedules\<close>

text \<open>
  A schedule extends the words of a block, one word at a time, each from the ones before it.
  The code keeps the last sixteen in a window, word \<open>t\<close> in place \<open>t mod 16\<close>.
\<close>

primrec schedule :: "('a list \<Rightarrow> 'a) \<Rightarrow> nat \<Rightarrow> 'a list \<Rightarrow> 'a list" where
  "schedule f 0 W = W"
| "schedule f (Suc n) W = (let W = schedule f n W in W @ [f W])"

lemma length_schedule [simp]: "length (schedule f n W) = length W + n"
  by (induction n) (simp_all add: Let_def)

lemma schedule_prefix: "t < length W + m \<Longrightarrow> m \<le> n \<Longrightarrow> schedule f n W ! t = schedule f m W ! t"
proof (induction n)
  case (Suc n)
  then show ?case
    by (cases "m = Suc n") (simp_all add: Let_def nth_append)
qed simp

lemma schedule_start: "t < length W \<Longrightarrow> schedule f n W ! t = W ! t"
  using schedule_prefix [of t W 0 n] by simp

lemma take_schedule: "m \<le> n \<Longrightarrow> take (length W + m) (schedule f n W) = schedule f m W"
proof (intro nth_equalityI)
  fix i assume "m \<le> n" "i < length (take (length W + m) (schedule f n W))"
  then show "take (length W + m) (schedule f n W) ! i = schedule f m W ! i"
    using schedule_prefix [of i W m n f] by simp
qed simp

lemma schedule_next:
  assumes "length W = k" "t < n" and V: "V = schedule f n W"
  shows "V ! (k + t) = f (take (k + t) V)"
proof -
  have "V ! (k + t) = schedule f (Suc t) W ! (k + t)"
    unfolding V using assms(1,2) by (intro schedule_prefix) simp_all
  also have "\<dots> = f (schedule f t W)" using assms(1) by (simp add: Let_def nth_append)
  finally show ?thesis unfolding V using take_schedule [of t n W f] assms(1,2) by simp
qed

definition window :: "'a list \<Rightarrow> 'a list \<Rightarrow> nat \<Rightarrow> bool" where
  "window X W m \<longleftrightarrow> length X = 16 \<and> (\<forall>j<16. X ! ((m + j) mod 16) = W ! (m + j))"

lemma window_at:
  assumes "window X W m" "k < 16"
  shows "X ! ((16 + m + k) mod 16) = W ! (m + k)"
proof -
  have "(16 + m + k) mod 16 = (m + k) mod 16" by (simp add: add.assoc)
  with assms show ?thesis by (simp add: window_def)
qed

lemma mod_window:
  assumes "i mod n = j mod n" "i - n < j" "j \<le> i" shows "i = (j :: nat)"
proof -
  have "n dvd i - j" using assms(1,3) by (metis mod_eq_dvd_iff_nat)
  moreover have "i - j < n" using assms(2,3) by linarith
  ultimately have "i - j = 0" using dvd_imp_le [of n "i - j"] by linarith
  then show ?thesis using assms(3) by simp
qed

lemma window_step:
  assumes X: "window X W m" and w: "w = W ! (16 + m)"
  shows "window (X[(16 + m) mod 16 := w]) W (Suc m)"
proof -
  have "X[(16 + m) mod 16 := w] ! ((Suc m + j) mod 16) = W ! (Suc m + j)" if "j < 16" for j
  proof (cases "j = 15")
    case True
    have "(16 + m) mod 16 = (Suc m + j) mod 16" "Suc m + j = 16 + m" using True by simp_all
    then show ?thesis using X w by (simp add: window_def)
  next
    case False
    have "(16 + m) mod 16 \<noteq> (Suc m + j) mod 16"
      using mod_window [of "16 + m" 16 "Suc m + j"] False that by auto
    then have "X[(16 + m) mod 16 := w] ! ((Suc m + j) mod 16) = X ! ((m + Suc j) mod 16)"
      by simp
    moreover have "X ! ((m + Suc j) mod 16) = W ! (m + Suc j)"
      using X [unfolded window_def, THEN conjunct2, rule_format, of "Suc j"] False that by simp
    ultimately show ?thesis by simp
  qed
  moreover have "length (X[(16 + m) mod 16 := w]) = 16" using X by (simp add: window_def)
  ultimately show ?thesis unfolding window_def by blast
qed

section \<open>The meaning of a block function\<close>

function fold_blocks :: "nat \<Rightarrow> ('s \<Rightarrow> u8 list \<Rightarrow> 's) \<Rightarrow> 's \<Rightarrow> u8 list \<Rightarrow> 's" where
  "fold_blocks bs f st m =
     (if bs = 0 \<or> length m < bs then st else fold_blocks bs f (f st (take bs m)) (drop bs m))"
  by pat_completeness auto
termination by (relation "measure (\<lambda>(bs, f, st, m). length m)") auto

declare fold_blocks.simps [simp del]

lemma fold_blocks_short: "length m < bs \<Longrightarrow> fold_blocks bs f st m = st"
  by (simp add: fold_blocks.simps)

lemma fold_blocks_step:
  "0 < bs \<Longrightarrow> length b = bs \<Longrightarrow> fold_blocks bs f st (b @ m) = fold_blocks bs f (f st b) m"
  by (subst fold_blocks.simps) simp

lemma fold_blocks_cong:
  assumes "\<And>st b. length b = bs \<Longrightarrow> f st b = g st b"
  shows "fold_blocks bs f st m = fold_blocks bs g st m"
proof (induction "length m" arbitrary: st m rule: less_induct)
  case less
  show ?case
  proof (cases "bs = 0 \<or> length m < bs")
    case False
    then have "length (drop bs m) < length m" "length (take bs m) = bs" by auto
    with less False assms show ?thesis
      by (subst (1 2) fold_blocks.simps) simp
  qed (subst (1 2) fold_blocks.simps, simp)
qed

section \<open>What the collectors rely on\<close>

locale block_function =
  fixes bs :: nat and blk :: "'s \<Rightarrow> u8 list \<Rightarrow> nat \<Rightarrow> 's"
  assumes bs_pos: "0 < bs"
    and blk_append: "0 < m \<Longrightarrow> 0 < n \<Longrightarrow> length xs = bs * m \<Longrightarrow> bs * n \<le> length ys \<Longrightarrow>
      blk st (xs @ ys) (m + n) = blk (blk st xs m) ys n"
    and blk_take: "0 < n \<Longrightarrow> bs * n \<le> length xs \<Longrightarrow> blk st (take (bs * n) xs) n = blk st xs n"
begin

text \<open>The state after the whole blocks of a message.\<close>

definition absorb :: "'s \<Rightarrow> u8 list \<Rightarrow> 's" where
  "absorb st m = (if length m < bs then st else blk st m (length m div bs))"

lemma div_pos: "bs \<le> n \<Longrightarrow> 0 < n div bs"
  using bs_pos by (simp add: div_greater_zero_iff)

lemma absorb_short: "length m < bs \<Longrightarrow> absorb st m = st"
  by (simp add: absorb_def)

lemma absorb_take: "absorb st (take (bs * (length m div bs)) m) = absorb st m"
proof (cases "length m < bs")
  case False
  have "bs * (length m div bs) \<le> length m" by simp
  then have "length (take (bs * (length m div bs)) m) = bs * (length m div bs)" by simp
  with False blk_take [of "length m div bs" m st] div_pos [of "length m"] bs_pos
  show ?thesis by (simp add: absorb_def)
qed (use bs_pos in \<open>simp add: absorb_def\<close>)

lemma absorb_append:
  assumes "bs dvd length xs"
  shows "absorb st (xs @ ys) = absorb (absorb st xs) ys"
proof (cases "xs = []")
  case False
  obtain m where m: "length xs = bs * m" using assms by (elim dvdE)
  with False have m0: "0 < m" by (cases m) auto
  have d: "length (xs @ ys) div bs = m + length ys div bs" "length xs div bs = m" "\<not> length xs < bs"
    using m m0 bs_pos by simp_all
  show ?thesis
  proof (cases "length ys < bs")
    case True
    then have "length (xs @ ys) div bs = m" using d by simp
    moreover have "take (bs * m) (xs @ ys) = xs" using m by simp
    then have "blk st (xs @ ys) m = blk st xs m" using blk_take [of m "xs @ ys" st] m m0 by simp
    ultimately show ?thesis using d(2,3) True by (simp add: absorb_def)
  next
    case False
    then have "0 < length ys div bs" by (intro div_pos) simp
    with blk_append [OF m0 this m, of ys st] d False show ?thesis
      by (simp add: absorb_def)
  qed
qed (simp add: absorb_def bs_pos)

lemma blk_absorb: "0 < n \<Longrightarrow> length xs = bs * n \<Longrightarrow> blk st xs n = absorb st xs"
  using bs_pos by (simp add: absorb_def)

lemma length_rest: "length (drop (bs * (length m div bs)) m) = length m mod bs"
  by (simp add: minus_mult_div_eq_mod)

text \<open>Completing a partial block.\<close>

lemma absorb_block:
  assumes "length (drop (bs * (length m div bs)) m @ xs) = bs"
  shows "blk (absorb st m) (drop (bs * (length m div bs)) m @ xs) 1 = absorb st (m @ xs)"
proof -
  define k where "k = bs * (length m div bs)"
  have "k \<le> length m" by (simp add: k_def)
  then have k: "length (take k m) = k" by simp
  have "m @ xs = take k m @ (drop k m @ xs)" by simp
  then have "absorb st (m @ xs) = absorb (absorb st (take k m)) (drop k m @ xs)"
    using absorb_append [of "take k m"] k by (metis dvd_triv_left k_def)
  moreover have "absorb st (take k m) = absorb st m" unfolding k_def by (rule absorb_take)
  moreover have "blk (absorb st m) (drop k m @ xs) 1 = absorb (absorb st m) (drop k m @ xs)"
    using assms by (intro blk_absorb) (simp_all add: k_def)
  ultimately show ?thesis by (simp add: k_def)
qed

end

section \<open>The code's loops\<close>

locale block_loop =
  fixes bs :: nat and one :: "'s \<Rightarrow> u8 list \<Rightarrow> 's" and blk :: "'s \<Rightarrow> u8 list \<Rightarrow> nat \<Rightarrow> 's"
  assumes loop_pos: "0 < bs"
    and blk_once: "blk st m (Suc 0) = one st m"
    and blk_next: "0 < n \<Longrightarrow> blk st m (Suc n) = blk (one st m) (drop bs m) n"
    and one_take: "bs \<le> length m \<Longrightarrow> one st (take bs m) = one st m"
begin

lemma loop_append:
  assumes "0 < m" "0 < n" "length xs = bs * m"
  shows "blk st (xs @ ys) (m + n) = blk (blk st xs m) ys n"
  using assms
proof (induction m arbitrary: st xs)
  case (Suc m)
  have le: "bs \<le> length xs" using Suc.prems by simp
  have one: "one st (xs @ ys) = one st xs"
    using one_take [of "xs @ ys" st] one_take [of xs st] le by simp
  show ?case
  proof (cases "m = 0")
    case True
    with Suc.prems le one show ?thesis by (simp add: blk_once blk_next)
  next
    case False
    have "length (drop bs xs) = bs * m" using Suc.prems by simp
    with Suc.IH [of "drop bs xs" "one st xs"] False Suc.prems le one show ?thesis
      by (simp add: blk_next)
  qed
qed simp

lemma loop_take:
  assumes "0 < n" "bs * n \<le> length xs"
  shows "blk st (take (bs * n) xs) n = blk st xs n"
  using assms
proof (induction n arbitrary: st xs)
  case (Suc n)
  have le: "bs \<le> length xs" using Suc.prems by simp
  have one: "one st (take (bs * Suc n) xs) = one st xs"
    using one_take [of "take (bs * Suc n) xs" st] one_take [of xs st] le Suc.prems by (simp add: min_def)
  show ?case
  proof (cases "n = 0")
    case True
    with one show ?thesis by (simp add: blk_once)
  next
    case False
    have "drop bs (take (bs * Suc n) xs) = take (bs * n) (drop bs xs)" by (simp add: drop_take)
    with Suc.IH [of "drop bs xs" "one st xs"] False Suc.prems one show ?thesis
      by (simp add: blk_next)
  qed
qed simp

end

sublocale block_loop \<subseteq> block_function
  by unfold_locales (use loop_pos loop_append loop_take in auto)

context block_loop
begin

lemma absorb_fold: "absorb st m = fold_blocks bs one st m"
proof (induction "length m" arbitrary: st m rule: less_induct)
  case less
  show ?case
  proof (cases "length m < bs")
    case False
    have "absorb st m = absorb (absorb st (take bs m)) (drop bs m)"
      using absorb_append [of "take bs m" st "drop bs m"] False by simp
    moreover have "absorb st (take bs m) = one st (take bs m)"
      using blk_absorb [of 1 "take bs m" st] False by (simp add: blk_once)
    moreover have "fold_blocks bs one st m = fold_blocks bs one (one st (take bs m)) (drop bs m)"
      using False loop_pos by (subst fold_blocks.simps) simp
    moreover have "length (drop bs m) < length m" using False loop_pos by simp
    ultimately show ?thesis using less by simp
  qed (simp add: absorb_short fold_blocks_short)
qed

lemma blk_fold:
  assumes "0 < n" "bs * n \<le> length m"
  shows "blk st m n = fold_blocks bs one st (take (bs * n) m)"
proof -
  have "blk st (take (bs * n) m) n = absorb st (take (bs * n) m)"
    using assms by (intro blk_absorb) simp_all
  then show ?thesis using loop_take [OF assms] absorb_fold by simp
qed

end

end
