(* ===== verification/Sha2.thy ===== *)
theory Sha2
  imports Blocks
begin

unbundle bit_operations_syntax

text \<open>
  The part SHA-256 and SHA-512 share.  \<open>sha2_compress\<close> is the compression function of FIPS
  180-4 (section 6.2.2 and 6.4.2) for any word length: a message schedule that is computed
  first, then rounds that move eight working variables along.  \<open>sha2_rounds\<close> is what the
  macros of \<open>sha256.c\<close> and \<open>sha512.c\<close> promise; from it follows that their unrolled rounds,
  which rename the variables instead of moving them and keep only the last sixteen words of
  the schedule, compute that function.
\<close>

section \<open>FIPS 180-4\<close>

type_synonym 'a regs = "'a word \<times> 'a word \<times> 'a word \<times> 'a word \<times> 'a word \<times> 'a word \<times> 'a word \<times> 'a word"

definition regs :: "'a :: len word list \<Rightarrow> 'a regs" where
  "regs st = (st ! 0, st ! 1, st ! 2, st ! 3, st ! 4, st ! 5, st ! 6, st ! 7)"

definition add_regs :: "'a :: len word list \<Rightarrow> 'a regs \<Rightarrow> 'a word list" where
  "add_regs st = (\<lambda>(a, b, c, d, e, f, g, h).
     [st ! 0 + a, st ! 1 + b, st ! 2 + c, st ! 3 + d, st ! 4 + e, st ! 5 + f, st ! 6 + g, st ! 7 + h])"

definition sha2_schedule ::
    "('a :: len word \<Rightarrow> 'a word) \<Rightarrow> ('a word \<Rightarrow> 'a word) \<Rightarrow> nat \<Rightarrow> 'a word list \<Rightarrow> 'a word list" where
  "sha2_schedule s0 s1 =
     schedule (\<lambda>W. let t = length W in s1 (W ! (t - 2)) + W ! (t - 7) + s0 (W ! (t - 15)) + W ! (t - 16))"

definition sha2_step ::
    "('a :: len word \<Rightarrow> 'a word) \<Rightarrow> ('a word \<Rightarrow> 'a word) \<Rightarrow> 'a word \<Rightarrow> 'a word \<Rightarrow> 'a regs \<Rightarrow> 'a regs" where
  "sha2_step S0 S1 k w = (\<lambda>(a, b, c, d, e, f, g, h).
     let T1 = h + S1 e + ((e AND f) XOR (NOT e AND g)) + k + w;
         T2 = S0 a + ((a AND b) XOR (a AND c) XOR (b AND c))
     in (T1 + T2, a, b, c, d + T1, e, f, g))"

definition sha2_compress ::
    "('a :: len word \<Rightarrow> 'a word) \<Rightarrow> ('a word \<Rightarrow> 'a word) \<Rightarrow> ('a word \<Rightarrow> 'a word) \<Rightarrow> ('a word \<Rightarrow> 'a word) \<Rightarrow>
     'a word list \<Rightarrow> 'a word list \<Rightarrow> 'a word list \<Rightarrow> 'a word list" where
  "sha2_compress S0 S1 s0 s1 K st M =
     (let W = sha2_schedule s0 s1 (length K - 16) M
      in add_regs st (fold (\<lambda>t. sha2_step S0 S1 (K ! t) (W ! t)) [0..<length K] (regs st)))"

lemma sha2_schedule_next:
  assumes "length W = 16" "t < n" and V: "V = sha2_schedule s0 s1 n W"
  shows "V ! (16 + t) = s1 (V ! (14 + t)) + V ! (9 + t) + s0 (V ! (1 + t)) + V ! t"
proof -
  define U where "U = take (16 + t) V"
  have U: "length U = 16 + t" "\<And>k. k < 16 + t \<Longrightarrow> U ! k = V ! k"
    using assms by (simp_all add: U_def sha2_schedule_def)
  have "V ! (16 + t) = s1 (U ! (length U - 2)) + U ! (length U - 7) + s0 (U ! (length U - 15)) + U ! (length U - 16)"
    using schedule_next [OF assms(1,2) V [unfolded sha2_schedule_def]] by (simp add: Let_def flip: U_def)
  moreover have "length U - 2 = 14 + t" "length U - 7 = 9 + t" "length U - 15 = 1 + t" "length U - 16 = t"
    using U(1) by simp_all
  ultimately show ?thesis using U(2) by simp
qed

section \<open>Unrolled rounds\<close>

text \<open>
  Eight rounds of the code.  A round works on the variables its macro call names; \<open>X\<close> is what
  the round keeps besides them.
\<close>

definition sha2_eight :: "(nat \<Rightarrow> 'z \<times> 'a :: len regs \<Rightarrow> 'z \<times> 'a regs) \<Rightarrow> nat \<Rightarrow> 'z \<times> 'a regs \<Rightarrow> 'z \<times> 'a regs" where
  "sha2_eight R i = (\<lambda>(X, a, b, c, d, e, f, g, h).
     let (X, a, b, c, d, e, f, g, h) = R (i + 0) (X, a, b, c, d, e, f, g, h);
         (X, h, a, b, c, d, e, f, g) = R (i + 1) (X, h, a, b, c, d, e, f, g);
         (X, g, h, a, b, c, d, e, f) = R (i + 2) (X, g, h, a, b, c, d, e, f);
         (X, f, g, h, a, b, c, d, e) = R (i + 3) (X, f, g, h, a, b, c, d, e);
         (X, e, f, g, h, a, b, c, d) = R (i + 4) (X, e, f, g, h, a, b, c, d);
         (X, d, e, f, g, h, a, b, c) = R (i + 5) (X, d, e, f, g, h, a, b, c);
         (X, c, d, e, f, g, h, a, b) = R (i + 6) (X, c, d, e, f, g, h, a, b);
         (X, b, c, d, e, f, g, h, a) = R (i + 7) (X, b, c, d, e, f, g, h, a)
     in (X, a, b, c, d, e, f, g, h))"

definition rot8 :: "'z \<times> 'a :: len regs \<Rightarrow> 'z \<times> 'a regs" where
  "rot8 = (\<lambda>(X, a, b, c, d, e, f, g, h). (X, h, a, b, c, d, e, f, g))"

lemma regs_cases:
  obtains X a b c d e f g h where "p = (X, a, b, c, d, e, f, g, h)"
  by (cases p) auto

lemma regs_cases8:
  obtains a b c d e f g h where "v = ((a, b, c, d, e, f, g, h) :: 'a :: len regs)"
  by (cases v) auto

lemma sha2_eight_fold: "sha2_eight R i p = fold (\<lambda>i p. rot8 (R i p)) [i..<i + 8] p"
proof -
  have l: "[i..<i + 8] = [i + 0, i + 1, i + 2, i + 3, i + 4, i + 5, i + 6, i + 7]"
    by (simp add: upt_rec)
  obtain X a b c d e f g h where p: "p = (X, a, b, c, d, e, f, g, h)"
    by (rule regs_cases)
  obtain X1 a1 b1 c1 d1 e1 f1 g1 h1 where 1: "R (i + 0) (X, a, b, c, d, e, f, g, h) = (X1, b1, c1, d1, e1, f1, g1, h1, a1)"
    by (rule regs_cases)
  obtain X2 a2 b2 c2 d2 e2 f2 g2 h2 where 2: "R (i + 1) (X1, a1, b1, c1, d1, e1, f1, g1, h1) = (X2, b2, c2, d2, e2, f2, g2, h2, a2)"
    by (rule regs_cases)
  obtain X3 a3 b3 c3 d3 e3 f3 g3 h3 where 3: "R (i + 2) (X2, a2, b2, c2, d2, e2, f2, g2, h2) = (X3, b3, c3, d3, e3, f3, g3, h3, a3)"
    by (rule regs_cases)
  obtain X4 a4 b4 c4 d4 e4 f4 g4 h4 where 4: "R (i + 3) (X3, a3, b3, c3, d3, e3, f3, g3, h3) = (X4, b4, c4, d4, e4, f4, g4, h4, a4)"
    by (rule regs_cases)
  obtain X5 a5 b5 c5 d5 e5 f5 g5 h5 where 5: "R (i + 4) (X4, a4, b4, c4, d4, e4, f4, g4, h4) = (X5, b5, c5, d5, e5, f5, g5, h5, a5)"
    by (rule regs_cases)
  obtain X6 a6 b6 c6 d6 e6 f6 g6 h6 where 6: "R (i + 5) (X5, a5, b5, c5, d5, e5, f5, g5, h5) = (X6, b6, c6, d6, e6, f6, g6, h6, a6)"
    by (rule regs_cases)
  obtain X7 a7 b7 c7 d7 e7 f7 g7 h7 where 7: "R (i + 6) (X6, a6, b6, c6, d6, e6, f6, g6, h6) = (X7, b7, c7, d7, e7, f7, g7, h7, a7)"
    by (rule regs_cases)
  obtain X8 a8 b8 c8 d8 e8 f8 g8 h8 where 8: "R (i + 7) (X7, a7, b7, c7, d7, e7, f7, g7, h7) = (X8, b8, c8, d8, e8, f8, g8, h8, a8)"
    by (rule regs_cases)
  show ?thesis
    unfolding l p sha2_eight_def by (simp only: Let_def case_prod_conv 1 2 3 4 5 6 7 8 rot8_def list.simps fold_simps)
qed

lemma sha2_sixteen: "sha2_eight R 8 (sha2_eight R 0 p) = fold (\<lambda>i p. rot8 (R i p)) [0..<16] p"
proof -
  have "[0..<16] = [0..<0 + 8] @ [8..<8 + 8]" using upt_add_eq_append [of 0 8 8] by simp
  then show ?thesis by (simp only: sha2_eight_fold fold_append o_apply)
qed

section \<open>What the macros promise\<close>

text \<open>A round after the sixteenth takes its word of the schedule from the window \<open>X\<close>.\<close>

locale sha2_window =
  fixes S0 S1 s0 s1 :: "'a :: len word \<Rightarrow> 'a word" and K :: "'a word list"
    and later :: "nat \<Rightarrow> 'a word list \<times> 'a regs \<Rightarrow> 'a word list \<times> 'a regs"
  assumes K_length: "16 \<le> length K"
    and later: "length X = 16 \<Longrightarrow> rot8 (later i (X, v)) =
      (let w = s1 (X ! ((i + 14) mod 16)) + X ! ((i + 9) mod 16) + s0 (X ! ((i + 1) mod 16)) + X ! (i mod 16)
       in (X[i mod 16 := w], sha2_step S0 S1 (K ! i) w v))"
begin

abbreviation steps :: "'a word list \<Rightarrow> nat \<Rightarrow> 'a regs \<Rightarrow> 'a regs" where
  "steps W n \<equiv> fold (\<lambda>t. sha2_step S0 S1 (K ! t) (W ! t)) [0..<n]"

lemma later_rounds:
  assumes X: "length X = 16" and W: "W = sha2_schedule s0 s1 n X"
  shows "\<exists>X'. fold (\<lambda>i p. rot8 (later i p)) [16..<16 + n] (X, steps W 16 v) = (X', steps W (16 + n) v)"
proof -
  have "\<exists>X'. fold (\<lambda>i p. rot8 (later i p)) [16..<16 + m] (X, steps W 16 v) = (X', steps W (16 + m) v) \<and>
      window X' W m" if "m \<le> n" for m
    using that
  proof (induction m)
    case 0
    then show ?case using X W by (auto simp: window_def sha2_schedule_def schedule_start)
  next
    case (Suc m)
    then obtain X' where IH: "fold (\<lambda>i p. rot8 (later i p)) [16..<16 + m] (X, steps W 16 v) = (X', steps W (16 + m) v)"
      "window X' W m"
      by auto
    define w where "w = s1 (X' ! ((16 + m + 14) mod 16)) + X' ! ((16 + m + 9) mod 16) +
      s0 (X' ! ((16 + m + 1) mod 16)) + X' ! ((16 + m) mod 16)"
    have w: "w = W ! (16 + m)"
      using window_at [OF IH(2), of 14] window_at [OF IH(2), of 9] window_at [OF IH(2), of 1]
        window_at [OF IH(2), of 0] sha2_schedule_next [OF X _ W, of m] Suc.prems
      unfolding w_def by (simp add: add.commute)
    have X': "length X' = 16" using IH(2) by (simp add: window_def)
    have step: "rot8 (later (16 + m) (X', u)) = (X'[(16 + m) mod 16 := w], sha2_step S0 S1 (K ! (16 + m)) w u)" for u
      unfolding later [OF X'] Let_def w_def by (rule refl)
    have l: "[16..<16 + Suc m] = [16..<16 + m] @ [16 + m]" "[0..<16 + Suc m] = [0..<16 + m] @ [16 + m]"
      using upt_Suc_append [of 16 "16 + m"] upt_Suc_append [of 0 "16 + m"] by simp_all
    have "fold (\<lambda>i p. rot8 (later i p)) [16..<16 + Suc m] (X, steps W 16 v) =
        (X'[(16 + m) mod 16 := w], steps W (16 + Suc m) v)"
      unfolding l fold_append o_apply IH(1) fold_simps step w ..
    then show ?case using window_step [OF IH(2) w] by blast
  qed
  then show ?thesis by blast
qed

text \<open>The whole function, once the first sixteen rounds have filled the window.\<close>

lemma window_rounds:
  assumes M: "length M = 16"
  shows "add_regs st (snd (fold (\<lambda>i p. rot8 (later i p)) [16..<length K] (M, steps M 16 (regs st)))) =
    sha2_compress S0 S1 s0 s1 K st M"
proof -
  define W where "W = sha2_schedule s0 s1 (length K - 16) M"
  have "steps M 16 v = steps W 16 v" for v
    by (rule fold_cong) (simp_all add: W_def M sha2_schedule_def schedule_start)
  then show ?thesis
    using later_rounds [OF M W_def, of "regs st"] K_length
    by (auto simp: sha2_compress_def simp flip: W_def)
qed

end

text \<open>The first sixteen rounds of \<open>sha256.c\<close> read their words one after the other.\<close>

locale sha2_rounds = sha2_window S0 S1 s0 s1 K later
  for S0 S1 s0 s1 :: "'a :: len word \<Rightarrow> 'a word" and K later +
  fixes c2l :: "u8 list \<Rightarrow> 'a word \<times> u8 list" and ws :: nat
    and first :: "nat \<Rightarrow> ('a word list \<times> u8 list) \<times> 'a regs \<Rightarrow> ('a word list \<times> u8 list) \<times> 'a regs"
  assumes c2l: "snd (c2l data) = drop ws data"
    and first: "rot8 (first i ((X, data), v)) =
      ((X[i := fst (c2l data)], snd (c2l data)), sha2_step S0 S1 (K ! i) (fst (c2l data)) v)"
begin

lemma first_rounds:
  assumes "length X = 16" "n \<le> 16"
  shows "\<exists>X' data'. fold (\<lambda>i p. rot8 (first i p)) [0..<n] ((X, data), v) =
      ((X', data'), steps (load_words c2l 16 data) n v) \<and> length X' = 16 \<and>
      load_words c2l (16 - n) data' = drop n (load_words c2l 16 data) \<and>
      (\<forall>j<n. X' ! j = load_words c2l 16 data ! j) \<and> data' = drop (ws * n) data"
  using assms(2)
proof (induction n)
  case (Suc n)
  define M where "M = load_words c2l 16 data"
  obtain X' data' where IH: "fold (\<lambda>i p. rot8 (first i p)) [0..<n] ((X, data), v) = ((X', data'), steps M n v)"
    "length X' = 16" "load_words c2l (16 - n) data' = drop n M" "\<forall>j<n. X' ! j = M ! j" "data' = drop (ws * n) data"
    using Suc by (auto simp: M_def)
  have "length M = 16" by (simp add: M_def)
  then have "drop n M = M ! n # drop (Suc n) M" using Suc.prems by (simp add: Cons_nth_drop_Suc)
  moreover have "16 - n = Suc (16 - Suc n)" using Suc.prems by simp
  ultimately have "fst (c2l data') = M ! n" "load_words c2l (16 - Suc n) (snd (c2l data')) = drop (Suc n) M"
    using IH(3) by (simp_all add: case_prod_beta)
  then show ?case using IH Suc.prems
    by (auto simp: first c2l nth_list_update less_Suc_eq add.commute simp flip: M_def)
qed (simp add: assms)

lemma all_rounds:
  assumes "length X = 16"
  shows "\<exists>X' v. sha2_eight first 8 (sha2_eight first 0 ((X, data), regs st)) = ((X', drop (ws * 16) data), v) \<and>
    add_regs st (snd (fold (\<lambda>i p. rot8 (later i p)) [16..<length K] (X', v))) =
      sha2_compress S0 S1 s0 s1 K st (load_words c2l 16 data)"
proof -
  define M where "M = load_words c2l 16 data"
  obtain X' where X': "sha2_eight first 8 (sha2_eight first 0 ((X, data), regs st)) =
      ((X', drop (ws * 16) data), steps M 16 (regs st))" "length X' = 16" "\<forall>j<16. X' ! j = M ! j"
    using first_rounds [OF assms order_refl, of data "regs st"] unfolding sha2_sixteen M_def by auto
  have "X' = M" using X'(2,3) by (intro nth_equalityI) (simp_all add: M_def)
  then show ?thesis using X'(1) window_rounds [of M st] by (auto simp: M_def)
qed

end

end
