(* ===== verification/Collector.thy ===== *)
theory Collector
  imports Blocks
begin

unbundle bit_operations_syntax

text \<open>
  What the two collectors of the digests, \<open>md32_common.h\<close> and \<open>sha512.c\<close>, have in common: a
  count of the message's bits in two words, a buffer with the bytes after the last whole
  block, and the padding at the end.  No definition here models code.
\<close>

section \<open>The bit count\<close>

text \<open>\<open>Nh\<close> and \<open>Nl\<close> hold the number of bits modulo the square of the word size.\<close>

definition bit_count :: "'a :: len word \<Rightarrow> 'a word \<Rightarrow> nat \<Rightarrow> bool" where
  "bit_count Nh Nl n \<longleftrightarrow> Nl = of_nat (8 * n) \<and> Nh = of_nat (8 * n div 2 ^ LENGTH('a))"

lemma bit_count_0 [simp]: "bit_count 0 0 0"
  by (simp add: bit_count_def)

lemma div_add_carry:
  "(a + b) div m = a div m + b div m + (if m \<le> a mod m + b mod m then 1 else 0)" if "0 < m" for a b m :: nat
proof -
  have "(a + b) div m = a div m + b div m + (a mod m + b mod m) div m" by (rule div_add1_eq)
  moreover have "a mod m + b mod m - m < m"
    using mod_less_divisor [OF that, of a] mod_less_divisor [OF that, of b] by linarith
  then have "(a mod m + b mod m) div m = (if m \<le> a mod m + b mod m then 1 else 0)"
    using that by (auto simp: le_div_geq)
  ultimately show ?thesis by simp
qed

lemma wrap_less:
  assumes "a < m" "b < (m :: nat)"
  shows "(a + b) mod m < a \<longleftrightarrow> m \<le> a + b"
proof (cases "m \<le> a + b")
  case True
  have "a + b - m < m" using assms by linarith
  with True have "(a + b) mod m = a + b - m" by (simp add: le_mod_geq)
  with True assms show ?thesis by linarith
qed simp

lemma carry_bits:
  "(of_nat (a + b) :: 'a :: len word) < of_nat a \<longleftrightarrow>
   2 ^ LENGTH('a) \<le> a mod 2 ^ LENGTH('a) + b mod 2 ^ LENGTH('a)"
proof -
  define p where "p = (2 :: nat) ^ LENGTH('a)"
  have p: "a mod p < p" "b mod p < p" by (simp_all add: p_def)
  have "(a + b) mod p = (a mod p + b mod p) mod p" by (simp add: mod_add_eq)
  moreover have "unat (of_nat x :: 'a word) = x mod p" for x by (simp add: unat_of_nat p_def)
  ultimately show ?thesis using wrap_less [OF p] by (simp only: word_less_nat_alt p_def)
qed

lemma bit_count_add:
  fixes Nh Nl :: "'a :: len word"
  assumes c: "bit_count Nh Nl n" and l: "l = Nl + push_bit 3 (of_nat k)" and w: "3 \<le> LENGTH('a)"
  shows "bit_count ((if l < Nl then Nh + 1 else Nh) + of_nat (k div 2 ^ (LENGTH('a) - 3))) l (n + k)"
proof -
  have l': "l = of_nat (8 * n + 8 * k)" using c l by (simp add: bit_count_def push_bit_eq_mult algebra_simps)
  have e: "(8 :: nat) * 2 ^ (LENGTH('a) - 3) = 2 ^ LENGTH('a)"
    using w power_add [of "2 :: nat" 3 "LENGTH('a) - 3"] by simp
  have "8 * k div 2 ^ LENGTH('a) = k div 2 ^ (LENGTH('a) - 3)"
    unfolding e [symmetric] by (rule div_mult_mult1) simp
  then have "(8 * n + 8 * k) div 2 ^ LENGTH('a) = 8 * n div 2 ^ LENGTH('a) + k div 2 ^ (LENGTH('a) - 3) +
      (if 2 ^ LENGTH('a) \<le> 8 * n mod 2 ^ LENGTH('a) + 8 * k mod 2 ^ LENGTH('a) then 1 else 0)"
    using div_add_carry [of "2 ^ LENGTH('a)" "8 * n" "8 * k"] by simp
  moreover have "l < Nl \<longleftrightarrow> 2 ^ LENGTH('a) \<le> 8 * n mod 2 ^ LENGTH('a) + 8 * k mod 2 ^ LENGTH('a)"
    using c carry_bits [of "8 * n" "8 * k", where ?'a = 'a] unfolding l' bit_count_def by simp
  ultimately show ?thesis using c l' by (simp add: bit_count_def distrib_left)
qed

section \<open>The buffer\<close>

context block_function
begin

text \<open>The message \<open>m\<close> so far: its whole blocks are in the state \<open>h\<close>, the rest in the buffer.\<close>

definition held :: "'s \<Rightarrow> u8 list \<Rightarrow> 's \<Rightarrow> u8 list \<Rightarrow> nat \<Rightarrow> bool" where
  "held iv m h buf n \<longleftrightarrow> h = absorb iv m \<and> length buf = bs \<and> n = length m mod bs \<and>
     take n buf = drop (bs * (length m div bs)) m"

lemma held_less: "held iv m h buf n \<Longrightarrow> n < bs"
  using bs_pos by (simp add: held_def)

lemma held_Nil: "length buf = bs \<Longrightarrow> held iv [] iv buf 0"
  using bs_pos by (simp add: held_def absorb_short)

lemma blit_held:
  assumes "held iv m h buf n"
  shows "blit buf n xs = drop (bs * (length m div bs)) m @ xs @ drop (n + length xs) buf"
  using assms unfolding held_def blit_def by metis

lemma held_blocks:
  assumes m: "held iv m h buf 0" and k: "k = length d div bs"
  shows "held iv (m @ d) (if 0 < k then blk h d k else h) (blit buf 0 (drop (bs * k) d)) (length d mod bs)"
proof -
  have dv: "bs dvd length m" and h: "h = absorb iv m" and b: "length buf = bs"
    using m by (auto simp: held_def mod_eq_0_iff_dvd)
  obtain q where q: "length m = bs * q" using dv by (elim dvdE)
  have "absorb iv (m @ d) = (if 0 < k then blk h d k else h)"
    using absorb_append [OF dv, of iv d] h bs_pos by (auto simp: absorb_def k div_eq_0_iff)
  moreover have "length (m @ d) mod bs = length d mod bs" "length (m @ d) div bs = q + k"
    using q bs_pos by (simp_all add: k)
  moreover have "drop (bs * (q + k)) (m @ d) = drop (bs * k) d" using q by (simp add: distrib_left)
  moreover have "length (drop (bs * k) d) = length d mod bs" by (simp add: k minus_mult_div_eq_mod)
  moreover have "length d mod bs \<le> bs" using bs_pos by (simp add: less_imp_le)
  ultimately show ?thesis using b by (simp add: held_def blit_def)
qed

lemma held_fill:
  assumes m: "held iv m h buf n" and xs: "n + length xs = bs" and b: "length buf' = bs"
  shows "held iv (m @ xs) (blk h (blit buf n xs) 1) buf' 0"
proof -
  have "blit buf n xs = drop (bs * (length m div bs)) m @ xs"
    using blit_held [OF m, of xs] m xs by (simp add: held_def)
  moreover have "length (drop (bs * (length m div bs)) m @ xs) = bs"
    using m xs length_rest [of m] by (simp add: held_def)
  ultimately have h: "blk h (blit buf n xs) 1 = absorb iv (m @ xs)"
    using m absorb_block [of m xs iv] by (simp add: held_def)
  have "length m = bs * (length m div bs) + n" using m by (simp add: held_def)
  then have "length (m @ xs) = bs * (length m div bs + 1)"
    using xs unfolding length_append distrib_left by linarith
  then show ?thesis using h b bs_pos by (simp add: held_def)
qed

lemma held_keep:
  assumes m: "held iv m h buf n" and d: "n + length d < bs"
  shows "held iv (m @ d) h (blit buf n d) (n + length d)"
proof -
  define k where "k = length m div bs"
  have mk: "length m = bs * k + n" and b: "length buf = bs"
    using m by (simp_all add: held_def k_def)
  then have q: "length (m @ d) div bs = k" "length (m @ d) mod bs = n + length d"
    using d by (simp_all add: add.assoc)
  have "take (bs * k) (m @ d) = take (bs * k) m" using mk by simp
  then have "absorb iv (m @ d) = absorb iv m"
    using absorb_take [of iv "m @ d"] absorb_take [of iv m] q(1) by (simp add: k_def)
  moreover have "drop (bs * k) (m @ d) = drop (bs * k) m @ d" using mk by simp
  moreover have "take (n + length d) (blit buf n d) = drop (bs * k) m @ d"
    using blit_held [OF m, of d] mk unfolding k_def [symmetric] by simp
  ultimately show ?thesis using m q b d by (simp add: held_def)
qed

end

section \<open>The padding\<close>

text \<open>
  One bit, zeros, and the number of bits, so that the padded message is a whole number of
  blocks of \<open>bs\<close> bytes.
\<close>

definition padding :: "nat \<Rightarrow> u8 list \<Rightarrow> nat \<Rightarrow> u8 list" where
  "padding bs len n = 0x80 # replicate ((2 * bs - length len - 1 - n mod bs) mod bs) 0 @ len"

text \<open>The last blocks of both collectors: \<open>h\<close>, the buffer and the number of bytes in it.\<close>

definition last_blocks :: "nat \<Rightarrow> ('s \<Rightarrow> u8 list \<Rightarrow> nat \<Rightarrow> 's) \<Rightarrow> u8 list \<Rightarrow> 's \<Rightarrow> u8 list \<Rightarrow> nat \<Rightarrow> 's" where
  "last_blocks bs blk len h buf n =
     (let buf = buf[n := 0x80]; n = n + 1;
          (h, buf, n) =
            (if n > bs - length len then
               let buf = blit buf n (replicate (bs - n) 0) in (blk h buf 1, buf, 0)
             else (h, buf, n));
          buf = blit buf n (replicate (bs - length len - n) 0);
          buf = blit buf (bs - length len) len
      in blk h buf 1)"

context block_function
begin

lemma absorb_padding:
  assumes m: "held iv m h buf n" and len: "length len < bs"
  shows "last_blocks bs blk len h buf n = absorb iv (m @ padding bs len (length m))"
proof -
  define rest where "rest = drop (bs * (length m div bs)) m"
  define L where "L = length len"
  have h: "h = absorb iv m" "n = length m mod bs" and b: "length buf = bs"
    using m by (simp_all add: held_def)
  have n: "n < bs" "length rest = n" and L: "L < bs"
    using held_less [OF m] length_rest [of m] len by (simp_all add: rest_def h L_def)
  define t where "t = drop (Suc n) buf"
  have t: "length t = bs - Suc n" by (simp add: t_def b)
  have d1: "buf[n := 0x80] = (rest @ [0x80]) @ t"
  proof -
    have "take n buf = rest" using m unfolding held_def rest_def by blast
    then show ?thesis using b n(1) by (simp add: upd_conv_take_nth_drop t_def)
  qed
  show ?thesis
  proof (cases "Suc n > bs - L")
    case False
    have le: "Suc n + L \<le> bs" using False L by linarith
    have t': "length (take (bs - L - Suc n) t) = bs - L - Suc n" "length (drop (bs - L - Suc n) t) = L"
      using le t by simp_all
    have "blit ((rest @ [0x80]) @ take (bs - L - Suc n) t @ drop (bs - L - Suc n) t) (Suc n) (replicate (bs - L - Suc n) 0) =
        (rest @ [0x80]) @ replicate (bs - L - Suc n) 0 @ drop (bs - L - Suc n) t"
      by (rule blit_at) (use n t' in simp_all)
    moreover have "blit ((rest @ [0x80] @ replicate (bs - L - Suc n) 0) @ drop (bs - L - Suc n) t @ []) (bs - L) len =
        (rest @ [0x80] @ replicate (bs - L - Suc n) 0) @ len @ []"
      by (rule blit_at) (use le n t' in \<open>simp_all add: L_def\<close>)
    ultimately have "last_blocks bs blk len h buf n = blk h (rest @ 0x80 # replicate (bs - L - Suc n) 0 @ len) 1"
      using False d1 by (simp add: last_blocks_def Let_def flip: L_def)
    moreover have "padding bs len (length m) = 0x80 # replicate (bs - L - Suc n) 0 @ len"
    proof -
      have "bs - L - Suc n < bs" using L by simp
      then have "(bs - L - Suc n + bs) mod bs = bs - L - Suc n" by simp
      moreover have "2 * bs - L - 1 - n = bs - L - Suc n + bs" using le by simp
      ultimately show ?thesis unfolding padding_def h(2) [symmetric] L_def by metis
    qed
    ultimately show ?thesis
      using absorb_block [of m "padding bs len (length m)" iv] le n by (simp add: h(1) L_def flip: rest_def)
  next
    case True
    define ones where "ones = 0x80 # replicate (bs - Suc n) (0 :: u8)"
    have l1: "length (rest @ ones) = bs" using n by (simp add: ones_def)
    have b1: "blit (buf[n := 0x80]) (Suc n) (replicate (bs - Suc n) 0) = rest @ ones"
      using n t unfolding d1 by (simp add: blit_def ones_def)
    have b2: "blit (blit (rest @ ones) 0 (replicate (bs - L) 0)) (bs - L) len = replicate (bs - L) 0 @ len"
      using l1 L by (simp add: blit_def L_def)
    have "last_blocks bs blk len h buf n = blk (blk h (rest @ ones) 1) (replicate (bs - L) 0 @ len) 1"
      using True b1 b2 by (simp add: last_blocks_def Let_def flip: L_def)
    moreover have "blk h (rest @ ones) 1 = absorb iv (m @ ones)"
      unfolding rest_def h(1) by (rule absorb_block) (use l1 in \<open>simp flip: rest_def\<close>)
    moreover have "blk (absorb iv (m @ ones)) (replicate (bs - L) 0 @ len) 1 =
        absorb (absorb iv (m @ ones)) (replicate (bs - L) 0 @ len)"
      using L by (intro blk_absorb) (simp_all add: L_def)
    moreover have "bs dvd length (m @ ones)"
    proof -
      have "length m = bs * (length m div bs) + n" by (simp add: h(2))
      moreover have "length ones + n = bs" using l1 n(2) by simp
      ultimately have "length (m @ ones) = bs * (length m div bs + 1)"
        unfolding length_append distrib_left by linarith
      then show ?thesis by (metis dvd_triv_left)
    qed
    then have "absorb iv ((m @ ones) @ replicate (bs - L) 0 @ len) =
        absorb (absorb iv (m @ ones)) (replicate (bs - L) 0 @ len)"
      by (rule absorb_append)
    moreover have "padding bs len (length m) = ones @ replicate (bs - L) 0 @ len"
    proof -
      have "2 * bs - L - 1 - n < bs" "2 * bs - L - 1 - n = (bs - Suc n) + (bs - L)" using True n(1) L by simp_all
      then have "(2 * bs - L - 1 - n) mod bs = (bs - Suc n) + (bs - L)" by (metis mod_less)
      then show ?thesis
        unfolding padding_def ones_def h(2) [symmetric] L_def [symmetric]
        by (simp only: replicate_add append.simps append_assoc)
    qed
    ultimately show ?thesis by simp
  qed
qed

end

end
