(* ===== verification/Md32.thy ===== *)
theory Md32
  imports Collector
begin

unbundle bit_operations_syntax

text \<open>
  \<open>crypto/fipsmodule/digest/md32_common.h\<close>, the collector that MD4, MD5, SHA-1 and SHA-256
  share.  The macros that an including file defines are arguments: the block function, the
  byte order and the conversion of the final state.  \<open>md32_block\<close> is what the collector
  relies on: the block function works through its input 64 bytes at a time.  From that follows
  that a digest does not depend on how its input was cut into updates.
\<close>

section \<open>The context\<close>

definition HASH_CBLOCK :: nat where "HASH_CBLOCK = 64"

record HASH_CTX =
  md_h :: "u32 list"
  md_Nl :: u32
  md_Nh :: u32
  md_data :: "u8 list"
  md_num :: nat

type_synonym block_data_order = "u32 list \<Rightarrow> u8 list \<Rightarrow> size_t \<Rightarrow> u32 list"

section \<open>Byte orders\<close>

text \<open>Each reads a word and advances the pointer.\<close>

definition HOST_c2l_be :: "u8 list \<Rightarrow> u32 \<times> u8 list" where
  "HOST_c2l_be c =
     (push_bit 24 (ucast (c ! 0)) OR push_bit 16 (ucast (c ! 1)) OR push_bit 8 (ucast (c ! 2)) OR ucast (c ! 3),
      drop 4 c)"

definition HOST_c2l_le :: "u8 list \<Rightarrow> u32 \<times> u8 list" where
  "HOST_c2l_le c =
     (ucast (c ! 0) OR push_bit 8 (ucast (c ! 1)) OR push_bit 16 (ucast (c ! 2)) OR push_bit 24 (ucast (c ! 3)),
      drop 4 c)"

definition HOST_l2c_be :: "u32 \<Rightarrow> u8 list" where
  "HOST_l2c_be l =
     [ucast (drop_bit 24 l AND 0xff), ucast (drop_bit 16 l AND 0xff), ucast (drop_bit 8 l AND 0xff), ucast (l AND 0xff)]"

definition HOST_l2c_le :: "u32 \<Rightarrow> u8 list" where
  "HOST_l2c_le l =
     [ucast (l AND 0xff), ucast (drop_bit 8 l AND 0xff), ucast (drop_bit 16 l AND 0xff), ucast (drop_bit 24 l AND 0xff)]"

lemma octets_word:
  "push_bit 24 (ucast a) OR push_bit 16 (ucast b) OR push_bit 8 (ucast c) OR ucast (d :: u8) =
   (of_nat (be_nat [a, b, c, d]) :: u32)"
proof -
  have s: "push_bit 8 v OR ucast x = v * 256 + of_nat (unat x)" for v :: u32 and x :: u8
  proof -
    have "unat (ucast x :: u32) < 2 ^ 8" by (simp add: unat_ucast_up)
    then have "push_bit 8 v OR ucast x = push_bit 8 v + ucast x" by (rule or_shift_add)
    then show ?thesis by (simp add: push_bit_eq_mult mult.commute)
  qed
  have "push_bit 24 (ucast a) OR push_bit 16 (ucast b) OR push_bit 8 (ucast c) OR ucast d =
      push_bit 8 (push_bit 8 (push_bit 8 (ucast a) OR ucast b) OR ucast c) OR (ucast d :: u32)"
    by (simp add: push_bit_or or.assoc)
  also have "\<dots> = of_nat (be_nat [a, b, c, d])"
    by (simp only: s be_nat_def foldl.simps) (simp add: algebra_simps)
  finally show ?thesis .
qed

lemma c2l_be:
  assumes "4 \<le> length data"
  shows "HOST_c2l_be data = (of_nat (be_nat (take 4 data)), drop 4 data)"
proof -
  have "take 4 data = [data ! 0, data ! 1, data ! 2, data ! 3]"
    using assms by (intro nth_equalityI) (auto simp: less_Suc_eq numeral_eq_Suc)
  then show ?thesis by (simp add: HOST_c2l_be_def octets_word)
qed

lemma c2l_le:
  assumes "4 \<le> length data"
  shows "HOST_c2l_le data = (of_nat (be_nat (rev (take 4 data))), drop 4 data)"
proof -
  have "take 4 data = [data ! 0, data ! 1, data ! 2, data ! 3]"
    using assms by (intro nth_equalityI) (auto simp: less_Suc_eq numeral_eq_Suc)
  then have "of_nat (be_nat (rev (take 4 data))) = fst (HOST_c2l_le data)"
    by (simp add: HOST_c2l_le_def or.assoc or.commute or.left_commute flip: octets_word)
  then show ?thesis by (simp add: HOST_c2l_le_def)
qed

lemma load_be: "64 \<le> length data \<Longrightarrow> load_words HOST_c2l_be 16 data = be_words 4 data"
  unfolding be_words_def by (rule load_words_map) (simp_all add: c2l_be)

lemma load_le: "64 \<le> length data \<Longrightarrow> load_words HOST_c2l_le 16 data = le_words 4 data"
  unfolding le_words_def by (rule load_words_map [where val = "\<lambda>b. of_nat (be_nat (rev b))"]) (simp_all add: c2l_le)

section \<open>The operations\<close>

text \<open>The part of \<open>HASH_UPDATE\<close> after a partial block has been completed: whole blocks, then the rest.\<close>

definition hash_update_blocks ::
    "block_data_order \<Rightarrow> u8 list \<Rightarrow> 'z HASH_CTX_scheme \<Rightarrow> 'z HASH_CTX_scheme" where
  "hash_update_blocks blk data c =
     (let n = length data div HASH_CBLOCK;
          c = (if n > 0 then c\<lparr>md_h := blk (md_h c) data n\<rparr> else c);
          data = drop (n * HASH_CBLOCK) data
      in if length data \<noteq> 0 then c\<lparr>md_num := length data, md_data := blit (md_data c) 0 data\<rparr> else c)"

definition HASH_UPDATE ::
    "block_data_order \<Rightarrow> u8 list \<Rightarrow> 'z HASH_CTX_scheme \<Rightarrow> 'z HASH_CTX_scheme" where
  "HASH_UPDATE blk data c =
     (if length data = 0 then c
      else
        let l = md_Nl c + push_bit 3 (of_nat (length data));
            c = (if l < md_Nl c then c\<lparr>md_Nh := md_Nh c + 1\<rparr> else c);
            c = c\<lparr>md_Nh := md_Nh c + of_nat (length data div 2 ^ 29)\<rparr>;
            c = c\<lparr>md_Nl := l\<rparr>;
            n = md_num c
        in if n \<noteq> 0 then
             if length data \<ge> HASH_CBLOCK \<or> size_add (length data) n \<ge> HASH_CBLOCK then
               let c = c\<lparr>md_data := blit (md_data c) n (take (HASH_CBLOCK - n) data)\<rparr>;
                   c = c\<lparr>md_h := blk (md_h c) (md_data c) 1\<rparr>;
                   c = c\<lparr>md_num := 0, md_data := replicate HASH_CBLOCK 0\<rparr>
               in hash_update_blocks blk (drop (HASH_CBLOCK - n) data) c
             else c\<lparr>md_data := blit (md_data c) n data, md_num := n + length data\<rparr>
           else hash_update_blocks blk data c)"

definition HASH_TRANSFORM ::
    "block_data_order \<Rightarrow> u8 list \<Rightarrow> 'z HASH_CTX_scheme \<Rightarrow> 'z HASH_CTX_scheme" where
  "HASH_TRANSFORM blk data c = c\<lparr>md_h := blk (md_h c) data 1\<rparr>"

text \<open>
  \<open>HASH_MAKE_STRING\<close> may return from the function with a zero; then there is no output.
\<close>

definition HASH_FINAL ::
    "bool \<Rightarrow> block_data_order \<Rightarrow> ('z HASH_CTX_scheme \<Rightarrow> u8 list option) \<Rightarrow> 'z HASH_CTX_scheme \<Rightarrow>
     u8 list option \<times> 'z HASH_CTX_scheme" where
  "HASH_FINAL big_endian blk make_string c =
     (let n = md_num c;
          c = c\<lparr>md_data := (md_data c)[n := 0x80]\<rparr>;
          n = n + 1;
          (n, c) =
            (if n > HASH_CBLOCK - 8 then
               let c = c\<lparr>md_data := blit (md_data c) n (replicate (HASH_CBLOCK - n) 0)\<rparr>
               in (0, c\<lparr>md_h := blk (md_h c) (md_data c) 1\<rparr>)
             else (n, c));
          c = c\<lparr>md_data := blit (md_data c) n (replicate (HASH_CBLOCK - 8 - n) 0)\<rparr>;
          len = (if big_endian then HOST_l2c_be (md_Nh c) @ HOST_l2c_be (md_Nl c)
                 else HOST_l2c_le (md_Nl c) @ HOST_l2c_le (md_Nh c));
          c = c\<lparr>md_data := blit (md_data c) (HASH_CBLOCK - 8) len\<rparr>;
          c = c\<lparr>md_h := blk (md_h c) (md_data c) 1\<rparr>;
          c = c\<lparr>md_num := 0, md_data := replicate HASH_CBLOCK 0\<rparr>
      in (make_string c, c))"

section \<open>The padding\<close>

definition md_padding :: "bool \<Rightarrow> nat \<Rightarrow> u8 list" where
  "md_padding big_endian n =
     padding 64 (if big_endian then be_bytes 8 (8 * n) else rev (be_bytes 8 (8 * n))) n"

lemma ucast_octet: "ucast (x AND 0xff :: u32) = (ucast x :: u8)"
proof -
  have m: "(0xff :: u32) = mask 8" by (simp add: mask_eq_exp_minus_1)
  show ?thesis unfolding m by (intro bit_word_eqI) (auto simp: bit_simps)
qed

lemma l2c_be: "HOST_l2c_be w = be_bytes 4 (unat w)"
proof -
  have "ucast (drop_bit k w) = (of_nat (unat w div 2 ^ k) :: u8)" for k
    by (simp add: word_unat_eq_iff unat_ucast_mod unat_drop unat_of_nat)
  moreover have "ucast w = (of_nat (unat w) :: u8)"
    by (simp add: word_unat_eq_iff unat_ucast_mod unat_of_nat)
  ultimately show ?thesis
    by (simp add: HOST_l2c_be_def ucast_octet be_bytes_numeral div_mult2_eq [symmetric])
qed

lemma map_l2c_be: "map HOST_l2c_be ws = map (\<lambda>w. be_bytes 4 (unat w)) ws"
  by (simp add: l2c_be)

lemma l2c_le: "HOST_l2c_le w = rev (HOST_l2c_be w)"
  by (simp add: HOST_l2c_le_def HOST_l2c_be_def)

lemma map_l2c_le: "map HOST_l2c_le ws = map (\<lambda>w. rev (be_bytes 4 (unat w))) ws"
  by (simp add: l2c_le l2c_be)

lemma length_octets:
  "HOST_l2c_be (of_nat (n div 2 ^ 32)) @ HOST_l2c_be (of_nat n) = be_bytes 8 n"
  "HOST_l2c_le (of_nat n) @ HOST_l2c_le (of_nat (n div 2 ^ 32)) = rev (be_bytes 8 n)"
proof -
  show 1: "HOST_l2c_be (of_nat (n div 2 ^ 32)) @ HOST_l2c_be (of_nat n) = be_bytes 8 n"
  proof (rule be_nat_inj)
    have u: "unat (of_nat x :: u32) = x mod 2 ^ 32" for x by (simp add: unat_of_nat)
    have "n mod (2 ^ 32 * 2 ^ 32) = 2 ^ 32 * (n div 2 ^ 32 mod 2 ^ 32) + n mod 2 ^ 32"
      by (rule mod_mult2_eq)
    then show "be_nat (HOST_l2c_be (of_nat (n div 2 ^ 32)) @ HOST_l2c_be (of_nat n)) = be_nat (be_bytes 8 n)"
      by (simp only: l2c_be be_nat_append be_nat_be_bytes u length_be_bytes) simp
  qed (simp add: l2c_be)
  show "HOST_l2c_le (of_nat n) @ HOST_l2c_le (of_nat (n div 2 ^ 32)) = rev (be_bytes 8 n)"
    by (simp add: l2c_le flip: 1)
qed

section \<open>What the block function does\<close>

locale md32_block = block_function 64 blk for blk :: block_data_order
begin

text \<open>The context after the bytes \<open>m\<close> from the state \<open>iv\<close>.\<close>

definition collected :: "u32 list \<Rightarrow> u8 list \<Rightarrow> 'z HASH_CTX_scheme \<Rightarrow> bool" where
  "collected iv m c \<longleftrightarrow> held iv m (md_h c) (md_data c) (md_num c) \<and> bit_count (md_Nh c) (md_Nl c) (length m)"

lemma update_blocks:
  assumes "held iv m (md_h c) (md_data c) 0" "md_num c = 0" and c': "c' = hash_update_blocks blk d c"
  shows "held iv (m @ d) (md_h c') (md_data c') (md_num c') \<and>
    md_Nl c' = md_Nl c \<and> md_Nh c' = md_Nh c \<and> HASH_CTX.more c' = HASH_CTX.more c"
proof -
  have l: "length (drop (64 * (length d div 64)) d) = length d mod 64"
    by (simp add: minus_mult_div_eq_mod)
  then have "drop (64 * (length d div 64)) d = []" if "length d mod 64 = 0" using that by simp
  with held_blocks [OF assms(1) refl, of d] assms(2) l show ?thesis
    unfolding c' hash_update_blocks_def HASH_CBLOCK_def Let_def
    by (auto simp: mult.commute split: if_splits)
qed

lemma collect_update:
  assumes c: "collected iv m c" and d: "length d < 2 ^ 64"
  shows "collected iv (m @ d) (HASH_UPDATE blk d c) \<and>
    HASH_CTX.more (HASH_UPDATE blk d c) = HASH_CTX.more c"
proof (cases "d = []")
  case True
  then show ?thesis using c by (simp add: HASH_UPDATE_def)
next
  case ne: False
  define n where "n = md_num c"
  define c1 where "c1 = (let l = md_Nl c + push_bit 3 (of_nat (length d));
            c = (if l < md_Nl c then c\<lparr>md_Nh := md_Nh c + 1\<rparr> else c);
            c = c\<lparr>md_Nh := md_Nh c + of_nat (length d div 2 ^ 29)\<rparr>
          in c\<lparr>md_Nl := l\<rparr>)"
  have held: "held iv m (md_h c) (md_data c) n" and n: "n < 64"
    using c held_less unfolding collected_def n_def by auto
  have same: "md_h c1 = md_h c" "md_data c1 = md_data c" "md_num c1 = n" "HASH_CTX.more c1 = HASH_CTX.more c"
    by (simp_all add: c1_def Let_def n_def)
  have cnt: "bit_count (md_Nh c1) (md_Nl c1) (length (m @ d))"
    using bit_count_add [of "md_Nh c" "md_Nl c" "length m" _ "length d"] c
    by (simp add: collected_def c1_def Let_def split: if_splits)
  have upd: "HASH_UPDATE blk d c =
      (if n \<noteq> 0 then
         if length d \<ge> 64 \<or> size_add (length d) n \<ge> 64 then
           hash_update_blocks blk (drop (64 - n) d)
             (c1\<lparr>md_h := blk (md_h c1) (blit (md_data c1) n (take (64 - n) d)) 1,
                md_num := 0, md_data := replicate 64 0\<rparr>)
         else c1\<lparr>md_data := blit (md_data c1) n d, md_num := n + length d\<rparr>
       else hash_update_blocks blk d c1)"
    using ne same(3) unfolding HASH_UPDATE_def c1_def Let_def HASH_CBLOCK_def n_def by simp
  show ?thesis
  proof (cases "n = 0")
    case True
    with update_blocks [OF _ _ refl, of iv m c1 d] held cnt same upd show ?thesis
      by (simp add: collected_def)
  next
    case False
    have full: "length d \<ge> 64 \<or> size_add (length d) n \<ge> 64 \<longleftrightarrow> 64 \<le> n + length d"
    proof (cases "length d \<ge> 64")
      case False
      then have "size_add (length d) n = length d + n" using n by (intro size_add_exact) simp
      with False show ?thesis by auto
    qed simp
    show ?thesis
    proof (cases "64 \<le> n + length d")
      case True
      define xs where "xs = take (64 - n) d"
      define c2 where "c2 = c1\<lparr>md_h := blk (md_h c1) (blit (md_data c1) n xs) 1,
        md_num := 0, md_data := replicate 64 0\<rparr>"
      have "n + length xs = 64" using True n by (simp add: xs_def)
      then have "held iv (m @ xs) (md_h c2) (md_data c2) 0"
        using held_fill [OF held, of xs "replicate 64 0"] same by (simp add: c2_def)
      moreover have "(m @ xs) @ drop (64 - n) d = m @ d" by (simp add: xs_def)
      moreover have "HASH_UPDATE blk d c = hash_update_blocks blk (drop (64 - n) d) c2"
        using False True full upd by (simp add: c2_def xs_def)
      ultimately show ?thesis
        using update_blocks [OF _ _ refl, of iv "m @ xs" c2 "drop (64 - n) d"] cnt same(4)
        by (simp add: collected_def c2_def)
    next
      case small: False
      then show ?thesis
        using held_keep [OF held, of d] False full upd cnt same by (simp add: collected_def)
    qed
  qed
qed

text \<open>The end of a digest.\<close>

lemma collect_final:
  assumes c: "collected iv m c" and r: "r = HASH_FINAL be blk make_string c"
  shows "fst r = make_string (snd r) \<and> md_h (snd r) = absorb iv (m @ md_padding be (length m)) \<and>
    md_num (snd r) = 0 \<and> md_data (snd r) = replicate 64 0 \<and> HASH_CTX.more (snd r) = HASH_CTX.more c"
proof -
  define len where "len = (if be then be_bytes 8 (8 * length m) else rev (be_bytes 8 (8 * length m)))"
  have len: "length len = 8" by (simp add: len_def)
  have lenc: "(if be then HOST_l2c_be (md_Nh c) @ HOST_l2c_be (md_Nl c)
      else HOST_l2c_le (md_Nl c) @ HOST_l2c_le (md_Nh c)) = len"
  proof -
    have nl: "md_Nl c = of_nat (8 * length m)" "md_Nh c = of_nat (8 * length m div 2 ^ 32)"
      using c by (simp_all add: collected_def bit_count_def)
    show ?thesis unfolding nl len_def length_octets by (rule refl)
  qed
  have held: "held iv m (md_h c) (md_data c) (md_num c)" using c by (simp add: collected_def)
  have "md_h (snd r) = last_blocks 64 blk len (md_h c) (md_data c) (md_num c)"
    using lenc unfolding r HASH_FINAL_def last_blocks_def HASH_CBLOCK_def len Let_def
    by (cases be) simp_all
  moreover have "fst r = make_string (snd r)" "md_num (snd r) = 0" "md_data (snd r) = replicate 64 0"
    "HASH_CTX.more (snd r) = HASH_CTX.more c"
    unfolding r HASH_FINAL_def HASH_CBLOCK_def Let_def by (simp_all split: prod.splits if_splits)
  ultimately show ?thesis
    using absorb_padding [OF held, of len] by (simp add: len md_padding_def len_def)
qed

end

section \<open>A digest\<close>

text \<open>
  A digest's \<open>Init\<close> leaves a fresh context.  Whatever pieces a message comes in, \<open>HASH_FINAL\<close>
  leaves the state that compressing the padded message block by block gives, and nothing of
  the message in the buffer.
\<close>

definition fresh_ctx :: "u32 list \<Rightarrow> 'z HASH_CTX_scheme \<Rightarrow> bool" where
  "fresh_ctx iv c \<longleftrightarrow> md_h c = iv \<and> md_Nl c = 0 \<and> md_Nh c = 0 \<and> md_data c = replicate 64 0 \<and> md_num c = 0"

locale md32_digest = block_loop 64 one blk
  for one :: "u32 list \<Rightarrow> u8 list \<Rightarrow> u32 list" and blk :: block_data_order

sublocale md32_digest \<subseteq> md32_block
  by unfold_locales

context md32_digest
begin

lemma collected_fresh: "fresh_ctx iv c \<Longrightarrow> collected iv [] c"
  by (simp add: fresh_ctx_def collected_def held_Nil)

lemma collected_fold:
  assumes "collected iv m c" "\<forall>d\<in>set ds. length d < 2 ^ 64"
  shows "collected iv (m @ concat ds) (fold (HASH_UPDATE blk) ds c) \<and>
    HASH_CTX.more (fold (HASH_UPDATE blk) ds c) = HASH_CTX.more c"
  using assms
proof (induction ds arbitrary: m c)
  case (Cons d ds)
  then have "collected iv (m @ d) (HASH_UPDATE blk d c)" "HASH_CTX.more (HASH_UPDATE blk d c) = HASH_CTX.more c"
    using collect_update [of iv m c d] by simp_all
  with Cons.IH [of "m @ d" "HASH_UPDATE blk d c"] Cons.prems show ?case by simp
qed simp

lemma digest_stream:
  assumes "fresh_ctx iv c" "\<forall>d\<in>set ds. length d < 2 ^ 64"
    and "r = HASH_FINAL be blk make_string (fold (HASH_UPDATE blk) ds c)"
  shows "fst r = make_string (snd r) \<and>
    md_h (snd r) = fold_blocks 64 one iv (concat ds @ md_padding be (length (concat ds))) \<and>
    md_num (snd r) = 0 \<and> md_data (snd r) = replicate 64 0 \<and> HASH_CTX.more (snd r) = HASH_CTX.more c"
proof -
  have f: "collected iv (concat ds) (fold (HASH_UPDATE blk) ds c) \<and>
      HASH_CTX.more (fold (HASH_UPDATE blk) ds c) = HASH_CTX.more c"
    using collected_fold [OF collected_fresh [OF assms(1)] assms(2)] by simp
  from collect_final [OF conjunct1 [OF f] assms(3)] conjunct2 [OF f]
  show ?thesis by (simp add: absorb_fold)
qed

end

end
