(* ===== verification/Sha256.thy ===== *)
theory Sha256
  imports Sha2 Md32
begin

unbundle bit_operations_syntax

text \<open>
  SHA-256 and SHA-224 (\<open>crypto/fipsmodule/sha/sha256.c\<close>, without the assembly variant): the
  rounds, the block function, the two digests over the collector of \<open>Md32\<close>.
\<close>

section \<open>The context\<close>

definition SHA224_DIGEST_LENGTH :: nat where "SHA224_DIGEST_LENGTH = 28"
definition SHA256_DIGEST_LENGTH :: nat where "SHA256_DIGEST_LENGTH = 32"

record SHA256_CTX = HASH_CTX +
  md_len :: nat

definition SHA224_Init :: SHA256_CTX where
  "SHA224_Init =
     \<lparr>md_h = [0xc1059ed8, 0x367cd507, 0x3070dd17, 0xf70e5939, 0xffc00b31, 0x68581511, 0x64f98fa7, 0xbefa4fa4],
      md_Nl = 0, md_Nh = 0, md_data = replicate HASH_CBLOCK 0, md_num = 0, md_len = SHA224_DIGEST_LENGTH\<rparr>"

definition SHA256_Init :: SHA256_CTX where
  "SHA256_Init =
     \<lparr>md_h = [0x6a09e667, 0xbb67ae85, 0x3c6ef372, 0xa54ff53a, 0x510e527f, 0x9b05688c, 0x1f83d9ab, 0x5be0cd19],
      md_Nl = 0, md_Nh = 0, md_data = replicate HASH_CBLOCK 0, md_num = 0, md_len = SHA256_DIGEST_LENGTH\<rparr>"

section \<open>The rounds\<close>

definition K256 :: "u32 list" where
  "K256 = concat
   [[0x428a2f98, 0x71374491, 0xb5c0fbcf, 0xe9b5dba5, 0x3956c25b],
    [0x59f111f1, 0x923f82a4, 0xab1c5ed5, 0xd807aa98, 0x12835b01],
    [0x243185be, 0x550c7dc3, 0x72be5d74, 0x80deb1fe, 0x9bdc06a7],
    [0xc19bf174, 0xe49b69c1, 0xefbe4786, 0x0fc19dc6, 0x240ca1cc],
    [0x2de92c6f, 0x4a7484aa, 0x5cb0a9dc, 0x76f988da, 0x983e5152],
    [0xa831c66d, 0xb00327c8, 0xbf597fc7, 0xc6e00bf3, 0xd5a79147],
    [0x06ca6351, 0x14292967, 0x27b70a85, 0x2e1b2138, 0x4d2c6dfc],
    [0x53380d13, 0x650a7354, 0x766a0abb, 0x81c2c92e, 0x92722c85],
    [0xa2bfe8a1, 0xa81a664b, 0xc24b8b70, 0xc76c51a3, 0xd192e819],
    [0xd6990624, 0xf40e3585, 0x106aa070, 0x19a4c116, 0x1e376c08],
    [0x2748774c, 0x34b0bcb5, 0x391c0cb3, 0x4ed8aa4a, 0x5b9cca4f],
    [0x682e6ff3, 0x748f82ee, 0x78a5636f, 0x84c87814, 0x8cc70208],
    [0x90befffa, 0xa4506ceb, 0xbef9a3f7, 0xc67178f2]]"

definition sha256_Sigma0 :: "u32 \<Rightarrow> u32" where
  "sha256_Sigma0 x = ROTATE x 30 XOR ROTATE x 19 XOR ROTATE x 10"

definition sha256_Sigma1 :: "u32 \<Rightarrow> u32" where
  "sha256_Sigma1 x = ROTATE x 26 XOR ROTATE x 21 XOR ROTATE x 7"

definition sha256_sigma0 :: "u32 \<Rightarrow> u32" where
  "sha256_sigma0 x = ROTATE x 25 XOR ROTATE x 14 XOR drop_bit 3 x"

definition sha256_sigma1 :: "u32 \<Rightarrow> u32" where
  "sha256_sigma1 x = ROTATE x 15 XOR ROTATE x 13 XOR drop_bit 10 x"

definition sha256_Ch :: "u32 \<Rightarrow> u32 \<Rightarrow> u32 \<Rightarrow> u32" where
  "sha256_Ch x y z = (x AND y) XOR (NOT x AND z)"

definition sha256_Maj :: "u32 \<Rightarrow> u32 \<Rightarrow> u32 \<Rightarrow> u32" where
  "sha256_Maj x y z = (x AND y) XOR (x AND z) XOR (y AND z)"

definition sha256_ROUND_00_15 :: "u32 \<Rightarrow> nat \<Rightarrow> 32 regs \<Rightarrow> 32 regs" where
  "sha256_ROUND_00_15 T1 i = (\<lambda>(a, b, c, d, e, f, g, h).
     let T1 = T1 + (h + sha256_Sigma1 e + sha256_Ch e f g + K256 ! i);
         h = sha256_Sigma0 a + sha256_Maj a b c;
         d = d + T1;
         h = h + T1
     in (a, b, c, d, e, f, g, h))"

text \<open>\<open>HOST_c2l(data, l); T1 = X[i] = l; ROUND_00_15(i, ...)\<close>\<close>

definition sha256_load_round :: "nat \<Rightarrow> (u32 list \<times> u8 list) \<times> 32 regs \<Rightarrow> (u32 list \<times> u8 list) \<times> 32 regs" where
  "sha256_load_round i = (\<lambda>((X, data), v).
     let (l, data) = HOST_c2l_be data;
         X = X[i := l];
         T1 = l
     in ((X, data), sha256_ROUND_00_15 T1 i v))"

definition sha256_ROUND_16_63 :: "nat \<Rightarrow> u32 list \<times> 32 regs \<Rightarrow> u32 list \<times> 32 regs" where
  "sha256_ROUND_16_63 i = (\<lambda>(X, v).
     let s0 = X ! ((i + 1) mod 16);
         s0 = sha256_sigma0 s0;
         s1 = X ! ((i + 14) mod 16);
         s1 = sha256_sigma1 s1;
         X = X[i mod 16 := X ! (i mod 16) + (s0 + s1 + X ! ((i + 9) mod 16))];
         T1 = X ! (i mod 16)
     in (X, sha256_ROUND_00_15 T1 i v))"

section \<open>The block function\<close>

text \<open>
  One pass of the loop; it also says where \<open>data\<close> stands after it.  \<open>X\<close> is not initialised
  in the code; every entry is written before it is read.
\<close>

definition sha256_block :: "u32 list \<Rightarrow> u8 list \<Rightarrow> u32 list \<times> u8 list" where
  "sha256_block state data =
     (let v = regs state;
          s = ((replicate 16 0, data), v);
          s = sha2_eight sha256_load_round 0 s;
          s = sha2_eight sha256_load_round 8 s;
          ((X, data), v) = s;
          (X, v) = for_loop 16 64 8 (sha2_eight sha256_ROUND_16_63) (X, v)
      in (add_regs state v, data))"

fun sha256_block_data_order :: "u32 list \<Rightarrow> u8 list \<Rightarrow> nat \<Rightarrow> u32 list" where
  "sha256_block_data_order state data 0 = state"
| "sha256_block_data_order state data (Suc num) =
     (let (state, data) = sha256_block state data in sha256_block_data_order state data num)"

section \<open>The digests\<close>

text \<open>\<open>HASH_MAKE_STRING\<close>: an \<open>md_len\<close> above the state's size fails.\<close>

definition sha256_make_string :: "SHA256_CTX \<Rightarrow> u8 list option" where
  "sha256_make_string c =
     (if md_len c = SHA224_DIGEST_LENGTH then Some (concat (map HOST_l2c_be (take (SHA224_DIGEST_LENGTH div 4) (md_h c))))
      else if md_len c = SHA256_DIGEST_LENGTH then Some (concat (map HOST_l2c_be (take (SHA256_DIGEST_LENGTH div 4) (md_h c))))
      else if md_len c > SHA256_DIGEST_LENGTH then None
      else Some (concat (map HOST_l2c_be (take (md_len c div 4) (md_h c)))))"

definition SHA256_Update :: "u8 list \<Rightarrow> SHA256_CTX \<Rightarrow> SHA256_CTX" where
  "SHA256_Update = HASH_UPDATE sha256_block_data_order"

definition SHA256_Transform :: "u8 list \<Rightarrow> SHA256_CTX \<Rightarrow> SHA256_CTX" where
  "SHA256_Transform = HASH_TRANSFORM sha256_block_data_order"

definition SHA256_Final :: "SHA256_CTX \<Rightarrow> u8 list option \<times> SHA256_CTX" where
  "SHA256_Final = HASH_FINAL True sha256_block_data_order sha256_make_string"

definition SHA224_Update :: "u8 list \<Rightarrow> SHA256_CTX \<Rightarrow> SHA256_CTX" where
  "SHA224_Update data ctx = SHA256_Update data ctx"

definition SHA224_Final :: "SHA256_CTX \<Rightarrow> u8 list option \<times> SHA256_CTX" where
  "SHA224_Final ctx = SHA256_Final ctx"

definition SHA256_TransformBlocks :: "u32 list \<Rightarrow> u8 list \<Rightarrow> nat \<Rightarrow> u32 list" where
  "SHA256_TransformBlocks state data num_blocks = sha256_block_data_order state data num_blocks"

definition SHA224 :: "u8 list \<Rightarrow> u8 list option" where
  "SHA224 data =
     (let ctx = SHA224_Init;
          ctx = SHA224_Update data ctx;
          (out, ctx) = SHA224_Final ctx
      in out)"

definition SHA256 :: "u8 list \<Rightarrow> u8 list option" where
  "SHA256 data =
     (let ctx = SHA256_Init;
          ctx = SHA256_Update data ctx;
          (out, ctx) = SHA256_Final ctx
      in out)"

section \<open>FIPS 180-4\<close>

definition fips_sha256_compress :: "u32 list \<Rightarrow> u8 list \<Rightarrow> u32 list" where
  "fips_sha256_compress st block =
     sha2_compress
       (\<lambda>x. word_rotr 2 x XOR word_rotr 13 x XOR word_rotr 22 x)
       (\<lambda>x. word_rotr 6 x XOR word_rotr 11 x XOR word_rotr 25 x)
       (\<lambda>x. word_rotr 7 x XOR word_rotr 18 x XOR drop_bit 3 x)
       (\<lambda>x. word_rotr 17 x XOR word_rotr 19 x XOR drop_bit 10 x)
       K256 st (be_words 4 block)"

text \<open>The state after the padded message; its first words, in bytes, are the digest.\<close>

definition fips_sha256 :: "u32 list \<Rightarrow> nat \<Rightarrow> u8 list \<Rightarrow> u8 list" where
  "fips_sha256 iv n m =
     concat (map (\<lambda>w. be_bytes 4 (unat w))
       (take (n div 4) (fold_blocks 64 fips_sha256_compress iv (m @ md_padding True (length m)))))"

lemma length_K256: "length K256 = 64"
  by (simp add: K256_def)

lemma HOST_c2l_be_snd: "snd (HOST_c2l_be data) = drop 4 data"
  by (simp add: HOST_c2l_be_def)

lemma sha256_functions:
  "sha256_Sigma0 = (\<lambda>x. word_rotr 2 x XOR word_rotr 13 x XOR word_rotr 22 x)"
  "sha256_Sigma1 = (\<lambda>x. word_rotr 6 x XOR word_rotr 11 x XOR word_rotr 25 x)"
  "sha256_sigma0 = (\<lambda>x. word_rotr 7 x XOR word_rotr 18 x XOR drop_bit 3 x)"
  "sha256_sigma1 = (\<lambda>x. word_rotr 17 x XOR word_rotr 19 x XOR drop_bit 10 x)"
  by (simp_all add: fun_eq_iff sha256_Sigma0_def sha256_Sigma1_def sha256_sigma0_def sha256_sigma1_def ROTATE_rotr)

lemma sha256_round:
  "sha256_ROUND_00_15 T1 i v = (case sha2_step sha256_Sigma0 sha256_Sigma1 (K256 ! i) T1 v of
     (h, a, b, c, d, e, f, g) \<Rightarrow> (a, b, c, d, e, f, g, h))"
  by (simp add: sha256_ROUND_00_15_def sha2_step_def sha256_Ch_def sha256_Maj_def Let_def case_prod_beta algebra_simps)

lemma rot8_round: "rot8 (X, sha256_ROUND_00_15 T1 i v) = (X, sha2_step sha256_Sigma0 sha256_Sigma1 (K256 ! i) T1 v)"
  by (simp add: sha256_round rot8_def case_prod_beta)

interpretation sha256_rounds: sha2_rounds sha256_Sigma0 sha256_Sigma1 sha256_sigma0 sha256_sigma1 K256
  sha256_ROUND_16_63 HOST_c2l_be 4 sha256_load_round
proof unfold_locales
  show "rot8 (sha256_load_round i ((X, data), v)) =
      ((X[i := fst (HOST_c2l_be data)], snd (HOST_c2l_be data)),
       sha2_step sha256_Sigma0 sha256_Sigma1 (K256 ! i) (fst (HOST_c2l_be data)) v)" for i X data v
    by (simp add: sha256_load_round_def rot8_round case_prod_beta Let_def)
  show "rot8 (sha256_ROUND_16_63 i (X, v)) =
      (let w = sha256_sigma1 (X ! ((i + 14) mod 16)) + X ! ((i + 9) mod 16) +
               sha256_sigma0 (X ! ((i + 1) mod 16)) + X ! (i mod 16)
       in (X[i mod 16 := w], sha2_step sha256_Sigma0 sha256_Sigma1 (K256 ! i) w v))"
    if "length X = 16" for X i v
    using that by (simp add: sha256_ROUND_16_63_def rot8_round Let_def algebra_simps)
qed (simp_all add: length_K256 HOST_c2l_be_snd)

lemma sha256_later:
  "for_loop 16 64 8 (sha2_eight sha256_ROUND_16_63) p = fold (\<lambda>i p. rot8 (sha256_ROUND_16_63 i p)) [16..<64] p"
  using for_loop_fold [where step = 8 and body = "sha2_eight sha256_ROUND_16_63" and f = "\<lambda>i p. rot8 (sha256_ROUND_16_63 i p)" and i = 16 and n = 6 and s = p]
  by (simp add: sha2_eight_fold)

lemma sha256_block_compress:
  "sha256_block st data = (sha2_compress sha256_Sigma0 sha256_Sigma1 sha256_sigma0 sha256_sigma1 K256 st
     (load_words HOST_c2l_be 16 data), drop 64 data)"
proof -
  obtain X' v where
    "sha2_eight sha256_load_round 8 (sha2_eight sha256_load_round 0 ((replicate 16 0, data), regs st)) = ((X', drop 64 data), v)"
    "add_regs st (snd (fold (\<lambda>i p. rot8 (sha256_ROUND_16_63 i p)) [16..<64] (X', v))) =
      sha2_compress sha256_Sigma0 sha256_Sigma1 sha256_sigma0 sha256_sigma1 K256 st (load_words HOST_c2l_be 16 data)"
    using sha256_rounds.all_rounds [of "replicate 16 0" data st] by (auto simp: length_K256)
  then show ?thesis
    by (simp add: sha256_block_def sha256_later Let_def case_prod_beta)
qed

lemma sha256_block_fips: "64 \<le> length data \<Longrightarrow> fst (sha256_block st data) = fips_sha256_compress st data"
  by (simp add: sha256_block_compress fips_sha256_compress_def sha256_functions load_be)

lemma sha256_block_take: "64 \<le> length m \<Longrightarrow> fst (sha256_block st (take 64 m)) = fst (sha256_block st m)"
  by (simp add: sha256_block_fips fips_sha256_compress_def be_words_take [of 4, simplified])

interpretation sha256_loop: md32_digest "\<lambda>st m. fst (sha256_block st m)" sha256_block_data_order
proof unfold_locales
  show "sha256_block_data_order st m (Suc n) = sha256_block_data_order (fst (sha256_block st m)) (drop 64 m) n" for st m n
    by (simp add: sha256_block_compress)
qed (simp_all add: sha256_block_compress sha256_block_take [unfolded sha256_block_compress fst_conv])

lemma sha256_fold: "fold_blocks 64 (\<lambda>st m. fst (sha256_block st m)) = fold_blocks 64 fips_sha256_compress"
  by (intro ext fold_blocks_cong sha256_block_fips) simp

lemma fresh_SHA256: "fresh_ctx (md_h SHA256_Init) SHA256_Init" "fresh_ctx (md_h SHA224_Init) SHA224_Init"
  by (simp_all add: fresh_ctx_def SHA256_Init_def SHA224_Init_def HASH_CBLOCK_def)

lemma md_len_more: "HASH_CTX.more c = HASH_CTX.more c' \<Longrightarrow> md_len c = md_len (c' :: SHA256_CTX)"
  by (cases c; cases c') simp

lemma sha256_digest:
  assumes c: "fresh_ctx iv c" and d: "\<forall>d\<in>set ds. length d < 2 ^ 64"
    and n: "md_len c = 28 \<or> md_len c = 32"
    and r: "r = SHA256_Final (fold SHA256_Update ds c)"
  shows "fst r = Some (fips_sha256 iv (md_len c) (concat ds)) \<and> md_data (snd r) = replicate 64 0"
proof -
  have r': "r = HASH_FINAL True sha256_block_data_order sha256_make_string (fold (HASH_UPDATE sha256_block_data_order) ds c)"
    unfolding r SHA256_Final_def SHA256_Update_def ..
  note s = sha256_loop.digest_stream [OF c d r', unfolded sha256_fold]
  have "md_len (snd r) = md_len c" using s md_len_more by blast
  then show ?thesis using s n
    by (auto simp: sha256_make_string_def fips_sha256_def SHA224_DIGEST_LENGTH_def SHA256_DIGEST_LENGTH_def map_l2c_be)
qed

section \<open>Properties\<close>

text \<open>
  C19.  The block function of SHA-256, with its unrolled rounds that rename the eight working
  variables and its window of sixteen schedule words, applies to each block of its input in
  turn the compression function of FIPS 180-4: a schedule of 64 words computed beforehand and
  64 rounds that move the variables along.
\<close>

theorem sha256_block_is_fips:
  assumes "64 * num \<le> length data" "0 < num"
  shows "sha256_block_data_order st data num = fold_blocks 64 fips_sha256_compress st (take (64 * num) data)"
  using sha256_loop.blk_fold [of num data st] assms by (simp add: sha256_fold)

lemma sha256_block_is_fips_witness:
  "sha256_block_data_order (md_h SHA256_Init) (replicate 130 7) 2 =
     fold_blocks 64 fips_sha256_compress (md_h SHA256_Init) (replicate 128 7)"
  using sha256_block_is_fips [of 2 "replicate 130 7"] by simp

end
