(* ===== verification/Sha512.thy ===== *)
theory Sha512
  imports Sha2 Collector
begin

unbundle bit_operations_syntax

text \<open>
  SHA-512 and SHA-384 (\<open>crypto/fipsmodule/sha/sha512.c\<close>, without the assembly variant): a
  collector of its own, and two block functions, one for 32-bit x86 that slides a frame of
  working variables down an array, one for the others that is unrolled as in \<open>sha256.c\<close>.
\<close>

section \<open>The context\<close>

definition SHA384_DIGEST_LENGTH :: nat where "SHA384_DIGEST_LENGTH = 48"
definition SHA512_DIGEST_LENGTH :: nat where "SHA512_DIGEST_LENGTH = 64"
definition SHA512_CBLOCK :: nat where "SHA512_CBLOCK = 128"

record SHA512_CTX =
  sh :: "u64 list"
  Nl :: u64
  Nh :: u64
  sp :: "u8 list"
  snum :: nat
  smd_len :: nat

text \<open>\<open>Init\<close> leaves the buffer \<open>p\<close> as it is.\<close>

definition SHA384_Init :: "SHA512_CTX \<Rightarrow> SHA512_CTX" where
  "SHA384_Init sha = sha\<lparr>
     sh := [0xcbbb9d5dc1059ed8, 0x629a292a367cd507, 0x9159015a3070dd17,
       0x152fecd8f70e5939, 0x67332667ffc00b31, 0x8eb44a8768581511,
       0xdb0c2e0d64f98fa7, 0x47b5481dbefa4fa4],
     Nl := 0, Nh := 0, snum := 0, smd_len := SHA384_DIGEST_LENGTH\<rparr>"

definition SHA512_Init :: "SHA512_CTX \<Rightarrow> SHA512_CTX" where
  "SHA512_Init sha = sha\<lparr>
     sh := [0x6a09e667f3bcc908, 0xbb67ae8584caa73b, 0x3c6ef372fe94f82b,
       0xa54ff53a5f1d36f1, 0x510e527fade682d1, 0x9b05688c2b3e6c1f,
       0x1f83d9abfb41bd6b, 0x5be0cd19137e2179],
     Nl := 0, Nh := 0, snum := 0, smd_len := SHA512_DIGEST_LENGTH\<rparr>"

section \<open>The rounds\<close>

definition K512 :: "u64 list" where
  "K512 = concat
   [[0x428a2f98d728ae22, 0x7137449123ef65cd], [0xb5c0fbcfec4d3b2f, 0xe9b5dba58189dbbc],
    [0x3956c25bf348b538, 0x59f111f1b605d019], [0x923f82a4af194f9b, 0xab1c5ed5da6d8118],
    [0xd807aa98a3030242, 0x12835b0145706fbe], [0x243185be4ee4b28c, 0x550c7dc3d5ffb4e2],
    [0x72be5d74f27b896f, 0x80deb1fe3b1696b1], [0x9bdc06a725c71235, 0xc19bf174cf692694],
    [0xe49b69c19ef14ad2, 0xefbe4786384f25e3], [0x0fc19dc68b8cd5b5, 0x240ca1cc77ac9c65],
    [0x2de92c6f592b0275, 0x4a7484aa6ea6e483], [0x5cb0a9dcbd41fbd4, 0x76f988da831153b5],
    [0x983e5152ee66dfab, 0xa831c66d2db43210], [0xb00327c898fb213f, 0xbf597fc7beef0ee4],
    [0xc6e00bf33da88fc2, 0xd5a79147930aa725], [0x06ca6351e003826f, 0x142929670a0e6e70],
    [0x27b70a8546d22ffc, 0x2e1b21385c26c926], [0x4d2c6dfc5ac42aed, 0x53380d139d95b3df],
    [0x650a73548baf63de, 0x766a0abb3c77b2a8], [0x81c2c92e47edaee6, 0x92722c851482353b],
    [0xa2bfe8a14cf10364, 0xa81a664bbc423001], [0xc24b8b70d0f89791, 0xc76c51a30654be30],
    [0xd192e819d6ef5218, 0xd69906245565a910], [0xf40e35855771202a, 0x106aa07032bbd1b8],
    [0x19a4c116b8d2d0c8, 0x1e376c085141ab53], [0x2748774cdf8eeb99, 0x34b0bcb5e19b48a8],
    [0x391c0cb3c5c95a63, 0x4ed8aa4ae3418acb], [0x5b9cca4f7763e373, 0x682e6ff3d6b2b8a3],
    [0x748f82ee5defb2fc, 0x78a5636f43172f60], [0x84c87814a1f0ab72, 0x8cc702081a6439ec],
    [0x90befffa23631e28, 0xa4506cebde82bde9], [0xbef9a3f7b2c67915, 0xc67178f2e372532b],
    [0xca273eceea26619c, 0xd186b8c721c0c207], [0xeada7dd6cde0eb1e, 0xf57d4f7fee6ed178],
    [0x06f067aa72176fba, 0x0a637dc5a2c898a6], [0x113f9804bef90dae, 0x1b710b35131c471b],
    [0x28db77f523047d84, 0x32caab7b40c72493], [0x3c9ebe0a15c9bebc, 0x431d67c49c100d4c],
    [0x4cc5d4becb3e42b6, 0x597f299cfc657e2a], [0x5fcb6fab3ad6faec, 0x6c44198c4a475817]]"

definition ROTR :: "u64 \<Rightarrow> nat \<Rightarrow> u64" where
  "ROTR x s = drop_bit s x OR push_bit (64 - s) x"

text \<open>\<open>__builtin_bswap64\<close> reverses the bytes of a word.\<close>

definition CRYPTO_bswap8 :: "u64 \<Rightarrow> u64" where
  "CRYPTO_bswap8 x = of_nat (be_nat (rev (be_bytes 8 (unat x))))"

text \<open>The copy reads the eight bytes in the little-endian order of the host.\<close>

definition load_u64_be :: "u8 list \<Rightarrow> u64" where
  "load_u64_be ptr = (let ret = of_nat (be_nat (rev (take 8 ptr))) in CRYPTO_bswap8 ret)"

definition sha512_Sigma0 :: "u64 \<Rightarrow> u64" where
  "sha512_Sigma0 x = ROTR x 28 XOR ROTR x 34 XOR ROTR x 39"

definition sha512_Sigma1 :: "u64 \<Rightarrow> u64" where
  "sha512_Sigma1 x = ROTR x 14 XOR ROTR x 18 XOR ROTR x 41"

definition sha512_sigma0 :: "u64 \<Rightarrow> u64" where
  "sha512_sigma0 x = ROTR x 1 XOR ROTR x 8 XOR drop_bit 7 x"

definition sha512_sigma1 :: "u64 \<Rightarrow> u64" where
  "sha512_sigma1 x = ROTR x 19 XOR ROTR x 61 XOR drop_bit 6 x"

definition sha512_Ch :: "u64 \<Rightarrow> u64 \<Rightarrow> u64 \<Rightarrow> u64" where
  "sha512_Ch x y z = (x AND y) XOR (NOT x AND z)"

definition sha512_Maj :: "u64 \<Rightarrow> u64 \<Rightarrow> u64 \<Rightarrow> u64" where
  "sha512_Maj x y z = (x AND y) XOR (x AND z) XOR (y AND z)"

definition sha512_ROUND_00_15 :: "u64 \<Rightarrow> nat \<Rightarrow> 64 regs \<Rightarrow> 64 regs" where
  "sha512_ROUND_00_15 T1 i = (\<lambda>(a, b, c, d, e, f, g, h).
     let T1 = T1 + (h + sha512_Sigma1 e + sha512_Ch e f g + K512 ! i);
         h = sha512_Sigma0 a + sha512_Maj a b c;
         d = d + T1;
         h = h + T1
     in (a, b, c, d, e, f, g, h))"

text \<open>\<open>T1 = X[i] = load_u64_be(in + i * 8); ROUND_00_15(i, ...)\<close>\<close>

definition sha512_load_round :: "u8 list \<Rightarrow> nat \<Rightarrow> u64 list \<times> 64 regs \<Rightarrow> u64 list \<times> 64 regs" where
  "sha512_load_round data i = (\<lambda>(X, v).
     let X = X[i := load_u64_be (drop (i * 8) data)];
         T1 = X ! i
     in (X, sha512_ROUND_00_15 T1 i v))"

definition sha512_ROUND_16_80 :: "nat \<Rightarrow> nat \<Rightarrow> u64 list \<times> 64 regs \<Rightarrow> u64 list \<times> 64 regs" where
  "sha512_ROUND_16_80 i j = (\<lambda>(X, v).
     let s0 = X ! ((j + 1) mod 16);
         s0 = sha512_sigma0 s0;
         s1 = X ! ((j + 14) mod 16);
         s1 = sha512_sigma1 s1;
         X = X[j mod 16 := X ! (j mod 16) + (s0 + s1 + X ! ((j + 9) mod 16))];
         T1 = X ! (j mod 16)
     in (X, sha512_ROUND_00_15 T1 (i + j) v))"

section \<open>The block function\<close>

definition sha512_block :: "u64 list \<Rightarrow> u8 list \<Rightarrow> u64 list" where
  "sha512_block state data =
     (let v = regs state;
          (X, v) = sha2_eight (sha512_load_round data) 8 (sha2_eight (sha512_load_round data) 0 (replicate 16 0, v));
          (X, v) = for_loop 16 80 16
            (\<lambda>i s. sha2_eight (sha512_ROUND_16_80 i) 8 (sha2_eight (sha512_ROUND_16_80 i) 0 s)) (X, v)
      in add_regs state v)"

fun sha512_block_data_order :: "u64 list \<Rightarrow> u8 list \<Rightarrow> nat \<Rightarrow> u64 list" where
  "sha512_block_data_order state data 0 = state"
| "sha512_block_data_order state data (Suc num) =
     sha512_block_data_order (sha512_block state data) (drop (16 * 8) data) num"

section \<open>The block function of 32-bit x86\<close>

text \<open>
  \<open>F\<close> is the offset of the frame \<open>F\<close> in \<open>X\<close>; the state of the loops is \<open>(X, F, A, E)\<close>.  The
  end of both loop bodies, from the value \<open>T\<close> of the schedule on, is \<open>sha512_i386_round\<close>.
\<close>

definition sha512_i386_round :: "u64 \<Rightarrow> nat \<Rightarrow> u64 list \<times> nat \<times> u64 \<times> u64 \<Rightarrow> u64 list \<times> nat \<times> u64 \<times> u64" where
  "sha512_i386_round T i = (\<lambda>(X, F, A, E).
     let X = X[F := A];
         X = X[F + 4 := E];
         X = X[F + 8 := T];
         T = T + (X ! (F + 7) + sha512_Sigma1 E + sha512_Ch E (X ! (F + 5)) (X ! (F + 6)) + K512 ! i);
         E = X ! (F + 3) + T;
         A = T + sha512_Sigma0 A + sha512_Maj A (X ! (F + 1)) (X ! (F + 2))
     in (X, F - 1, A, E))"

definition sha512_i386_first :: "u8 list \<Rightarrow> nat \<Rightarrow> u64 list \<times> nat \<times> u64 \<times> u64 \<Rightarrow> u64 list \<times> nat \<times> u64 \<times> u64" where
  "sha512_i386_first data i s = sha512_i386_round (load_u64_be (drop (i * 8) data)) i s"

definition sha512_i386_later :: "nat \<Rightarrow> u64 list \<times> nat \<times> u64 \<times> u64 \<Rightarrow> u64 list \<times> nat \<times> u64 \<times> u64" where
  "sha512_i386_later i = (\<lambda>(X, F, A, E).
     let T = sha512_sigma0 (X ! (F + 8 + 16 - 1));
         T = T + sha512_sigma1 (X ! (F + 8 + 16 - 14));
         T = T + (X ! (F + 8 + 16) + X ! (F + 8 + 16 - 9))
     in sha512_i386_round T i (X, F, A, E))"

definition sha512_i386_block :: "u64 list \<Rightarrow> u8 list \<Rightarrow> u64 list" where
  "sha512_i386_block state data =
     (let F = 80;
          A = state ! 0;
          X = (replicate (9 + 80) 0)
            [F + 1 := state ! 1, F + 2 := state ! 2, F + 3 := state ! 3];
          E = state ! 4;
          X = X[F + 5 := state ! 5, F + 6 := state ! 6, F + 7 := state ! 7];
          s = for_loop 0 16 1 (sha512_i386_first data) (X, F, A, E);
          (X, F, A, E) = for_loop 16 80 1 sha512_i386_later s
      in [state ! 0 + A, state ! 1 + X ! (F + 1), state ! 2 + X ! (F + 2), state ! 3 + X ! (F + 3),
          state ! 4 + E, state ! 5 + X ! (F + 5), state ! 6 + X ! (F + 6), state ! 7 + X ! (F + 7)])"

fun sha512_i386_block_data_order :: "u64 list \<Rightarrow> u8 list \<Rightarrow> nat \<Rightarrow> u64 list" where
  "sha512_i386_block_data_order state data 0 = state"
| "sha512_i386_block_data_order state data (Suc num) =
     sha512_i386_block_data_order (sha512_i386_block state data) (drop (16 * 8) data) num"

section \<open>The digests\<close>

definition SHA512_Transform :: "u8 list \<Rightarrow> SHA512_CTX \<Rightarrow> SHA512_CTX" where
  "SHA512_Transform data c = c\<lparr>sh := sha512_block_data_order (sh c) data 1\<rparr>"

text \<open>The part of \<open>SHA512_Update\<close> after a partial block has been completed.\<close>

definition sha512_update_blocks :: "u8 list \<Rightarrow> SHA512_CTX \<Rightarrow> SHA512_CTX" where
  "sha512_update_blocks data c =
     (let (data, c) =
        (if length data \<ge> SHA512_CBLOCK then
           (drop (length data - length data mod SHA512_CBLOCK) data,
            c\<lparr>sh := sha512_block_data_order (sh c) data (length data div SHA512_CBLOCK)\<rparr>)
         else (data, c))
      in if length data \<noteq> 0 then c\<lparr>sp := blit (sp c) 0 data, snum := length data\<rparr> else c)"

definition SHA512_Update :: "u8 list \<Rightarrow> SHA512_CTX \<Rightarrow> SHA512_CTX" where
  "SHA512_Update data c =
     (if length data = 0 then c
      else
        let l = Nl c + push_bit 3 (of_nat (length data));
            c = (if l < Nl c then c\<lparr>Nh := Nh c + 1\<rparr> else c);
            c = c\<lparr>Nh := Nh c + of_nat (length data div 2 ^ 61)\<rparr>;
            c = c\<lparr>Nl := l\<rparr>
        in if snum c \<noteq> 0 then
             let n = SHA512_CBLOCK - snum c
             in if length data < n then
                  c\<lparr>sp := blit (sp c) (snum c) data, snum := snum c + length data\<rparr>
                else
                  let c = c\<lparr>sp := blit (sp c) (snum c) (take n data), snum := 0\<rparr>;
                      c = c\<lparr>sh := sha512_block_data_order (sh c) (sp c) 1\<rparr>
                  in sha512_update_blocks (drop n data) c
           else sha512_update_blocks data c)"

text \<open>A word of the state as it is written to \<open>out\<close>.\<close>

definition sha512_put :: "u64 \<Rightarrow> u8 list" where
  "sha512_put t =
     [ucast (drop_bit 56 t), ucast (drop_bit 48 t), ucast (drop_bit 40 t), ucast (drop_bit 32 t),
      ucast (drop_bit 24 t), ucast (drop_bit 16 t), ucast (drop_bit 8 t), ucast t]"

text \<open>\<open>SHA512_Final\<close> up to its last call of the block function, and the output after it.\<close>

definition sha512_finish :: "SHA512_CTX \<Rightarrow> SHA512_CTX" where
  "sha512_finish c =
     (let n = snum c;
          c = c\<lparr>sp := (sp c)[n := 0x80]\<rparr>;
          n = n + 1;
          (n, c) =
            (if n > SHA512_CBLOCK - 16 then
               let c = c\<lparr>sp := blit (sp c) n (replicate (SHA512_CBLOCK - n) 0)\<rparr>
               in (0, c\<lparr>sh := sha512_block_data_order (sh c) (sp c) 1\<rparr>)
             else (n, c));
          c = c\<lparr>sp := blit (sp c) n (replicate (SHA512_CBLOCK - 16 - n) 0)\<rparr>;
          c = c\<lparr>sp := (sp c)
            [127 := ucast (Nl c), 126 := ucast (drop_bit 8 (Nl c)), 125 := ucast (drop_bit 16 (Nl c)),
             124 := ucast (drop_bit 24 (Nl c)), 123 := ucast (drop_bit 32 (Nl c)), 122 := ucast (drop_bit 40 (Nl c)),
             121 := ucast (drop_bit 48 (Nl c)), 120 := ucast (drop_bit 56 (Nl c)), 119 := ucast (Nh c),
             118 := ucast (drop_bit 8 (Nh c)), 117 := ucast (drop_bit 16 (Nh c)), 116 := ucast (drop_bit 24 (Nh c)),
             115 := ucast (drop_bit 32 (Nh c)), 114 := ucast (drop_bit 40 (Nh c)), 113 := ucast (drop_bit 48 (Nh c)),
             112 := ucast (drop_bit 56 (Nh c))]\<rparr>
      in c\<lparr>sh := sha512_block_data_order (sh c) (sp c) 1\<rparr>)"

definition SHA512_Final :: "bool \<Rightarrow> SHA512_CTX \<Rightarrow> u8 list option \<times> SHA512_CTX" where
  "SHA512_Final out_null c =
     (let c = sha512_finish c
      in if out_null then (None, c)
         else if smd_len c = SHA384_DIGEST_LENGTH then
           (Some (concat (map (\<lambda>n. sha512_put (sh c ! n)) [0..<SHA384_DIGEST_LENGTH div 8])), c)
         else if smd_len c = SHA512_DIGEST_LENGTH then
           (Some (concat (map (\<lambda>n. sha512_put (sh c ! n)) [0..<SHA512_DIGEST_LENGTH div 8])), c)
         else (None, c))"

definition SHA384_Update :: "u8 list \<Rightarrow> SHA512_CTX \<Rightarrow> SHA512_CTX" where
  "SHA384_Update data sha = SHA512_Update data sha"

definition SHA384_Final :: "bool \<Rightarrow> SHA512_CTX \<Rightarrow> u8 list option \<times> SHA512_CTX" where
  "SHA384_Final out_null sha = SHA512_Final out_null sha"

text \<open>\<open>ctx\<close> is the automatic variable, with the contents it happens to have.\<close>

definition SHA384 :: "SHA512_CTX \<Rightarrow> u8 list \<Rightarrow> u8 list option" where
  "SHA384 ctx data =
     (let ctx = SHA384_Init ctx;
          ctx = SHA384_Update data ctx;
          (out, ctx) = SHA384_Final False ctx
      in out)"

definition SHA512 :: "SHA512_CTX \<Rightarrow> u8 list \<Rightarrow> u8 list option" where
  "SHA512 ctx data =
     (let ctx = SHA512_Init ctx;
          ctx = SHA512_Update data ctx;
          (out, ctx) = SHA512_Final False ctx
      in out)"

section \<open>FIPS 180-4\<close>

definition fips_sha512_compress :: "u64 list \<Rightarrow> u8 list \<Rightarrow> u64 list" where
  "fips_sha512_compress st block =
     sha2_compress
       (\<lambda>x. word_rotr 28 x XOR word_rotr 34 x XOR word_rotr 39 x)
       (\<lambda>x. word_rotr 14 x XOR word_rotr 18 x XOR word_rotr 41 x)
       (\<lambda>x. word_rotr 1 x XOR word_rotr 8 x XOR drop_bit 7 x)
       (\<lambda>x. word_rotr 19 x XOR word_rotr 61 x XOR drop_bit 6 x)
       K512 st (be_words 8 block)"

definition fips_sha512 :: "u64 list \<Rightarrow> nat \<Rightarrow> u8 list \<Rightarrow> u8 list" where
  "fips_sha512 iv n m =
     concat (map (\<lambda>w. be_bytes 8 (unat w))
       (take (n div 8) (fold_blocks 128 fips_sha512_compress iv
          (m @ padding 128 (be_bytes 16 (8 * length m)) (length m)))))"

lemma length_K512: "length K512 = 80"
  by (simp add: K512_def)

lemma sha512_functions:
  "sha512_Sigma0 = (\<lambda>x. word_rotr 28 x XOR word_rotr 34 x XOR word_rotr 39 x)"
  "sha512_Sigma1 = (\<lambda>x. word_rotr 14 x XOR word_rotr 18 x XOR word_rotr 41 x)"
  "sha512_sigma0 = (\<lambda>x. word_rotr 1 x XOR word_rotr 8 x XOR drop_bit 7 x)"
  "sha512_sigma1 = (\<lambda>x. word_rotr 19 x XOR word_rotr 61 x XOR drop_bit 6 x)"
proof -
  have "ROTR x n = word_rotr n x" if "0 < n" "n < 64" for x n
    using rotate_right [of n x] that by (simp add: ROTR_def)
  then show "sha512_Sigma0 = (\<lambda>x. word_rotr 28 x XOR word_rotr 34 x XOR word_rotr 39 x)"
    "sha512_Sigma1 = (\<lambda>x. word_rotr 14 x XOR word_rotr 18 x XOR word_rotr 41 x)"
    "sha512_sigma0 = (\<lambda>x. word_rotr 1 x XOR word_rotr 8 x XOR drop_bit 7 x)"
    "sha512_sigma1 = (\<lambda>x. word_rotr 19 x XOR word_rotr 61 x XOR drop_bit 6 x)"
    by (simp_all add: fun_eq_iff sha512_Sigma0_def sha512_Sigma1_def sha512_sigma0_def sha512_sigma1_def)
qed

lemma load_u64:
  assumes "8 \<le> length ptr"
  shows "load_u64_be ptr = of_nat (be_nat (take 8 ptr))"
proof -
  define bs where "bs = rev (take 8 ptr)"
  have len: "length bs = 8" using assms by (simp add: bs_def)
  have "be_nat bs < 2 ^ 64" using be_nat_less [of bs] len by simp
  then have "unat (of_nat (be_nat bs) :: u64) = be_nat bs" by (simp add: unat_of_nat)
  then have "be_bytes 8 (unat (of_nat (be_nat bs) :: u64)) = bs"
    using be_bytes_be_nat [of bs] len by simp
  then show ?thesis by (simp add: load_u64_be_def CRYPTO_bswap8_def flip: bs_def) (simp add: bs_def)
qed

text \<open>The sixteen words of a block.\<close>

definition sha512_words :: "u8 list \<Rightarrow> u64 list" where
  "sha512_words data = map (\<lambda>i. load_u64_be (drop (i * 8) data)) [0..<16]"

lemma sha512_words_be:
  assumes "128 \<le> length data" shows "sha512_words data = be_words 8 data"
  unfolding sha512_words_def be_words_def
proof (rule map_cong [OF refl])
  fix i assume "i \<in> set [0..<16]"
  then have "8 \<le> length (drop (i * 8) data)" using assms by simp
  then show "load_u64_be (drop (i * 8) data) = of_nat (be_nat (take 8 (drop (8 * i) data)))"
    by (simp add: load_u64 mult.commute)
qed

lemma sha512_words_nth [simp]: "length (sha512_words data) = 16"
  "i < 16 \<Longrightarrow> sha512_words data ! i = load_u64_be (drop (i * 8) data)"
  by (simp_all add: sha512_words_def)

section \<open>The unrolled block function\<close>

abbreviation sha512_step :: "u64 \<Rightarrow> u64 \<Rightarrow> 64 regs \<Rightarrow> 64 regs" where
  "sha512_step \<equiv> sha2_step sha512_Sigma0 sha512_Sigma1"

lemma rot8_sha512: "rot8 (X, sha512_ROUND_00_15 T1 i v) = (X, sha512_step (K512 ! i) T1 v)"
  by (simp add: sha512_ROUND_00_15_def rot8_def sha2_step_def sha512_Ch_def sha512_Maj_def Let_def
      case_prod_beta algebra_simps)

text \<open>The rounds \<open>i + j\<close> of the passes \<open>i = 16, 32, ...\<close> of the loop.\<close>

definition sha512_later :: "nat \<Rightarrow> u64 list \<times> 64 regs \<Rightarrow> u64 list \<times> 64 regs" where
  "sha512_later t = sha512_ROUND_16_80 (16 * (t div 16)) (t mod 16)"

interpretation sha512_rounds: sha2_window sha512_Sigma0 sha512_Sigma1 sha512_sigma0 sha512_sigma1 K512 sha512_later
proof unfold_locales
  show "rot8 (sha512_later i (X, v)) =
      (let w = sha512_sigma1 (X ! ((i + 14) mod 16)) + X ! ((i + 9) mod 16) +
               sha512_sigma0 (X ! ((i + 1) mod 16)) + X ! (i mod 16)
       in (X[i mod 16 := w], sha512_step (K512 ! i) w v))"
    if "length X = 16" for X i v
  proof -
    have "16 * (i div 16) + i mod 16 = i" by simp
    moreover have "(i mod 16 + k) mod 16 = (i + k) mod 16" for k by (simp add: mod_simps)
    ultimately show ?thesis
      using that by (simp only: sha512_later_def sha512_ROUND_16_80_def rot8_sha512 Let_def case_prod_conv
          mod_mod_trivial nth_list_update_eq mod_less_divisor zero_less_numeral) (simp add: algebra_simps)
  qed
qed (simp add: length_K512)

lemma sha512_passes:
  "for_loop 16 80 16 (\<lambda>i s. sha2_eight (sha512_ROUND_16_80 i) 8 (sha2_eight (sha512_ROUND_16_80 i) 0 s)) p =
   fold (\<lambda>i p. rot8 (sha512_later i p)) [16..<80] p"
proof -
  have "sha2_eight (sha512_ROUND_16_80 (16 + 16 * k)) 8 (sha2_eight (sha512_ROUND_16_80 (16 + 16 * k)) 0 s) =
      fold (\<lambda>i p. rot8 (sha512_later i p)) [16 + 16 * k..<16 + 16 * k + 16] s" for k s
  proof -
    have "sha512_later (16 + 16 * k + j) = sha512_ROUND_16_80 (16 + 16 * k) j" if "j < 16" for j
    proof -
      have e: "16 + 16 * k + j = j + 16 * Suc k" by simp
      have "(16 + 16 * k + j) div 16 = Suc k" "(16 + 16 * k + j) mod 16 = j"
        unfolding e using that by (simp_all del: mult_Suc_right)
      then show ?thesis unfolding sha512_later_def by simp
    qed
    then have "fold (\<lambda>j p. rot8 (sha512_ROUND_16_80 (16 + 16 * k) j p)) [0..<16] s =
        fold (\<lambda>j p. rot8 (sha512_later (16 + 16 * k + j) p)) [0..<16] s"
      by (intro fold_cong) simp_all
    moreover have "[16 + 16 * k..<16 + 16 * k + 16] = map (\<lambda>j. 16 + 16 * k + j) [0..<16]"
      using map_add_upt [of "16 + 16 * k" 16] by (simp add: add.commute)
    ultimately show ?thesis by (simp only: sha2_sixteen fold_map o_def)
  qed
  from for_loop_fold [where step = 16 and i = 16 and n = 4 and f = "\<lambda>i p. rot8 (sha512_later i p)", OF _ this] show ?thesis by simp
qed

lemma sha512_first:
  assumes X: "length X = 16" and "n \<le> 16"
  shows "fold (\<lambda>i p. rot8 (sha512_load_round data i p)) [0..<n] (X, v) =
    (take n (sha512_words data) @ drop n X, sha512_rounds.steps (sha512_words data) n v)"
  using assms(2)
proof (induction n)
  case (Suc n)
  then have "(take n (sha512_words data) @ drop n X)[n := load_u64_be (drop (n * 8) data)] =
      take (Suc n) (sha512_words data) @ drop (Suc n) X"
    using X by (simp add: list_update_append take_Suc_conv_app_nth flip: Cons_nth_drop_Suc)
  moreover have "n < length (take n (sha512_words data) @ drop n X)" using X Suc.prems by simp
  moreover have "(take (Suc n) (sha512_words data) @ drop (Suc n) X) ! n = load_u64_be (drop (n * 8) data)"
    using Suc.prems by (simp add: nth_append)
  ultimately show ?case using Suc
    by (simp add: sha512_load_round_def rot8_sha512 Let_def)
qed simp

lemma sha512_block_compress:
  "sha512_block st data = sha2_compress sha512_Sigma0 sha512_Sigma1 sha512_sigma0 sha512_sigma1 K512 st (sha512_words data)"
  using sha512_first [of "replicate 16 0" 16 data "regs st", folded sha2_sixteen]
    sha512_rounds.window_rounds [of "sha512_words data" st]
  by (simp add: sha512_block_def sha512_passes length_K512 Let_def case_prod_beta)

section \<open>The sliding frame\<close>

text \<open>
  Before round \<open>i\<close> the frame stands at \<open>80 - i\<close>, with the working variables in and above it and
  every word of the schedule so far at a place of its own.
\<close>

definition frame :: "u64 list \<Rightarrow> nat \<Rightarrow> u64 list \<times> nat \<times> u64 \<times> u64 \<Rightarrow> 64 regs \<Rightarrow> bool" where
  "frame W i = (\<lambda>(X, F, A, E) (a, b, c, d, e, f, g, h).
     length X = 89 \<and> F = 80 - i \<and> A = a \<and> X ! (F + 1) = b \<and> X ! (F + 2) = c \<and> X ! (F + 3) = d \<and>
     E = e \<and> X ! (F + 5) = f \<and> X ! (F + 6) = g \<and> X ! (F + 7) = h \<and> (\<forall>j<i. X ! (88 - j) = W ! j))"

lemma frame_round:
  assumes fr: "frame W i s v" and i: "i < 80" and T: "T = W ! i"
  shows "frame W (Suc i) (sha512_i386_round T i s) (sha512_step (K512 ! i) (W ! i) v)"
proof -
  obtain X F A E a b c d e f g h where s: "s = (X, F, A, E)" and v: "v = (a, b, c, d, e, f, g, h)"
    by (cases s; cases v) auto
  obtain F' where F: "80 - i = Suc F'" "79 - i = F'" using i by (cases "80 - i") auto
  have fr: "length X = 89" "F = Suc F'" "A = a" "X ! (F + 1) = b" "X ! (F + 2) = c" "X ! (F + 3) = d"
    "E = e" "X ! (F + 5) = f" "X ! (F + 6) = g" "X ! (F + 7) = h" "\<forall>j<i. X ! (88 - j) = W ! j"
    using fr unfolding frame_def s v prod.case F(1) by blast+
  have le: "F' + 9 \<le> 88" using F(2) by simp
  have "F + 2 = F' + 3" using fr(2) by simp
  with fr(5) have c3: "X ! (F' + 3) = c" by (simp only:)
  have "88 - j \<noteq> F' + 9" "88 - j \<noteq> F' + 5" "88 - j \<noteq> F' + 1" if "j < i" for j using that F(2) i by auto
  moreover have "88 - i = F' + 9" using F(2) i by simp
  ultimately have words: "\<forall>j<Suc i. X[F := A, F + 4 := E, F + 8 := T] ! (88 - j) = W ! j"
    using fr(1,2,11) le T by (auto simp: less_Suc_eq nth_list_update)
  show ?thesis
    unfolding sha512_i386_round_def sha2_step_def frame_def s v Let_def prod.case
    using fr(1-10) c3 le F(2) words
    by (simp add: T sha512_Ch_def sha512_Maj_def algebra_simps)
qed

lemma frame_fold:
  assumes "frame W n s v" "n \<le> m" "m \<le> 80"
    and "\<And>i s v. n \<le> i \<Longrightarrow> i < m \<Longrightarrow> frame W i s v \<Longrightarrow> R i s = sha512_i386_round (W ! i) i s"
  shows "frame W m (fold R [n..<m] s) (fold (\<lambda>t. sha512_step (K512 ! t) (W ! t)) [n..<m] v)"
  using assms(2-4)
proof (induction m rule: dec_induct)
  case base
  then show ?case using assms(1) by simp
next
  case (step m)
  then have IH: "frame W m (fold R [n..<m] s) (fold (\<lambda>t. sha512_step (K512 ! t) (W ! t)) [n..<m] v)"
    by (simp add: less_Suc_eq)
  moreover have "R m (fold R [n..<m] s) = sha512_i386_round (W ! m) m (fold R [n..<m] s)"
    using step.prems(2) [OF _ _ IH] step.hyps by simp
  ultimately show ?case using frame_round [OF IH, of "W ! m"] step.hyps step.prems(1) by simp
qed

lemma i386_later:
  assumes "frame W i s v" "16 \<le> i" "i < 80" and W: "W = sha2_schedule sha512_sigma0 sha512_sigma1 64 M" "length M = 16"
  shows "sha512_i386_later i s = sha512_i386_round (W ! i) i s"
proof -
  obtain X F A E where s: "s = (X, F, A, E)" by (cases s) auto
  have F: "F = 80 - i" and X: "\<forall>j<i. X ! (88 - j) = W ! j"
    using assms(1) by (auto simp: frame_def s)
  have at: "X ! (88 - (i - k)) = W ! (i - k)" if "1 \<le> k" "k \<le> 16" for k
    using assms(2) that by (intro X [rule_format]) simp
  have "F + 8 + 16 - 1 = 88 - (i - 15)" "F + 8 + 16 - 14 = 88 - (i - 2)" "F + 8 + 16 = 88 - (i - 16)"
    "F + 8 + 16 - 9 = 88 - (i - 7)"
    using assms(2,3) F by simp_all
  then have "X ! (F + 8 + 16 - 1) = W ! (i - 15)" "X ! (F + 8 + 16 - 14) = W ! (i - 2)"
    "X ! (F + 8 + 16) = W ! (i - 16)" "X ! (F + 8 + 16 - 9) = W ! (i - 7)"
    using at [of 15] at [of 2] at [of 16] at [of 7] by (simp_all only:)
  then have "sha512_i386_later i s = sha512_i386_round (sha512_sigma0 (W ! (i - 15)) + sha512_sigma1 (W ! (i - 2)) +
      (W ! (i - 16) + W ! (i - 7))) i s"
    by (simp only: sha512_i386_later_def s Let_def prod.case)
  moreover have "W ! i = sha512_sigma1 (W ! (i - 2)) + W ! (i - 7) + sha512_sigma0 (W ! (i - 15)) + W ! (i - 16)"
  proof -
    have "16 + (i - 16) = i" "14 + (i - 16) = i - 2" "9 + (i - 16) = i - 7" "1 + (i - 16) = i - 15" "i - 16 < 64"
      using assms(2,3) by simp_all
    then show ?thesis using sha2_schedule_next [OF W(2) _ W(1), of "i - 16"] by (simp only:)
  qed
  ultimately show ?thesis by (simp add: algebra_simps)
qed

lemma for_loop_1: "for_loop i (i + n) 1 body s = fold body [i..<i + n] s"
  using for_loop_fold [where step = 1 and f = body] by simp

lemma sha512_i386_block_compress:
  "sha512_i386_block st data = sha2_compress sha512_Sigma0 sha512_Sigma1 sha512_sigma0 sha512_sigma1 K512 st (sha512_words data)"
proof -
  define M where "M = sha512_words data"
  define W where "W = sha2_schedule sha512_sigma0 sha512_sigma1 64 M"
  define s0 where "s0 = ((replicate (9 + 80) 0)
    [80 + 1 := st ! 1, 80 + 2 := st ! 2, 80 + 3 := st ! 3, 80 + 5 := st ! 5, 80 + 6 := st ! 6, 80 + 7 := st ! 7],
    80 :: nat, st ! 0, st ! 4)"
  have M: "length M = 16" by (simp add: M_def)
  have f0: "frame W 0 s0 (regs st)" by (simp add: frame_def regs_def s0_def)
  have W16: "W ! i = load_u64_be (drop (i * 8) data)" if "i < 16" for i
    using that schedule_start [of i M] M by (simp add: W_def M_def sha2_schedule_def)
  have "frame W 16 (fold (sha512_i386_first data) [0..<16] s0) (sha512_rounds.steps W 16 (regs st))"
    by (rule frame_fold [OF f0]) (simp_all add: sha512_i386_first_def W16)
  then have "frame W 80 (fold sha512_i386_later [16..<80] (fold (sha512_i386_first data) [0..<16] s0))
      (fold (\<lambda>t. sha512_step (K512 ! t) (W ! t)) [16..<80] (sha512_rounds.steps W 16 (regs st)))"
    by (rule frame_fold) (simp_all add: i386_later [OF _ _ _ W_def M])
  moreover have "fold (\<lambda>t. sha512_step (K512 ! t) (W ! t)) [16..<80] (sha512_rounds.steps W 16 v) = sha512_rounds.steps W 80 v" for v
  proof -
    have e: "[0..<80] = [0..<16] @ [16..<80]"
      using upt_add_eq_append [of 0 16 64] by (simp del: upt_rec_numeral)
    show ?thesis unfolding e fold_append o_apply ..
  qed
  ultimately have fr: "frame W 80 (fold sha512_i386_later [16..<80] (fold (sha512_i386_first data) [0..<16] s0))
      (sha512_rounds.steps W 80 (regs st))"
    by simp
  have blk: "sha512_i386_block st data =
      (case fold sha512_i386_later [16..<80] (fold (sha512_i386_first data) [0..<16] s0) of (X, F, A, E) \<Rightarrow>
        [st ! 0 + A, st ! 1 + X ! (F + 1), st ! 2 + X ! (F + 2), st ! 3 + X ! (F + 3),
         st ! 4 + E, st ! 5 + X ! (F + 5), st ! 6 + X ! (F + 6), st ! 7 + X ! (F + 7)])"
    using for_loop_1 [of 0 16 "sha512_i386_first data"] for_loop_1 [of 16 64 sha512_i386_later]
    by (simp add: sha512_i386_block_def s0_def Let_def del: upt_rec_numeral)
  have spec: "sha2_compress sha512_Sigma0 sha512_Sigma1 sha512_sigma0 sha512_sigma1 K512 st M =
      add_regs st (sha512_rounds.steps W 80 (regs st))"
    by (simp add: sha2_compress_def W_def length_K512 Let_def del: upt_rec_numeral)
  obtain X F A E where s1: "fold sha512_i386_later [16..<80] (fold (sha512_i386_first data) [0..<16] s0) = (X, F, A, E)"
    by (rule prod_cases4)
  obtain a b c d e f g h where v1: "sha512_rounds.steps W 80 (regs st) = (a, b, c, d, e, f, g, h)"
    by (rule regs_cases8)
  have "F = 80 - 80" "A = a" "X ! (F + 1) = b" "X ! (F + 2) = c" "X ! (F + 3) = d"
    "E = e" "X ! (F + 5) = f" "X ! (F + 6) = g" "X ! (F + 7) = h"
    using fr unfolding s1 v1 frame_def prod.case by blast+
  then show ?thesis unfolding blk M_def [symmetric] spec s1 v1 add_regs_def prod.case by (simp only:)
qed

section \<open>The collector\<close>

lemma sha512_block_fips:
  assumes "128 \<le> length data"
  shows "sha512_block st data = fips_sha512_compress st data" "sha512_i386_block st data = fips_sha512_compress st data"
  using assms
  by (simp_all add: sha512_block_compress sha512_i386_block_compress fips_sha512_compress_def sha512_functions sha512_words_be)

lemma fips_sha512_take: "fips_sha512_compress st (take 128 m) = fips_sha512_compress st m"
  by (simp add: fips_sha512_compress_def be_words_take [of 8, simplified])

lemma sha512_order_Suc:
  "sha512_block_data_order st m (Suc n) = sha512_block_data_order (sha512_block st m) (drop 128 m) n"
  "sha512_i386_block_data_order st m (Suc n) = sha512_i386_block_data_order (sha512_i386_block st m) (drop 128 m) n"
  by simp_all

interpretation sha512_loop: block_loop 128 sha512_block sha512_block_data_order
  by unfold_locales (simp_all add: sha512_block_fips fips_sha512_take)

interpretation sha512_i386_loop: block_loop 128 sha512_i386_block sha512_i386_block_data_order
  by unfold_locales (simp_all add: sha512_block_fips fips_sha512_take)

lemma sha512_fold:
  "fold_blocks 128 sha512_block = fold_blocks 128 fips_sha512_compress"
  "fold_blocks 128 sha512_i386_block = fold_blocks 128 fips_sha512_compress"
  by (intro ext fold_blocks_cong; simp add: sha512_block_fips)+

text \<open>The context after the bytes \<open>m\<close>.\<close>

definition sha512_collected :: "u64 list \<Rightarrow> u8 list \<Rightarrow> SHA512_CTX \<Rightarrow> bool" where
  "sha512_collected iv m c \<longleftrightarrow> sha512_loop.held iv m (sh c) (sp c) (snum c) \<and> bit_count (Nh c) (Nl c) (length m)"

lemma sha512_collected_Init:
  "length (sp c) = 128 \<Longrightarrow> sha512_collected (sh (SHA512_Init c)) [] (SHA512_Init c)"
  "length (sp c) = 128 \<Longrightarrow> sha512_collected (sh (SHA384_Init c)) [] (SHA384_Init c)"
  by (simp_all add: sha512_collected_def sha512_loop.held_Nil SHA512_Init_def SHA384_Init_def)

lemma sha512_update_blocks_held:
  assumes "sha512_loop.held iv m (sh c) (sp c) 0" "snum c = 0" and c': "c' = sha512_update_blocks d c"
  shows "sha512_loop.held iv (m @ d) (sh c') (sp c') (snum c') \<and> Nl c' = Nl c \<and> Nh c' = Nh c \<and> smd_len c' = smd_len c"
proof -
  have l: "length (drop (128 * (length d div 128)) d) = length d mod 128"
    by (simp add: minus_mult_div_eq_mod)
  then have "drop (128 * (length d div 128)) d = []" if "length d mod 128 = 0" using that by simp
  moreover have "length d - length d mod 128 = 128 * (length d div 128)" by (simp add: minus_mod_eq_mult_div)
  moreover have "0 < length d div 128 \<longleftrightarrow> 128 \<le> length d" by (simp add: div_greater_zero_iff)
  ultimately show ?thesis
    using sha512_loop.held_blocks [OF assms(1) refl, of d] assms(2) l
    unfolding c' sha512_update_blocks_def SHA512_CBLOCK_def Let_def
    by (auto split: if_splits)
qed

lemma sha512_collect_update:
  assumes c: "sha512_collected iv m c"
  shows "sha512_collected iv (m @ d) (SHA512_Update d c) \<and> smd_len (SHA512_Update d c) = smd_len c"
proof (cases "d = []")
  case True
  then show ?thesis using c by (simp add: SHA512_Update_def)
next
  case ne: False
  define c1 where "c1 = (let l = Nl c + push_bit 3 (of_nat (length d));
            c = (if l < Nl c then c\<lparr>Nh := Nh c + 1\<rparr> else c);
            c = c\<lparr>Nh := Nh c + of_nat (length d div 2 ^ 61)\<rparr>
          in c\<lparr>Nl := l\<rparr>)"
  have same: "sh c1 = sh c" "sp c1 = sp c" "snum c1 = snum c" "smd_len c1 = smd_len c"
    by (simp_all add: c1_def Let_def)
  have held: "sha512_loop.held iv m (sh c1) (sp c1) (snum c1)" and n: "snum c1 < 128"
    using c sha512_loop.held_less unfolding sha512_collected_def same by auto
  have cnt: "bit_count (Nh c1) (Nl c1) (length (m @ d))"
    using bit_count_add [of "Nh c" "Nl c" "length m" _ "length d"] c
    by (simp add: sha512_collected_def c1_def Let_def split: if_splits)
  have upd: "SHA512_Update d c =
      (if snum c1 \<noteq> 0 then
         if length d < 128 - snum c1 then c1\<lparr>sp := blit (sp c1) (snum c1) d, snum := snum c1 + length d\<rparr>
         else sha512_update_blocks (drop (128 - snum c1) d)
           (c1\<lparr>sp := blit (sp c1) (snum c1) (take (128 - snum c1) d), snum := 0,
              sh := sha512_block_data_order (sh c1) (blit (sp c1) (snum c1) (take (128 - snum c1) d)) 1\<rparr>)
       else sha512_update_blocks d c1)"
    using ne unfolding SHA512_Update_def c1_def Let_def SHA512_CBLOCK_def by simp
  show ?thesis
  proof (cases "snum c1 = 0")
    case True
    with sha512_update_blocks_held [OF _ _ refl, of iv m c1 d] held cnt same upd show ?thesis
      by (simp add: sha512_collected_def)
  next
    case False
    show ?thesis
    proof (cases "length d < 128 - snum c1")
      case True
      then have "snum c1 + length d < 128" by simp
      then show ?thesis
        using sha512_loop.held_keep [OF held, of d] True False upd cnt same by (simp add: sha512_collected_def)
    next
      case big: False
      define xs where "xs = take (128 - snum c1) d"
      define c2 where "c2 = c1\<lparr>sp := blit (sp c1) (snum c1) xs, snum := 0,
        sh := sha512_block_data_order (sh c1) (blit (sp c1) (snum c1) xs) 1\<rparr>"
      have xs: "snum c1 + length xs = 128" using big n by (simp add: xs_def)
      have "length (blit (sp c1) (snum c1) xs) = 128"
        using held xs by (simp add: sha512_loop.held_def)
      then have "sha512_loop.held iv (m @ xs) (sh c2) (sp c2) 0"
        using sha512_loop.held_fill [OF held xs, of "blit (sp c1) (snum c1) xs"] by (simp add: c2_def)
      moreover have "(m @ xs) @ drop (128 - snum c1) d = m @ d" by (simp add: xs_def)
      moreover have "SHA512_Update d c = sha512_update_blocks (drop (128 - snum c1) d) c2"
        using False big upd by (simp add: c2_def xs_def)
      ultimately show ?thesis
        using sha512_update_blocks_held [OF _ _ refl, of iv "m @ xs" c2 "drop (128 - snum c1) d"] cnt same(4)
        by (simp add: sha512_collected_def c2_def)
    qed
  qed
qed

lemma sha512_collect_fold:
  assumes "sha512_collected iv m c"
  shows "sha512_collected iv (m @ concat ds) (fold SHA512_Update ds c) \<and> smd_len (fold SHA512_Update ds c) = smd_len c"
  using assms
proof (induction ds arbitrary: m c)
  case (Cons d ds)
  from Cons.IH [of "m @ d" "SHA512_Update d c"] sha512_collect_update [OF Cons.prems, of d] show ?case by simp
qed simp

section \<open>The end of a digest\<close>

lemma sha512_put: "sha512_put w = be_bytes 8 (unat w)"
proof -
  have "ucast (drop_bit k w) = (of_nat (unat w div 2 ^ k) :: u8)" for k
    by (simp add: word_unat_eq_iff unat_ucast_mod unat_drop unat_of_nat)
  moreover have "ucast w = (of_nat (unat w) :: u8)"
    by (simp add: word_unat_eq_iff unat_ucast_mod unat_of_nat)
  ultimately show ?thesis
    by (simp add: sha512_put_def be_bytes_numeral div_mult2_eq [symmetric])
qed

lemma sha512_length_octets: "sha512_put (of_nat (n div 2 ^ 64)) @ sha512_put (of_nat n) = be_bytes 16 n"
proof (rule be_nat_inj)
  have u: "unat (of_nat x :: u64) = x mod 2 ^ 64" for x by (simp add: unat_of_nat)
  have "n mod (2 ^ 64 * 2 ^ 64) = 2 ^ 64 * (n div 2 ^ 64 mod 2 ^ 64) + n mod 2 ^ 64"
    by (rule mod_mult2_eq)
  then show "be_nat (sha512_put (of_nat (n div 2 ^ 64)) @ sha512_put (of_nat n)) = be_nat (be_bytes 16 n)"
    by (simp only: sha512_put be_nat_append be_nat_be_bytes u length_be_bytes) simp
qed (simp add: sha512_put)

text \<open>The sixteen assignments write the two words of the count.\<close>

lemma sha512_put_count:
  assumes "length p = 128"
  shows "p[127 := ucast l, 126 := ucast (drop_bit 8 l), 125 := ucast (drop_bit 16 l), 124 := ucast (drop_bit 24 l),
      123 := ucast (drop_bit 32 l), 122 := ucast (drop_bit 40 l), 121 := ucast (drop_bit 48 l), 120 := ucast (drop_bit 56 l),
      119 := ucast h, 118 := ucast (drop_bit 8 h), 117 := ucast (drop_bit 16 h), 116 := ucast (drop_bit 24 h),
      115 := ucast (drop_bit 32 h), 114 := ucast (drop_bit 40 h), 113 := ucast (drop_bit 48 h), 112 := ucast (drop_bit 56 h)] =
    blit p 112 (sha512_put h @ sha512_put l)"
proof -
  obtain q xs where p: "p = q @ xs" "length q = 112" "length xs = 16"
    using assms that [of "take 112 p" "drop 112 p"] by simp
  obtain b0 b1 b2 b3 b4 b5 b6 b7 b8 b9 b10 b11 b12 b13 b14 b15 where
    "xs = [b0, b1, b2, b3, b4, b5, b6, b7, b8, b9, b10, b11, b12, b13, b14, b15]"
    using p(3) by (auto simp: length_Suc_conv numeral_eq_Suc)
  with p(1,2) show ?thesis by (simp add: blit_def sha512_put_def list_update_append)
qed

lemma sha512_collect_final:
  assumes c: "sha512_collected iv m c" and r: "r = sha512_finish c"
  shows "sh r = fold_blocks 128 fips_sha512_compress iv (m @ padding 128 (be_bytes 16 (8 * length m)) (length m)) \<and>
    smd_len r = smd_len c"
proof -
  define len where "len = be_bytes 16 (8 * length m)"
  have len: "length len = 16" by (simp add: len_def)
  have held: "sha512_loop.held iv m (sh c) (sp c) (snum c)" using c by (simp add: sha512_collected_def)
  have p: "length (sp c) = 128" using held unfolding sha512_loop.held_def by blast
  have n: "snum c < 128" by (rule sha512_loop.held_less [OF held])
  have lenc: "sha512_put (Nh c) @ sha512_put (Nl c) = len"
  proof -
    have nl: "Nl c = of_nat (8 * length m)" "Nh c = of_nat (8 * length m div 2 ^ 64)"
      using c by (simp_all add: sha512_collected_def bit_count_def)
    show ?thesis unfolding nl len_def sha512_length_octets by (rule refl)
  qed
  have "sh r = last_blocks 128 sha512_block_data_order len (sh c) (sp c) (snum c) \<and> smd_len r = smd_len c"
  proof (cases "snum c + 1 > 112")
    case True
    define buf where "buf = blit (blit ((sp c)[snum c := 0x80]) (snum c + 1) (replicate (128 - (snum c + 1)) 0)) 0 (replicate 112 0)"
    have "length buf = 128" using p n by (simp add: buf_def)
    from sha512_put_count [OF this, of "Nl c" "Nh c", unfolded lenc] True show ?thesis
      unfolding r sha512_finish_def last_blocks_def SHA512_CBLOCK_def len Let_def buf_def
      by (simp del: sha512_block_data_order.simps)
  next
    case False
    define buf where "buf = blit ((sp c)[snum c := 0x80]) (snum c + 1) (replicate (128 - 16 - (snum c + 1)) 0)"
    have "length buf = 128" using p n False by (simp add: buf_def)
    from sha512_put_count [OF this, of "Nl c" "Nh c", unfolded lenc] False show ?thesis
      unfolding r sha512_finish_def last_blocks_def SHA512_CBLOCK_def len Let_def buf_def
      by (simp del: sha512_block_data_order.simps)
  qed
  then show ?thesis
    using sha512_loop.absorb_padding [OF held, of len] len
    by (simp add: sha512_loop.absorb_fold sha512_fold len_def)
qed

lemma length_fips_sha512: "length st = 8 \<Longrightarrow> length (fold_blocks 128 fips_sha512_compress st m) = 8"
proof (induction "length m" arbitrary: st m rule: less_induct)
  case less
  have "length (fips_sha512_compress st b) = 8" for b
    by (simp add: fips_sha512_compress_def sha2_compress_def add_regs_def case_prod_beta Let_def)
  with less show ?case by (subst fold_blocks.simps) auto
qed

text \<open>
  Both digests: any sequence of updates, then \<open>SHA512_Final\<close>, which fails for a null \<open>out\<close>.
\<close>

lemma sha512_digest:
  assumes c: "sha512_collected iv [] c" "length iv = 8" and n: "smd_len c = 48 \<or> smd_len c = 64"
  shows "fst (SHA512_Final out_null (fold SHA512_Update ds c)) =
    (if out_null then None else Some (fips_sha512 iv (smd_len c) (concat ds)))"
proof -
  define r where "r = sha512_finish (fold SHA512_Update ds c)"
  have f: "sha512_collected iv (concat ds) (fold SHA512_Update ds c)" "smd_len (fold SHA512_Update ds c) = smd_len c"
    using sha512_collect_fold [OF c(1), of ds] by simp_all
  have s: "sh r = fold_blocks 128 fips_sha512_compress iv
      (concat ds @ padding 128 (be_bytes 16 (8 * length (concat ds))) (length (concat ds)))" "smd_len r = smd_len c"
    using sha512_collect_final [OF f(1) r_def] f(2) by simp_all
  have "length (sh r) = 8" unfolding s(1) by (rule length_fips_sha512 [OF c(2)])
  then have "map (\<lambda>n. sha512_put (sh r ! n)) [0..<k] = map sha512_put (take k (sh r))" if "k \<le> 8" for k
    using that by (intro nth_equalityI) auto
  moreover have put: "sha512_put = (\<lambda>w. be_bytes 8 (unat w))" by (rule ext) (rule sha512_put)
  ultimately have "map (\<lambda>n. sha512_put (sh r ! n)) [0..<6] = map sha512_put (take 6 (sh r))"
    "map (\<lambda>n. sha512_put (sh r ! n)) [0..<8] = map sha512_put (take 8 (sh r))"
    by simp_all
  then show ?thesis
    using n s(2) unfolding SHA512_Final_def fips_sha512_def s(1) [symmetric] r_def [symmetric]
    by (auto simp: SHA384_DIGEST_LENGTH_def SHA512_DIGEST_LENGTH_def put Let_def simp del: upt_rec_numeral)
qed

section \<open>Properties\<close>

text \<open>
  C20.  Both block functions of SHA-512, the one that is unrolled with a window of sixteen
  schedule words and the one for 32-bit x86 that slides a frame of working variables down an
  array of 89 words, apply to each block in turn the compression function of FIPS 180-4, so
  that they agree.
\<close>

theorem sha512_blocks_are_fips:
  assumes "128 * num \<le> length data" "0 < num"
  shows "sha512_block_data_order st data num = fold_blocks 128 fips_sha512_compress st (take (128 * num) data) \<and>
    sha512_i386_block_data_order st data num = sha512_block_data_order st data num"
  using sha512_loop.blk_fold [OF assms(2,1), of st] sha512_i386_loop.blk_fold [OF assms(2,1), of st]
  by (simp add: sha512_fold)

lemma sha512_blocks_are_fips_witness:
  "sha512_i386_block_data_order (replicate 8 1) (replicate 300 7) 2 =
     fold_blocks 128 fips_sha512_compress (replicate 8 1) (replicate 256 7)"
  using sha512_blocks_are_fips [of 2 "replicate 300 7" "replicate 8 1"] by simp

end
