(* ===== verification/Sha1.thy ===== *)
theory Sha1
  imports Md32
begin

unbundle bit_operations_syntax

text \<open>
  SHA-1 (\<open>crypto/fipsmodule/sha/sha1.c\<close>, without the assembly variant): the bodies of the
  eighty rounds, the calls of them, the block function and the digest over the collector of
  \<open>Md32\<close>.
\<close>

section \<open>The context\<close>

type_synonym SHA_CTX = HASH_CTX

definition SHA1_Init :: SHA_CTX where
  "SHA1_Init =
     \<lparr>md_h = [0x67452301, 0xefcdab89, 0x98badcfe, 0x10325476, 0xc3d2e1f0],
      md_Nl = 0, md_Nh = 0, md_data = replicate HASH_CBLOCK 0, md_num = 0\<rparr>"

section \<open>The bodies of the rounds\<close>

definition K_00_19 :: u32 where "K_00_19 = 0x5a827999"
definition K_20_39 :: u32 where "K_20_39 = 0x6ed9eba1"
definition K_40_59 :: u32 where "K_40_59 = 0x8f1bbcdc"
definition K_60_79 :: u32 where "K_60_79 = 0xca62c1d6"

definition F_00_19 :: "u32 \<Rightarrow> u32 \<Rightarrow> u32 \<Rightarrow> u32" where
  "F_00_19 b c d = ((c XOR d) AND b) XOR d"

definition F_20_39 :: "u32 \<Rightarrow> u32 \<Rightarrow> u32 \<Rightarrow> u32" where
  "F_20_39 b c d = b XOR c XOR d"

definition F_40_59 :: "u32 \<Rightarrow> u32 \<Rightarrow> u32 \<Rightarrow> u32" where
  "F_40_59 b c d = (b AND c) OR ((b OR c) AND d)"

definition F_60_79 :: "u32 \<Rightarrow> u32 \<Rightarrow> u32 \<Rightarrow> u32" where
  "F_60_79 b c d = F_20_39 b c d"

text \<open>
  The variables \<open>a, ..., f\<close> of a body; the words \<open>XX0, ..., XX15\<close> are a list that the bodies
  index by number.
\<close>

type_synonym vars = "u32 \<times> u32 \<times> u32 \<times> u32 \<times> u32 \<times> u32"

text \<open>The new value of \<open>a\<close> and the words with it in place \<open>ix\<close>.\<close>

definition Xupdate :: "u32 list \<Rightarrow> nat \<Rightarrow> nat \<Rightarrow> nat \<Rightarrow> nat \<Rightarrow> nat \<Rightarrow> u32 \<times> u32 list" where
  "Xupdate X ix ia ib ic id' =
     (let a = X ! ia XOR X ! ib XOR X ! ic XOR X ! id';
          a = ROTATE a 1
      in (a, X[ix := a]))"

definition BODY_00_15 :: "nat \<Rightarrow> u32 list \<times> vars \<Rightarrow> u32 list \<times> vars" where
  "BODY_00_15 xi = (\<lambda>(X, a, b, c, d, e, f).
     let f = X ! xi + e + K_00_19 + ROTATE a 5 + F_00_19 b c d;
         b = ROTATE b 30
     in (X, a, b, c, d, e, f))"

definition BODY_16_19 :: "nat \<times> nat \<times> nat \<times> nat \<times> nat \<Rightarrow> u32 list \<times> vars \<Rightarrow> u32 list \<times> vars" where
  "BODY_16_19 = (\<lambda>(xi, xa, xb, xc, xd) (X, a, b, c, d, e, f).
     let (f, X) = Xupdate X xi xa xb xc xd;
         f = f + (e + K_00_19 + ROTATE a 5 + F_00_19 b c d);
         b = ROTATE b 30
     in (X, a, b, c, d, e, f))"

definition BODY_20_31 :: "nat \<times> nat \<times> nat \<times> nat \<times> nat \<Rightarrow> u32 list \<times> vars \<Rightarrow> u32 list \<times> vars" where
  "BODY_20_31 = (\<lambda>(xi, xa, xb, xc, xd) (X, a, b, c, d, e, f).
     let (f, X) = Xupdate X xi xa xb xc xd;
         f = f + (e + K_20_39 + ROTATE a 5 + F_20_39 b c d);
         b = ROTATE b 30
     in (X, a, b, c, d, e, f))"

definition BODY_32_39 :: "nat \<times> nat \<times> nat \<times> nat \<Rightarrow> u32 list \<times> vars \<Rightarrow> u32 list \<times> vars" where
  "BODY_32_39 = (\<lambda>(xa, xb, xc, xd) (X, a, b, c, d, e, f).
     let (f, X) = Xupdate X xa xa xb xc xd;
         f = f + (e + K_20_39 + ROTATE a 5 + F_20_39 b c d);
         b = ROTATE b 30
     in (X, a, b, c, d, e, f))"

definition BODY_40_59 :: "nat \<times> nat \<times> nat \<times> nat \<Rightarrow> u32 list \<times> vars \<Rightarrow> u32 list \<times> vars" where
  "BODY_40_59 = (\<lambda>(xa, xb, xc, xd) (X, a, b, c, d, e, f).
     let (f, X) = Xupdate X xa xa xb xc xd;
         f = f + (e + K_40_59 + ROTATE a 5 + F_40_59 b c d);
         b = ROTATE b 30
     in (X, a, b, c, d, e, f))"

definition BODY_60_79 :: "nat \<times> nat \<times> nat \<times> nat \<Rightarrow> u32 list \<times> vars \<Rightarrow> u32 list \<times> vars" where
  "BODY_60_79 = (\<lambda>(xa, xb, xc, xd) (X, a, b, c, d, e, f).
     let (f, X) = Xupdate X xa xa xb xc xd;
         f = X ! xa + e + K_60_79 + ROTATE a 5 + F_60_79 b c d;
         b = ROTATE b 30
     in (X, a, b, c, d, e, f))"

section \<open>The calls\<close>

text \<open>
  Each call names the variables of the call before it, moved on by one: \<open>(A, B, C, D, E, T)\<close>,
  \<open>(T, A, B, C, D, E)\<close>, \<open>(E, T, A, B, C, D)\<close> and so on.
\<close>

definition next_vars :: "'z \<times> vars \<Rightarrow> 'z \<times> vars" where
  "next_vars = (\<lambda>(X, a, b, c, d, e, f). (X, f, a, b, c, d, e))"

text \<open>\<open>HOST_c2l(data, l); X(i) = l\<close>\<close>

definition sha1_load :: "nat \<Rightarrow> u8 list \<times> u32 list \<times> vars \<Rightarrow> u8 list \<times> u32 list \<times> vars" where
  "sha1_load i = (\<lambda>(data, X, v). let (l, data) = HOST_c2l_be data in (data, X[i := l], v))"

text \<open>Rounds 0 to 15: the word of the next round is loaded before each but the last.\<close>

definition sha1_first :: "nat \<Rightarrow> u8 list \<times> u32 list \<times> vars \<Rightarrow> u8 list \<times> u32 list \<times> vars" where
  "sha1_first i s =
     (let s = (if i < 15 then sha1_load (i + 1) s else s);
          (data, p) = s
      in (data, next_vars (BODY_00_15 i p)))"

text \<open>The places in \<open>X\<close> that the calls of rounds 16 to 79 name.\<close>

definition sha1_calls_16_19 :: "(nat \<times> nat \<times> nat \<times> nat \<times> nat) list" where
  "sha1_calls_16_19 =
   [(0, 0, 2, 8, 13), (1, 1, 3, 9, 14), (2, 2, 4, 10, 15), (3, 3, 5, 11, 0)]"

definition sha1_calls_20_31 :: "(nat \<times> nat \<times> nat \<times> nat \<times> nat) list" where
  "sha1_calls_20_31 =
   [(4, 4, 6, 12, 1), (5, 5, 7, 13, 2), (6, 6, 8, 14, 3), (7, 7, 9, 15, 4), (8, 8, 10, 0, 5),
    (9, 9, 11, 1, 6), (10, 10, 12, 2, 7), (11, 11, 13, 3, 8), (12, 12, 14, 4, 9), (13, 13, 15, 5, 10),
    (14, 14, 0, 6, 11), (15, 15, 1, 7, 12)]"

definition sha1_calls_32_39 :: "(nat \<times> nat \<times> nat \<times> nat) list" where
  "sha1_calls_32_39 =
   [(0, 2, 8, 13), (1, 3, 9, 14), (2, 4, 10, 15), (3, 5, 11, 0), (4, 6, 12, 1),
    (5, 7, 13, 2), (6, 8, 14, 3), (7, 9, 15, 4)]"

definition sha1_calls_40_59 :: "(nat \<times> nat \<times> nat \<times> nat) list" where
  "sha1_calls_40_59 =
   [(8, 10, 0, 5), (9, 11, 1, 6), (10, 12, 2, 7), (11, 13, 3, 8), (12, 14, 4, 9),
    (13, 15, 5, 10), (14, 0, 6, 11), (15, 1, 7, 12), (0, 2, 8, 13), (1, 3, 9, 14),
    (2, 4, 10, 15), (3, 5, 11, 0), (4, 6, 12, 1), (5, 7, 13, 2), (6, 8, 14, 3),
    (7, 9, 15, 4), (8, 10, 0, 5), (9, 11, 1, 6), (10, 12, 2, 7), (11, 13, 3, 8)]"

definition sha1_calls_60_79 :: "(nat \<times> nat \<times> nat \<times> nat) list" where
  "sha1_calls_60_79 =
   [(12, 14, 4, 9), (13, 15, 5, 10), (14, 0, 6, 11), (15, 1, 7, 12), (0, 2, 8, 13),
    (1, 3, 9, 14), (2, 4, 10, 15), (3, 5, 11, 0), (4, 6, 12, 1), (5, 7, 13, 2),
    (6, 8, 14, 3), (7, 9, 15, 4), (8, 10, 0, 5), (9, 11, 1, 6), (10, 12, 2, 7),
    (11, 13, 3, 8), (12, 14, 4, 9), (13, 15, 5, 10), (14, 0, 6, 11), (15, 1, 7, 12)]"

definition sha1_later :: "u32 list \<times> vars \<Rightarrow> u32 list \<times> vars" where
  "sha1_later p =
     (let p = fold (\<lambda>x p. next_vars (BODY_16_19 x p)) sha1_calls_16_19 p;
          p = fold (\<lambda>x p. next_vars (BODY_20_31 x p)) sha1_calls_20_31 p;
          p = fold (\<lambda>x p. next_vars (BODY_32_39 x p)) sha1_calls_32_39 p;
          p = fold (\<lambda>x p. next_vars (BODY_40_59 x p)) sha1_calls_40_59 p;
          p = fold (\<lambda>x p. next_vars (BODY_60_79 x p)) sha1_calls_60_79 p
      in p)"

section \<open>The block function\<close>

text \<open>
  One pass of the loop, and where \<open>data\<close> stands after it.  \<open>T\<close> and the words are not
  initialised in the code; each is written before it is read.  After eighty calls the
  variables stand in the order of the last lines of the pass.
\<close>

definition sha1_block :: "u32 list \<Rightarrow> u8 list \<Rightarrow> u32 list \<times> u8 list" where
  "sha1_block state data =
     (let A = state ! 0; B = state ! 1; C = state ! 2; D = state ! 3; E = state ! 4; T = 0;
          s = sha1_load 0 (data, replicate 16 0, A, B, C, D, E, T);
          (data, p) = fold sha1_first [0..<16] s;
          (X, E, T, A, B, C, D) = sha1_later p
      in ([(state ! 0 + E) AND 0xffffffff, (state ! 1 + T) AND 0xffffffff, (state ! 2 + A) AND 0xffffffff,
           (state ! 3 + B) AND 0xffffffff, (state ! 4 + C) AND 0xffffffff], data))"

text \<open>\<open>for (;;)\<close> with \<open>--num == 0\<close> at its end: \<open>num\<close> passes, or \<open>2 ^ 64\<close> of them if \<open>num\<close> is zero.\<close>

fun sha1_passes :: "u32 list \<Rightarrow> u8 list \<Rightarrow> nat \<Rightarrow> u32 list" where
  "sha1_passes state data 0 = state"
| "sha1_passes state data (Suc num) = (let (state, data) = sha1_block state data in sha1_passes state data num)"

definition sha1_block_data_order :: "u32 list \<Rightarrow> u8 list \<Rightarrow> nat \<Rightarrow> u32 list" where
  "sha1_block_data_order state data num = sha1_passes state data (if num = 0 then 2 ^ 64 else num)"

section \<open>The digest\<close>

definition sha1_make_string :: "SHA_CTX \<Rightarrow> u8 list option" where
  "sha1_make_string c =
     Some (HOST_l2c_be (md_h c ! 0) @ HOST_l2c_be (md_h c ! 1) @ HOST_l2c_be (md_h c ! 2) @
           HOST_l2c_be (md_h c ! 3) @ HOST_l2c_be (md_h c ! 4))"

definition SHA1_Update :: "u8 list \<Rightarrow> SHA_CTX \<Rightarrow> SHA_CTX" where
  "SHA1_Update = HASH_UPDATE sha1_block_data_order"

definition SHA1_Transform :: "u8 list \<Rightarrow> SHA_CTX \<Rightarrow> SHA_CTX" where
  "SHA1_Transform = HASH_TRANSFORM sha1_block_data_order"

definition SHA1_Final :: "SHA_CTX \<Rightarrow> u8 list option \<times> SHA_CTX" where
  "SHA1_Final = HASH_FINAL True sha1_block_data_order sha1_make_string"

definition SHA1 :: "u8 list \<Rightarrow> u8 list option" where
  "SHA1 data =
     (let ctx = SHA1_Init;
          ctx = SHA1_Update data ctx;
          (out, ctx) = SHA1_Final ctx
      in out)"

section \<open>FIPS 180-4\<close>

definition fips_f :: "nat \<Rightarrow> u32 \<Rightarrow> u32 \<Rightarrow> u32 \<Rightarrow> u32" where
  "fips_f t x y z =
     (if t < 20 then (x AND y) XOR (NOT x AND z)
      else if t < 40 then x XOR y XOR z
      else if t < 60 then (x AND y) XOR (x AND z) XOR (y AND z)
      else x XOR y XOR z)"

definition fips_K :: "nat \<Rightarrow> u32" where
  "fips_K t = (if t < 20 then 0x5a827999 else if t < 40 then 0x6ed9eba1 else if t < 60 then 0x8f1bbcdc else 0xca62c1d6)"

definition fips_sha1_schedule :: "nat \<Rightarrow> u32 list \<Rightarrow> u32 list" where
  "fips_sha1_schedule =
     schedule (\<lambda>W. let t = length W in word_rotl 1 (W ! (t - 3) XOR W ! (t - 8) XOR W ! (t - 14) XOR W ! (t - 16)))"

definition fips_sha1_step :: "u32 list \<Rightarrow> nat \<Rightarrow> u32 \<times> u32 \<times> u32 \<times> u32 \<times> u32 \<Rightarrow> u32 \<times> u32 \<times> u32 \<times> u32 \<times> u32" where
  "fips_sha1_step W t = (\<lambda>(a, b, c, d, e).
     (word_rotl 5 a + fips_f t b c d + e + fips_K t + W ! t, a, word_rotl 30 b, c, d))"

definition fips_sha1_compress :: "u32 list \<Rightarrow> u8 list \<Rightarrow> u32 list" where
  "fips_sha1_compress st block =
     (let W = fips_sha1_schedule 64 (be_words 4 block);
          (a, b, c, d, e) = fold (fips_sha1_step W) [0..<80] (st ! 0, st ! 1, st ! 2, st ! 3, st ! 4)
      in [st ! 0 + a, st ! 1 + b, st ! 2 + c, st ! 3 + d, st ! 4 + e])"

definition fips_sha1 :: "u32 list \<Rightarrow> u8 list \<Rightarrow> u8 list" where
  "fips_sha1 iv m =
     concat (map (\<lambda>w. be_bytes 4 (unat w))
       (fold_blocks 64 fips_sha1_compress iv (m @ md_padding True (length m))))"

lemma fips_sha1_next:
  assumes "length W = 16" "t < n" and V: "V = fips_sha1_schedule n W"
  shows "V ! (16 + t) = word_rotl 1 (V ! (13 + t) XOR V ! (8 + t) XOR V ! (2 + t) XOR V ! t)"
proof -
  define U where "U = take (16 + t) V"
  have U: "length U = 16 + t" "\<And>k. k < 16 + t \<Longrightarrow> U ! k = V ! k"
    using assms by (simp_all add: U_def fips_sha1_schedule_def)
  have "V ! (16 + t) = word_rotl 1 (U ! (length U - 3) XOR U ! (length U - 8) XOR U ! (length U - 14) XOR U ! (length U - 16))"
    using schedule_next [OF assms(1,2) V [unfolded fips_sha1_schedule_def]] by (simp add: Let_def flip: U_def)
  moreover have "length U - 3 = 13 + t" "length U - 8 = 8 + t" "length U - 14 = 2 + t" "length U - 16 = t"
    using U(1) by simp_all
  ultimately show ?thesis using U(2) by simp
qed

section \<open>The rounds are those of the standard\<close>

lemma F_fips:
  "t < 20 \<Longrightarrow> F_00_19 b c d = fips_f t b c d"
  "20 \<le> t \<Longrightarrow> t < 40 \<Longrightarrow> F_20_39 b c d = fips_f t b c d"
  "40 \<le> t \<Longrightarrow> t < 60 \<Longrightarrow> F_40_59 b c d = fips_f t b c d"
  "60 \<le> t \<Longrightarrow> F_60_79 b c d = fips_f t b c d"
proof -
  show "t < 20 \<Longrightarrow> F_00_19 b c d = fips_f t b c d"
    unfolding F_00_19_def fips_f_def by (simp, intro bit_word_eqI) (auto simp: bit_simps)
  show "40 \<le> t \<Longrightarrow> t < 60 \<Longrightarrow> F_40_59 b c d = fips_f t b c d"
    unfolding F_40_59_def fips_f_def by (simp, intro bit_word_eqI) (auto simp: bit_simps)
qed (simp_all add: F_20_39_def F_60_79_def fips_f_def)

lemma K_fips:
  "t < 20 \<Longrightarrow> K_00_19 = fips_K t"
  "20 \<le> t \<Longrightarrow> t < 40 \<Longrightarrow> K_20_39 = fips_K t"
  "40 \<le> t \<Longrightarrow> t < 60 \<Longrightarrow> K_40_59 = fips_K t"
  "60 \<le> t \<Longrightarrow> K_60_79 = fips_K t"
  by (simp_all add: K_00_19_def K_20_39_def K_40_59_def K_60_79_def fips_K_def)

lemma round_32_fips:
  assumes "32 \<le> t" "t < 40"
  shows "F_20_39 b c d = fips_f t b c d" "K_20_39 = fips_K t"
  using assms F_fips(2) [of t b c d] K_fips(2) [of t] by simp_all

lemma ROTATE_fips: "ROTATE a 1 = word_rotl 1 a" "ROTATE a 5 = word_rotl 5 a" "ROTATE a 30 = word_rotl 30 a"
  by (simp_all add: ROTATE_rotl)

text \<open>Round \<open>t\<close> with the places of the schedule's words computed.\<close>

definition sha1_round :: "nat \<Rightarrow> u32 list \<times> vars \<Rightarrow> u32 list \<times> vars" where
  "sha1_round t = (\<lambda>(X, a, b, c, d, e, f).
     let w = word_rotl 1 (X ! (t mod 16) XOR X ! ((t + 2) mod 16) XOR X ! ((t + 8) mod 16) XOR X ! ((t + 13) mod 16));
         X' = X[t mod 16 := w]
     in (X', word_rotl 5 a + fips_f t b c d + e + fips_K t + (if t < 60 then w else X' ! (t mod 16)),
         a, word_rotl 30 b, c, d, e))"

lemma sha1_calls:
  "sha1_calls_16_19 = map (\<lambda>t. (t mod 16, t mod 16, (t + 2) mod 16, (t + 8) mod 16, (t + 13) mod 16)) [16..<20]"
  "sha1_calls_20_31 = map (\<lambda>t. (t mod 16, t mod 16, (t + 2) mod 16, (t + 8) mod 16, (t + 13) mod 16)) [20..<32]"
  "sha1_calls_32_39 = map (\<lambda>t. (t mod 16, (t + 2) mod 16, (t + 8) mod 16, (t + 13) mod 16)) [32..<40]"
  "sha1_calls_40_59 = map (\<lambda>t. (t mod 16, (t + 2) mod 16, (t + 8) mod 16, (t + 13) mod 16)) [40..<60]"
  "sha1_calls_60_79 = map (\<lambda>t. (t mod 16, (t + 2) mod 16, (t + 8) mod 16, (t + 13) mod 16)) [60..<80]"
  by (simp_all add: sha1_calls_16_19_def sha1_calls_20_31_def sha1_calls_32_39_def sha1_calls_40_59_def sha1_calls_60_79_def)

lemma sha1_body_round:
  "t < 20 \<Longrightarrow> next_vars (BODY_16_19 (t mod 16, t mod 16, (t + 2) mod 16, (t + 8) mod 16, (t + 13) mod 16) p) = sha1_round t p"
  "20 \<le> t \<Longrightarrow> t < 32 \<Longrightarrow> next_vars (BODY_20_31 (t mod 16, t mod 16, (t + 2) mod 16, (t + 8) mod 16, (t + 13) mod 16) p) = sha1_round t p"
  "32 \<le> t \<Longrightarrow> t < 40 \<Longrightarrow> next_vars (BODY_32_39 (t mod 16, (t + 2) mod 16, (t + 8) mod 16, (t + 13) mod 16) p) = sha1_round t p"
  "40 \<le> t \<Longrightarrow> t < 60 \<Longrightarrow> next_vars (BODY_40_59 (t mod 16, (t + 2) mod 16, (t + 8) mod 16, (t + 13) mod 16) p) = sha1_round t p"
  "60 \<le> t \<Longrightarrow> next_vars (BODY_60_79 (t mod 16, (t + 2) mod 16, (t + 8) mod 16, (t + 13) mod 16) p) = sha1_round t p"
  unfolding BODY_16_19_def BODY_20_31_def BODY_32_39_def BODY_40_59_def BODY_60_79_def sha1_round_def
    Xupdate_def next_vars_def Let_def case_prod_beta prod.sel ROTATE_fips
  by (simp_all only: F_fips K_fips round_32_fips if_True if_False not_less [symmetric] simp_thms) (simp_all add: algebra_simps)

lemma sha1_later_rounds: "sha1_later p = fold sha1_round [16..<80] p"
proof -
  have seg: "fold (\<lambda>x p. next_vars (B x p)) (map idx [i..<j]) p = fold sha1_round [i..<j] p"
    if "\<And>t p. i \<le> t \<Longrightarrow> t < j \<Longrightarrow> next_vars (B (idx t) p) = sha1_round t p" for B idx i j p
    unfolding fold_map by (rule fold_cong) (use that in auto)
  have split: "[16..<80] = [16..<20] @ [20..<32] @ [32..<40] @ [40..<60] @ [60..<80]"
    by simp
  show ?thesis
    unfolding sha1_later_def sha1_calls Let_def split fold_append o_apply
    by (simp only: seg sha1_body_round)
qed

text \<open>The variables of the standard among those of the code.\<close>

definition five :: "u32 list \<times> vars \<Rightarrow> u32 \<times> u32 \<times> u32 \<times> u32 \<times> u32" where
  "five = (\<lambda>(X, a, b, c, d, e, f). (a, b, c, d, e))"

lemma sha1_later_fips:
  assumes X: "length M = 16" and W: "W = fips_sha1_schedule 64 M"
    and p: "fst p = M" "five p = fold (fips_sha1_step W) [0..<16] v" and "m \<le> 64"
  shows "window (fst (fold sha1_round [16..<16 + m] p)) W m \<and>
    five (fold sha1_round [16..<16 + m] p) = fold (fips_sha1_step W) [0..<16 + m] v"
  using assms(5)
proof (induction m)
  case 0
  then show ?case using X W p by (auto simp: window_def fips_sha1_schedule_def schedule_start)
next
  case (Suc m)
  define q where "q = fold sha1_round [16..<16 + m] p"
  obtain X a b c d e f where q: "q = (X, a, b, c, d, e, f)" by (cases q) auto
  have IH: "window X W m" "fold (fips_sha1_step W) [0..<16 + m] v = (a, b, c, d, e)"
    using Suc q by (simp_all add: q_def five_def)
  define w where "w = word_rotl 1 (X ! ((16 + m) mod 16) XOR X ! ((16 + m + 2) mod 16) XOR
    X ! ((16 + m + 8) mod 16) XOR X ! ((16 + m + 13) mod 16))"
  have w: "w = W ! (16 + m)"
    using window_at [OF IH(1), of 0] window_at [OF IH(1), of 2] window_at [OF IH(1), of 8] window_at [OF IH(1), of 13]
      fips_sha1_next [OF X _ W, of m] Suc.prems
    unfolding w_def by (simp add: add.commute xor.assoc xor.commute xor.left_commute)
  have len: "length X = 16" using IH(1) by (simp add: window_def)
  have l: "[i..<16 + Suc m] = [i..<16 + m] @ [16 + m]" if "i \<le> 16" for i
    using upt_Suc_append [of i "16 + m"] that by simp
  have "fold sha1_round [16..<16 + Suc m] p = sha1_round (16 + m) q"
    unfolding l [OF order_refl] fold_append o_apply q_def by simp
  also have "\<dots> = (X[(16 + m) mod 16 := w],
      word_rotl 5 a + fips_f (16 + m) b c d + e + fips_K (16 + m) + w, a, word_rotl 30 b, c, d, e)"
    using len unfolding q sha1_round_def prod.case Let_def w_def [symmetric] by simp
  finally have s: "fold sha1_round [16..<16 + Suc m] p = (X[(16 + m) mod 16 := w],
      word_rotl 5 a + fips_f (16 + m) b c d + e + fips_K (16 + m) + w, a, word_rotl 30 b, c, d, e)" .
  have "fold (fips_sha1_step W) [0..<16 + Suc m] v =
      (word_rotl 5 a + fips_f (16 + m) b c d + e + fips_K (16 + m) + w, a, word_rotl 30 b, c, d)"
    unfolding l [OF le0] fold_append o_apply IH(2) fold_simps fips_sha1_step_def prod.case w ..
  then show ?case using s window_step [OF IH(1) w] by (simp only: fst_conv five_def prod.case)
qed

lemma c2l_be_snd: "snd (HOST_c2l_be d) = drop 4 d"
  by (simp add: HOST_c2l_be_def)

lemma sha1_first_fips:
  assumes X: "length X = 16" and M: "M = load_words HOST_c2l_be 16 data" and W: "\<And>j. j < 16 \<Longrightarrow> W ! j = M ! j"
    and n: "n \<le> 16" and s: "s = fold sha1_first [0..<n] (sha1_load 0 (data, X, v))"
  shows "fst s = drop (4 * min (n + 1) 16) data \<and> length (fst (snd s)) = 16 \<and>
    (\<forall>j<min (n + 1) 16. fst (snd s) ! j = M ! j) \<and> five (snd s) = fold (fips_sha1_step W) [0..<n] (five (X, v))"
  using n s
proof (induction n arbitrary: s)
  case 0
  have "fst (HOST_c2l_be data) = M ! 0" using load_words_nth [OF c2l_be_snd, of 0 16 data] by (simp add: M)
  then show ?case using X 0 by (simp add: sha1_load_def c2l_be_snd case_prod_beta five_def)
next
  case (Suc n)
  define s' where "s' = fold sha1_first [0..<n] (sha1_load 0 (data, X, v))"
  obtain D Y a b c d e f where s': "s' = (D, Y, a, b, c, d, e, f)" by (cases s') auto
  have IH: "D = drop (4 * min (n + 1) 16) data" "length Y = 16" "\<forall>j<min (n + 1) 16. Y ! j = M ! j"
    "fold (fips_sha1_step W) [0..<n] (five (X, v)) = (a, b, c, d, e)"
    using Suc.IH [OF _ s'_def] Suc.prems(1) by (simp_all add: s' five_def)
  define Z where "Z = (if n < 15 then Y[n + 1 := M ! (n + 1)] else Y)"
  have Z: "length Z = 16" "\<forall>j<min (Suc n + 1) 16. Z ! j = M ! j"
    using IH(2,3) Suc.prems(1) by (auto simp: Z_def nth_list_update less_Suc_eq)
  have ld: "(if n < 15 then sha1_load (n + 1) s' else s') =
      (drop (4 * min (Suc n + 1) 16) data, Z, a, b, c, d, e, f)"
  proof (cases "n < 15")
    case True
    then have "D = drop (4 * (n + 1)) data" using IH(1) by simp
    then have "fst (HOST_c2l_be D) = M ! (n + 1)"
      using load_words_nth [OF c2l_be_snd, of "n + 1" 16 data] True by (simp add: M)
    with True IH(1) show ?thesis by (simp add: s' sha1_load_def Z_def case_prod_beta c2l_be_snd add.commute)
  next
    case False
    with IH(1) Suc.prems(1) show ?thesis by (simp add: s' Z_def)
  qed
  have "s = sha1_first n s'" using Suc.prems(2) by (simp add: s'_def)
  also have "\<dots> = (drop (4 * min (Suc n + 1) 16) data, Z,
      Z ! n + e + K_00_19 + ROTATE a 5 + F_00_19 b c d, a, ROTATE b 30, c, d, e)"
    unfolding sha1_first_def ld Let_def by (simp add: BODY_00_15_def next_vars_def Let_def)
  finally have s: "s = (drop (4 * min (Suc n + 1) 16) data, Z,
      Z ! n + e + K_00_19 + ROTATE a 5 + F_00_19 b c d, a, ROTATE b 30, c, d, e)" .
  have "Z ! n = W ! n" using Z(2) W Suc.prems(1) by simp
  then have "fold (fips_sha1_step W) [0..<Suc n] (five (X, v)) =
      (Z ! n + e + K_00_19 + ROTATE a 5 + F_00_19 b c d, a, ROTATE b 30, c, d)"
    using Suc.prems(1) IH(4)
    by (simp add: fips_sha1_step_def F_fips(1) [of n] K_fips(1) [of n] ROTATE_fips algebra_simps)
  then show ?case using s Z by (simp add: five_def)
qed

lemma fips_word_mask: "(x :: u32) AND 0xffffffff = x"
proof -
  have m: "(0xffffffff :: u32) = mask 32" by (simp add: mask_eq_exp_minus_1)
  show ?thesis unfolding m by (intro bit_word_eqI) (auto simp: bit_simps)
qed

lemma sha1_block_words:
  defines "M \<equiv> \<lambda>data. load_words HOST_c2l_be 16 data"
  shows "sha1_block st data =
    (let (a, b, c, d, e) = fold (fips_sha1_step (fips_sha1_schedule 64 (M data))) [0..<80] (st ! 0, st ! 1, st ! 2, st ! 3, st ! 4)
     in [st ! 0 + a, st ! 1 + b, st ! 2 + c, st ! 3 + d, st ! 4 + e], drop 64 data)"
proof -
  define W where "W = fips_sha1_schedule 64 (M data)"
  define v where "v = (st ! 0, st ! 1, st ! 2, st ! 3, st ! 4)"
  define s where "s = fold sha1_first [0..<16] (sha1_load 0 (data, replicate 16 0, st ! 0, st ! 1, st ! 2, st ! 3, st ! 4, 0))"
  have lM: "length (M data) = 16" by (simp add: M_def)
  have W: "W ! j = M data ! j" if "j < 16" for j
    using that lM by (simp add: W_def fips_sha1_schedule_def schedule_start)
  have s1: "fst s = drop 64 data" "length (fst (snd s)) = 16" "\<forall>j<16. fst (snd s) ! j = M data ! j"
    "five (snd s) = fold (fips_sha1_step W) [0..<16] v"
    using sha1_first_fips [of "replicate 16 0" "M data" data W 16 s] W
    by (simp_all add: M_def s_def v_def five_def)
  have "fst (snd s) = M data" using s1(2,3) lM by (intro nth_equalityI) simp_all
  from sha1_later_fips [OF lM W_def this s1(4), of 64] have "five (sha1_later (snd s)) = fold (fips_sha1_step W) [0..<80] v"
    by (simp add: sha1_later_rounds)
  moreover obtain X a b c d e f where l: "sha1_later (snd s) = (X, a, b, c, d, e, f)" by (metis surj_pair)
  ultimately have "fold (fips_sha1_step W) [0..<80] v = (a, b, c, d, e)" by (simp only: five_def prod.case)
  with l s1(1) show ?thesis
    unfolding sha1_block_def Let_def W_def [symmetric] v_def [symmetric] s_def [symmetric]
    by (simp add: case_prod_beta fips_word_mask)
qed

lemma sha1_block_fips: "64 \<le> length data \<Longrightarrow> fst (sha1_block st data) = fips_sha1_compress st data"
  by (simp add: sha1_block_words fips_sha1_compress_def load_be Let_def case_prod_beta)

lemma sha1_block_snd: "snd (sha1_block st data) = drop 64 data"
  by (simp add: sha1_block_words)

interpretation sha1_loop: md32_digest "\<lambda>st m. fst (sha1_block st m)" sha1_block_data_order
proof unfold_locales
  show "sha1_block_data_order st m (Suc 0) = fst (sha1_block st m)" for st m
    by (simp add: sha1_block_data_order_def case_prod_beta)
  show "sha1_block_data_order st m (Suc n) = sha1_block_data_order (fst (sha1_block st m)) (drop 64 m) n"
    if "0 < n" for st m n
    using that by (simp add: sha1_block_data_order_def case_prod_beta sha1_block_snd)
  show "fst (sha1_block st (take 64 m)) = fst (sha1_block st m)" if "64 \<le> length m" for st m
    using that by (simp add: sha1_block_fips fips_sha1_compress_def be_words_take [of 4, simplified])
qed simp

lemma sha1_fold: "fold_blocks 64 (\<lambda>st m. fst (sha1_block st m)) = fold_blocks 64 fips_sha1_compress"
  by (intro ext fold_blocks_cong sha1_block_fips) simp

lemma length_fips_sha1: "length st = 5 \<Longrightarrow> length (fold_blocks 64 fips_sha1_compress st m) = 5"
proof (induction "length m" arbitrary: st m rule: less_induct)
  case less
  have "length (fips_sha1_compress st b) = 5" for b
    by (simp add: fips_sha1_compress_def case_prod_beta Let_def)
  with less show ?case by (subst fold_blocks.simps) auto
qed

lemma sha1_digest:
  assumes c: "fresh_ctx iv c" and iv: "length iv = 5" and d: "\<forall>d\<in>set ds. length d < 2 ^ 64"
    and r: "r = SHA1_Final (fold SHA1_Update ds c)"
  shows "fst r = Some (fips_sha1 iv (concat ds)) \<and> md_data (snd r) = replicate 64 0"
proof -
  have r': "r = HASH_FINAL True sha1_block_data_order sha1_make_string (fold (HASH_UPDATE sha1_block_data_order) ds c)"
    unfolding r SHA1_Final_def SHA1_Update_def ..
  note s = sha1_loop.digest_stream [OF c d r', unfolded sha1_fold]
  have "length (md_h (snd r)) = 5" using s length_fips_sha1 [OF iv] by simp
  then obtain h0 h1 h2 h3 h4 where "md_h (snd r) = [h0, h1, h2, h3, h4]"
    by (auto simp: length_Suc_conv numeral_eq_Suc)
  then show ?thesis using s by (simp add: sha1_make_string_def fips_sha1_def map_l2c_be l2c_be)
qed

section \<open>Properties\<close>

text \<open>
  C21.  The block function of SHA-1, whose eighty rounds name their five working variables and
  a sixth in turn and take the words of the schedule from sixteen places, applies to each
  block in turn the compression function of FIPS 180-4.
\<close>

theorem sha1_block_is_fips:
  assumes "64 * num \<le> length data" "0 < num"
  shows "sha1_block_data_order st data num = fold_blocks 64 fips_sha1_compress st (take (64 * num) data)"
  using sha1_loop.blk_fold [of num data st] assms by (simp add: sha1_fold)

lemma sha1_block_is_fips_witness:
  "sha1_block_data_order (md_h SHA1_Init) (replicate 130 7) 2 =
     fold_blocks 64 fips_sha1_compress (md_h SHA1_Init) (replicate 128 7)"
  using sha1_block_is_fips [of 2 "replicate 130 7"] by simp

end
