(* ===== verification/Md4.thy ===== *)
theory Md4
  imports Md32
begin

unbundle bit_operations_syntax

text \<open>
  MD4 (\<open>crypto/fipsmodule/md4/md4.c\<close>), and what it shares with MD5: calls of a round macro whose
  four variables move on by one from call to call, on sixteen words that the first calls load.
\<close>

section \<open>Calls of a round macro\<close>

type_synonym quad = "u32 \<times> u32 \<times> u32 \<times> u32"

text \<open>A round macro: the word \<open>k\<close>, the rotation \<open>s\<close>, the constant \<open>t\<close>, the variables \<open>a\<close> to \<open>d\<close>.\<close>

type_synonym round_macro = "u32 \<Rightarrow> nat \<Rightarrow> u32 \<Rightarrow> quad \<Rightarrow> quad"

text \<open>
  A call is listed as the place of its word, its rotation and its constant.  The calls name
  the variables \<open>(A, B, C, D)\<close>, \<open>(D, A, B, C)\<close>, \<open>(C, D, A, B)\<close>, \<open>(B, C, D, A)\<close> in turn.
\<close>

definition next_quad :: "quad \<Rightarrow> quad" where
  "next_quad = (\<lambda>(a, b, c, d). (d, a, b, c))"

definition md_call :: "round_macro \<Rightarrow> nat \<times> nat \<times> u32 \<Rightarrow> u32 list \<times> quad \<Rightarrow> u32 list \<times> quad" where
  "md_call R = (\<lambda>(x, s, t) (X, v). (X, next_quad (R (X ! x) s t v)))"

text \<open>\<open>HOST_c2l(data, l); X(i) = l\<close>\<close>

definition md_load :: "nat \<Rightarrow> u8 list \<times> u32 list \<times> quad \<Rightarrow> u8 list \<times> u32 list \<times> quad" where
  "md_load i = (\<lambda>(data, X, v). let (l, data) = HOST_c2l_le data in (data, X[i := l], v))"

text \<open>Round 0: the word of the next call is loaded before each call but the last.\<close>

definition md_first ::
    "round_macro \<Rightarrow> (nat \<times> nat \<times> u32) list \<Rightarrow> nat \<Rightarrow> u8 list \<times> u32 list \<times> quad \<Rightarrow> u8 list \<times> u32 list \<times> quad" where
  "md_first R calls i s =
     (let s = (if i < 15 then md_load (i + 1) s else s);
          (data, p) = s
      in (data, md_call R (calls ! i) p))"

section \<open>The context\<close>

type_synonym MD4_CTX = HASH_CTX

definition MD4_Init :: MD4_CTX where
  "MD4_Init =
     \<lparr>md_h = [0x67452301, 0xefcdab89, 0x98badcfe, 0x10325476],
      md_Nl = 0, md_Nh = 0, md_data = replicate HASH_CBLOCK 0, md_num = 0\<rparr>"

section \<open>The rounds\<close>

definition md4_F :: "u32 \<Rightarrow> u32 \<Rightarrow> u32 \<Rightarrow> u32" where
  "md4_F b c d = ((c XOR d) AND b) XOR d"

definition md4_G :: "u32 \<Rightarrow> u32 \<Rightarrow> u32 \<Rightarrow> u32" where
  "md4_G b c d = (b AND c) OR (b AND d) OR (c AND d)"

definition md4_H :: "u32 \<Rightarrow> u32 \<Rightarrow> u32 \<Rightarrow> u32" where
  "md4_H b c d = b XOR c XOR d"

definition md4_R0 :: round_macro where
  "md4_R0 k s t = (\<lambda>(a, b, c, d).
     let a = a + (k + t + md4_F b c d);
         a = ROTATE a s
     in (a, b, c, d))"

definition md4_R1 :: round_macro where
  "md4_R1 k s t = (\<lambda>(a, b, c, d).
     let a = a + (k + t + md4_G b c d);
         a = ROTATE a s
     in (a, b, c, d))"

definition md4_R2 :: round_macro where
  "md4_R2 k s t = (\<lambda>(a, b, c, d).
     let a = a + (k + t + md4_H b c d);
         a = ROTATE a s
     in (a, b, c, d))"

definition md4_calls_0 :: "(nat \<times> nat \<times> u32) list" where
  "md4_calls_0 =
   [(0, 3, 0), (1, 7, 0), (2, 11, 0), (3, 19, 0),
    (4, 3, 0), (5, 7, 0), (6, 11, 0), (7, 19, 0),
    (8, 3, 0), (9, 7, 0), (10, 11, 0), (11, 19, 0),
    (12, 3, 0), (13, 7, 0), (14, 11, 0), (15, 19, 0)]"

definition md4_calls_1 :: "(nat \<times> nat \<times> u32) list" where
  "md4_calls_1 =
   [(0, 3, 0x5a827999), (4, 5, 0x5a827999), (8, 9, 0x5a827999), (12, 13, 0x5a827999),
    (1, 3, 0x5a827999), (5, 5, 0x5a827999), (9, 9, 0x5a827999), (13, 13, 0x5a827999),
    (2, 3, 0x5a827999), (6, 5, 0x5a827999), (10, 9, 0x5a827999), (14, 13, 0x5a827999),
    (3, 3, 0x5a827999), (7, 5, 0x5a827999), (11, 9, 0x5a827999), (15, 13, 0x5a827999)]"

definition md4_calls_2 :: "(nat \<times> nat \<times> u32) list" where
  "md4_calls_2 =
   [(0, 3, 0x6ed9eba1), (8, 9, 0x6ed9eba1), (4, 11, 0x6ed9eba1), (12, 15, 0x6ed9eba1),
    (2, 3, 0x6ed9eba1), (10, 9, 0x6ed9eba1), (6, 11, 0x6ed9eba1), (14, 15, 0x6ed9eba1),
    (1, 3, 0x6ed9eba1), (9, 9, 0x6ed9eba1), (5, 11, 0x6ed9eba1), (13, 15, 0x6ed9eba1),
    (3, 3, 0x6ed9eba1), (11, 9, 0x6ed9eba1), (7, 11, 0x6ed9eba1), (15, 15, 0x6ed9eba1)]"

section \<open>The block function\<close>

text \<open>
  One pass of the loop, and where \<open>data\<close> stands after it.  The words are not initialised in
  the code; each is written before it is read.
\<close>

definition md4_block :: "u32 list \<Rightarrow> u8 list \<Rightarrow> u32 list \<times> u8 list" where
  "md4_block state data =
     (let A = state ! 0; B = state ! 1; C = state ! 2; D = state ! 3;
          s = md_load 0 (data, replicate 16 0, A, B, C, D);
          (data, p) = fold (md_first md4_R0 md4_calls_0) [0..<16] s;
          p = fold (md_call md4_R1) md4_calls_1 p;
          (X, A, B, C, D) = fold (md_call md4_R2) md4_calls_2 p
      in ([state ! 0 + A, state ! 1 + B, state ! 2 + C, state ! 3 + D], data))"

fun md4_block_data_order :: "u32 list \<Rightarrow> u8 list \<Rightarrow> nat \<Rightarrow> u32 list" where
  "md4_block_data_order state data 0 = state"
| "md4_block_data_order state data (Suc num) = (let (state, data) = md4_block state data in md4_block_data_order state data num)"

section \<open>The digest\<close>

definition md4_make_string :: "MD4_CTX \<Rightarrow> u8 list option" where
  "md4_make_string c =
     Some (HOST_l2c_le (md_h c ! 0) @ HOST_l2c_le (md_h c ! 1) @ HOST_l2c_le (md_h c ! 2) @ HOST_l2c_le (md_h c ! 3))"

definition MD4_Update :: "u8 list \<Rightarrow> MD4_CTX \<Rightarrow> MD4_CTX" where
  "MD4_Update = HASH_UPDATE md4_block_data_order"

definition MD4_Transform :: "u8 list \<Rightarrow> MD4_CTX \<Rightarrow> MD4_CTX" where
  "MD4_Transform = HASH_TRANSFORM md4_block_data_order"

definition MD4_Final :: "MD4_CTX \<Rightarrow> u8 list option \<times> MD4_CTX" where
  "MD4_Final = HASH_FINAL False md4_block_data_order md4_make_string"

definition MD4 :: "u8 list \<Rightarrow> u8 list option" where
  "MD4 data =
     (let ctx = MD4_Init;
          ctx = MD4_Update data ctx;
          (out, ctx) = MD4_Final ctx
      in out)"

section \<open>The calls on the words of a block\<close>

definition call_step :: "round_macro \<Rightarrow> u32 list \<Rightarrow> nat \<times> nat \<times> u32 \<Rightarrow> quad \<Rightarrow> quad" where
  "call_step R M = (\<lambda>(x, s, t) v. next_quad (R (M ! x) s t v))"

lemma md_calls: "fold (md_call R) calls (M, v) = (M, fold (call_step R M) calls v)"
  by (induction calls arbitrary: v) (simp_all add: md_call_def call_step_def case_prod_beta)

lemma c2l_le_snd: "snd (HOST_c2l_le d) = drop 4 d"
  by (simp add: HOST_c2l_le_def)

lemma md_first_calls:
  assumes X: "length X = 16" and M: "M = load_words HOST_c2l_le 16 data"
    and calls: "\<And>i. i < 16 \<Longrightarrow> fst (calls ! i) \<le> i"
    and n: "n \<le> 16" and s: "s = fold (md_first R calls) [0..<n] (md_load 0 (data, X, v))"
  shows "fst s = drop (4 * min (n + 1) 16) data \<and> length (fst (snd s)) = 16 \<and>
    (\<forall>j<min (n + 1) 16. fst (snd s) ! j = M ! j) \<and>
    snd (snd s) = fold (\<lambda>i. call_step R M (calls ! i)) [0..<n] v"
  using n s
proof (induction n arbitrary: s)
  case 0
  have "fst (HOST_c2l_le data) = M ! 0" using load_words_nth [OF c2l_le_snd, of 0 16 data] by (simp add: M)
  then show ?case using X 0 by (simp add: md_load_def c2l_le_snd case_prod_beta)
next
  case (Suc n)
  define s' where "s' = fold (md_first R calls) [0..<n] (md_load 0 (data, X, v))"
  obtain D Y u where s': "s' = (D, Y, u)" by (cases s') auto
  have IH: "D = drop (4 * min (n + 1) 16) data" "length Y = 16" "\<forall>j<min (n + 1) 16. Y ! j = M ! j"
    "u = fold (\<lambda>i. call_step R M (calls ! i)) [0..<n] v"
    using Suc.IH [OF _ s'_def] Suc.prems(1) by (simp_all add: s')
  define Z where "Z = (if n < 15 then Y[n + 1 := M ! (n + 1)] else Y)"
  have Z: "length Z = 16" "\<forall>j<min (Suc n + 1) 16. Z ! j = M ! j"
    using IH(2,3) Suc.prems(1) by (auto simp: Z_def nth_list_update less_Suc_eq)
  have ld: "(if n < 15 then md_load (n + 1) s' else s') = (drop (4 * min (Suc n + 1) 16) data, Z, u)"
  proof (cases "n < 15")
    case True
    then have "D = drop (4 * (n + 1)) data" using IH(1) by simp
    then have "fst (HOST_c2l_le D) = M ! (n + 1)"
      using load_words_nth [OF c2l_le_snd, of "n + 1" 16 data] True by (simp add: M)
    with True IH(1) show ?thesis by (simp add: s' md_load_def Z_def case_prod_beta c2l_le_snd add.commute)
  next
    case False
    with IH(1) Suc.prems(1) show ?thesis by (simp add: s' Z_def)
  qed
  have "fst (calls ! n) < min (Suc n + 1) 16" using calls [of n] Suc.prems(1) by simp
  with Z(2) have x: "Z ! fst (calls ! n) = M ! fst (calls ! n)" by blast
  have "s = md_first R calls n s'" using Suc.prems(2) by (simp add: s'_def)
  also have "\<dots> = (drop (4 * min (Suc n + 1) 16) data, Z, call_step R M (calls ! n) u)"
    unfolding md_first_def ld Let_def using x by (simp add: md_call_def call_step_def case_prod_beta)
  finally show ?case using Z IH(4) by simp
qed

text \<open>All calls of round 0, with the words they leave.\<close>

lemma md_round_0:
  assumes M: "M = load_words HOST_c2l_le 16 data" and calls: "length calls = 16" "\<And>i. i < 16 \<Longrightarrow> fst (calls ! i) \<le> i"
  shows "fold (md_first R calls) [0..<16] (md_load 0 (data, replicate 16 0, v)) =
    (drop 64 data, M, fold (call_step R M) calls v)"
proof -
  define s where "s = fold (md_first R calls) [0..<16] (md_load 0 (data, replicate 16 0, v))"
  obtain D Y u where s': "s = (D, Y, u)" by (cases s) auto
  have s: "D = drop 64 data" "length Y = 16" "\<forall>j<16. Y ! j = M ! j"
    "u = fold (\<lambda>i. call_step R M (calls ! i)) [0..<16] v"
    using md_first_calls [OF _ M calls(2), of "replicate 16 0" 16 s R v] by (simp_all add: s_def [symmetric] s')
  have "Y = M" using s(2,3) by (intro nth_equalityI) (simp_all add: M)
  moreover have e: "map ((!) calls) [0..<16] = calls" using calls(1) map_nth [of calls] by simp
  have "fold (call_step R M) (map ((!) calls) [0..<16]) v = fold (\<lambda>i. call_step R M (calls ! i)) [0..<16] v"
    by (simp only: fold_map o_def)
  ultimately show ?thesis using s(1,4) unfolding s_def [symmetric] s' e by simp
qed

section \<open>RFC 1320\<close>

definition rfc_f1 :: "u32 \<Rightarrow> u32 \<Rightarrow> u32 \<Rightarrow> u32" where
  "rfc_f1 x y z = (x AND y) OR (NOT x AND z)"

definition rfc1320_step :: "u32 list \<Rightarrow> nat \<Rightarrow> quad \<Rightarrow> quad" where
  "rfc1320_step X i = (\<lambda>(a, b, c, d).
     let (f, k, s, t) =
       (if i < 16 then (rfc_f1 b c d, i, [3, 7, 11, 19] ! (i mod 4), 0)
        else if i < 32 then ((b AND c) OR (b AND d) OR (c AND d), i mod 4 * 4 + i div 4 mod 4, [3, 5, 9, 13] ! (i mod 4), 0x5a827999)
        else (b XOR c XOR d, [0, 2, 1, 3] ! (i div 4 mod 4) + [0, 8, 4, 12] ! (i mod 4), [3, 9, 11, 15] ! (i mod 4), 0x6ed9eba1))
     in (d, word_rotl s (a + f + X ! k + t), b, c))"

definition rfc1320_compress :: "u32 list \<Rightarrow> u8 list \<Rightarrow> u32 list" where
  "rfc1320_compress st block =
     (let (a, b, c, d) = fold (rfc1320_step (le_words 4 block)) [0..<48] (st ! 0, st ! 1, st ! 2, st ! 3)
      in [st ! 0 + a, st ! 1 + b, st ! 2 + c, st ! 3 + d])"

text \<open>The digest of either: the state after the padded message, in bytes, lowest first.\<close>

definition rfc_digest :: "(u32 list \<Rightarrow> u8 list \<Rightarrow> u32 list) \<Rightarrow> u32 list \<Rightarrow> u8 list \<Rightarrow> u8 list" where
  "rfc_digest compress iv m =
     concat (map (\<lambda>w. rev (be_bytes 4 (unat w)))
       (fold_blocks 64 compress iv (m @ md_padding False (length m))))"

lemma rfc_f1: "((c XOR d) AND b) XOR d = rfc_f1 b c d"
  unfolding rfc_f1_def by (intro bit_word_eqI) (auto simp: bit_simps)

text \<open>The listed calls have the places, rotations and constants of the standard.\<close>

lemma md4_calls:
  "md4_calls_0 = map (\<lambda>i. (i, [3, 7, 11, 19] ! (i mod 4), 0)) [0..<16]"
  "md4_calls_1 = map (\<lambda>i. (i mod 4 * 4 + i div 4 mod 4, [3, 5, 9, 13] ! (i mod 4), 0x5a827999)) [16..<32]"
  "md4_calls_2 = map (\<lambda>i. ([0, 2, 1, 3] ! (i div 4 mod 4) + [0, 8, 4, 12] ! (i mod 4), [3, 9, 11, 15] ! (i mod 4), 0x6ed9eba1)) [32..<48]"
  by (simp_all add: md4_calls_0_def md4_calls_1_def md4_calls_2_def upt_rec)

lemma shift_cases: "i mod 4 = 0 \<or> i mod 4 = 1 \<or> i mod 4 = 2 \<or> i mod 4 = (3 :: nat)"
  by presburger

lemma shift_range:
  assumes "s = [s0, s1, s2, s3] ! (i mod 4)" "0 < s0" "s0 < 32" "0 < s1" "s1 < 32" "0 < s2" "s2 < 32" "0 < s3" "s3 < 32"
  shows "ROTATE x s = word_rotl s x"
  using shift_cases [of i] assms by (intro ROTATE_rotl) auto

lemma md4_rounds_rfc:
  "i < 16 \<Longrightarrow> call_step md4_R0 M (i, [3, 7, 11, 19] ! (i mod 4), 0) v = rfc1320_step M i v"
  "16 \<le> i \<Longrightarrow> i < 32 \<Longrightarrow> call_step md4_R1 M (i mod 4 * 4 + i div 4 mod 4, [3, 5, 9, 13] ! (i mod 4), 0x5a827999) v =
    rfc1320_step M i v"
  "32 \<le> i \<Longrightarrow> call_step md4_R2 M ([0, 2, 1, 3] ! (i div 4 mod 4) + [0, 8, 4, 12] ! (i mod 4),
    [3, 9, 11, 15] ! (i mod 4), 0x6ed9eba1) v = rfc1320_step M i v"
  by (simp_all add: call_step_def md4_R0_def md4_R1_def md4_R2_def next_quad_def rfc1320_step_def case_prod_beta
      md4_F_def md4_G_def md4_H_def rfc_f1 shift_range [OF refl] Let_def algebra_simps)

lemma md4_block_words:
  "md4_block st data =
    (let (a, b, c, d) = fold (rfc1320_step (load_words HOST_c2l_le 16 data)) [0..<48] (st ! 0, st ! 1, st ! 2, st ! 3)
     in [st ! 0 + a, st ! 1 + b, st ! 2 + c, st ! 3 + d], drop 64 data)"
proof -
  define M where "M = load_words HOST_c2l_le 16 data"
  define v where "v = (st ! 0, st ! 1, st ! 2, st ! 3)"
  have seg: "fold (call_step R M) (map f [i..<j]) u = fold (rfc1320_step M) [i..<j] u"
    if "\<And>k v. i \<le> k \<Longrightarrow> k < j \<Longrightarrow> call_step R M (f k) v = rfc1320_step M k v" for R f i j u
    unfolding fold_map by (rule fold_cong) (use that in auto)
  have r0: "fold (md_first md4_R0 md4_calls_0) [0..<16] (md_load 0 (data, replicate 16 0, v)) =
      (drop 64 data, M, fold (rfc1320_step M) [0..<16] v)"
    using md_round_0 [OF M_def, of md4_calls_0 md4_R0 v] unfolding md4_calls
    by (simp add: seg md4_rounds_rfc del: upt_rec_numeral)
  have r1: "fold (md_call md4_R1) md4_calls_1 (M, u) = (M, fold (rfc1320_step M) [16..<32] u)" for u
    unfolding md_calls md4_calls by (subst seg) (simp_all only: md4_rounds_rfc)
  have r2: "fold (md_call md4_R2) md4_calls_2 (M, u) = (M, fold (rfc1320_step M) [32..<48] u)" for u
    unfolding md_calls md4_calls by (subst seg) (simp_all only: md4_rounds_rfc)
  have split: "[0..<48] = [0..<16] @ [16..<32] @ [32..<48]"
    using upt_add_eq_append [of 0 16 32] upt_add_eq_append [of 16 32 16] by (simp del: upt_rec_numeral)
  show ?thesis
    unfolding M_def [symmetric] split fold_append o_apply md4_block_def Let_def v_def [symmetric] r0 prod.case r1 r2
    by (simp add: case_prod_beta del: upt_rec_numeral)
qed

lemma md4_block_rfc: "64 \<le> length data \<Longrightarrow> fst (md4_block st data) = rfc1320_compress st data"
  by (simp add: md4_block_words rfc1320_compress_def load_le Let_def case_prod_beta)

lemma md4_block_snd: "snd (md4_block st data) = drop 64 data"
  by (simp add: md4_block_words)

interpretation md4_loop: md32_digest "\<lambda>st m. fst (md4_block st m)" md4_block_data_order
proof unfold_locales
  show "md4_block_data_order st m (Suc n) = md4_block_data_order (fst (md4_block st m)) (drop 64 m) n" for st m n
    by (simp add: case_prod_beta md4_block_snd)
  show "fst (md4_block st (take 64 m)) = fst (md4_block st m)" if "64 \<le> length m" for st m
    using that by (simp add: md4_block_rfc rfc1320_compress_def le_words_take [of 4, simplified])
qed (simp_all add: case_prod_beta)

lemma md4_fold: "fold_blocks 64 (\<lambda>st m. fst (md4_block st m)) = fold_blocks 64 rfc1320_compress"
  by (intro ext fold_blocks_cong md4_block_rfc) simp

lemma length_rfc1320: "length st = 4 \<Longrightarrow> length (fold_blocks 64 rfc1320_compress st m) = 4"
proof (induction "length m" arbitrary: st m rule: less_induct)
  case less
  have "length (rfc1320_compress st b) = 4" for b
    by (simp add: rfc1320_compress_def case_prod_beta Let_def)
  with less show ?case by (subst fold_blocks.simps) auto
qed

lemma md4_digest:
  assumes c: "fresh_ctx iv c" and iv: "length iv = 4" and d: "\<forall>d\<in>set ds. length d < 2 ^ 64"
    and r: "r = MD4_Final (fold MD4_Update ds c)"
  shows "fst r = Some (rfc_digest rfc1320_compress iv (concat ds)) \<and> md_data (snd r) = replicate 64 0"
proof -
  have r': "r = HASH_FINAL False md4_block_data_order md4_make_string (fold (HASH_UPDATE md4_block_data_order) ds c)"
    unfolding r MD4_Final_def MD4_Update_def ..
  note s = md4_loop.digest_stream [OF c d r', unfolded md4_fold]
  have "length (md_h (snd r)) = 4" using s length_rfc1320 [OF iv] by simp
  then obtain h0 h1 h2 h3 where "md_h (snd r) = [h0, h1, h2, h3]"
    by (auto simp: length_Suc_conv numeral_eq_Suc)
  then show ?thesis using s by (simp add: md4_make_string_def rfc_digest_def map_l2c_le l2c_le l2c_be)
qed

end
