(* ===== verification/Md5.thy ===== *)
theory Md5
  imports Md4
begin

unbundle bit_operations_syntax

text \<open>
  MD5 (\<open>crypto/fipsmodule/md5/md5.c\<close>, without the assembly variant): the round macros, the calls
  of them, the block function and the digest over the collector of \<open>Md32\<close>.
\<close>

section \<open>The context\<close>

type_synonym MD5_CTX = HASH_CTX

definition MD5_Init :: MD5_CTX where
  "MD5_Init =
     \<lparr>md_h = [0x67452301, 0xefcdab89, 0x98badcfe, 0x10325476],
      md_Nl = 0, md_Nh = 0, md_data = replicate HASH_CBLOCK 0, md_num = 0\<rparr>"

section \<open>The rounds\<close>

definition md5_F :: "u32 \<Rightarrow> u32 \<Rightarrow> u32 \<Rightarrow> u32" where
  "md5_F b c d = ((c XOR d) AND b) XOR d"

definition md5_G :: "u32 \<Rightarrow> u32 \<Rightarrow> u32 \<Rightarrow> u32" where
  "md5_G b c d = ((b XOR c) AND d) XOR c"

definition md5_H :: "u32 \<Rightarrow> u32 \<Rightarrow> u32 \<Rightarrow> u32" where
  "md5_H b c d = b XOR c XOR d"

definition md5_I :: "u32 \<Rightarrow> u32 \<Rightarrow> u32 \<Rightarrow> u32" where
  "md5_I b c d = (NOT d OR b) XOR c"

definition md5_R0 :: round_macro where
  "md5_R0 k s t = (\<lambda>(a, b, c, d).
     let a = a + (k + t + md5_F b c d);
         a = ROTATE a s;
         a = a + b
     in (a, b, c, d))"

definition md5_R1 :: round_macro where
  "md5_R1 k s t = (\<lambda>(a, b, c, d).
     let a = a + (k + t + md5_G b c d);
         a = ROTATE a s;
         a = a + b
     in (a, b, c, d))"

definition md5_R2 :: round_macro where
  "md5_R2 k s t = (\<lambda>(a, b, c, d).
     let a = a + (k + t + md5_H b c d);
         a = ROTATE a s;
         a = a + b
     in (a, b, c, d))"

definition md5_R3 :: round_macro where
  "md5_R3 k s t = (\<lambda>(a, b, c, d).
     let a = a + (k + t + md5_I b c d);
         a = ROTATE a s;
         a = a + b
     in (a, b, c, d))"

definition md5_calls_0 :: "(nat \<times> nat \<times> u32) list" where
  "md5_calls_0 =
   [(0, 7, 0xd76aa478), (1, 12, 0xe8c7b756), (2, 17, 0x242070db), (3, 22, 0xc1bdceee),
    (4, 7, 0xf57c0faf), (5, 12, 0x4787c62a), (6, 17, 0xa8304613), (7, 22, 0xfd469501),
    (8, 7, 0x698098d8), (9, 12, 0x8b44f7af), (10, 17, 0xffff5bb1), (11, 22, 0x895cd7be),
    (12, 7, 0x6b901122), (13, 12, 0xfd987193), (14, 17, 0xa679438e), (15, 22, 0x49b40821)]"

definition md5_calls_1 :: "(nat \<times> nat \<times> u32) list" where
  "md5_calls_1 =
   [(1, 5, 0xf61e2562), (6, 9, 0xc040b340), (11, 14, 0x265e5a51), (0, 20, 0xe9b6c7aa),
    (5, 5, 0xd62f105d), (10, 9, 0x02441453), (15, 14, 0xd8a1e681), (4, 20, 0xe7d3fbc8),
    (9, 5, 0x21e1cde6), (14, 9, 0xc33707d6), (3, 14, 0xf4d50d87), (8, 20, 0x455a14ed),
    (13, 5, 0xa9e3e905), (2, 9, 0xfcefa3f8), (7, 14, 0x676f02d9), (12, 20, 0x8d2a4c8a)]"

definition md5_calls_2 :: "(nat \<times> nat \<times> u32) list" where
  "md5_calls_2 =
   [(5, 4, 0xfffa3942), (8, 11, 0x8771f681), (11, 16, 0x6d9d6122), (14, 23, 0xfde5380c),
    (1, 4, 0xa4beea44), (4, 11, 0x4bdecfa9), (7, 16, 0xf6bb4b60), (10, 23, 0xbebfbc70),
    (13, 4, 0x289b7ec6), (0, 11, 0xeaa127fa), (3, 16, 0xd4ef3085), (6, 23, 0x04881d05),
    (9, 4, 0xd9d4d039), (12, 11, 0xe6db99e5), (15, 16, 0x1fa27cf8), (2, 23, 0xc4ac5665)]"

definition md5_calls_3 :: "(nat \<times> nat \<times> u32) list" where
  "md5_calls_3 =
   [(0, 6, 0xf4292244), (7, 10, 0x432aff97), (14, 15, 0xab9423a7), (5, 21, 0xfc93a039),
    (12, 6, 0x655b59c3), (3, 10, 0x8f0ccc92), (10, 15, 0xffeff47d), (1, 21, 0x85845dd1),
    (8, 6, 0x6fa87e4f), (15, 10, 0xfe2ce6e0), (6, 15, 0xa3014314), (13, 21, 0x4e0811a1),
    (4, 6, 0xf7537e82), (11, 10, 0xbd3af235), (2, 15, 0x2ad7d2bb), (9, 21, 0xeb86d391)]"

section \<open>The block function\<close>

text \<open>One pass of the loop, and where \<open>data\<close> stands after it.\<close>

definition md5_block :: "u32 list \<Rightarrow> u8 list \<Rightarrow> u32 list \<times> u8 list" where
  "md5_block state data =
     (let A = state ! 0; B = state ! 1; C = state ! 2; D = state ! 3;
          s = md_load 0 (data, replicate 16 0, A, B, C, D);
          (data, p) = fold (md_first md5_R0 md5_calls_0) [0..<16] s;
          p = fold (md_call md5_R1) md5_calls_1 p;
          p = fold (md_call md5_R2) md5_calls_2 p;
          (X, A, B, C, D) = fold (md_call md5_R3) md5_calls_3 p
      in ([state ! 0 + A, state ! 1 + B, state ! 2 + C, state ! 3 + D], data))"

fun md5_block_data_order :: "u32 list \<Rightarrow> u8 list \<Rightarrow> nat \<Rightarrow> u32 list" where
  "md5_block_data_order state data 0 = state"
| "md5_block_data_order state data (Suc num) = (let (state, data) = md5_block state data in md5_block_data_order state data num)"

section \<open>The digest\<close>

definition md5_make_string :: "MD5_CTX \<Rightarrow> u8 list option" where
  "md5_make_string c =
     Some (HOST_l2c_le (md_h c ! 0) @ HOST_l2c_le (md_h c ! 1) @ HOST_l2c_le (md_h c ! 2) @ HOST_l2c_le (md_h c ! 3))"

definition MD5_Update :: "u8 list \<Rightarrow> MD5_CTX \<Rightarrow> MD5_CTX" where
  "MD5_Update = HASH_UPDATE md5_block_data_order"

definition MD5_Transform :: "u8 list \<Rightarrow> MD5_CTX \<Rightarrow> MD5_CTX" where
  "MD5_Transform = HASH_TRANSFORM md5_block_data_order"

definition MD5_Final :: "MD5_CTX \<Rightarrow> u8 list option \<times> MD5_CTX" where
  "MD5_Final = HASH_FINAL False md5_block_data_order md5_make_string"

definition MD5 :: "u8 list \<Rightarrow> u8 list option" where
  "MD5 data =
     (let ctx = MD5_Init;
          ctx = MD5_Update data ctx;
          (out, ctx) = MD5_Final ctx
      in out)"

section \<open>RFC 1321\<close>

text \<open>The table \<open>T\<close> of the standard: the first 32 bits of the fraction of \<open>|sin (i + 1)|\<close>.\<close>

definition rfc1321_T :: "u32 list" where
  "rfc1321_T =
   [0xd76aa478, 0xe8c7b756, 0x242070db, 0xc1bdceee, 0xf57c0faf, 0x4787c62a, 0xa8304613, 0xfd469501,
    0x698098d8, 0x8b44f7af, 0xffff5bb1, 0x895cd7be, 0x6b901122, 0xfd987193, 0xa679438e, 0x49b40821,
    0xf61e2562, 0xc040b340, 0x265e5a51, 0xe9b6c7aa, 0xd62f105d, 0x02441453, 0xd8a1e681, 0xe7d3fbc8,
    0x21e1cde6, 0xc33707d6, 0xf4d50d87, 0x455a14ed, 0xa9e3e905, 0xfcefa3f8, 0x676f02d9, 0x8d2a4c8a,
    0xfffa3942, 0x8771f681, 0x6d9d6122, 0xfde5380c, 0xa4beea44, 0x4bdecfa9, 0xf6bb4b60, 0xbebfbc70,
    0x289b7ec6, 0xeaa127fa, 0xd4ef3085, 0x04881d05, 0xd9d4d039, 0xe6db99e5, 0x1fa27cf8, 0xc4ac5665,
    0xf4292244, 0x432aff97, 0xab9423a7, 0xfc93a039, 0x655b59c3, 0x8f0ccc92, 0xffeff47d, 0x85845dd1,
    0x6fa87e4f, 0xfe2ce6e0, 0xa3014314, 0x4e0811a1, 0xf7537e82, 0xbd3af235, 0x2ad7d2bb, 0xeb86d391]"

definition rfc1321_step :: "u32 list \<Rightarrow> nat \<Rightarrow> quad \<Rightarrow> quad" where
  "rfc1321_step X i = (\<lambda>(a, b, c, d).
     let (f, k, s) =
       (if i < 16 then ((b AND c) OR (NOT b AND d), i, [7, 12, 17, 22] ! (i mod 4))
        else if i < 32 then ((b AND d) OR (c AND NOT d), (5 * i + 1) mod 16, [5, 9, 14, 20] ! (i mod 4))
        else if i < 48 then (b XOR c XOR d, (3 * i + 5) mod 16, [4, 11, 16, 23] ! (i mod 4))
        else (c XOR (b OR NOT d), 7 * i mod 16, [6, 10, 15, 21] ! (i mod 4)))
     in (d, b + word_rotl s (a + f + X ! k + rfc1321_T ! i), b, c))"

definition rfc1321_compress :: "u32 list \<Rightarrow> u8 list \<Rightarrow> u32 list" where
  "rfc1321_compress st block =
     (let (a, b, c, d) = fold (rfc1321_step (le_words 4 block)) [0..<64] (st ! 0, st ! 1, st ! 2, st ! 3)
      in [st ! 0 + a, st ! 1 + b, st ! 2 + c, st ! 3 + d])"

lemma md5_functions:
  "md5_F b c d = (b AND c) OR (NOT b AND d)"
  "md5_G b c d = (b AND d) OR (c AND NOT d)"
  "md5_I b c d = c XOR (b OR NOT d)"
  unfolding md5_F_def md5_G_def md5_I_def by (intro bit_word_eqI; auto simp: bit_simps)+

text \<open>The listed calls have the places, rotations and constants of the standard.\<close>

lemma md5_calls:
  "md5_calls_0 = map (\<lambda>i. (i, [7, 12, 17, 22] ! (i mod 4), rfc1321_T ! i)) [0..<16]"
  "md5_calls_1 = map (\<lambda>i. ((5 * i + 1) mod 16, [5, 9, 14, 20] ! (i mod 4), rfc1321_T ! i)) [16..<32]"
  "md5_calls_2 = map (\<lambda>i. ((3 * i + 5) mod 16, [4, 11, 16, 23] ! (i mod 4), rfc1321_T ! i)) [32..<48]"
  "md5_calls_3 = map (\<lambda>i. (7 * i mod 16, [6, 10, 15, 21] ! (i mod 4), rfc1321_T ! i)) [48..<64]"
  by (simp_all add: md5_calls_0_def md5_calls_1_def md5_calls_2_def md5_calls_3_def rfc1321_T_def upt_rec)

lemma md5_rounds_rfc:
  "i < 16 \<Longrightarrow> call_step md5_R0 M (i, [7, 12, 17, 22] ! (i mod 4), rfc1321_T ! i) v = rfc1321_step M i v"
  "16 \<le> i \<Longrightarrow> i < 32 \<Longrightarrow> call_step md5_R1 M ((5 * i + 1) mod 16, [5, 9, 14, 20] ! (i mod 4), rfc1321_T ! i) v =
    rfc1321_step M i v"
  "32 \<le> i \<Longrightarrow> i < 48 \<Longrightarrow> call_step md5_R2 M ((3 * i + 5) mod 16, [4, 11, 16, 23] ! (i mod 4), rfc1321_T ! i) v =
    rfc1321_step M i v"
  "48 \<le> i \<Longrightarrow> call_step md5_R3 M (7 * i mod 16, [6, 10, 15, 21] ! (i mod 4), rfc1321_T ! i) v = rfc1321_step M i v"
  by (simp_all add: call_step_def md5_R0_def md5_R1_def md5_R2_def md5_R3_def next_quad_def rfc1321_step_def
      case_prod_beta md5_functions md5_H_def shift_range [OF refl] Let_def algebra_simps)

lemma md5_block_words:
  "md5_block st data =
    (let (a, b, c, d) = fold (rfc1321_step (load_words HOST_c2l_le 16 data)) [0..<64] (st ! 0, st ! 1, st ! 2, st ! 3)
     in [st ! 0 + a, st ! 1 + b, st ! 2 + c, st ! 3 + d], drop 64 data)"
proof -
  define M where "M = load_words HOST_c2l_le 16 data"
  define v where "v = (st ! 0, st ! 1, st ! 2, st ! 3)"
  have seg: "fold (call_step R M) (map f [i..<j]) u = fold (rfc1321_step M) [i..<j] u"
    if "\<And>k v. i \<le> k \<Longrightarrow> k < j \<Longrightarrow> call_step R M (f k) v = rfc1321_step M k v" for R f i j u
    unfolding fold_map by (rule fold_cong) (use that in auto)
  have r0: "fold (md_first md5_R0 md5_calls_0) [0..<16] (md_load 0 (data, replicate 16 0, v)) =
      (drop 64 data, M, fold (rfc1321_step M) [0..<16] v)"
    using md_round_0 [OF M_def, of md5_calls_0 md5_R0 v] unfolding md5_calls
    by (simp add: seg md5_rounds_rfc del: upt_rec_numeral)
  have r1: "fold (md_call md5_R1) md5_calls_1 (M, u) = (M, fold (rfc1321_step M) [16..<32] u)" for u
    unfolding md_calls md5_calls by (subst seg) (simp_all only: md5_rounds_rfc)
  have r2: "fold (md_call md5_R2) md5_calls_2 (M, u) = (M, fold (rfc1321_step M) [32..<48] u)" for u
    unfolding md_calls md5_calls by (subst seg) (simp_all only: md5_rounds_rfc)
  have r3: "fold (md_call md5_R3) md5_calls_3 (M, u) = (M, fold (rfc1321_step M) [48..<64] u)" for u
    unfolding md_calls md5_calls by (subst seg) (simp_all only: md5_rounds_rfc)
  have split: "[0..<64] = [0..<16] @ [16..<32] @ [32..<48] @ [48..<64]"
    using upt_add_eq_append [of 0 16 48] upt_add_eq_append [of 16 32 32] upt_add_eq_append [of 32 48 16]
    by (simp del: upt_rec_numeral)
  show ?thesis
    unfolding M_def [symmetric] split fold_append o_apply md5_block_def Let_def v_def [symmetric] r0 prod.case r1 r2 r3
    by (simp add: case_prod_beta del: upt_rec_numeral)
qed

lemma md5_block_rfc: "64 \<le> length data \<Longrightarrow> fst (md5_block st data) = rfc1321_compress st data"
  by (simp add: md5_block_words rfc1321_compress_def load_le Let_def case_prod_beta)

lemma md5_block_snd: "snd (md5_block st data) = drop 64 data"
  by (simp add: md5_block_words)

interpretation md5_loop: md32_digest "\<lambda>st m. fst (md5_block st m)" md5_block_data_order
proof unfold_locales
  show "md5_block_data_order st m (Suc n) = md5_block_data_order (fst (md5_block st m)) (drop 64 m) n" for st m n
    by (simp add: case_prod_beta md5_block_snd)
  show "fst (md5_block st (take 64 m)) = fst (md5_block st m)" if "64 \<le> length m" for st m
    using that by (simp add: md5_block_rfc rfc1321_compress_def le_words_take [of 4, simplified])
qed (simp_all add: case_prod_beta)

lemma md5_fold: "fold_blocks 64 (\<lambda>st m. fst (md5_block st m)) = fold_blocks 64 rfc1321_compress"
  by (intro ext fold_blocks_cong md5_block_rfc) simp

lemma length_rfc1321: "length st = 4 \<Longrightarrow> length (fold_blocks 64 rfc1321_compress st m) = 4"
proof (induction "length m" arbitrary: st m rule: less_induct)
  case less
  have "length (rfc1321_compress st b) = 4" for b
    by (simp add: rfc1321_compress_def case_prod_beta Let_def)
  with less show ?case by (subst fold_blocks.simps) auto
qed

lemma md5_digest:
  assumes c: "fresh_ctx iv c" and iv: "length iv = 4" and d: "\<forall>d\<in>set ds. length d < 2 ^ 64"
    and r: "r = MD5_Final (fold MD5_Update ds c)"
  shows "fst r = Some (rfc_digest rfc1321_compress iv (concat ds)) \<and> md_data (snd r) = replicate 64 0"
proof -
  have r': "r = HASH_FINAL False md5_block_data_order md5_make_string (fold (HASH_UPDATE md5_block_data_order) ds c)"
    unfolding r MD5_Final_def MD5_Update_def ..
  note s = md5_loop.digest_stream [OF c d r', unfolded md5_fold]
  have "length (md_h (snd r)) = 4" using s length_rfc1321 [OF iv] by simp
  then obtain h0 h1 h2 h3 where "md_h (snd r) = [h0, h1, h2, h3]"
    by (auto simp: length_Suc_conv numeral_eq_Suc)
  then show ?thesis using s by (simp add: md5_make_string_def rfc_digest_def map_l2c_le l2c_le l2c_be)
qed

end
