(* ===== verification/Digests.thy ===== *)
theory Digests
  imports Sha256 Sha512 Sha1 Md5
begin

text \<open>
  What the digests promise their callers: any cutting of a message into updates gives the
  digest of the standard for the message, padded and compressed block by block.
\<close>

lemma fresh_Init:
  "fresh_ctx (md_h SHA1_Init) SHA1_Init" "fresh_ctx (md_h MD4_Init) MD4_Init" "fresh_ctx (md_h MD5_Init) MD5_Init"
  "length (md_h SHA1_Init) = 5" "length (md_h MD4_Init) = 4" "length (md_h MD5_Init) = 4"
  by (simp_all add: fresh_ctx_def SHA1_Init_def MD4_Init_def MD5_Init_def HASH_CBLOCK_def)

lemma md_len_Init: "md_len SHA256_Init = 32" "md_len SHA224_Init = 28"
  by (simp_all add: SHA256_Init_def SHA224_Init_def SHA256_DIGEST_LENGTH_def SHA224_DIGEST_LENGTH_def)

lemma smd_len_Init:
  "smd_len (SHA512_Init c) = 64" "smd_len (SHA384_Init c) = 48"
  "length (sh (SHA512_Init c)) = 8" "length (sh (SHA384_Init c)) = 8"
  by (simp_all add: SHA512_Init_def SHA384_Init_def SHA512_DIGEST_LENGTH_def SHA384_DIGEST_LENGTH_def)

text \<open>
  C22.  For every sequence of updates, the digests over the collector of \<open>md32_common.h\<close> end with
  the digest of the concatenated message as the standards define it (initial state, padding
  with the bit length, compression of each block), whether an update completes a block, falls
  short of one or holds several; and the buffer holds nothing of the message afterwards.
\<close>

theorem md32_digests_stream:
  assumes "\<forall>d\<in>set ds. length d < 2 ^ 64"
  shows "fst (SHA256_Final (fold SHA256_Update ds SHA256_Init)) = Some (fips_sha256 (md_h SHA256_Init) 32 (concat ds)) \<and>
    fst (SHA224_Final (fold SHA224_Update ds SHA224_Init)) = Some (fips_sha256 (md_h SHA224_Init) 28 (concat ds)) \<and>
    fst (SHA1_Final (fold SHA1_Update ds SHA1_Init)) = Some (fips_sha1 (md_h SHA1_Init) (concat ds)) \<and>
    fst (MD5_Final (fold MD5_Update ds MD5_Init)) = Some (rfc_digest rfc1321_compress (md_h MD5_Init) (concat ds)) \<and>
    fst (MD4_Final (fold MD4_Update ds MD4_Init)) = Some (rfc_digest rfc1320_compress (md_h MD4_Init) (concat ds)) \<and>
    md_data (snd (SHA256_Final (fold SHA256_Update ds SHA256_Init))) = replicate 64 0 \<and>
    md_data (snd (SHA224_Final (fold SHA224_Update ds SHA224_Init))) = replicate 64 0 \<and>
    md_data (snd (SHA1_Final (fold SHA1_Update ds SHA1_Init))) = replicate 64 0 \<and>
    md_data (snd (MD5_Final (fold MD5_Update ds MD5_Init))) = replicate 64 0 \<and>
    md_data (snd (MD4_Final (fold MD4_Update ds MD4_Init))) = replicate 64 0"
proof -
  have s224: "SHA224_Final (fold SHA224_Update ds c) = SHA256_Final (fold SHA256_Update ds c)" for c
  proof -
    have "SHA224_Update = SHA256_Update" by (simp add: fun_eq_iff SHA224_Update_def)
    then show ?thesis by (simp add: SHA224_Final_def)
  qed
  show ?thesis
    using sha256_digest [OF fresh_SHA256(1) assms _ refl] sha256_digest [OF fresh_SHA256(2) assms _ refl]
      sha1_digest [OF fresh_Init(1,4) assms refl] md5_digest [OF fresh_Init(3,6) assms refl]
      md4_digest [OF fresh_Init(2,5) assms refl]
    by (simp add: s224 md_len_Init)
qed

lemma md32_digests_stream_witness:
  "fst (SHA256_Final (fold SHA256_Update [[0x61], [0x62, 0x63]] SHA256_Init)) =
     Some (fips_sha256 (md_h SHA256_Init) 32 [0x61, 0x62, 0x63])"
  using md32_digests_stream [of "[[0x61], [0x62, 0x63]]"] by simp

text \<open>
  C23.  SHA-512 and SHA-384, which keep a collector of their own with a 128-bit count and blocks
  of 128 bytes, do the same for every sequence of updates and whatever the context held before
  \<open>Init\<close>, which does not clear its buffer; a null \<open>out\<close> is the one failure.
\<close>

theorem sha512_digests_stream:
  assumes "length (sp c) = 128"
  shows "fst (SHA512_Final out_null (fold SHA512_Update ds (SHA512_Init c))) =
      (if out_null then None else Some (fips_sha512 (sh (SHA512_Init c)) 64 (concat ds))) \<and>
    fst (SHA384_Final out_null (fold SHA384_Update ds (SHA384_Init c))) =
      (if out_null then None else Some (fips_sha512 (sh (SHA384_Init c)) 48 (concat ds)))"
proof -
  have s384: "SHA384_Final out_null (fold SHA384_Update ds c') = SHA512_Final out_null (fold SHA512_Update ds c')" for c'
  proof -
    have "SHA384_Update = SHA512_Update" by (simp add: fun_eq_iff SHA384_Update_def)
    then show ?thesis by (simp add: SHA384_Final_def)
  qed
  show ?thesis
    using sha512_digest [OF sha512_collected_Init(1) [OF assms], of out_null ds]
      sha512_digest [OF sha512_collected_Init(2) [OF assms], of out_null ds]
    by (simp add: s384 smd_len_Init)
qed

lemma sha512_digests_stream_witness:
  "fst (SHA512_Final False (fold SHA512_Update [[0x61], [0x62, 0x63]]
       (SHA512_Init \<lparr>sh = [], Nl = 5, Nh = 6, sp = replicate 128 9, snum = 7, smd_len = 8\<rparr>))) =
     Some (fips_sha512 (sh (SHA512_Init \<lparr>sh = [], Nl = 5, Nh = 6, sp = replicate 128 9, snum = 7, smd_len = 8\<rparr>)) 64
       [0x61, 0x62, 0x63])"
  using sha512_digests_stream [of "\<lparr>sh = [], Nl = 5, Nh = 6, sp = replicate 128 9, snum = 7, smd_len = 8\<rparr>" False
    "[[0x61], [0x62, 0x63]]"]
  by simp

end
