(* ===== verification/Rc4.thy ===== *)
theory Rc4
  imports Prelude "HOL-Library.Multiset"
begin

unbundle bit_operations_syntax

text \<open>
  RC4 (\<open>crypto/rc4/rc4.c\<close>): the key schedule, the key stream, and the invariant that keeps
  every index in the table: the table is a permutation of the bytes.
\<close>

section \<open>The cipher\<close>

record RC4_KEY =
  rc4_x :: u32
  rc4_y :: u32
  rc4_data :: "u32 list"

text \<open>One pass of the loop of \<open>RC4\<close>: the state and the byte written.\<close>

definition rc4_step :: "u8 \<Rightarrow> u32 \<times> u32 \<times> u32 list \<Rightarrow> u8 \<times> u32 \<times> u32 \<times> u32 list" where
  "rc4_step inp = (\<lambda>(x, y, d).
     let x = (x + 1) AND 0xff;
         tx = d ! unat x;
         y = (tx + y) AND 0xff;
         ty = d ! unat y;
         d = d[unat x := ty];
         d = d[unat y := tx]
     in (ucast (d ! unat ((tx + ty) AND 0xff) XOR ucast inp), x, y, d))"

fun rc4_loop :: "u8 list \<Rightarrow> u32 \<times> u32 \<times> u32 list \<Rightarrow> u8 list \<times> u32 \<times> u32 \<times> u32 list" where
  "rc4_loop [] s = ([], s)"
| "rc4_loop (b # inp) s =
     (let (c, s) = rc4_step b s;
          (out, s) = rc4_loop inp s
      in (c # out, s))"

definition RC4 :: "RC4_KEY \<Rightarrow> u8 list \<Rightarrow> u8 list \<times> RC4_KEY" where
  "RC4 key inp =
     (let (out, x, y, d) = rc4_loop inp (rc4_x key, rc4_y key, rc4_data key)
      in (out, key\<lparr>rc4_x := x, rc4_y := y, rc4_data := d\<rparr>))"

text \<open>One pass of the second loop of \<open>RC4_set_key\<close>, on \<open>id1\<close>, \<open>id2\<close> and the table.\<close>

definition rc4_schedule :: "u8 list \<Rightarrow> nat \<Rightarrow> nat \<Rightarrow> nat \<times> u32 \<times> u32 list \<Rightarrow> nat \<times> u32 \<times> u32 list" where
  "rc4_schedule key len i = (\<lambda>(id1, id2, d).
     let tmp = d ! i;
         id2 = (ucast (key ! id1) + tmp + id2) AND 0xff;
         id1 = id1 + 1;
         id1 = (if id1 = len then 0 else id1);
         d = d[i := d ! unat id2];
         d = d[unat id2 := tmp]
     in (id1, id2, d))"

definition RC4_set_key :: "nat \<Rightarrow> u8 list \<Rightarrow> RC4_KEY" where
  "RC4_set_key len key =
     (let d = map of_nat [0..<256];
          (id1, id2, d) = fold (rc4_schedule key len) [0..<256] (0, 0, d)
      in \<lparr>rc4_x = 0, rc4_y = 0, rc4_data = d\<rparr>)"

section \<open>The table is a permutation\<close>

definition rc4_table :: "u32 list \<Rightarrow> bool" where
  "rc4_table d \<longleftrightarrow> mset d = mset (map of_nat [0..<256])"

definition rc4_key_ok :: "RC4_KEY \<Rightarrow> bool" where
  "rc4_key_ok k \<longleftrightarrow> rc4_x k < 256 \<and> rc4_y k < 256 \<and> rc4_table (rc4_data k)"

lemma and_ff_less: "unat (w AND 0xff :: u32) < 256"
proof -
  have m: "(0xff :: u32) = mask 8" by (simp add: mask_eq_exp_minus_1)
  show ?thesis unfolding m by (simp add: unat_and_mask)
qed

lemma and_ff_word: "w AND 0xff < (256 :: u32)"
  using and_ff_less [of w] by (simp add: word_less_nat_alt)

lemma rc4_table_length: "rc4_table d \<Longrightarrow> length d = 256"
  unfolding rc4_table_def by (drule mset_eq_length) simp

lemma rc4_table_swap:
  assumes "rc4_table d" "i < 256" "j < 256"
  shows "rc4_table (d[i := d ! j, j := d ! i])"
  using assms rc4_table_length [OF assms(1)] mset_swap [of j d i] by (simp add: rc4_table_def)

lemma rc4_step_ok:
  assumes "rc4_step b (x, y, d) = (c, x', y', d')" "rc4_table d"
  shows "x' < 256 \<and> y' < 256 \<and> rc4_table d'"
  using assms rc4_table_swap [OF assms(2) and_ff_less and_ff_less]
  by (auto simp: rc4_step_def Let_def and_ff_word)

lemma rc4_loop_ok:
  assumes "rc4_loop inp (x, y, d) = (out, x', y', d')" "x < 256" "y < 256" "rc4_table d"
  shows "x' < 256 \<and> y' < 256 \<and> rc4_table d' \<and> length out = length inp"
  using assms
proof (induction inp arbitrary: x y d out x' y' d')
  case (Cons b inp)
  obtain c x1 y1 d1 where s: "rc4_step b (x, y, d) = (c, x1, y1, d1)" by (metis surj_pair)
  obtain o2 x2 y2 d2 where l: "rc4_loop inp (x1, y1, d1) = (o2, x2, y2, d2)" by (metis surj_pair)
  from Cons.IH [OF l] rc4_step_ok [OF s] Cons.prems s l show ?case by auto
qed simp

lemma rc4_schedule_ok:
  assumes "rc4_table d" "i < 256" "id1 < len" "len \<le> length key"
    and "rc4_schedule key len i (id1, id2, d) = (id1', id2', d')"
  shows "rc4_table d' \<and> id1' < len"
  using assms rc4_table_swap [OF assms(1,2) and_ff_less]
  by (auto simp: rc4_schedule_def Let_def)

lemma RC4_set_key_ok:
  assumes "0 < len" "len \<le> length key"
  shows "rc4_key_ok (RC4_set_key len key)"
proof -
  have "rc4_table (snd (snd s)) \<and> fst s < len"
    if "n \<le> 256" "s = fold (rc4_schedule key len) [0..<n] (0, 0, map of_nat [0..<256])" for n s
    using that
  proof (induction n arbitrary: s)
    case 0
    then show ?case using assms by (simp add: rc4_table_def)
  next
    case (Suc n)
    obtain id1 id2 d where f: "fold (rc4_schedule key len) [0..<n] (0, 0, map of_nat [0..<256]) = (id1, id2, d)"
      by (metis surj_pair)
    obtain id1' id2' d' where g: "rc4_schedule key len n (id1, id2, d) = (id1', id2', d')" by (metis surj_pair)
    have "rc4_table d" "id1 < len" using Suc.IH [OF _ f [symmetric]] Suc.prems(1) by simp_all
    with rc4_schedule_ok [OF _ _ _ assms(2) g] Suc.prems f g show ?case by simp
  qed
  from this [OF order_refl refl] have
    "rc4_table (snd (snd (fold (rc4_schedule key len) [0..<256] (0, 0, map of_nat [0..<256]))))"
    by blast
  moreover have "(0 :: u32) < 256" by simp
  ultimately show ?thesis
    by (simp only: RC4_set_key_def rc4_key_ok_def case_prod_beta Let_def RC4_KEY.select_convs simp_thms)
qed

section \<open>The key stream\<close>

lemma rc4_step_stream:
  "rc4_step b s = (fst (rc4_step 0 s) XOR b, snd (rc4_step 0 s))"
proof -
  have "ucast (w XOR ucast b) = (ucast w XOR b :: u8)" for w :: u32
    by (intro bit_word_eqI) (auto simp: bit_simps)
  then show ?thesis unfolding rc4_step_def by (simp add: case_prod_beta Let_def)
qed

lemma rc4_loop_append:
  "rc4_loop (xs @ ys) s =
    (let (o1, s) = rc4_loop xs s; (o2, s) = rc4_loop ys s in (o1 @ o2, s))"
  by (induction xs arbitrary: s) (simp_all add: Let_def case_prod_beta)

lemma rc4_loop_twice:
  "rc4_loop (fst (rc4_loop inp s)) s = (inp, snd (rc4_loop inp s))"
proof (induction inp arbitrary: s)
  case (Cons b inp)
  obtain k s' where z: "rc4_step 0 s = (k, s')" by (metis surj_pair)
  have "rc4_step c s = (k XOR c, s')" for c
    using rc4_step_stream [of c s] unfolding z by simp
  moreover have "k XOR (k XOR b) = b" by (simp flip: xor.assoc)
  ultimately show ?case using Cons.IH [of s'] by (simp add: Let_def case_prod_beta)
qed simp

section \<open>Properties\<close>

text \<open>
  C34.  \<open>RC4_set_key\<close> with a key of at least one byte gives a well-formed key: both indices are
  bytes and the table is a permutation of them.  \<open>RC4\<close> keeps the key well-formed, so no index
  leaves the table, for any sequence of messages; deciphering with the key as it was gives the
  message back and leaves the key as ciphering did; and a message may be cut anywhere.
\<close>

theorem rc4_well_formed:
  assumes "0 < len" "len \<le> length key" "k = fold (\<lambda>m k. snd (RC4 k m)) ms (RC4_set_key len key)"
    and "(c, k') = RC4 k (m1 @ m2)"
  shows "rc4_key_ok k \<and> rc4_key_ok k' \<and> length c = length (m1 @ m2) \<and> RC4 k c = (m1 @ m2, k') \<and>
    c = fst (RC4 k m1) @ fst (RC4 (snd (RC4 k m1)) m2)"
proof -
  have step: "rc4_key_ok (snd (RC4 k m)) \<and> length (fst (RC4 k m)) = length m" if "rc4_key_ok k" for k m
  proof -
    obtain out x y d where l: "rc4_loop m (rc4_x k, rc4_y k, rc4_data k) = (out, x, y, d)" by (metis surj_pair)
    from rc4_loop_ok [OF l] that show ?thesis by (simp add: RC4_def rc4_key_ok_def l)
  qed
  have "rc4_key_ok (fold (\<lambda>m k. snd (RC4 k m)) ms k)" if "rc4_key_ok k" for k
    using that by (induction ms arbitrary: k) (simp_all add: step)
  then have ok: "rc4_key_ok k" unfolding assms(3) using RC4_set_key_ok [OF assms(1,2)] by simp
  have "c = fst (RC4 k (m1 @ m2))" "k' = snd (RC4 k (m1 @ m2))" using assms(4) by (metis fst_conv, metis snd_conv)
  moreover have "RC4 k (fst (RC4 k m)) = (m, snd (RC4 k m))" for m
    using rc4_loop_twice [of m "(rc4_x k, rc4_y k, rc4_data k)"] by (simp add: RC4_def case_prod_beta Let_def)
  moreover have "fst (RC4 k (m1 @ m2)) = fst (RC4 k m1) @ fst (RC4 (snd (RC4 k m1)) m2)"
    by (simp add: RC4_def rc4_loop_append case_prod_beta Let_def)
  ultimately show ?thesis using ok step [OF ok] by metis
qed

lemma rc4_well_formed_witness:
  "rc4_key_ok (RC4_set_key 2 [1, 2]) \<and> (let k = RC4_set_key 2 [1, 2] in fst (RC4 k (fst (RC4 k [3, 4, 5]))) = [3, 4, 5])"
proof -
  define k where "k = RC4_set_key 2 [1, 2]"
  have "k = fold (\<lambda>m k. snd (RC4 k m)) [] (RC4_set_key 2 [1, 2])" by (simp add: k_def)
  moreover have "(fst (RC4 k [3, 4, 5]), snd (RC4 k [3, 4, 5])) = RC4 k ([3] @ [4, 5])" by simp
  moreover have "0 < (2 :: nat)" "2 \<le> length [1, 2 :: u8]" by simp_all
  ultimately have "rc4_key_ok k \<and> RC4 k (fst (RC4 k [3, 4, 5])) = ([3] @ [4, 5], snd (RC4 k [3, 4, 5]))"
    using rc4_well_formed by blast
  then show ?thesis by (simp add: k_def Let_def)
qed

end
