(* ===== verification/Evp.thy ===== *)
theory Evp
  imports Digests
begin

text \<open>
  The digest interface: the methods of \<open>crypto/fipsmodule/digest/digests.c\<close> and the contexts of
  \<open>crypto/fipsmodule/digest/digest.c\<close>.  \<open>evp_digest\<close> is what a method promises; every method of
  the table keeps it, with the digest its standard defines.
\<close>

section \<open>Methods\<close>

definition EVP_MAX_MD_SIZE :: nat where "EVP_MAX_MD_SIZE = 64"
definition EVP_MAX_MD_BLOCK_SIZE :: nat where "EVP_MAX_MD_BLOCK_SIZE = 128"

text \<open>
  What \<open>md_data\<close> points to: the context of one of the digests, or memory that holds none,
  fresh or wiped.
\<close>

datatype md_data = Md_Raw | Md_Md32 HASH_CTX | Md_Sha256 SHA256_CTX | Md_Sha512 SHA512_CTX | Md_MD5_SHA1 MD5_CTX SHA_CTX

text \<open>
  A method is one static object, so that two pointers to methods are equal when their types
  are.  \<open>md_final\<close> returns the bytes written to \<open>out\<close>.
\<close>

record EVP_MD =
  md_type :: nat
  md_size :: nat
  md_flags :: u32
  md_init :: "md_data \<Rightarrow> md_data"
  md_update :: "u8 list \<Rightarrow> md_data \<Rightarrow> md_data"
  md_final :: "md_data \<Rightarrow> u8 list \<times> md_data"
  block_size :: nat

definition written :: "u8 list option \<Rightarrow> u8 list" where
  "written out = (case out of None \<Rightarrow> [] | Some bs \<Rightarrow> bs)"

text \<open>The context that a method finds behind \<open>md_data\<close>.\<close>

definition no_md32 :: HASH_CTX where
  "no_md32 = \<lparr>md_h = [], md_Nl = 0, md_Nh = 0, md_data = replicate 64 0, md_num = 0\<rparr>"

fun as_md32 :: "md_data \<Rightarrow> HASH_CTX" where
  "as_md32 (Md_Md32 c) = c"
| "as_md32 _ = no_md32"

fun as_sha256 :: "md_data \<Rightarrow> SHA256_CTX" where
  "as_sha256 (Md_Sha256 c) = c"
| "as_sha256 _ = HASH_CTX.extend no_md32 (SHA256_CTX.fields 0)"

fun as_sha512 :: "md_data \<Rightarrow> SHA512_CTX" where
  "as_sha512 (Md_Sha512 c) = c"
| "as_sha512 _ = \<lparr>sh = replicate 8 0, Nl = 0, Nh = 0, sp = replicate 128 0, snum = 0, smd_len = 0\<rparr>"

fun as_md5_sha1 :: "md_data \<Rightarrow> MD5_CTX \<times> SHA_CTX" where
  "as_md5_sha1 (Md_MD5_SHA1 c d) = (c, d)"
| "as_md5_sha1 _ = (no_md32, no_md32)"

definition EVP_md4 :: EVP_MD where
  "EVP_md4 = \<lparr>md_type = 257, md_size = 16, md_flags = 0,
     md_init = (\<lambda>_. Md_Md32 MD4_Init),
     md_update = (\<lambda>data s. Md_Md32 (MD4_Update data (as_md32 s))),
     md_final = (\<lambda>s. let (out, c) = MD4_Final (as_md32 s) in (written out, Md_Md32 c)),
     block_size = 64\<rparr>"

definition EVP_md5 :: EVP_MD where
  "EVP_md5 = \<lparr>md_type = 4, md_size = 16, md_flags = 0,
     md_init = (\<lambda>_. Md_Md32 MD5_Init),
     md_update = (\<lambda>data s. Md_Md32 (MD5_Update data (as_md32 s))),
     md_final = (\<lambda>s. let (out, c) = MD5_Final (as_md32 s) in (written out, Md_Md32 c)),
     block_size = 64\<rparr>"

definition EVP_sha1 :: EVP_MD where
  "EVP_sha1 = \<lparr>md_type = 64, md_size = 20, md_flags = 0,
     md_init = (\<lambda>_. Md_Md32 SHA1_Init),
     md_update = (\<lambda>data s. Md_Md32 (SHA1_Update data (as_md32 s))),
     md_final = (\<lambda>s. let (out, c) = SHA1_Final (as_md32 s) in (written out, Md_Md32 c)),
     block_size = 64\<rparr>"

definition EVP_sha224 :: EVP_MD where
  "EVP_sha224 = \<lparr>md_type = 675, md_size = SHA224_DIGEST_LENGTH, md_flags = 0,
     md_init = (\<lambda>_. Md_Sha256 SHA224_Init),
     md_update = (\<lambda>data s. Md_Sha256 (SHA224_Update data (as_sha256 s))),
     md_final = (\<lambda>s. let (out, c) = SHA224_Final (as_sha256 s) in (written out, Md_Sha256 c)),
     block_size = 64\<rparr>"

definition EVP_sha256 :: EVP_MD where
  "EVP_sha256 = \<lparr>md_type = 672, md_size = SHA256_DIGEST_LENGTH, md_flags = 0,
     md_init = (\<lambda>_. Md_Sha256 SHA256_Init),
     md_update = (\<lambda>data s. Md_Sha256 (SHA256_Update data (as_sha256 s))),
     md_final = (\<lambda>s. let (out, c) = SHA256_Final (as_sha256 s) in (written out, Md_Sha256 c)),
     block_size = 64\<rparr>"

definition EVP_sha384 :: EVP_MD where
  "EVP_sha384 = \<lparr>md_type = 673, md_size = SHA384_DIGEST_LENGTH, md_flags = 0,
     md_init = (\<lambda>s. Md_Sha512 (SHA384_Init (as_sha512 s))),
     md_update = (\<lambda>data s. Md_Sha512 (SHA384_Update data (as_sha512 s))),
     md_final = (\<lambda>s. let (out, c) = SHA384_Final False (as_sha512 s) in (written out, Md_Sha512 c)),
     block_size = 128\<rparr>"

definition EVP_sha512 :: EVP_MD where
  "EVP_sha512 = \<lparr>md_type = 674, md_size = SHA512_DIGEST_LENGTH, md_flags = 0,
     md_init = (\<lambda>s. Md_Sha512 (SHA512_Init (as_sha512 s))),
     md_update = (\<lambda>data s. Md_Sha512 (SHA512_Update data (as_sha512 s))),
     md_final = (\<lambda>s. let (out, c) = SHA512_Final False (as_sha512 s) in (written out, Md_Sha512 c)),
     block_size = 128\<rparr>"

definition EVP_md5_sha1 :: EVP_MD where
  "EVP_md5_sha1 = \<lparr>md_type = 114, md_size = 16 + 20, md_flags = 0,
     md_init = (\<lambda>_. Md_MD5_SHA1 MD5_Init SHA1_Init),
     md_update = (\<lambda>data s. let (c, d) = as_md5_sha1 s in Md_MD5_SHA1 (MD5_Update data c) (SHA1_Update data d)),
     md_final = (\<lambda>s. let (c, d) = as_md5_sha1 s;
                        (out, c) = MD5_Final c;
                        (out2, d) = SHA1_Final d
                    in (written out @ written out2, Md_MD5_SHA1 c d)),
     block_size = 64\<rparr>"

section \<open>Contexts\<close>

text \<open>
  \<open>pctx\<close> is a handle of the public-key code; duplicating it is one of its operations and may
  fail.  Releasing it has no effect on the state here.
\<close>

record pctx_ops =
  pctx_dup :: "nat \<Rightarrow> nat option"

record EVP_MD_CTX =
  digest :: "EVP_MD option"
  evp_data :: "md_data option"
  pctx :: "nat option"
  evp_pctx_ops :: "pctx_ops option"

definition same_digest :: "EVP_MD option \<Rightarrow> EVP_MD option \<Rightarrow> bool" where
  "same_digest a b \<longleftrightarrow> map_option md_type a = map_option md_type b"

definition EVP_MD_CTX_init :: EVP_MD_CTX where
  "EVP_MD_CTX_init = \<lparr>digest = None, evp_data = None, pctx = None, evp_pctx_ops = None\<rparr>"

definition EVP_MD_CTX_cleanup :: "EVP_MD_CTX \<Rightarrow> EVP_MD_CTX" where
  "EVP_MD_CTX_cleanup ctx = EVP_MD_CTX_init"

text \<open>What the memory of a context holds when it is released.\<close>

definition EVP_MD_CTX_free :: "EVP_MD_CTX option \<Rightarrow> EVP_MD_CTX option" where
  "EVP_MD_CTX_free ctx = (case ctx of None \<Rightarrow> None | Some ctx \<Rightarrow> Some (EVP_MD_CTX_cleanup ctx))"

definition EVP_MD_CTX_reset :: "EVP_MD_CTX \<Rightarrow> EVP_MD_CTX" where
  "EVP_MD_CTX_reset ctx = (let ctx = EVP_MD_CTX_cleanup ctx in EVP_MD_CTX_init)"

text \<open>\<open>mem\<close> holds the outcomes of the allocations to come.  The results are a flag, the context and the rest of \<open>mem\<close>.\<close>

definition EVP_MD_CTX_new :: "bool list \<Rightarrow> EVP_MD_CTX option \<times> bool list" where
  "EVP_MD_CTX_new mem =
     (let (ok, mem) = mem_next mem
      in (if ok then Some EVP_MD_CTX_init else None, mem))"

definition EVP_MD_CTX_copy_ex ::
    "bool list \<Rightarrow> EVP_MD_CTX \<Rightarrow> EVP_MD_CTX option \<Rightarrow> bool \<times> EVP_MD_CTX \<times> bool list" where
  "EVP_MD_CTX_copy_ex mem out inp =
     (case inp of None \<Rightarrow> (False, out, mem)
      | Some inp \<Rightarrow>
        if pctx inp = None \<and> digest inp = None then (False, out, mem)
        else
          let dup = (case (pctx inp, evp_pctx_ops inp) of
              (Some p, Some ops) \<Rightarrow> (case pctx_dup ops p of None \<Rightarrow> None | Some q \<Rightarrow> Some (Some q))
            | _ \<Rightarrow> Some None)
          in case dup of None \<Rightarrow> (False, out, mem)
             | Some p \<Rightarrow>
               let (ok, mem) =
                 (if digest inp \<noteq> None \<and> \<not> same_digest (digest out) (digest inp) then mem_next mem else (True, mem))
               in if \<not> ok then (False, out, mem)
                  else
                    let out = EVP_MD_CTX_cleanup out;
                        out = out\<lparr>digest := digest inp\<rparr>;
                        out = out\<lparr>evp_data := (if digest inp \<noteq> None then evp_data inp else None)\<rparr>;
                        out = out\<lparr>pctx := p\<rparr>;
                        out = out\<lparr>evp_pctx_ops := evp_pctx_ops inp\<rparr>
                    in (True, out, mem))"

definition EVP_MD_CTX_copy :: "bool list \<Rightarrow> EVP_MD_CTX option \<Rightarrow> bool \<times> EVP_MD_CTX \<times> bool list" where
  "EVP_MD_CTX_copy mem inp = EVP_MD_CTX_copy_ex mem EVP_MD_CTX_init inp"

definition EVP_DigestInit_ex :: "bool list \<Rightarrow> EVP_MD_CTX \<Rightarrow> EVP_MD \<Rightarrow> bool \<times> EVP_MD_CTX \<times> bool list" where
  "EVP_DigestInit_ex mem ctx type =
     (let (ok, ctx, mem) =
        (if \<not> same_digest (digest ctx) (Some type) then
           let (ok, mem) = mem_next mem
           in if \<not> ok then (False, ctx, mem) else (True, ctx\<lparr>evp_data := Some Md_Raw, digest := Some type\<rparr>, mem)
         else (True, ctx, mem))
      in if \<not> ok then (False, ctx, mem)
         else (case digest ctx of None \<Rightarrow> (False, ctx, mem)
               | Some md \<Rightarrow> (True, ctx\<lparr>evp_data := map_option (md_init md) (evp_data ctx)\<rparr>, mem)))"

definition EVP_DigestInit :: "bool list \<Rightarrow> EVP_MD \<Rightarrow> bool \<times> EVP_MD_CTX \<times> bool list" where
  "EVP_DigestInit mem type = EVP_DigestInit_ex mem EVP_MD_CTX_init type"

text \<open>Without a digest these would follow a null pointer; they fail here.\<close>

definition EVP_DigestUpdate :: "u8 list \<Rightarrow> EVP_MD_CTX \<Rightarrow> bool \<times> EVP_MD_CTX" where
  "EVP_DigestUpdate data ctx =
     (case digest ctx of None \<Rightarrow> (False, ctx)
      | Some md \<Rightarrow> (True, ctx\<lparr>evp_data := map_option (md_update md data) (evp_data ctx)\<rparr>))"

text \<open>The flag, the bytes written to \<open>md_out\<close>, \<open>size\<close>, and the context with its state wiped.\<close>

definition EVP_DigestFinal_ex :: "EVP_MD_CTX \<Rightarrow> (bool \<times> u8 list \<times> nat) \<times> EVP_MD_CTX" where
  "EVP_DigestFinal_ex ctx =
     (case (digest ctx, evp_data ctx) of
        (Some md, Some s) \<Rightarrow>
          let (out, s) = md_final md s;
              size = md_size md
          in ((True, out, size), ctx\<lparr>evp_data := Some Md_Raw\<rparr>)
      | _ \<Rightarrow> ((False, [], 0), ctx))"

definition EVP_DigestFinal :: "EVP_MD_CTX \<Rightarrow> (bool \<times> u8 list \<times> nat) \<times> EVP_MD_CTX" where
  "EVP_DigestFinal ctx = (let (r, ctx) = EVP_DigestFinal_ex ctx in (r, EVP_MD_CTX_cleanup ctx))"

definition EVP_Digest :: "bool list \<Rightarrow> u8 list \<Rightarrow> EVP_MD \<Rightarrow> (u8 list \<times> nat) option \<times> bool list" where
  "EVP_Digest mem data type =
     (let ctx = EVP_MD_CTX_init;
          (ok, ctx, mem) = EVP_DigestInit_ex mem ctx type
      in if \<not> ok then (None, mem)
         else
           let (ok, ctx) = EVP_DigestUpdate data ctx
           in if \<not> ok then (None, mem)
              else
                let ((ok, out, size), ctx) = EVP_DigestFinal_ex ctx
                in (if ok then Some (out, size) else None, mem))"

definition EVP_MD_CTX_size :: "EVP_MD_CTX \<Rightarrow> nat option" where
  "EVP_MD_CTX_size ctx = map_option md_size (digest ctx)"

definition EVP_MD_CTX_block_size :: "EVP_MD_CTX \<Rightarrow> nat option" where
  "EVP_MD_CTX_block_size ctx = map_option block_size (digest ctx)"

definition EVP_MD_CTX_type :: "EVP_MD_CTX \<Rightarrow> nat option" where
  "EVP_MD_CTX_type ctx = map_option md_type (digest ctx)"

section \<open>What a method promises\<close>

text \<open>Memory that a method may initialise: SHA-512 leaves the buffer it finds as it is.\<close>

fun md_valid :: "md_data \<Rightarrow> bool" where
  "md_valid (Md_Sha512 c) \<longleftrightarrow> length (sp c) = 128 \<and> snum c < 128"
| "md_valid _ \<longleftrightarrow> True"

locale evp_digest =
  fixes md :: EVP_MD and H :: "u8 list \<Rightarrow> u8 list"
  assumes stream: "md_valid s \<Longrightarrow> \<forall>d\<in>set ds. length d < 2 ^ 64 \<Longrightarrow>
      fst (md_final md (fold (md_update md) ds (md_init md s))) = H (concat ds)"
    and init_valid: "md_valid s \<Longrightarrow> md_valid (md_init md s)"
    and update_valid: "md_valid s \<Longrightarrow> md_valid (md_update md d s)"
    and length_H: "length (H m) = md_size md"
    and sizes: "0 < md_size md" "md_size md \<le> EVP_MAX_MD_SIZE" "md_size md \<le> block_size md"
      "block_size md \<le> EVP_MAX_MD_BLOCK_SIZE"
begin

text \<open>A context in the middle of the message \<open>m\<close>.\<close>

definition hashing :: "u8 list \<Rightarrow> EVP_MD_CTX \<Rightarrow> bool" where
  "hashing m ctx \<longleftrightarrow> digest ctx = Some md \<and> pctx ctx = None \<and>
     (\<exists>s ds. md_valid s \<and> (\<forall>d\<in>set ds. length d < 2 ^ 64) \<and> concat ds = m \<and>
       evp_data ctx = Some (fold (md_update md) ds (md_init md s)))"

text \<open>A context that a digest may be started in: unused, or used for this method before.\<close>

definition startable :: "EVP_MD_CTX \<Rightarrow> bool" where
  "startable ctx \<longleftrightarrow> pctx ctx = None \<and>
     (digest ctx = Some md \<and> (\<exists>s. evp_data ctx = Some s \<and> md_valid s) \<or> \<not> same_digest (digest ctx) (Some md))"

lemma startable_init: "startable EVP_MD_CTX_init"
  by (simp add: startable_def EVP_MD_CTX_init_def same_digest_def)

lemma fold_valid: "md_valid s \<Longrightarrow> md_valid (fold (md_update md) ds s)"
  by (induction ds arbitrary: s) (simp_all add: update_valid)

lemma hashing_startable: "hashing m ctx \<Longrightarrow> startable ctx"
  using init_valid fold_valid by (auto simp: hashing_def startable_def)

text \<open>Starting fails only when the memory for a new state is refused.\<close>

lemma init_hashing:
  assumes "startable ctx" "EVP_DigestInit_ex mem ctx md = (ok, ctx', mem')"
  shows "if ok then hashing [] ctx' else ctx' = ctx \<and> \<not> fst (mem_next mem)"
proof -
  have h: "hashing [] (c\<lparr>evp_data := Some (md_init md s)\<rparr>)" if "digest c = Some md" "pctx c = None" "md_valid s" for c s
    using that by (auto simp: hashing_def intro!: exI [of _ s] exI [of _ "[]"])
  from assms(1) consider s where "digest ctx = Some md" "pctx ctx = None" "evp_data ctx = Some s" "md_valid s"
    | "\<not> same_digest (digest ctx) (Some md)" "pctx ctx = None"
    by (auto simp: startable_def)
  then show ?thesis
  proof cases
    case (1 s)
    have "ok \<and> ctx' = ctx\<lparr>evp_data := Some (md_init md s)\<rparr>"
      using assms(2) 1 by (auto simp: EVP_DigestInit_ex_def same_digest_def)
    then show ?thesis using h [OF 1(1,2,4)] by simp
  next
    case 2
    show ?thesis
    proof (cases "fst (mem_next mem)")
      case True
      have "md_valid Md_Raw" by simp
      from h [of "ctx\<lparr>evp_data := Some Md_Raw, digest := Some md\<rparr>", OF _ _ this] True 2 assms(2) show ?thesis
        by (auto simp: EVP_DigestInit_ex_def case_prod_beta)
    next
      case False
      then show ?thesis using 2 assms(2) by (auto simp: EVP_DigestInit_ex_def case_prod_beta)
    qed
  qed
qed

lemma update_hashing:
  assumes "hashing m ctx" "length d < 2 ^ 64"
  shows "\<exists>ctx'. EVP_DigestUpdate d ctx = (True, ctx') \<and> hashing (m @ d) ctx'"
proof -
  obtain s ds where s: "digest ctx = Some md" "pctx ctx = None" "md_valid s" "\<forall>d\<in>set ds. length d < 2 ^ 64"
    "concat ds = m" "evp_data ctx = Some (fold (md_update md) ds (md_init md s))"
    using assms(1) by (auto simp: hashing_def)
  have "hashing (m @ d) (ctx\<lparr>evp_data := Some (fold (md_update md) (ds @ [d]) (md_init md s))\<rparr>)"
    unfolding hashing_def using s assms(2) by (intro conjI exI [of _ s] exI [of _ "ds @ [d]"]) auto
  then show ?thesis using s by (simp add: EVP_DigestUpdate_def)
qed

lemma final_hashing:
  assumes "hashing m ctx"
  shows "\<exists>ctx'. EVP_DigestFinal_ex ctx = ((True, H m, md_size md), ctx') \<and> startable ctx' \<and> digest ctx' = Some md"
proof -
  obtain s ds where s: "digest ctx = Some md" "pctx ctx = None" "md_valid s" "\<forall>d\<in>set ds. length d < 2 ^ 64"
    "concat ds = m" "evp_data ctx = Some (fold (md_update md) ds (md_init md s))"
    using assms(1) by (auto simp: hashing_def)
  then show ?thesis
    using stream [OF s(3,4)] by (auto simp: EVP_DigestFinal_ex_def case_prod_beta startable_def)
qed

text \<open>A copy is a context in the middle of the same message.\<close>

lemma copy_hashing:
  assumes "hashing m inp" "EVP_MD_CTX_copy_ex mem out (Some inp) = (ok, out', mem')"
  shows "if ok then hashing m out' else out' = out \<and> \<not> fst (mem_next mem)"
    and "digest out = Some md \<Longrightarrow> ok \<and> mem' = mem"
proof -
  have inp: "digest inp = Some md" "pctx inp = None" using assms(1) by (simp_all add: hashing_def)
  have "if ok then digest out' = digest inp \<and> pctx out' = None \<and> evp_data out' = evp_data inp
      else out' = out \<and> \<not> fst (mem_next mem)"
    using assms(2) inp
    by (auto simp: EVP_MD_CTX_copy_ex_def Let_def case_prod_beta EVP_MD_CTX_cleanup_def EVP_MD_CTX_init_def split: if_splits)
  then show "if ok then hashing m out' else out' = out \<and> \<not> fst (mem_next mem)"
    using assms(1) by (simp add: hashing_def split: if_splits)
  show "digest out = Some md \<Longrightarrow> ok \<and> mem' = mem"
    using assms(2) inp by (auto simp: EVP_MD_CTX_copy_ex_def same_digest_def)
qed

lemma digest_once:
  assumes "length m < 2 ^ 64"
  shows "EVP_Digest mem m md =
    (if fst (mem_next mem) then (Some (H m, md_size md), snd (mem_next mem)) else (None, snd (mem_next mem)))"
proof -
  obtain ok ctx mem' where i: "EVP_DigestInit_ex mem EVP_MD_CTX_init md = (ok, ctx, mem')" by (metis surj_pair)
  have m: "mem' = snd (mem_next mem)" "ok = fst (mem_next mem)"
    using i by (auto simp: EVP_DigestInit_ex_def EVP_MD_CTX_init_def same_digest_def case_prod_beta split: if_splits)
  show ?thesis
  proof (cases ok)
    case True
    then have "hashing [] ctx" using init_hashing [OF startable_init i] by simp
    from update_hashing [OF this assms] obtain ctx' where u: "EVP_DigestUpdate m ctx = (True, ctx')" "hashing m ctx'"
      by auto
    from final_hashing [OF u(2)] obtain ctx'' where "EVP_DigestFinal_ex ctx' = ((True, H m, md_size md), ctx'')" by auto
    with True i u m show ?thesis by (simp add: EVP_Digest_def)
  next
    case False
    with i m show ?thesis by (simp add: EVP_Digest_def)
  qed
qed

end

section \<open>The methods keep their promise\<close>

lemma fold_wrap:
  "(\<And>d c. u d (W c) = W (v d c)) \<Longrightarrow> fold u ds (W c) = W (fold v ds c)"
  by (induction ds arbitrary: c) simp_all

lemma length_octet_words: "length (concat (map (\<lambda>w. be_bytes k (f w)) ws)) = k * length ws"
  by (induction ws) simp_all

lemma length_rev_words: "length (concat (map (\<lambda>w. rev (be_bytes k (f w))) ws)) = k * length ws"
  by (induction ws) simp_all

lemma length_fips_sha256: "length st = 8 \<Longrightarrow> length (fold_blocks 64 fips_sha256_compress st m) = 8"
proof (induction "length m" arbitrary: st m rule: less_induct)
  case less
  have "length (fips_sha256_compress st b) = 8" for b
    by (simp add: fips_sha256_compress_def sha2_compress_def add_regs_def case_prod_beta Let_def)
  with less show ?case by (subst fold_blocks.simps) auto
qed

lemma length_Init: "length (md_h SHA256_Init) = 8" "length (md_h SHA224_Init) = 8"
  by (simp_all add: SHA256_Init_def SHA224_Init_def)

lemmas md_sizes = EVP_MAX_MD_SIZE_def EVP_MAX_MD_BLOCK_SIZE_def SHA224_DIGEST_LENGTH_def SHA256_DIGEST_LENGTH_def
  SHA384_DIGEST_LENGTH_def SHA512_DIGEST_LENGTH_def

interpretation evp_md4: evp_digest EVP_md4 "rfc_digest rfc1320_compress (md_h MD4_Init)"
proof unfold_locales
  show "fst (md_final EVP_md4 (fold (md_update EVP_md4) ds (md_init EVP_md4 s))) = rfc_digest rfc1320_compress (md_h MD4_Init) (concat ds)"
    if "\<forall>d\<in>set ds. length d < 2 ^ 64" for s ds
    using md4_digest [OF fresh_Init(2,5) that refl]
    by (simp add: EVP_md4_def fold_wrap [where W = Md_Md32 and v = MD4_Update] case_prod_beta written_def)
qed (simp_all add: EVP_md4_def md_sizes rfc_digest_def length_rev_words length_rfc1320 fresh_Init)

interpretation evp_md5: evp_digest EVP_md5 "rfc_digest rfc1321_compress (md_h MD5_Init)"
proof unfold_locales
  show "fst (md_final EVP_md5 (fold (md_update EVP_md5) ds (md_init EVP_md5 s))) = rfc_digest rfc1321_compress (md_h MD5_Init) (concat ds)"
    if "\<forall>d\<in>set ds. length d < 2 ^ 64" for s ds
    using md5_digest [OF fresh_Init(3,6) that refl]
    by (simp add: EVP_md5_def fold_wrap [where W = Md_Md32 and v = MD5_Update] case_prod_beta written_def)
qed (simp_all add: EVP_md5_def md_sizes rfc_digest_def length_rev_words length_rfc1321 fresh_Init)

interpretation evp_sha1: evp_digest EVP_sha1 "fips_sha1 (md_h SHA1_Init)"
proof unfold_locales
  show "fst (md_final EVP_sha1 (fold (md_update EVP_sha1) ds (md_init EVP_sha1 s))) = fips_sha1 (md_h SHA1_Init) (concat ds)"
    if "\<forall>d\<in>set ds. length d < 2 ^ 64" for s ds
    using sha1_digest [OF fresh_Init(1,4) that refl]
    by (simp add: EVP_sha1_def fold_wrap [where W = Md_Md32 and v = SHA1_Update] case_prod_beta written_def)
qed (simp_all add: EVP_sha1_def md_sizes fips_sha1_def length_octet_words length_fips_sha1 fresh_Init)

interpretation evp_sha256: evp_digest EVP_sha256 "fips_sha256 (md_h SHA256_Init) 32"
proof unfold_locales
  show "fst (md_final EVP_sha256 (fold (md_update EVP_sha256) ds (md_init EVP_sha256 s))) = fips_sha256 (md_h SHA256_Init) 32 (concat ds)"
    if "\<forall>d\<in>set ds. length d < 2 ^ 64" for s ds
    using sha256_digest [OF fresh_SHA256(1) that _ refl]
    by (simp add: EVP_sha256_def fold_wrap [where W = Md_Sha256 and v = SHA256_Update] case_prod_beta written_def md_len_Init)
qed (simp_all add: EVP_sha256_def md_sizes fips_sha256_def length_octet_words length_fips_sha256 length_Init)

interpretation evp_sha224: evp_digest EVP_sha224 "fips_sha256 (md_h SHA224_Init) 28"
proof unfold_locales
  show "fst (md_final EVP_sha224 (fold (md_update EVP_sha224) ds (md_init EVP_sha224 s))) = fips_sha256 (md_h SHA224_Init) 28 (concat ds)"
    if "\<forall>d\<in>set ds. length d < 2 ^ 64" for s ds
    using sha256_digest [OF fresh_SHA256(2) that _ refl]
    by (simp add: EVP_sha224_def fold_wrap [where W = Md_Sha256 and v = SHA256_Update] case_prod_beta written_def md_len_Init
        SHA224_Update_def SHA224_Final_def)
qed (simp_all add: EVP_sha224_def md_sizes fips_sha256_def length_octet_words length_fips_sha256 length_Init)

interpretation evp_md5_sha1: evp_digest EVP_md5_sha1
  "\<lambda>m. rfc_digest rfc1321_compress (md_h MD5_Init) m @ fips_sha1 (md_h SHA1_Init) m"
proof unfold_locales
  have f: "fold (md_update EVP_md5_sha1) ds (Md_MD5_SHA1 c d) = Md_MD5_SHA1 (fold MD5_Update ds c) (fold SHA1_Update ds d)" for ds c d
    by (induction ds arbitrary: c d) (simp_all add: EVP_md5_sha1_def)
  show "fst (md_final EVP_md5_sha1 (fold (md_update EVP_md5_sha1) ds (md_init EVP_md5_sha1 s))) =
      rfc_digest rfc1321_compress (md_h MD5_Init) (concat ds) @ fips_sha1 (md_h SHA1_Init) (concat ds)"
    if "\<forall>d\<in>set ds. length d < 2 ^ 64" for s ds
  proof -
    have "md_init EVP_md5_sha1 s = Md_MD5_SHA1 MD5_Init SHA1_Init" by (simp add: EVP_md5_sha1_def)
    then show ?thesis
      using md5_digest [OF fresh_Init(3,6) that refl] sha1_digest [OF fresh_Init(1,4) that refl]
      by (simp only: f) (simp add: EVP_md5_sha1_def case_prod_beta written_def Let_def)
  qed
qed (simp_all add: EVP_md5_sha1_def md_sizes rfc_digest_def fips_sha1_def length_rev_words length_octet_words
    length_rfc1321 length_fips_sha1 fresh_Init case_prod_beta)

text \<open>SHA-512 and SHA-384 start from the same state whatever they find.\<close>

definition sha512_iv :: "u64 list" where "sha512_iv = sh (SHA512_Init (as_sha512 Md_Raw))"
definition sha384_iv :: "u64 list" where "sha384_iv = sh (SHA384_Init (as_sha512 Md_Raw))"

lemma sha512_ivs: "sh (SHA512_Init c) = sha512_iv" "sh (SHA384_Init c) = sha384_iv"
  "length sha512_iv = 8" "length sha384_iv = 8"
  by (simp_all add: sha512_iv_def sha384_iv_def SHA512_Init_def SHA384_Init_def)

lemma as_sha512_valid: "md_valid s \<Longrightarrow> length (sp (as_sha512 s)) = 128"
  by (cases s) simp_all

lemma sha512_stream:
  assumes "length (sp c) = 128"
  shows "fst (SHA512_Final False (fold SHA512_Update ds (SHA512_Init c))) = Some (fips_sha512 sha512_iv 64 (concat ds))"
    and "fst (SHA512_Final False (fold SHA512_Update ds (SHA384_Init c))) = Some (fips_sha512 sha384_iv 48 (concat ds))"
  using sha512_digest [OF sha512_collected_Init(1) [OF assms], of False ds]
    sha512_digest [OF sha512_collected_Init(2) [OF assms], of False ds]
  by (simp_all add: smd_len_Init sha512_ivs)

lemma sha512_update_valid:
  assumes "length (sp c) = 128" "snum c < 128"
  shows "length (sp (SHA512_Update d c)) = 128 \<and> snum (SHA512_Update d c) < 128"
proof -
  have b: "length (sp (sha512_update_blocks d c)) = 128 \<and> snum (sha512_update_blocks d c) < 128"
    if "length (sp c) = 128" "snum c < 128" for d c
  proof -
    have "length d - (length d - length d mod 128) = length d mod 128" by simp
    moreover have "length d mod 128 < 128" by simp
    ultimately show ?thesis
      using that by (simp add: sha512_update_blocks_def SHA512_CBLOCK_def Let_def)
  qed
  show ?thesis
    using assms by (auto simp: SHA512_Update_def SHA512_CBLOCK_def Let_def b)
qed

lemma sha512_valid: "md_valid s \<Longrightarrow> length (sp (as_sha512 s)) = 128 \<and> snum (as_sha512 s) < 128"
  by (cases s) simp_all

lemma SHA512_Init_valid:
  "sp (SHA512_Init c) = sp c" "snum (SHA512_Init c) = 0" "sp (SHA384_Init c) = sp c" "snum (SHA384_Init c) = 0"
  by (simp_all add: SHA512_Init_def SHA384_Init_def)

interpretation evp_sha512: evp_digest EVP_sha512 "fips_sha512 sha512_iv 64"
proof unfold_locales
  show "fst (md_final EVP_sha512 (fold (md_update EVP_sha512) ds (md_init EVP_sha512 s))) = fips_sha512 sha512_iv 64 (concat ds)"
    if "md_valid s" for s ds
    using sha512_stream(1) [OF as_sha512_valid [OF that], of ds]
    by (simp add: EVP_sha512_def fold_wrap [where W = Md_Sha512 and v = SHA512_Update] case_prod_beta written_def)
qed (simp_all add: EVP_sha512_def md_sizes fips_sha512_def length_octet_words length_fips_sha512 sha512_ivs
    SHA512_Init_valid sha512_update_valid sha512_valid)

interpretation evp_sha384: evp_digest EVP_sha384 "fips_sha512 sha384_iv 48"
proof unfold_locales
  show "fst (md_final EVP_sha384 (fold (md_update EVP_sha384) ds (md_init EVP_sha384 s))) = fips_sha512 sha384_iv 48 (concat ds)"
    if "md_valid s" for s ds
    using sha512_stream(2) [OF as_sha512_valid [OF that], of ds]
    by (simp add: EVP_sha384_def fold_wrap [where W = Md_Sha512 and v = SHA512_Update] case_prod_beta written_def
        SHA384_Update_def SHA384_Final_def)
qed (simp_all add: EVP_sha384_def md_sizes fips_sha512_def length_octet_words length_fips_sha512 sha512_ivs
    SHA512_Init_valid sha512_update_valid sha512_valid SHA384_Update_def)

section \<open>The table of methods\<close>

text \<open>Every method with the digest its standard defines.\<close>

definition evp_methods :: "(EVP_MD \<times> (u8 list \<Rightarrow> u8 list)) list" where
  "evp_methods =
     [(EVP_md4, rfc_digest rfc1320_compress (md_h MD4_Init)), (EVP_md5, rfc_digest rfc1321_compress (md_h MD5_Init)),
      (EVP_sha1, fips_sha1 (md_h SHA1_Init)),
      (EVP_sha224, fips_sha256 (md_h SHA224_Init) 28), (EVP_sha256, fips_sha256 (md_h SHA256_Init) 32),
      (EVP_sha384, fips_sha512 sha384_iv 48), (EVP_sha512, fips_sha512 sha512_iv 64),
      (EVP_md5_sha1, \<lambda>m. rfc_digest rfc1321_compress (md_h MD5_Init) m @ fips_sha1 (md_h SHA1_Init) m)]"

lemma methods_keep_contract: "(md, H) \<in> set evp_methods \<Longrightarrow> evp_digest md H"
  using evp_md4.evp_digest_axioms evp_md5.evp_digest_axioms evp_sha1.evp_digest_axioms evp_sha224.evp_digest_axioms
    evp_sha256.evp_digest_axioms evp_sha384.evp_digest_axioms evp_sha512.evp_digest_axioms evp_md5_sha1.evp_digest_axioms
  by (auto simp: evp_methods_def)

lemma in_methods:
  "(EVP_sha256, fips_sha256 (md_h SHA256_Init) 32) \<in> set evp_methods"
  "(EVP_sha1, fips_sha1 (md_h SHA1_Init)) \<in> set evp_methods"
  "(EVP_md5, rfc_digest rfc1321_compress (md_h MD5_Init)) \<in> set evp_methods"
  by (simp_all add: evp_methods_def)

lemma evp_digest_methods:
  assumes "(md, H) \<in> set evp_methods" "length m < 2 ^ 64"
  shows "fst (EVP_Digest mem m md) = (if fst (mem_next mem) then Some (H m, md_size md) else None)"
  using evp_digest.digest_once [OF methods_keep_contract [OF assms(1)] assms(2)] by simp

end
