(* ===== verification/Hmac.thy ===== *)
theory Hmac
  imports Evp
begin

unbundle bit_operations_syntax

text \<open>
  HMAC (\<open>crypto/fipsmodule/hmac/hmac.c\<close>) over the digest interface of \<open>Evp\<close>, and RFC 2104, which
  it computes with every method that keeps the contract \<open>evp_digest\<close>.
\<close>

section \<open>The context\<close>

record HMAC_CTX =
  hmac_md :: "EVP_MD option"
  md_ctx :: EVP_MD_CTX
  i_ctx :: EVP_MD_CTX
  o_ctx :: EVP_MD_CTX

definition HMAC_CTX_init :: HMAC_CTX where
  "HMAC_CTX_init = \<lparr>hmac_md = None, md_ctx = EVP_MD_CTX_init, i_ctx = EVP_MD_CTX_init, o_ctx = EVP_MD_CTX_init\<rparr>"

definition HMAC_CTX_new :: "bool list \<Rightarrow> HMAC_CTX option \<times> bool list" where
  "HMAC_CTX_new mem = (let (ok, mem) = mem_next mem in (if ok then Some HMAC_CTX_init else None, mem))"

text \<open>The cleanup ends by wiping the context, which leaves null pointers everywhere.\<close>

definition HMAC_CTX_cleanup :: "HMAC_CTX \<Rightarrow> HMAC_CTX" where
  "HMAC_CTX_cleanup ctx =
     (let ctx = ctx\<lparr>i_ctx := EVP_MD_CTX_cleanup (i_ctx ctx)\<rparr>;
          ctx = ctx\<lparr>o_ctx := EVP_MD_CTX_cleanup (o_ctx ctx)\<rparr>;
          ctx = ctx\<lparr>md_ctx := EVP_MD_CTX_cleanup (md_ctx ctx)\<rparr>
      in ctx\<lparr>hmac_md := None, md_ctx := EVP_MD_CTX_init, i_ctx := EVP_MD_CTX_init, o_ctx := EVP_MD_CTX_init\<rparr>)"

text \<open>What the memory of a context holds when it is released.\<close>

definition HMAC_CTX_free :: "HMAC_CTX option \<Rightarrow> HMAC_CTX option" where
  "HMAC_CTX_free ctx = (case ctx of None \<Rightarrow> None | Some ctx \<Rightarrow> Some (HMAC_CTX_cleanup ctx))"

definition HMAC_CTX_reset :: "HMAC_CTX \<Rightarrow> HMAC_CTX" where
  "HMAC_CTX_reset ctx = (let ctx = HMAC_CTX_cleanup ctx in HMAC_CTX_init)"

section \<open>Keys\<close>

text \<open>
  The key block: the key, hashed if it is longer than a block of the digest, in a buffer of
  128 bytes.  Its rest is zeros, whatever the buffer held.
\<close>

definition hmac_key_block ::
    "bool list \<Rightarrow> HMAC_CTX \<Rightarrow> u8 list \<Rightarrow> EVP_MD \<Rightarrow> u8 list option \<times> HMAC_CTX \<times> bool list" where
  "hmac_key_block mem ctx key md =
     (let (kb, ctx, mem) =
        (if block_size md < length key then
           let (ok, c, mem) = EVP_DigestInit_ex mem (md_ctx ctx) md;
               ctx = ctx\<lparr>md_ctx := c\<rparr>
           in if \<not> ok then (None, ctx, mem)
              else
                let (ok, c) = EVP_DigestUpdate key (md_ctx ctx);
                    ctx = ctx\<lparr>md_ctx := c\<rparr>
                in if \<not> ok then (None, ctx, mem)
                   else
                     let ((ok, out, key_block_len), c) = EVP_DigestFinal_ex (md_ctx ctx);
                         ctx = ctx\<lparr>md_ctx := c\<rparr>
                     in if \<not> ok then (None, ctx, mem)
                        else (Some (take key_block_len out), ctx, mem)
         else (Some key, ctx, mem))
      in case kb of None \<Rightarrow> (None, ctx, mem)
         | Some k \<Rightarrow> (Some (k @ replicate (EVP_MAX_MD_BLOCK_SIZE - length k) 0), ctx, mem))"

text \<open>Starting the inner or the outer digest with the key block under a mask.\<close>

definition hmac_pad_ctx ::
    "bool list \<Rightarrow> EVP_MD_CTX \<Rightarrow> EVP_MD \<Rightarrow> u8 \<Rightarrow> u8 list \<Rightarrow> bool \<times> EVP_MD_CTX \<times> bool list" where
  "hmac_pad_ctx mem c md m key_block =
     (let pad = map (\<lambda>i. m XOR key_block ! i) [0..<EVP_MAX_MD_BLOCK_SIZE];
          (ok, c, mem) = EVP_DigestInit_ex mem c md
      in if \<not> ok then (False, c, mem)
         else
           let (ok, c) = EVP_DigestUpdate (take (block_size md) pad) c
           in (ok, c, mem))"

definition HMAC_Init_ex ::
    "bool list \<Rightarrow> HMAC_CTX \<Rightarrow> u8 list option \<Rightarrow> EVP_MD option \<Rightarrow> bool \<times> HMAC_CTX \<times> bool list" where
  "HMAC_Init_ex mem ctx key md =
     (let md = (if md = None then hmac_md ctx else md);
          (ok, ctx, mem) =
            (if \<not> same_digest md (hmac_md ctx) \<or> key \<noteq> None then
               (case md of None \<Rightarrow> (False, ctx, mem)
                | Some m \<Rightarrow>
                  let (kb, ctx, mem) = hmac_key_block mem ctx (case key of None \<Rightarrow> [] | Some k \<Rightarrow> k) m
                  in case kb of None \<Rightarrow> (False, ctx, mem)
                     | Some key_block \<Rightarrow>
                       let (ok, c, mem) = hmac_pad_ctx mem (i_ctx ctx) m 0x36 key_block;
                           ctx = ctx\<lparr>i_ctx := c\<rparr>
                       in if \<not> ok then (False, ctx, mem)
                          else
                            let (ok, c, mem) = hmac_pad_ctx mem (o_ctx ctx) m 0x5c key_block;
                                ctx = ctx\<lparr>o_ctx := c\<rparr>
                            in if \<not> ok then (False, ctx, mem)
                               else (True, ctx\<lparr>hmac_md := md\<rparr>, mem))
             else (True, ctx, mem))
      in if \<not> ok then (False, ctx, mem)
         else
           let (ok, c, mem) = EVP_MD_CTX_copy_ex mem (md_ctx ctx) (Some (i_ctx ctx))
           in (ok, ctx\<lparr>md_ctx := c\<rparr>, mem))"

definition HMAC_Init :: "bool list \<Rightarrow> HMAC_CTX \<Rightarrow> u8 list option \<Rightarrow> EVP_MD option \<Rightarrow> bool \<times> HMAC_CTX \<times> bool list" where
  "HMAC_Init mem ctx key md =
     (let ctx = (if key \<noteq> None \<and> md \<noteq> None then HMAC_CTX_init else ctx)
      in HMAC_Init_ex mem ctx key md)"

section \<open>Messages\<close>

definition HMAC_Update :: "u8 list \<Rightarrow> HMAC_CTX \<Rightarrow> bool \<times> HMAC_CTX" where
  "HMAC_Update data ctx =
     (let (ok, c) = EVP_DigestUpdate data (md_ctx ctx) in (ok, ctx\<lparr>md_ctx := c\<rparr>))"

text \<open>The flag, the bytes written to \<open>out\<close> and \<open>out_len\<close>.\<close>

definition HMAC_Final :: "bool list \<Rightarrow> HMAC_CTX \<Rightarrow> (bool \<times> u8 list \<times> nat) \<times> HMAC_CTX \<times> bool list" where
  "HMAC_Final mem ctx =
     (let ((ok, buf, i), c) = EVP_DigestFinal_ex (md_ctx ctx);
          ctx = ctx\<lparr>md_ctx := c\<rparr>
      in if \<not> ok then ((False, [], 0), ctx, mem)
         else
           let (ok, c, mem) = EVP_MD_CTX_copy_ex mem (md_ctx ctx) (Some (o_ctx ctx));
               ctx = ctx\<lparr>md_ctx := c\<rparr>
           in if \<not> ok then ((False, [], 0), ctx, mem)
              else
                let (ok, c) = EVP_DigestUpdate (take i buf) (md_ctx ctx);
                    ctx = ctx\<lparr>md_ctx := c\<rparr>
                in if \<not> ok then ((False, [], 0), ctx, mem)
                   else
                     let ((ok, out, out_len), c) = EVP_DigestFinal_ex (md_ctx ctx);
                         ctx = ctx\<lparr>md_ctx := c\<rparr>
                     in if \<not> ok then ((False, [], 0), ctx, mem)
                        else ((True, out, out_len), ctx, mem))"

definition HMAC_size :: "HMAC_CTX \<Rightarrow> nat option" where
  "HMAC_size ctx = map_option md_size (hmac_md ctx)"

definition HMAC_CTX_copy_ex :: "bool list \<Rightarrow> HMAC_CTX \<Rightarrow> HMAC_CTX \<Rightarrow> bool \<times> HMAC_CTX \<times> bool list" where
  "HMAC_CTX_copy_ex mem dest src =
     (let (ok, c, mem) = EVP_MD_CTX_copy_ex mem (i_ctx dest) (Some (i_ctx src));
          dest = dest\<lparr>i_ctx := c\<rparr>
      in if \<not> ok then (False, dest, mem)
         else
           let (ok, c, mem) = EVP_MD_CTX_copy_ex mem (o_ctx dest) (Some (o_ctx src));
               dest = dest\<lparr>o_ctx := c\<rparr>
           in if \<not> ok then (False, dest, mem)
              else
                let (ok, c, mem) = EVP_MD_CTX_copy_ex mem (md_ctx dest) (Some (md_ctx src));
                    dest = dest\<lparr>md_ctx := c\<rparr>
                in if \<not> ok then (False, dest, mem)
                   else (True, dest\<lparr>hmac_md := hmac_md src\<rparr>, mem))"

definition HMAC_CTX_copy :: "bool list \<Rightarrow> HMAC_CTX \<Rightarrow> bool \<times> HMAC_CTX \<times> bool list" where
  "HMAC_CTX_copy mem src = HMAC_CTX_copy_ex mem HMAC_CTX_init src"

text \<open>The whole of it: \<open>None\<close> for the null pointer, otherwise \<open>out\<close> and \<open>out_len\<close>.\<close>

definition HMAC :: "bool list \<Rightarrow> EVP_MD \<Rightarrow> u8 list option \<Rightarrow> u8 list \<Rightarrow> (u8 list \<times> nat) option \<times> bool list" where
  "HMAC mem evp_md key data =
     (let ctx = HMAC_CTX_init;
          (ok, ctx, mem) = HMAC_Init_ex mem ctx key (Some evp_md)
      in if \<not> ok then (None, mem)
         else
           let (ok, ctx) = HMAC_Update data ctx
           in if \<not> ok then (None, mem)
              else
                let ((ok, out, out_len), ctx, mem) = HMAC_Final mem ctx
                in (if ok then Some (out, out_len) else None, mem))"

section \<open>Granted memory stays granted\<close>

lemma granted_evp:
  "EVP_DigestInit_ex mem c md = (ok, c', mem') \<Longrightarrow> granted mem \<Longrightarrow> granted mem'"
  "EVP_MD_CTX_copy_ex mem c inp = (ok, c', mem') \<Longrightarrow> granted mem \<Longrightarrow> granted mem'"
  by (auto simp: EVP_DigestInit_ex_def EVP_MD_CTX_copy_ex_def Let_def case_prod_beta granted_next split: if_splits option.splits)

lemma granted_pad: "hmac_pad_ctx mem c md m kb = (ok, c', mem') \<Longrightarrow> granted mem \<Longrightarrow> granted mem'"
  by (auto simp: hmac_pad_ctx_def Let_def dest: granted_evp split: if_splits prod.splits)

lemma granted_key_block: "hmac_key_block mem ctx key md = (kb, ctx', mem') \<Longrightarrow> granted mem \<Longrightarrow> granted mem'"
  by (auto simp: hmac_key_block_def Let_def dest: granted_evp split: if_splits prod.splits option.splits)

lemma granted_Init_ex: "HMAC_Init_ex mem ctx key md = (ok, ctx', mem') \<Longrightarrow> granted mem \<Longrightarrow> granted mem'"
  by (auto simp: HMAC_Init_ex_def Let_def dest: granted_evp granted_pad granted_key_block
      split: if_splits prod.splits option.splits)

lemma granted_Final: "HMAC_Final mem ctx = (r, ctx', mem') \<Longrightarrow> granted mem \<Longrightarrow> granted mem'"
  by (auto simp: HMAC_Final_def Let_def dest: granted_evp split: if_splits prod.splits)

lemma granted_HMAC: "HMAC mem md key m = (r, mem') \<Longrightarrow> granted mem \<Longrightarrow> granted mem'"
  by (auto simp: HMAC_def Let_def dest: granted_Init_ex granted_Final split: if_splits prod.splits)

lemma granted_copy_ex: "HMAC_CTX_copy_ex mem dest src = (ok, dest', mem') \<Longrightarrow> granted mem \<Longrightarrow> granted mem'"
  by (auto simp: HMAC_CTX_copy_ex_def Let_def dest: granted_evp split: if_splits prod.splits)

section \<open>RFC 2104\<close>

definition rfc2104_key :: "nat \<Rightarrow> (u8 list \<Rightarrow> u8 list) \<Rightarrow> u8 list \<Rightarrow> u8 list" where
  "rfc2104_key B H K = (let K = (if length K > B then H K else K) in K @ replicate (B - length K) 0)"

definition rfc2104 :: "nat \<Rightarrow> (u8 list \<Rightarrow> u8 list) \<Rightarrow> u8 list \<Rightarrow> u8 list \<Rightarrow> u8 list" where
  "rfc2104 B H K text =
     H (map (\<lambda>b. b XOR 0x5c) (rfc2104_key B H K) @ H (map (\<lambda>b. b XOR 0x36) (rfc2104_key B H K) @ text))"


lemma length_rfc2104_key:
  "(\<And>m. length (H m) \<le> B) \<Longrightarrow> length (rfc2104_key B H K) = B"
  by (simp add: rfc2104_key_def Let_def)

section \<open>The code computes RFC 2104\<close>

context evp_digest
begin

lemma length_rfc2104 [simp]: "length (rfc2104 B H K m) = md_size md"
  by (simp add: rfc2104_def length_H)

definition keyed :: "u8 list \<Rightarrow> HMAC_CTX \<Rightarrow> bool" where
  "keyed K ctx \<longleftrightarrow> hmac_md ctx = Some md \<and>
     hashing (map (\<lambda>b. b XOR 0x36) (rfc2104_key (block_size md) H K)) (i_ctx ctx) \<and>
     hashing (map (\<lambda>b. b XOR 0x5c) (rfc2104_key (block_size md) H K)) (o_ctx ctx) \<and>
     startable (md_ctx ctx) \<and> digest (md_ctx ctx) = Some md"

text \<open>A context in the middle of the message \<open>m\<close> under the key \<open>K\<close>.\<close>

definition authenticating :: "u8 list \<Rightarrow> u8 list \<Rightarrow> HMAC_CTX \<Rightarrow> bool" where
  "authenticating K m ctx \<longleftrightarrow> keyed K ctx \<and>
     hashing (map (\<lambda>b. b XOR 0x36) (rfc2104_key (block_size md) H K) @ m) (md_ctx ctx)"

definition usable :: "HMAC_CTX \<Rightarrow> bool" where
  "usable ctx \<longleftrightarrow> startable (md_ctx ctx) \<and> startable (i_ctx ctx) \<and> startable (o_ctx ctx)"

lemma keyed_usable: "keyed K ctx \<Longrightarrow> usable ctx"
  using hashing_startable by (auto simp: keyed_def usable_def)

lemma usable_init: "usable HMAC_CTX_init"
  by (simp add: usable_def HMAC_CTX_init_def startable_init)

lemma start_update:
  assumes "startable c" "length d < 2 ^ 64" "EVP_DigestInit_ex mem c md = (ok, c', mem')"
  shows "if ok then \<exists>c''. EVP_DigestUpdate d c' = (True, c'') \<and> hashing d c''
    else c' = c \<and> \<not> fst (mem_next mem)"
  using init_hashing [OF assms(1,3)] update_hashing [of "[]" c' d] assms(2) by auto

lemma pad_hashing:
  assumes "startable c" "length kb = EVP_MAX_MD_BLOCK_SIZE" "hmac_pad_ctx mem c md m kb = (ok, c', mem')"
  shows "if ok then hashing (map (\<lambda>b. b XOR m) (take (block_size md) kb)) c' else c' = c \<and> \<not> fst (mem_next mem)"
    and "mem' = mem \<or> mem' = snd (mem_next mem)"
proof -
  have pad: "take (block_size md) (map (\<lambda>i. m XOR kb ! i) [0..<EVP_MAX_MD_BLOCK_SIZE]) =
      map (\<lambda>b. b XOR m) (take (block_size md) kb)"
    using assms(2) sizes by (auto intro!: nth_equalityI simp: xor.commute)
  obtain o1 c1 m1 where i: "EVP_DigestInit_ex mem c md = (o1, c1, m1)" by (metis surj_pair)
  have "length (map (\<lambda>b. b XOR m) (take (block_size md) kb)) < 2 ^ 64"
    using sizes assms(2) by (simp add: EVP_MAX_MD_BLOCK_SIZE_def)
  from start_update [OF assms(1) this i] show "if ok then hashing (map (\<lambda>b. b XOR m) (take (block_size md) kb)) c' else c' = c \<and> \<not> fst (mem_next mem)"
    using assms(3) i by (auto simp: hmac_pad_ctx_def pad simp del: take_map split: if_splits)
  show "mem' = mem \<or> mem' = snd (mem_next mem)"
    using assms(3) i by (auto simp: hmac_pad_ctx_def EVP_DigestInit_ex_def case_prod_beta split: if_splits option.splits)
qed

lemma key_block_hashed:
  assumes "startable (md_ctx ctx)" "length key < 2 ^ 64" "hmac_key_block mem ctx key md = (kb, ctx', mem')"
  shows "i_ctx ctx' = i_ctx ctx" "o_ctx ctx' = o_ctx ctx" "hmac_md ctx' = hmac_md ctx" "startable (md_ctx ctx')"
    and "case kb of None \<Rightarrow> \<not> fst (mem_next mem)
      | Some b \<Rightarrow> length b = EVP_MAX_MD_BLOCK_SIZE \<and> take (block_size md) b = rfc2104_key (block_size md) H key"
    and "mem' = mem \<or> mem' = snd (mem_next mem)"
proof -
  let ?B = "block_size md"
  have rest: "length (k @ replicate (EVP_MAX_MD_BLOCK_SIZE - length k) 0) = EVP_MAX_MD_BLOCK_SIZE"
    "take ?B (k @ replicate (EVP_MAX_MD_BLOCK_SIZE - length k) 0) = k @ replicate (?B - length k) 0"
    if "length k \<le> ?B" for k :: "u8 list"
    using that sizes by (auto simp: min_def)
  have "i_ctx ctx' = i_ctx ctx \<and> o_ctx ctx' = o_ctx ctx \<and> hmac_md ctx' = hmac_md ctx \<and> startable (md_ctx ctx') \<and>
    (case kb of None \<Rightarrow> \<not> fst (mem_next mem)
      | Some b \<Rightarrow> length b = EVP_MAX_MD_BLOCK_SIZE \<and> take ?B b = rfc2104_key ?B H key) \<and>
    (mem' = mem \<or> mem' = snd (mem_next mem))"
  proof (cases "?B < length key")
    case True
    obtain o1 c1 m1 where i: "EVP_DigestInit_ex mem (md_ctx ctx) md = (o1, c1, m1)" by (metis surj_pair)
    have m1: "m1 = mem \<or> m1 = snd (mem_next mem)"
      using i by (auto simp: EVP_DigestInit_ex_def case_prod_beta split: if_splits option.splits)
    show ?thesis
    proof (cases o1)
      case False
      then show ?thesis
        using start_update [OF assms(1,2) i] assms i True m1 by (auto simp: hmac_key_block_def)
    next
      case o1: True
      then obtain c2 where u: "EVP_DigestUpdate key c1 = (True, c2)" "hashing key c2"
        using start_update [OF assms(1,2) i] by auto
      then obtain c3 where f: "EVP_DigestFinal_ex c2 = ((True, H key, md_size md), c3)" "startable c3"
        using final_hashing by blast
      have "rfc2104_key ?B H key = H key @ replicate (?B - length (H key)) 0"
        using True by (simp add: rfc2104_key_def Let_def)
      moreover have "length (H key) = md_size md" "md_size md \<le> ?B" using length_H sizes by auto
      ultimately show ?thesis
        using assms(3) True o1 i u f m1 rest [of "H key"] by (auto simp: hmac_key_block_def)
    qed
  next
    case False
    then have "rfc2104_key ?B H key = key @ replicate (?B - length key) 0" by (simp add: rfc2104_key_def)
    then show ?thesis
      using False assms rest [of key] by (auto simp: hmac_key_block_def)
  qed
  then show "i_ctx ctx' = i_ctx ctx" "o_ctx ctx' = o_ctx ctx" "hmac_md ctx' = hmac_md ctx" "startable (md_ctx ctx')"
    "case kb of None \<Rightarrow> \<not> fst (mem_next mem)
      | Some b \<Rightarrow> length b = EVP_MAX_MD_BLOCK_SIZE \<and> take ?B b = rfc2104_key ?B H key"
    "mem' = mem \<or> mem' = snd (mem_next mem)"
    by blast+
qed

lemma hashing_digest: "hashing m c \<Longrightarrow> digest c = Some md"
  by (simp add: hashing_def)

text \<open>
  A new key, or a new method: afterwards the context is at the start of a message under that key.
  This fails only when memory is refused, and the context can then be set up again.
\<close>

lemma init_authenticating:
  assumes u: "usable ctx" and m: "(case m of None \<Rightarrow> hmac_md ctx | Some _ \<Rightarrow> m) = Some md"
    and k: "\<not> same_digest (Some md) (hmac_md ctx) \<or> key \<noteq> None" "K = (case key of None \<Rightarrow> [] | Some k \<Rightarrow> k)" "length K < 2 ^ 64"
    and i: "HMAC_Init_ex mem ctx key m = (ok, ctx', mem')"
  shows "if ok then authenticating K [] ctx' else usable ctx' \<and> \<not> granted mem"
proof -
  let ?P = "\<lambda>b. map (\<lambda>x. x XOR b) (rfc2104_key (block_size md) H K)"
  obtain kb c1 m1 where kb: "hmac_key_block mem ctx K md = (kb, c1, m1)" by (metis surj_pair)
  have s: "startable (md_ctx ctx)" "startable (i_ctx ctx)" "startable (o_ctx ctx)" using u by (simp_all add: usable_def)
  note h = key_block_hashed [OF s(1) k(3) kb]
  have m': "(if m = None then hmac_md ctx else m) = Some md" using m by (cases m) simp_all
  note I = i [unfolded HMAC_Init_ex_def m' Let_def k(2) [symmetric]]
  show ?thesis
  proof (cases kb)
    case None
    then have "\<not> granted mem" "usable c1" using h s granted_next by (auto simp: usable_def)
    then show ?thesis using I k(1) kb None by auto
  next
    case (Some b)
    then have b: "length b = EVP_MAX_MD_BLOCK_SIZE" "take (block_size md) b = rfc2104_key (block_size md) H K" using h by auto
    have g1: "granted mem \<Longrightarrow> granted m1" using h(6) granted_next by auto
    obtain o2 c2 m2 where i2: "hmac_pad_ctx m1 (i_ctx c1) md 0x36 b = (o2, c2, m2)" by (metis surj_pair)
    obtain o3 c3 m3 where i3: "hmac_pad_ctx m2 (o_ctx c1) md 0x5c b = (o3, c3, m3)" by (metis surj_pair)
    have s1: "startable (i_ctx c1)" "startable (o_ctx c1)" using h s by simp_all
    note p2 = pad_hashing [OF s1(1) b(1) i2, unfolded b(2)] and p3 = pad_hashing [OF s1(2) b(1) i3, unfolded b(2)]
    have g2: "granted m1 \<Longrightarrow> granted m2" using p2(2) granted_next by auto
    have g3: "granted m2 \<Longrightarrow> granted m3" using p3(2) granted_next by auto
    obtain o4 c4 m4 where i4: "EVP_MD_CTX_copy_ex m3 (md_ctx c1) (Some c2) = (o4, c4, m4)" by (metis surj_pair)
    show ?thesis
    proof (cases "o2 \<and> o3")
      case False
      then have "usable ctx'" using I k(1) kb Some i2 i3 p2 p3 h(4) s1 hashing_startable
        by (auto simp: usable_def split: if_splits)
      moreover have "\<not> ok" "\<not> granted mem" using False I k(1) kb Some i2 i3 p2(1) p3(1) g1 g2 granted_next
        by (auto split: if_splits)
      ultimately show ?thesis by simp
    next
      case True
      then have hs: "hashing (?P 0x36) c2" "hashing (?P 0x5c) c3" using p2(1) p3(1) by simp_all
      have c: "if o4 then hashing (?P 0x36) c4 else c4 = md_ctx c1 \<and> \<not> fst (mem_next m3)"
        using copy_hashing(1) [OF hs(1) i4] .
      have r: "ctx' = c1\<lparr>i_ctx := c2, o_ctx := c3, hmac_md := Some md, md_ctx := c4\<rparr>" "ok = o4"
        using I k(1) kb Some i2 i3 i4 True by auto
      show ?thesis
        using r c hs h(4) hashing_startable hashing_digest g1 g2 g3 granted_next
        by (auto simp: authenticating_def keyed_def usable_def)
    qed
  qed
qed

text \<open>Without a key, and with no other method, the message is started again under the same key.\<close>

lemma rewind_authenticating:
  assumes "keyed K ctx" "m \<in> {None, Some md}"
  shows "\<exists>ctx'. HMAC_Init_ex mem ctx None m = (True, ctx', mem) \<and> authenticating K [] ctx'"
proof -
  have k: "hmac_md ctx = Some md" "hashing (map (\<lambda>b. b XOR 0x36) (rfc2104_key (block_size md) H K)) (i_ctx ctx)"
    "digest (md_ctx ctx) = Some md" using assms(1) by (simp_all add: keyed_def)
  obtain ok c mem' where i: "EVP_MD_CTX_copy_ex mem (md_ctx ctx) (Some (i_ctx ctx)) = (ok, c, mem')" by (metis surj_pair)
  from copy_hashing [OF k(2) i] k(3) have
    "ok" "mem' = mem" "hashing (map (\<lambda>b. b XOR 0x36) (rfc2104_key (block_size md) H K)) c" by simp_all
  then show ?thesis
    using assms k i hashing_startable hashing_digest
    by (auto simp: HMAC_Init_ex_def same_digest_def authenticating_def keyed_def)
qed

lemma update_authenticating:
  assumes "authenticating K m ctx" "length d < 2 ^ 64"
  shows "\<exists>ctx'. HMAC_Update d ctx = (True, ctx') \<and> authenticating K (m @ d) ctx'"
proof -
  have "hashing (map (\<lambda>b. b XOR 0x36) (rfc2104_key (block_size md) H K) @ m) (md_ctx ctx)"
    using assms(1) by (simp add: authenticating_def)
  from update_hashing [OF this assms(2)] obtain c where
    "EVP_DigestUpdate d (md_ctx ctx) = (True, c)"
    "hashing ((map (\<lambda>b. b XOR 0x36) (rfc2104_key (block_size md) H K) @ m) @ d) c"
    by blast
  then show ?thesis
    using assms(1) hashing_startable hashing_digest
    by (auto simp: HMAC_Update_def authenticating_def keyed_def)
qed

text \<open>The end of a message never fails, and leaves the key in place.\<close>

lemma final_authenticating:
  assumes "authenticating K m ctx"
  shows "\<exists>ctx'. HMAC_Final mem ctx = ((True, rfc2104 (block_size md) H K m, md_size md), ctx', mem) \<and> keyed K ctx'"
proof -
  let ?P = "\<lambda>b. map (\<lambda>x. x XOR b) (rfc2104_key (block_size md) H K)"
  have k: "keyed K ctx" "hashing (?P 0x36 @ m) (md_ctx ctx)" "hashing (?P 0x5c) (o_ctx ctx)"
    using assms by (simp_all add: authenticating_def keyed_def)
  from final_hashing [OF k(2)] obtain c1 where
    f: "EVP_DigestFinal_ex (md_ctx ctx) = ((True, H (?P 0x36 @ m), md_size md), c1)" "digest c1 = Some md" by blast
  obtain ok c2 mem' where i: "EVP_MD_CTX_copy_ex mem c1 (Some (o_ctx ctx)) = (ok, c2, mem')" by (metis surj_pair)
  from copy_hashing [OF k(3) i] f(2) have c2: "ok" "mem' = mem" "hashing (?P 0x5c) c2" by simp_all
  have "length (H (?P 0x36 @ m)) < 2 ^ 64" using length_H sizes by (simp add: EVP_MAX_MD_SIZE_def)
  from update_hashing [OF c2(3) this] obtain c3 where
    u: "EVP_DigestUpdate (H (?P 0x36 @ m)) c2 = (True, c3)" "hashing (?P 0x5c @ H (?P 0x36 @ m)) c3" by blast
  from final_hashing [OF u(2)] obtain c4 where
    "EVP_DigestFinal_ex c3 = ((True, H (?P 0x5c @ H (?P 0x36 @ m)), md_size md), c4)" "startable c4" "digest c4 = Some md"
    by blast
  then show ?thesis
    using k(1) f i c2 u(1) length_H by (auto simp: HMAC_Final_def rfc2104_def keyed_def)
qed

lemma updates_authenticating:
  assumes "authenticating K m ctx" "\<forall>d\<in>set ds. length d < 2 ^ 64"
  shows "authenticating K (m @ concat ds) (fold (\<lambda>d c. snd (HMAC_Update d c)) ds ctx)"
  using assms
proof (induction ds arbitrary: m ctx)
  case (Cons d ds)
  then obtain ctx' where "HMAC_Update d ctx = (True, ctx')" "authenticating K (m @ d) ctx'"
    using update_authenticating [of K m ctx d] by auto
  with Cons.IH [of "m @ d" ctx'] Cons.prems(2) show ?case by simp
qed simp

lemma hmac_pieces:
  assumes "HMAC_Init_ex mem HMAC_CTX_init (Some K) (Some md) = (True, ctx, mem')"
    and "length K < 2 ^ 64" "\<forall>d\<in>set ds. length d < 2 ^ 64"
  shows "fst (HMAC_Final mem' (fold (\<lambda>d c. snd (HMAC_Update d c)) ds ctx)) =
    (True, rfc2104 (block_size md) H K (concat ds), md_size md)"
proof -
  have "authenticating K [] ctx"
    using init_authenticating [OF usable_init _ _ refl _ assms(1)] assms(2) by simp
  from final_authenticating [OF updates_authenticating [OF this assms(3)], of mem'] show ?thesis by auto
qed

text \<open>Refused memory is the only reason for the one-shot function to fail.  No key is the empty key.\<close>

lemma hmac_once:
  assumes "K = (case key of None \<Rightarrow> [] | Some k \<Rightarrow> k)" "length K < 2 ^ 64" "length m < 2 ^ 64"
  shows "fst (HMAC mem md key m) \<in> {None, Some (rfc2104 (block_size md) H K m, md_size md)}"
    and "granted mem \<Longrightarrow> fst (HMAC mem md key m) \<noteq> None"
proof -
  obtain ok ctx mem' where i: "HMAC_Init_ex mem HMAC_CTX_init key (Some md) = (ok, ctx, mem')" by (metis surj_pair)
  have "\<not> same_digest (Some md) (hmac_md HMAC_CTX_init)" by (simp add: same_digest_def HMAC_CTX_init_def)
  then have a: "if ok then authenticating K [] ctx else \<not> granted mem"
    using init_authenticating [OF usable_init _ _ assms(1,2) i] by (auto split: if_splits)
  have "if ok then fst (HMAC mem md key m) = Some (rfc2104 (block_size md) H K m, md_size md)
    else fst (HMAC mem md key m) = None"
  proof (cases ok)
    case True
    then obtain c where u: "HMAC_Update m ctx = (True, c)" "authenticating K m c"
      using update_authenticating [of K "[]" ctx m] a assms(3) by auto
    from final_authenticating [OF u(2), of mem'] obtain c' where
      "HMAC_Final mem' c = ((True, rfc2104 (block_size md) H K m, md_size md), c', mem')" by blast
    then show ?thesis using True i u(1) by (simp add: HMAC_def)
  next
    case False
    then show ?thesis using i by (simp add: HMAC_def)
  qed
  then show "fst (HMAC mem md key m) \<in> {None, Some (rfc2104 (block_size md) H K m, md_size md)}"
    "granted mem \<Longrightarrow> fst (HMAC mem md key m) \<noteq> None"
    using a by (auto split: if_splits)
qed

text \<open>A copy is a context in the middle of the same message under the same key.\<close>

lemma copy_authenticating:
  assumes a: "authenticating K m src" and c: "HMAC_CTX_copy_ex mem dest src = (ok, dest', mem')"
  shows "if ok then authenticating K m dest' else \<not> granted mem"
proof -
  let ?P = "\<lambda>b. map (\<lambda>x. x XOR b) (rfc2104_key (block_size md) H K)"
  have s: "hashing (?P 0x36) (i_ctx src)" "hashing (?P 0x5c) (o_ctx src)" "hashing (?P 0x36 @ m) (md_ctx src)"
    "hmac_md src = Some md" using a by (simp_all add: authenticating_def keyed_def)
  obtain o1 c1 m1 where i1: "EVP_MD_CTX_copy_ex mem (i_ctx dest) (Some (i_ctx src)) = (o1, c1, m1)" by (metis surj_pair)
  obtain o2 c2 m2 where i2: "EVP_MD_CTX_copy_ex m1 (o_ctx dest) (Some (o_ctx src)) = (o2, c2, m2)" by (metis surj_pair)
  obtain o3 c3 m3 where i3: "EVP_MD_CTX_copy_ex m2 (md_ctx dest) (Some (md_ctx src)) = (o3, c3, m3)" by (metis surj_pair)
  note c1 = copy_hashing(1) [OF s(1) i1] and c2 = copy_hashing(1) [OF s(2) i2] and c3 = copy_hashing(1) [OF s(3) i3]
  note g = granted_evp(2) [OF i1] granted_evp(2) [OF i2] granted_evp(2) [OF i3]
  have "\<not> granted mem" if "\<not> (o1 \<and> o2 \<and> o3)"
    using that c1 c2 c3 g(1,2) granted_next by (auto split: if_splits)
  moreover have "ok \<longleftrightarrow> o1 \<and> o2 \<and> o3" "ok \<Longrightarrow> dest' = dest\<lparr>i_ctx := c1, o_ctx := c2, md_ctx := c3, hmac_md := Some md\<rparr>"
    using c i1 i2 i3 s(4) by (auto simp: HMAC_CTX_copy_ex_def Let_def split: if_splits)
  ultimately show ?thesis
    using c1 c2 c3 hashing_startable hashing_digest by (auto simp: authenticating_def keyed_def)
qed

end

section \<open>Properties\<close>

text \<open>The updates of a message given in pieces.\<close>

definition hmac_updates :: "u8 list list \<Rightarrow> HMAC_CTX \<Rightarrow> HMAC_CTX" where
  "hmac_updates ds ctx = fold (\<lambda>d c. snd (HMAC_Update d c)) ds ctx"

lemma hmac_run:
  assumes "evp_digest md H" "evp_digest.authenticating md H K [] ctx" "\<forall>d\<in>set ds. length d < 2 ^ 64"
  shows "\<exists>ctx'. HMAC_Final mem (hmac_updates ds ctx) = ((True, rfc2104 (block_size md) H K (concat ds), md_size md), ctx', mem) \<and>
    evp_digest.keyed md H K ctx'"
  using evp_digest.final_authenticating [OF assms(1) evp_digest.updates_authenticating [OF assms]]
  by (simp add: hmac_updates_def)

text \<open>
  C24.  With every method of the table, HMAC over a message given in pieces is the value of RFC 2104 for
  the whole message, whether the key is shorter or longer than a block.  The set-up fails only when
  an allocation is refused; nothing after it fails.\<close>

theorem hmac_is_rfc2104:
  assumes "(md, H) \<in> set evp_methods" "length K < 2 ^ 64" "\<forall>d\<in>set ds. length d < 2 ^ 64"
    and "HMAC_Init_ex mem HMAC_CTX_init (Some K) (Some md) = (ok, ctx, mem')"
  shows "if ok then fst (HMAC_Final mem' (hmac_updates ds ctx)) = (True, rfc2104 (block_size md) H K (concat ds), md_size md)
    else \<not> granted mem"
proof -
  note md = methods_keep_contract [OF assms(1)]
  show ?thesis
    using evp_digest.init_authenticating [OF md evp_digest.usable_init [OF md] _ _ refl _ assms(4)] assms(2)
      hmac_run [OF md _ assms(3), of K ctx mem']
    by (auto split: if_splits)
qed

theorem hmac_is_rfc2104_witness:
  "\<exists>ctx mem. HMAC_Init_ex [] HMAC_CTX_init (Some [1, 2]) (Some EVP_sha256) = (True, ctx, mem) \<and>
    fst (HMAC_Final mem (hmac_updates [[3], [4, 5]] ctx)) =
      (True, rfc2104 64 (fips_sha256 (md_h SHA256_Init) 32) [1, 2] [3, 4, 5], 32)"
proof -
  obtain ok ctx mem where i: "HMAC_Init_ex [] HMAC_CTX_init (Some [1, 2]) (Some EVP_sha256) = (ok, ctx, mem)" by (metis surj_pair)
  from hmac_is_rfc2104 [OF in_methods(1) _ _ i, of "[[3], [4, 5]]"] i show ?thesis
    by (auto simp: EVP_sha256_def SHA256_DIGEST_LENGTH_def split: if_splits)
qed

text \<open>
  The key stays in the context: after the value of one message has been taken, setting the context
  up with neither key nor method succeeds without any allocation and starts the next message under
  the same key.\<close>

theorem hmac_keeps_key:
  assumes "(md, H) \<in> set evp_methods" "length K < 2 ^ 64" "\<forall>d\<in>set ds. length d < 2 ^ 64" "\<forall>d\<in>set es. length d < 2 ^ 64"
    and "HMAC_Init_ex mem HMAC_CTX_init (Some K) (Some md) = (True, ctx, mem')"
    and "HMAC_Final mem' (hmac_updates ds ctx) = (r, ctx2, mem2)"
  shows "\<exists>ctx3. HMAC_Init_ex mem2 ctx2 None None = (True, ctx3, mem2) \<and>
    fst (HMAC_Final mem2 (hmac_updates es ctx3)) = (True, rfc2104 (block_size md) H K (concat es), md_size md)"
proof -
  note md = methods_keep_contract [OF assms(1)]
  have "evp_digest.authenticating md H K [] ctx"
    using evp_digest.init_authenticating [OF md evp_digest.usable_init [OF md] _ _ refl _ assms(5)] assms(2) by simp
  from hmac_run [OF md this assms(3), of mem'] assms(6) have "evp_digest.keyed md H K ctx2" by auto
  from evp_digest.rewind_authenticating [OF md this, of None mem2] obtain ctx3 where
    "HMAC_Init_ex mem2 ctx2 None None = (True, ctx3, mem2)" "evp_digest.authenticating md H K [] ctx3" by auto
  with hmac_run [OF md this(2) assms(4), of mem2] show ?thesis by auto
qed

end
