(* ===== verification/Hkdf.thy ===== *)
theory Hkdf
  imports Hmac
begin

text \<open>
  HKDF (\<open>crypto/hkdf/hkdf.c\<close>) over the HMAC of \<open>Hmac\<close>, and RFC 5869, which it computes with
  every method that keeps the contract \<open>evp_digest\<close>.
\<close>

section \<open>The code\<close>

text \<open>The bytes written to \<open>out_key\<close> with \<open>out_len\<close>, or \<open>None\<close> for a zero return.\<close>

definition HKDF_extract ::
    "bool list \<Rightarrow> EVP_MD \<Rightarrow> u8 list \<Rightarrow> u8 list option \<Rightarrow> (u8 list \<times> nat) option \<times> bool list" where
  "HKDF_extract mem md secret salt = HMAC mem md salt secret"

text \<open>
  One pass of the loop for \<open>i\<close> after \<open>out\<close> has been written: the flag, the output, the bytes in
  \<open>previous\<close> and the context.
\<close>

definition hkdf_pass ::
    "nat \<Rightarrow> nat \<Rightarrow> u8 list \<Rightarrow> nat \<Rightarrow> u8 list \<Rightarrow> u8 list \<Rightarrow> HMAC_CTX \<Rightarrow> bool list \<Rightarrow>
     bool \<times> u8 list \<times> u8 list \<times> HMAC_CTX \<times> bool list" where
  "hkdf_pass digest_len out_len info i out previous hmac mem =
     (let ctr = of_nat (i + 1);
          (ok, hmac, mem) =
            (if i \<noteq> 0 then
               let (ok, hmac, mem) = HMAC_Init_ex mem hmac None None
               in if \<not> ok then (False, hmac, mem)
                  else
                    let (ok, hmac) = HMAC_Update (take digest_len previous) hmac
                    in (ok, hmac, mem)
             else (True, hmac, mem))
      in if \<not> ok then (False, out, previous, hmac, mem)
         else
           let (ok, hmac) = HMAC_Update info hmac
           in if \<not> ok then (False, out, previous, hmac, mem)
              else
                let (ok, hmac) = HMAC_Update [ctr] hmac
                in if \<not> ok then (False, out, previous, hmac, mem)
                   else
                     let ((ok, mac, _), hmac, mem) = HMAC_Final mem hmac
                     in if \<not> ok then (False, out, mac, hmac, mem)
                        else
                          let todo = digest_len;
                              todo = (if out_len < length out + todo then out_len - length out else todo)
                          in (True, out @ take todo mac, mac, hmac, mem))"

function hkdf_loop ::
    "nat \<Rightarrow> nat \<Rightarrow> u8 list \<Rightarrow> nat \<Rightarrow> nat \<Rightarrow> u8 list \<Rightarrow> u8 list \<Rightarrow> HMAC_CTX \<Rightarrow> bool list \<Rightarrow> bool \<times> u8 list \<times> bool list" where
  "hkdf_loop digest_len out_len info n i out previous hmac mem =
     (if i < n then
        let (ok, out, previous, hmac, mem) = hkdf_pass digest_len out_len info i out previous hmac mem
        in if \<not> ok then (False, out, mem)
           else hkdf_loop digest_len out_len info n (i + 1) out previous hmac mem
      else (True, out, mem))"
  by pat_completeness auto
termination by (relation "measure (\<lambda>(_, _, _, n, i, _). n - i)") auto

declare hkdf_loop.simps [simp del]

text \<open>The flag and the bytes written to \<open>out_key\<close>.  The sums are \<open>size_t\<close> sums.\<close>

definition HKDF_expand ::
    "bool list \<Rightarrow> nat \<Rightarrow> EVP_MD \<Rightarrow> u8 list \<Rightarrow> u8 list \<Rightarrow> bool \<times> u8 list \<times> bool list" where
  "HKDF_expand mem out_len md prk info =
     (let digest_len = md_size md;
          n = size_sub (size_add out_len digest_len) 1 div digest_len
      in if size_add out_len digest_len < out_len \<or> 255 < n then (False, [], mem)
         else
           let hmac = HMAC_CTX_init;
               (ok, hmac, mem) = HMAC_Init_ex mem hmac (Some prk) (Some md)
           in if \<not> ok then (False, [], mem)
              else hkdf_loop digest_len out_len info n 0 [] [] hmac mem)"

definition HKDF ::
    "bool list \<Rightarrow> nat \<Rightarrow> EVP_MD \<Rightarrow> u8 list \<Rightarrow> u8 list option \<Rightarrow> u8 list \<Rightarrow> bool \<times> u8 list \<times> bool list" where
  "HKDF mem out_len md secret salt info =
     (case HKDF_extract mem md secret salt of
        (None, mem) \<Rightarrow> (False, [], mem)
      | (Some (prk, prk_len), mem) \<Rightarrow> HKDF_expand mem out_len md (take prk_len prk) info)"

section \<open>RFC 5869\<close>

fun rfc5869_T :: "(u8 list \<Rightarrow> u8 list) \<Rightarrow> u8 list \<Rightarrow> nat \<Rightarrow> u8 list" where
  "rfc5869_T mac info 0 = []"
| "rfc5869_T mac info (Suc n) = mac (rfc5869_T mac info n @ info @ [of_nat (Suc n)])"

definition rfc5869_stream :: "(u8 list \<Rightarrow> u8 list) \<Rightarrow> u8 list \<Rightarrow> nat \<Rightarrow> u8 list" where
  "rfc5869_stream mac info N = concat (map (rfc5869_T mac info) [1..<Suc N])"

definition rfc5869_expand :: "nat \<Rightarrow> (u8 list \<Rightarrow> u8 list) \<Rightarrow> u8 list \<Rightarrow> nat \<Rightarrow> u8 list" where
  "rfc5869_expand hash_len mac info L = take L (rfc5869_stream mac info ((L + hash_len - 1) div hash_len))"

definition rfc5869 :: "nat \<Rightarrow> nat \<Rightarrow> (u8 list \<Rightarrow> u8 list) \<Rightarrow> u8 list \<Rightarrow> u8 list \<Rightarrow> u8 list \<Rightarrow> nat \<Rightarrow> u8 list" where
  "rfc5869 B hash_len H salt ikm info L =
     rfc5869_expand hash_len (rfc2104 B H (rfc2104 B H salt ikm)) info L"

lemma rfc5869_stream_Suc:
  "rfc5869_stream mac info (Suc n) = rfc5869_stream mac info n @ rfc5869_T mac info (Suc n)"
  by (simp add: rfc5869_stream_def)

lemma rfc5869_stream_0 [simp]: "rfc5869_stream mac info 0 = []"
  by (simp add: rfc5869_stream_def)

section \<open>The code computes RFC 5869\<close>

context evp_digest
begin

lemma hkdf_pass_eq:
  fixes K info
  defines "T \<equiv> rfc5869_T (rfc2104 (block_size md) H K) info"
  assumes "if i = 0 then authenticating K [] hmac else keyed K hmac" "previous = T i" "length info < 2 ^ 64"
    "length out \<le> L"
  shows "\<exists>hmac'. hkdf_pass (md_size md) L info i out previous hmac mem =
    (True, out @ take (L - length out) (T (Suc i)), T (Suc i), hmac', mem) \<and> keyed K hmac'"
proof -
  have len: "length (T (Suc i)) = md_size md" for i by (simp add: T_def)
  obtain h0 where h0: "authenticating K (T i) h0"
    "(if i \<noteq> 0 then
        let (ok, hmac, mem) = HMAC_Init_ex mem hmac None None
        in if \<not> ok then (False, hmac, mem)
           else let (ok, hmac) = HMAC_Update (take (md_size md) previous) hmac in (ok, hmac, mem)
      else (True, hmac, mem)) = (True, h0, mem)"
  proof (cases "i = 0")
    case True
    then show ?thesis using assms that [of hmac] by (simp add: T_def)
  next
    case False
    then obtain h where h: "HMAC_Init_ex mem hmac None None = (True, h, mem)" "authenticating K [] h"
      using rewind_authenticating [of K hmac None mem] assms by auto
    have p: "length previous = md_size md" using False len [of "i - 1"] assms(3) by simp
    then have "length previous < 2 ^ 64" using sizes by (simp add: EVP_MAX_MD_SIZE_def)
    from update_authenticating [OF h(2) this] obtain h' where "HMAC_Update previous h = (True, h')" "authenticating K previous h'"
      by auto
    then show ?thesis using that [of h'] False h p assms(3) by simp
  qed
  from update_authenticating [OF h0(1) assms(4)] obtain h1 where
    h1: "HMAC_Update info h0 = (True, h1)" "authenticating K (T i @ info) h1" by blast
  from update_authenticating [OF h1(2), of "[of_nat (i + 1)]"] obtain h2 where
    h2: "HMAC_Update [of_nat (i + 1)] h1 = (True, h2)" "authenticating K ((T i @ info) @ [of_nat (i + 1)]) h2" by auto
  from final_authenticating [OF h2(2), of mem] obtain h3 where
    h3: "HMAC_Final mem h2 = ((True, T (Suc i), md_size md), h3, mem)" "keyed K h3"
    by (auto simp: T_def)
  show ?thesis
    unfolding hkdf_pass_def Let_def h0(2)[unfolded Let_def]
    using h1(1) h2(1) h3 len assms(5) by (simp add: not_less)
qed

lemma hkdf_loop_eq:
  fixes K info
  defines "mac \<equiv> rfc2104 (block_size md) H K"
  assumes "length info < 2 ^ 64" "i \<le> n" "if i = 0 then authenticating K [] hmac else keyed K hmac"
    "previous = rfc5869_T mac info i" "out = take L (rfc5869_stream mac info i)"
  shows "hkdf_loop (md_size md) L info n i out previous hmac mem = (True, take L (rfc5869_stream mac info n), mem)"
  using assms(3-)
proof (induction "n - i" arbitrary: i hmac previous out)
  case 0
  then show ?case by (simp add: hkdf_loop.simps)
next
  case (Suc k)
  let ?T = "rfc5869_T mac info (Suc i)"
  have "out @ take (L - length out) ?T = take L (rfc5869_stream mac info (Suc i))"
    using Suc.prems(4) by (simp add: rfc5869_stream_Suc min_def)
  moreover have "length out \<le> L" using Suc.prems(4) by simp
  ultimately obtain hmac' where p: "hkdf_pass (md_size md) L info i out previous hmac mem =
      (True, take L (rfc5869_stream mac info (Suc i)), ?T, hmac', mem)" "keyed K hmac'"
    using hkdf_pass_eq [of i K hmac previous info out L mem] Suc.prems assms(2) by (auto simp: mac_def)
  have "hkdf_loop (md_size md) L info n (Suc i) (take L (rfc5869_stream mac info (Suc i))) ?T hmac' mem =
      (True, take L (rfc5869_stream mac info n), mem)"
    using Suc.hyps p(2) by (intro Suc.hyps(1)) auto
  with p(1) Suc.hyps(2) show ?case by (subst hkdf_loop.simps) auto
qed

text \<open>
  Expansion succeeds for up to 255 blocks, given the memory; it fails otherwise, before anything is
  written.
\<close>

lemma hkdf_expand:
  assumes "length prk < 2 ^ 64" "length info < 2 ^ 64" "L < 2 ^ 64"
  shows "fst (HKDF_expand mem L md prk info) \<longleftrightarrow>
      L \<le> 255 * md_size md \<and> fst (HMAC_Init_ex mem HMAC_CTX_init (Some prk) (Some md))"
    and "fst (snd (HKDF_expand mem L md prk info)) =
      (if fst (HKDF_expand mem L md prk info)
       then rfc5869_expand (md_size md) (rfc2104 (block_size md) H prk) info L else [])"
proof -
  let ?d = "md_size md" let ?n = "(L + md_size md - 1) div md_size md"
  have d: "0 < ?d" "?d \<le> 64" using sizes by (simp_all add: EVP_MAX_MD_SIZE_def)
  obtain ok hmac mem' where i: "HMAC_Init_ex mem HMAC_CTX_init (Some prk) (Some md) = (ok, hmac, mem')" by (metis surj_pair)
  have a: "ok \<Longrightarrow> authenticating prk [] hmac"
    using init_authenticating [OF usable_init _ _ refl _ i] assms(1) by simp
  have n: "?n \<le> 255 \<longleftrightarrow> L \<le> 255 * ?d"
  proof -
    have "?n \<le> 255 \<longleftrightarrow> L + ?d - 1 < 256 * ?d" using d by (simp add: less_Suc_eq_le [symmetric] div_less_iff_less_mult)
    then show ?thesis using d by linarith
  qed
  have f: "(size_add L ?d < L \<or> 255 < size_sub (size_add L ?d) 1 div ?d) \<longleftrightarrow> \<not> L \<le> 255 * ?d"
  proof (cases "L + ?d < 2 ^ 64")
    case True
    then have "size_sub (size_add L ?d) 1 = L + ?d - 1" "\<not> size_add L ?d < L"
      using d(1) by (simp_all only: size_add_exact size_sub_exact)
    then show ?thesis using n by auto
  next
    case False
    then show ?thesis using d assms(3) size_add_less_iff [of L ?d] by simp
  qed
  have s: "size_sub (size_add L ?d) 1 div ?d = ?n" if "L \<le> 255 * ?d"
    using that d by (simp add: size_add_exact size_sub_exact)
  have e: "HKDF_expand mem L md prk info =
    (if L \<le> 255 * ?d \<and> ok then (True, rfc5869_expand ?d (rfc2104 (block_size md) H prk) info L, mem')
     else (False, [], if L \<le> 255 * ?d then mem' else mem))"
    using f i s a hkdf_loop_eq [OF assms(2), of 0 ?n prk hmac "[]" "[]" L mem']
    by (auto simp: HKDF_expand_def rfc5869_expand_def Let_def)
  show "fst (HKDF_expand mem L md prk info) \<longleftrightarrow>
      L \<le> 255 * md_size md \<and> fst (HMAC_Init_ex mem HMAC_CTX_init (Some prk) (Some md))"
    "fst (snd (HKDF_expand mem L md prk info)) =
      (if fst (HKDF_expand mem L md prk info)
       then rfc5869_expand (md_size md) (rfc2104 (block_size md) H prk) info L else [])"
    by (simp_all add: e i)
qed

text \<open>
  Extraction is one HMAC under the salt; no salt is the empty one.  Too long an output and refused
  memory are the reasons to fail.
\<close>

lemma hkdf:
  assumes "K = (case salt of None \<Rightarrow> [] | Some s \<Rightarrow> s)" "length K < 2 ^ 64" "length ikm < 2 ^ 64"
    "length info < 2 ^ 64" "L < 2 ^ 64"
  shows "fst (HKDF mem L md ikm salt info) \<Longrightarrow>
      L \<le> 255 * md_size md \<and> fst (snd (HKDF mem L md ikm salt info)) = rfc5869 (block_size md) (md_size md) H K ikm info L"
    and "\<not> fst (HKDF mem L md ikm salt info) \<Longrightarrow> fst (snd (HKDF mem L md ikm salt info)) = []"
    and "granted mem \<Longrightarrow> L \<le> 255 * md_size md \<Longrightarrow> fst (HKDF mem L md ikm salt info)"
proof -
  let ?r = "HKDF mem L md ikm salt info"
  let ?prk = "rfc2104 (block_size md) H K ikm"
  have prk: "length ?prk < 2 ^ 64" using sizes by (simp add: EVP_MAX_MD_SIZE_def)
  obtain r mem' where x: "HMAC mem md salt ikm = (r, mem')" by (metis surj_pair)
  have r: "r = None \<and> \<not> granted mem \<or> r = Some (?prk, md_size md)"
    using hmac_once [OF assms(1-3), of mem] x by auto
  obtain ok h m where i: "HMAC_Init_ex mem' HMAC_CTX_init (Some ?prk) (Some md) = (ok, h, m)" by (metis surj_pair)
  have g: "granted mem \<Longrightarrow> ok"
    using init_authenticating [OF usable_init _ _ refl _ i] prk granted_HMAC [OF x] by (auto split: if_splits)
  obtain ok' out m' where e: "HKDF_expand mem' L md ?prk info = (ok', out, m')" by (metis surj_pair)
  have "ok' \<longleftrightarrow> L \<le> 255 * md_size md \<and> ok" "out = (if ok' then rfc5869 (block_size md) (md_size md) H K ikm info L else [])"
    using hkdf_expand [OF prk assms(4,5), of mem'] e i by (simp_all add: rfc5869_def)
  moreover have "?r = (if r = None then (False, [], mem') else (ok', out, m'))"
    using x r e by (auto simp: HKDF_def HKDF_extract_def)
  ultimately show "fst ?r \<Longrightarrow> L \<le> 255 * md_size md \<and> fst (snd ?r) = rfc5869 (block_size md) (md_size md) H K ikm info L"
    "\<not> fst ?r \<Longrightarrow> fst (snd ?r) = []" "granted mem \<Longrightarrow> L \<le> 255 * md_size md \<Longrightarrow> fst ?r"
    using r g by (auto split: if_splits)
qed

end

section \<open>Properties\<close>

text \<open>
  C25.  With every method of the table, HKDF derives the key of RFC 5869: for up to 255 blocks of output it
  fails only when an allocation is refused, for more it always fails, and a failed call has written
  nothing.\<close>

theorem hkdf_is_rfc5869:
  assumes "(md, H) \<in> set evp_methods" "length s < 2 ^ 64" "length ikm < 2 ^ 64" "length info < 2 ^ 64" "L < 2 ^ 64"
    and "HKDF mem L md ikm (Some s) info = (ok, out, mem')"
  shows "if ok then L \<le> 255 * md_size md \<and> out = rfc5869 (block_size md) (md_size md) H s ikm info L
    else out = [] \<and> (255 * md_size md < L \<or> \<not> granted mem)"
  using evp_digest.hkdf [OF methods_keep_contract [OF assms(1)] _ assms(2-5), of "Some s" mem] assms(6)
  by (auto simp: not_le)

theorem hkdf_is_rfc5869_witness:
  "fst (snd (HKDF [] 40 EVP_sha256 [1] (Some [2]) [3])) = rfc5869 64 32 (fips_sha256 (md_h SHA256_Init) 32) [2] [1] [3] 40 \<and>
   \<not> fst (HKDF [] 8161 EVP_sha256 [1] (Some [2]) [3])"
proof -
  obtain ok out mem where h: "HKDF [] 40 EVP_sha256 [1] (Some [2]) [3] = (ok, out, mem)" by (metis surj_pair)
  obtain ok2 out2 mem2 where h2: "HKDF [] 8161 EVP_sha256 [1] (Some [2]) [3] = (ok2, out2, mem2)" by (metis surj_pair)
  show ?thesis
    using hkdf_is_rfc5869 [OF in_methods(1) _ _ _ _ h] hkdf_is_rfc5869 [OF in_methods(1) _ _ _ _ h2] h h2
    by (auto simp: EVP_sha256_def SHA256_DIGEST_LENGTH_def split: if_splits)
qed

end
