(* ===== verification/Pbkdf.thy ===== *)
theory Pbkdf
  imports Hmac
begin

unbundle bit_operations_syntax

text \<open>
  PBKDF2 (\<open>crypto/evp/pbkdf.c\<close>) over the HMAC of \<open>Hmac\<close>, and section 5.2 of RFC 8018, which it
  computes with every method that keeps the contract \<open>evp_digest\<close>.
\<close>

section \<open>The code\<close>

text \<open>\<open>U_1\<close> of the block \<open>i\<close> and \<open>U_{j+1}\<close> of \<open>U_j\<close>: the flag, \<open>digest_tmp\<close>, the context.\<close>

definition pbkdf2_first ::
    "bool list \<Rightarrow> HMAC_CTX \<Rightarrow> u8 list \<Rightarrow> u32 \<Rightarrow> (bool \<times> u8 list) \<times> HMAC_CTX \<times> bool list" where
  "pbkdf2_first mem hctx salt i =
     (let i_buf = [ucast (drop_bit 24 i AND 0xff), ucast (drop_bit 16 i AND 0xff),
                   ucast (drop_bit 8 i AND 0xff), ucast (i AND 0xff)];
          (ok, hctx, mem) = HMAC_Init_ex mem hctx None None
      in if \<not> ok then ((False, []), hctx, mem)
         else
           let (ok, hctx) = HMAC_Update salt hctx
           in if \<not> ok then ((False, []), hctx, mem)
              else
                let (ok, hctx) = HMAC_Update i_buf hctx
                in if \<not> ok then ((False, []), hctx, mem)
                   else
                     let ((ok, digest_tmp, _), hctx, mem) = HMAC_Final mem hctx
                     in ((ok, digest_tmp), hctx, mem))"

definition pbkdf2_next ::
    "bool list \<Rightarrow> HMAC_CTX \<Rightarrow> nat \<Rightarrow> u8 list \<Rightarrow> (bool \<times> u8 list) \<times> HMAC_CTX \<times> bool list" where
  "pbkdf2_next mem hctx md_length digest_tmp =
     (let (ok, hctx, mem) = HMAC_Init_ex mem hctx None None
      in if \<not> ok then ((False, digest_tmp), hctx, mem)
         else
           let (ok, hctx) = HMAC_Update (take md_length digest_tmp) hctx
           in if \<not> ok then ((False, digest_tmp), hctx, mem)
              else
                let ((ok, digest_tmp, _), hctx, mem) = HMAC_Final mem hctx
                in ((ok, digest_tmp), hctx, mem))"

text \<open>The loop over \<open>j\<close>, with the \<open>todo\<close> bytes of \<open>out_key\<close> that belong to the block.\<close>

function pbkdf2_rounds ::
    "nat \<Rightarrow> nat \<Rightarrow> nat \<Rightarrow> bool list \<Rightarrow> HMAC_CTX \<Rightarrow> nat \<Rightarrow> u8 list \<Rightarrow> u8 list \<Rightarrow> (bool \<times> u8 list) \<times> HMAC_CTX \<times> bool list" where
  "pbkdf2_rounds j iterations todo mem hctx md_length digest_tmp out =
     (if j < iterations then
        let ((ok, digest_tmp), hctx, mem) = pbkdf2_next mem hctx md_length digest_tmp
        in if \<not> ok then ((False, out), hctx, mem)
           else pbkdf2_rounds (j + 1) iterations todo mem hctx md_length digest_tmp (map2 (XOR) out (take todo digest_tmp))
      else ((True, out), hctx, mem))"
  by pat_completeness auto
termination by (relation "measure (\<lambda>(j, iterations, _). iterations - j)") auto

declare pbkdf2_rounds.simps [simp del]

text \<open>
  The loop over the blocks; it does not end for a digest of no bytes.  \<open>out\<close> is what has been
  written of \<open>out_key\<close>.
\<close>

partial_function (option) pbkdf2_blocks ::
    "u8 list \<Rightarrow> nat \<Rightarrow> nat \<Rightarrow> bool list \<Rightarrow> HMAC_CTX \<Rightarrow> nat \<Rightarrow> u32 \<Rightarrow> u8 list \<Rightarrow> (bool \<times> u8 list \<times> bool list) option" where
  "pbkdf2_blocks salt iterations md_length mem hctx key_len i out =
     (if 0 < key_len then
        (let todo = (if key_len < md_length then key_len else md_length);
             ((ok, digest_tmp), hctx, mem) = pbkdf2_first mem hctx salt i
         in if \<not> ok then Some (False, out, mem)
            else
              (let ((ok, block), hctx, mem) =
                 pbkdf2_rounds 1 iterations todo mem hctx md_length digest_tmp (take todo digest_tmp)
               in if \<not> ok then Some (False, out @ block, mem)
                  else pbkdf2_blocks salt iterations md_length mem hctx (key_len - todo) (i + 1) (out @ block)))
      else Some (iterations \<noteq> 0, out, mem))"

text \<open>The flag and the bytes written to \<open>out_key\<close>.\<close>

definition PKCS5_PBKDF2_HMAC ::
    "bool list \<Rightarrow> u8 list option \<Rightarrow> u8 list \<Rightarrow> nat \<Rightarrow> EVP_MD \<Rightarrow> nat \<Rightarrow> (bool \<times> u8 list \<times> bool list) option" where
  "PKCS5_PBKDF2_HMAC mem password salt iterations md key_len =
     (let md_length = md_size md;
          (ok, hctx, mem) = HMAC_Init_ex mem HMAC_CTX_init password (Some md)
      in if \<not> ok then Some (False, [], mem)
         else pbkdf2_blocks salt iterations md_length mem hctx key_len 1 [])"

definition PKCS5_PBKDF2_HMAC_SHA1 ::
    "bool list \<Rightarrow> u8 list option \<Rightarrow> u8 list \<Rightarrow> nat \<Rightarrow> nat \<Rightarrow> (bool \<times> u8 list \<times> bool list) option" where
  "PKCS5_PBKDF2_HMAC_SHA1 mem password salt iterations key_len =
     PKCS5_PBKDF2_HMAC mem password salt iterations EVP_sha1 key_len"

section \<open>RFC 8018\<close>

text \<open>\<open>INT (i)\<close> has four bytes.\<close>

fun rfc8018_U :: "(u8 list \<Rightarrow> u8 list) \<Rightarrow> u8 list \<Rightarrow> nat \<Rightarrow> nat \<Rightarrow> u8 list" where
  "rfc8018_U mac salt i 0 = []"
| "rfc8018_U mac salt i (Suc 0) = mac (salt @ be_bytes 4 i)"
| "rfc8018_U mac salt i (Suc (Suc j)) = mac (rfc8018_U mac salt i (Suc j))"

definition rfc8018_F :: "(u8 list \<Rightarrow> u8 list) \<Rightarrow> u8 list \<Rightarrow> nat \<Rightarrow> nat \<Rightarrow> u8 list" where
  "rfc8018_F mac salt c i =
     fold (\<lambda>j F. map2 (XOR) F (rfc8018_U mac salt i j)) [2..<c + 1] (rfc8018_U mac salt i 1)"

definition rfc8018_dk :: "nat \<Rightarrow> (u8 list \<Rightarrow> u8 list) \<Rightarrow> u8 list \<Rightarrow> nat \<Rightarrow> nat \<Rightarrow> u8 list" where
  "rfc8018_dk hash_len mac salt c dk_len =
     take dk_len (concat (map (rfc8018_F mac salt c) [1..<(dk_len + hash_len - 1) div hash_len + 1]))"

lemma rfc8018_F_0: "rfc8018_F mac salt 0 = rfc8018_F mac salt 1"
  by (simp add: rfc8018_F_def fun_eq_iff)

lemma rfc8018_U_step: "0 < j \<Longrightarrow> rfc8018_U mac salt i (Suc j) = mac (rfc8018_U mac salt i j)"
  by (cases j) simp_all

lemma rfc8018_U_mod: "rfc8018_U mac salt (i mod 2 ^ 32) j = rfc8018_U mac salt i j"
  by (induction mac salt i j rule: rfc8018_U.induct) (simp_all add: be_bytes_mod)

lemma length_fold_map2: "(\<And>x. x \<in> set xs \<Longrightarrow> length (f x) = length F) \<Longrightarrow> length (fold (\<lambda>x F. map2 g F (f x)) xs F) = length F"
  by (induction xs arbitrary: F) simp_all

lemma length_rfc8018:
  assumes "\<And>m. length (mac m) = n"
  shows "0 < j \<Longrightarrow> length (rfc8018_U mac salt i j) = n" "length (rfc8018_F mac salt c i) = n"
proof -
  show u: "length (rfc8018_U mac salt i j) = n" if "0 < j" for j
    using that assms by (cases "(mac, salt, i, j)" rule: rfc8018_U.cases) simp_all
  show "length (rfc8018_F mac salt c i) = n"
    unfolding rfc8018_F_def by (subst length_fold_map2) (use u assms in auto)
qed

lemma be_bytes_4_word:
  "[ucast (drop_bit 24 i AND 0xff), ucast (drop_bit 16 i AND 0xff), ucast (drop_bit 8 i AND 0xff), ucast (i AND 0xff)]
    = be_bytes 4 (unat (i :: u32))"
  using l2c_be [of i] by (simp add: HOST_l2c_be_def)

section \<open>The code computes RFC 8018\<close>

context evp_digest
begin

lemma pbkdf2_first_eq:
  assumes "keyed K hctx" "length salt < 2 ^ 64"
  shows "\<exists>hctx'. pbkdf2_first mem hctx salt i =
    ((True, rfc8018_U (rfc2104 (block_size md) H K) salt (unat i) 1), hctx', mem) \<and> keyed K hctx'"
proof -
  obtain h0 where h0: "HMAC_Init_ex mem hctx None None = (True, h0, mem)" "authenticating K [] h0"
    using rewind_authenticating [OF assms(1), of None mem] by auto
  obtain h1 where h1: "HMAC_Update salt h0 = (True, h1)" "authenticating K salt h1"
    using update_authenticating [OF h0(2) assms(2)] by auto
  obtain h2 where h2: "HMAC_Update (be_bytes 4 (unat i)) h1 = (True, h2)" "authenticating K (salt @ be_bytes 4 (unat i)) h2"
    using update_authenticating [OF h1(2), of "be_bytes 4 (unat i)"] by auto
  obtain h3 where "HMAC_Final mem h2 =
      ((True, rfc2104 (block_size md) H K (salt @ be_bytes 4 (unat i)), md_size md), h3, mem)" "keyed K h3"
    using final_authenticating [OF h2(2), of mem] by auto
  then show ?thesis
    using h0(1) h1(1) h2(1) by (simp add: pbkdf2_first_def be_bytes_4_word Let_def)
qed

lemma pbkdf2_next_eq:
  assumes "keyed K hctx" "length U = md_size md"
  shows "\<exists>hctx'. pbkdf2_next mem hctx (md_size md) U = ((True, rfc2104 (block_size md) H K U), hctx', mem) \<and> keyed K hctx'"
proof -
  obtain h0 where h0: "HMAC_Init_ex mem hctx None None = (True, h0, mem)" "authenticating K [] h0"
    using rewind_authenticating [OF assms(1), of None mem] by auto
  have "length U < 2 ^ 64" using assms(2) sizes by (simp add: EVP_MAX_MD_SIZE_def)
  then obtain h1 where h1: "HMAC_Update U h0 = (True, h1)" "authenticating K U h1"
    using update_authenticating [OF h0(2), of U] by auto
  obtain h2 where "HMAC_Final mem h1 = ((True, rfc2104 (block_size md) H K U, md_size md), h2, mem)" "keyed K h2"
    using final_authenticating [OF h1(2), of mem] by auto
  then show ?thesis
    using h0(1) h1(1) assms(2) by (simp add: pbkdf2_next_def Let_def)
qed

lemma pbkdf2_rounds_eq:
  fixes K salt i
  defines "U \<equiv> rfc8018_U (rfc2104 (block_size md) H K) salt i"
  assumes "keyed K hctx" "0 < j"
  shows "\<exists>hctx'. pbkdf2_rounds j c todo mem hctx (md_size md) (U j) out =
    ((True, fold (\<lambda>j F. map2 (XOR) F (take todo (U j))) [j + 1..<c + 1] out), hctx', mem) \<and> keyed K hctx'"
  using assms(2,3)
proof (induction "c - j" arbitrary: j hctx out)
  case 0
  then show ?case by (auto simp: pbkdf2_rounds.simps)
next
  case (Suc n)
  have "length (U j) = md_size md" using Suc.prems(2) by (simp add: U_def length_rfc8018)
  then obtain h where h: "pbkdf2_next mem hctx (md_size md) (U j) = ((True, U (Suc j)), h, mem)" "keyed K h"
    using pbkdf2_next_eq [OF Suc.prems(1), of "U j" mem] Suc.prems(2) by (auto simp: U_def rfc8018_U_step)
  have j: "j < c" "[Suc j..<Suc c] = Suc j # [Suc (Suc j)..<Suc c]"
    using Suc.hyps(2) by (simp_all add: upt_conv_Cons del: upt_Suc)
  obtain h' where "pbkdf2_rounds (Suc j) c todo mem h (md_size md) (U (Suc j)) (map2 (XOR) out (take todo (U (Suc j)))) =
      ((True, fold (\<lambda>j F. map2 (XOR) F (take todo (U j))) [Suc j + 1..<c + 1] (map2 (XOR) out (take todo (U (Suc j))))), h', mem)"
    "keyed K h'"
    using Suc.hyps(1) [OF _ h(2) zero_less_Suc] Suc.hyps(2) by (metis diff_Suc diff_Suc_Suc nat.case(2) diff_Suc_1')
  then show ?case
    using h(1) by (subst pbkdf2_rounds.simps) (simp add: j del: upt_Suc)
qed

lemma take_fold_xor:
  "take n (fold (\<lambda>j F. map2 (XOR) F (U j)) js F) = fold (\<lambda>j F. map2 (XOR) F (take n (U j))) js (take n (F :: u8 list))"
  by (induction js arbitrary: F) (simp_all add: take_map take_zip)

lemma pbkdf2_blocks_eq:
  fixes K salt c
  defines "F \<equiv> rfc8018_F (rfc2104 (block_size md) H K) salt c"
  assumes "keyed K hctx" "length salt < 2 ^ 64" "0 < n"
  shows "pbkdf2_blocks salt c (md_size md) mem hctx L (of_nat n) out =
    Some (c \<noteq> 0, out @ take L (concat (map F [n..<n + (L + md_size md - 1) div md_size md])), mem)"
  using assms(2,4)
proof (induction L arbitrary: n hctx out rule: less_induct)
  case (less L)
  let ?d = "md_size md" let ?mac = "rfc2104 (block_size md) H K" let ?t = "min L (md_size md)"
  have d: "0 < ?d" using sizes by simp
  have F: "length (F i) = ?d" for i by (simp add: F_def length_rfc8018)
  show ?case
  proof (cases "L = 0")
    case True
    then show ?thesis using d by (simp add: pbkdf2_blocks.simps)
  next
    case False
    let ?U = "rfc8018_U ?mac salt (unat (of_nat n :: u32))"
    have U: "?U = rfc8018_U ?mac salt n" using rfc8018_U_mod [of ?mac salt n] by (simp add: unat_of_nat fun_eq_iff)
    obtain h where h: "pbkdf2_first mem hctx salt (of_nat n) = ((True, ?U 1), h, mem)" "keyed K h"
      using pbkdf2_first_eq [OF less.prems(1) assms(3)] by blast
    obtain h' where h': "pbkdf2_rounds 1 c ?t mem h ?d (?U 1) (take ?t (?U 1)) =
        ((True, fold (\<lambda>j F. map2 (XOR) F (take ?t (?U j))) [1 + 1..<c + 1] (take ?t (?U 1))), h', mem)" "keyed K h'"
      using pbkdf2_rounds_eq [OF h(2) zero_less_one, where salt = salt and i = "unat (of_nat n :: u32)"
          and c = c and todo = ?t and mem = mem and out = "take ?t (?U 1)"] by blast
    have b: "fold (\<lambda>j F. map2 (XOR) F (take ?t (?U j))) [1 + 1..<c + 1] (take ?t (?U 1)) = take L (F n)"
      using F [of n] unfolding take_fold_xor [symmetric] U F_def rfc8018_F_def
      by (simp add: min_def numeral_2_eq_2 del: upt_Suc)
    have t: "(if L < ?d then L else ?d) = ?t" by simp
    have e: "pbkdf2_blocks salt c ?d mem hctx L (of_nat n) out =
        pbkdf2_blocks salt c ?d mem h' (L - ?t) (of_nat (n + 1)) (out @ take L (F n))"
      using False h(1) h'(1) unfolding b by (subst pbkdf2_blocks.simps) (simp add: t add.commute)
    have s: "[n..<n + (L + ?d - 1) div ?d] = n # [n + 1..<n + 1 + (L - ?t + ?d - 1) div ?d]"
      using ceil_div_step [of L ?d] False d by (simp add: upt_conv_Cons del: upt_Suc)
    have "L - ?t < L" using False d by simp
    from less.IH [OF this h'(2), of "n + 1" "out @ take L (F n)"] show ?thesis
      unfolding e s using F by (simp add: min_def)
  qed
qed

text \<open>
  The function returns with every method of the contract.  Refused memory and an iteration count of
  zero make it fail; in the second case it has written the key for one iteration.
\<close>

lemma pbkdf2:
  assumes "K = (case password of None \<Rightarrow> [] | Some p \<Rightarrow> p)" "length K < 2 ^ 64" "length salt < 2 ^ 64"
  obtains ok mem' where "PKCS5_PBKDF2_HMAC mem password salt c md L =
      Some (ok \<and> c \<noteq> 0, if ok then rfc8018_dk (md_size md) (rfc2104 (block_size md) H K) salt (max 1 c) L else [], mem')"
    "granted mem \<Longrightarrow> ok"
proof -
  obtain ok h mem' where i: "HMAC_Init_ex mem HMAC_CTX_init password (Some md) = (ok, h, mem')" by (metis surj_pair)
  have a: "if ok then authenticating K [] h else \<not> granted mem"
    using init_authenticating [OF usable_init _ _ assms(1,2) i]
    by (auto simp: same_digest_def HMAC_CTX_init_def split: if_splits)
  have m: "rfc8018_F mac salt (max 1 c) = rfc8018_F mac salt c" for mac
    by (cases "c = 0") (simp_all add: rfc8018_F_0 max_def)
  show thesis
  proof (cases ok)
    case True
    then have "keyed K h" using a by (simp add: authenticating_def)
    from pbkdf2_blocks_eq [OF this assms(3), of 1 c mem' L "[]"] True i a show thesis
      by (intro that [of True mem'])
        (simp_all add: PKCS5_PBKDF2_HMAC_def Let_def rfc8018_dk_def m [unfolded One_nat_def] add.commute del: upt_Suc)
  next
    case False
    then show thesis using i a by (intro that [of False mem']) (simp_all add: PKCS5_PBKDF2_HMAC_def Let_def)
  qed
qed

end

section \<open>Properties\<close>

text \<open>
  C26.  PBKDF2 returns with every method of the table, for every iteration count and length.  Unless an
  allocation is refused it writes the key of RFC 8018; an iteration count of zero is reported as a
  failure, after the key for one iteration has been written.  The block number has four bytes and
  wraps: no length is refused, although RFC 8018 allows no more than \<open>2 ^ 32 - 1\<close> blocks.\<close>

theorem pbkdf2_is_rfc8018:
  assumes "(md, H) \<in> set evp_methods" "length password < 2 ^ 64" "length salt < 2 ^ 64"
  shows "\<exists>ok out mem'. PKCS5_PBKDF2_HMAC mem (Some password) salt c md L = Some (ok, out, mem') \<and>
    (ok \<longrightarrow> 0 < c) \<and> (granted mem \<longrightarrow> (ok \<longleftrightarrow> 0 < c) \<and>
      out = rfc8018_dk (md_size md) (rfc2104 (block_size md) H password) salt (max 1 c) L)"
proof -
  obtain ok mem' where "PKCS5_PBKDF2_HMAC mem (Some password) salt c md L = Some (ok \<and> c \<noteq> 0,
      if ok then rfc8018_dk (md_size md) (rfc2104 (block_size md) H password) salt (max 1 c) L else [], mem')"
    "granted mem \<Longrightarrow> ok"
    using evp_digest.pbkdf2 [OF methods_keep_contract [OF assms(1)] _ assms(2,3), of "Some password" mem c L] by auto
  then show ?thesis by auto
qed

theorem pbkdf2_is_rfc8018_witness:
  "\<exists>out mem. PKCS5_PBKDF2_HMAC_SHA1 [] (Some [112]) [115] 0 20 = Some (False, out, mem) \<and>
    out = rfc8018_dk 20 (rfc2104 64 (fips_sha1 (md_h SHA1_Init)) [112]) [115] 1 20"
  using pbkdf2_is_rfc8018 [OF in_methods(2), of "[112]" "[115]" "[]" 0 20]
  by (auto simp: PKCS5_PBKDF2_HMAC_SHA1_def EVP_sha1_def)

end
