(* ===== verification/Tls_Kdf.thy ===== *)
theory Tls_Kdf
  imports Hmac
begin

unbundle bit_operations_syntax

text \<open>
  The key derivation of TLS (\<open>crypto/fipsmodule/tls/kdf.c\<close>) over the HMAC of \<open>Hmac\<close>, with the
  functions of section 5 of RFC 5246 and of RFC 4346 that it computes.
\<close>

section \<open>The code\<close>

text \<open>\<open>HMAC_Update\<close> with the label and both seeds, one after the other.\<close>

definition tls1_update_seeds :: "u8 list \<Rightarrow> u8 list \<Rightarrow> u8 list \<Rightarrow> HMAC_CTX \<Rightarrow> bool \<times> HMAC_CTX" where
  "tls1_update_seeds label seed1 seed2 ctx =
     (let (ok, ctx) = HMAC_Update label ctx
      in if \<not> ok then (False, ctx)
         else
           let (ok, ctx) = HMAC_Update seed1 ctx
           in if \<not> ok then (False, ctx) else HMAC_Update seed2 ctx)"

text \<open>
  One pass of the loop up to the call that yields \<open>hmac\<close> and \<open>len\<close>; \<open>out_len\<close> bytes are still
  wanted.
\<close>

definition tls1_P_hash_pass ::
    "nat \<Rightarrow> u8 list \<Rightarrow> u8 list \<Rightarrow> u8 list \<Rightarrow> HMAC_CTX \<Rightarrow> nat \<Rightarrow> u8 list \<Rightarrow> HMAC_CTX \<Rightarrow> HMAC_CTX \<Rightarrow> bool list \<Rightarrow>
     (bool \<times> u8 list \<times> nat) \<times> HMAC_CTX \<times> HMAC_CTX \<times> bool list" where
  "tls1_P_hash_pass chunk label seed1 seed2 ctx_init out_len A1 ctx ctx_tmp mem =
     (let (ok, ctx, mem) = HMAC_CTX_copy_ex mem ctx ctx_init
      in if \<not> ok then ((False, [], 0), ctx, ctx_tmp, mem)
         else
           let (ok, ctx) = HMAC_Update A1 ctx
           in if \<not> ok then ((False, [], 0), ctx, ctx_tmp, mem)
              else
                let (ok, ctx_tmp, mem) =
                  (if chunk < out_len then HMAC_CTX_copy_ex mem ctx_tmp ctx else (True, ctx_tmp, mem))
                in if \<not> ok then ((False, [], 0), ctx, ctx_tmp, mem)
                   else
                     let (ok, ctx) = tls1_update_seeds label seed1 seed2 ctx
                     in if \<not> ok then ((False, [], 0), ctx, ctx_tmp, mem)
                        else
                          let (r, ctx, mem) = HMAC_Final mem ctx
                          in (r, ctx, ctx_tmp, mem))"

text \<open>
  The loop, which does not end for a digest of no bytes.  \<open>bs\<close> is what it has passed of the bytes at
  \<open>out\<close>, \<open>out\<close> the rest.
\<close>

partial_function (option) tls1_P_hash_loop ::
    "nat \<Rightarrow> u8 list \<Rightarrow> u8 list \<Rightarrow> u8 list \<Rightarrow> HMAC_CTX \<Rightarrow> u8 list \<Rightarrow> u8 list \<Rightarrow> u8 list \<Rightarrow> HMAC_CTX \<Rightarrow> HMAC_CTX \<Rightarrow> bool list \<Rightarrow>
     (bool \<times> u8 list \<times> bool list) option" where
  "tls1_P_hash_loop chunk label seed1 seed2 ctx_init bs out A1 ctx ctx_tmp mem =
     (let ((ok, hmac, len), ctx, ctx_tmp, mem) =
        tls1_P_hash_pass chunk label seed1 seed2 ctx_init (length out) A1 ctx ctx_tmp mem
      in if \<not> ok then Some (False, bs @ out, mem)
         else
           (let len = (if length out < len then length out else len);
                bs = bs @ map2 (XOR) (take len out) (take len hmac);
                out = drop len out
            in if length out = 0 then Some (True, bs, mem)
               else
                 (let ((ok, A1, A1_len), ctx_tmp, mem) = HMAC_Final mem ctx_tmp
                  in if \<not> ok then Some (False, bs @ out, mem)
                     else tls1_P_hash_loop chunk label seed1 seed2 ctx_init bs out (take A1_len A1) ctx ctx_tmp mem)))"

text \<open>The flag and the bytes at \<open>out\<close> afterwards.\<close>

definition tls1_P_hash ::
    "bool list \<Rightarrow> u8 list \<Rightarrow> EVP_MD \<Rightarrow> u8 list \<Rightarrow> u8 list \<Rightarrow> u8 list \<Rightarrow> u8 list \<Rightarrow> (bool \<times> u8 list \<times> bool list) option" where
  "tls1_P_hash mem out md secret label seed1 seed2 =
     (let chunk = md_size md;
          ctx = HMAC_CTX_init; ctx_tmp = HMAC_CTX_init; ctx_init = HMAC_CTX_init;
          (ok, ctx_init, mem) = HMAC_Init_ex mem ctx_init (Some secret) (Some md)
      in if \<not> ok then Some (False, out, mem)
         else
           let (ok, ctx, mem) = HMAC_CTX_copy_ex mem ctx ctx_init
           in if \<not> ok then Some (False, out, mem)
              else
                let (ok, ctx) = tls1_update_seeds label seed1 seed2 ctx
                in if \<not> ok then Some (False, out, mem)
                   else
                     let ((ok, A1, A1_len), ctx, mem) = HMAC_Final mem ctx
                     in if \<not> ok then Some (False, out, mem)
                        else tls1_P_hash_loop chunk label seed1 seed2 ctx_init [] out (take A1_len A1) ctx ctx_tmp mem)"

definition CRYPTO_tls1_prf ::
    "bool list \<Rightarrow> EVP_MD \<Rightarrow> nat \<Rightarrow> u8 list \<Rightarrow> u8 list \<Rightarrow> u8 list \<Rightarrow> u8 list \<Rightarrow> (bool \<times> u8 list \<times> bool list) option" where
  "CRYPTO_tls1_prf mem md out_len secret label seed1 seed2 =
     (if out_len = 0 then Some (True, [], mem)
      else
        let out = replicate out_len 0
        in if same_digest (Some md) (Some EVP_md5_sha1) then
             let secret_half = length secret - (length secret div 2)
             in case tls1_P_hash mem out EVP_md5 (take secret_half secret) label seed1 seed2 of
                  None \<Rightarrow> None
                | Some (ok, out, mem) \<Rightarrow>
                    if \<not> ok then Some (False, out, mem)
                    else
                      let secret = drop (length secret - secret_half) secret;
                          secret = take secret_half secret;
                          md = EVP_sha1
                      in tls1_P_hash mem out md secret label seed1 seed2
           else tls1_P_hash mem out md secret label seed1 seed2)"

section \<open>RFC 5246 and RFC 4346\<close>

fun rfc5246_A :: "(u8 list \<Rightarrow> u8 list) \<Rightarrow> u8 list \<Rightarrow> nat \<Rightarrow> u8 list" where
  "rfc5246_A mac seed 0 = seed"
| "rfc5246_A mac seed (Suc i) = mac (rfc5246_A mac seed i)"

definition rfc5246_P_hash :: "nat \<Rightarrow> (u8 list \<Rightarrow> u8 list) \<Rightarrow> u8 list \<Rightarrow> nat \<Rightarrow> u8 list" where
  "rfc5246_P_hash hash_len mac seed L =
     take L (concat (map (\<lambda>i. mac (rfc5246_A mac seed i @ seed)) [1..<(L + hash_len - 1) div hash_len + 1]))"

definition rfc5246_PRF :: "nat \<Rightarrow> (u8 list \<Rightarrow> u8 list) \<Rightarrow> u8 list \<Rightarrow> u8 list \<Rightarrow> nat \<Rightarrow> u8 list" where
  "rfc5246_PRF hash_len mac label seed L = rfc5246_P_hash hash_len mac (label @ seed) L"

text \<open>The older function splits the secret; the halves share the middle byte of an odd one.\<close>

definition rfc4346_PRF ::
    "(u8 list \<Rightarrow> u8 list \<Rightarrow> u8 list) \<Rightarrow> (u8 list \<Rightarrow> u8 list \<Rightarrow> u8 list) \<Rightarrow> u8 list \<Rightarrow> u8 list \<Rightarrow> u8 list \<Rightarrow> nat \<Rightarrow> u8 list" where
  "rfc4346_PRF hmac_md5 hmac_sha1 secret label seed L =
     (let half = (length secret + 1) div 2;
          S1 = take half secret;
          S2 = drop (length secret - half) secret
      in map2 (XOR) (rfc5246_P_hash 16 (hmac_md5 S1) (label @ seed) L) (rfc5246_P_hash 20 (hmac_sha1 S2) (label @ seed) L))"

section \<open>The code computes them\<close>

context evp_digest
begin

lemma update_seeds_authenticating:
  assumes "authenticating K m ctx" "length label < 2 ^ 64" "length seed1 < 2 ^ 64" "length seed2 < 2 ^ 64"
  shows "\<exists>ctx'. tls1_update_seeds label seed1 seed2 ctx = (True, ctx') \<and> authenticating K (m @ label @ seed1 @ seed2) ctx'"
proof -
  obtain c1 where c1: "HMAC_Update label ctx = (True, c1)" "authenticating K (m @ label) c1"
    using update_authenticating [OF assms(1,2)] by blast
  obtain c2 where c2: "HMAC_Update seed1 c1 = (True, c2)" "authenticating K ((m @ label) @ seed1) c2"
    using update_authenticating [OF c1(2) assms(3)] by blast
  obtain c3 where "HMAC_Update seed2 c2 = (True, c3)" "authenticating K (((m @ label) @ seed1) @ seed2) c3"
    using update_authenticating [OF c2(2) assms(4)] by blast
  with c1 c2 show ?thesis by (simp add: tls1_update_seeds_def)
qed

lemma tls1_P_hash_pass_eq:
  assumes i: "authenticating K [] ctx_init" and l: "length label < 2 ^ 64" "length seed1 < 2 ^ 64" "length seed2 < 2 ^ 64"
    and A: "length A < 2 ^ 64"
    and p: "tls1_P_hash_pass (md_size md) label seed1 seed2 ctx_init n A ctx ctx_tmp mem = ((ok, hmac, len), ctx', ctx_tmp', mem')"
  shows "if ok then hmac = rfc2104 (block_size md) H K (A @ label @ seed1 @ seed2) \<and> len = md_size md \<and>
      (md_size md < n \<longrightarrow> authenticating K A ctx_tmp') else \<not> granted mem"
    and "granted mem \<Longrightarrow> granted mem'"
proof -
  obtain o1 c1 m1 where c1: "HMAC_CTX_copy_ex mem ctx ctx_init = (o1, c1, m1)" by (metis surj_pair)
  note a1 = copy_authenticating [OF i c1]
  have "(if ok then hmac = rfc2104 (block_size md) H K (A @ label @ seed1 @ seed2) \<and> len = md_size md \<and>
      (md_size md < n \<longrightarrow> authenticating K A ctx_tmp') else \<not> granted mem) \<and> (granted mem \<longrightarrow> granted mem')"
  proof (cases o1)
    case False
    then show ?thesis using p c1 a1 by (auto simp: tls1_P_hash_pass_def)
  next
    case o1: True
    then obtain c2 where c2: "HMAC_Update A c1 = (True, c2)" "authenticating K A c2"
      using a1 update_authenticating [of K "[]" c1 A] A by auto
    obtain o3 t m3 where c3: "(if md_size md < n then HMAC_CTX_copy_ex m1 ctx_tmp c2 else (True, ctx_tmp, m1)) = (o3, t, m3)"
      by (metis surj_pair)
    have a3: "if o3 then md_size md < n \<longrightarrow> authenticating K A t else \<not> granted m1"
      using c3 copy_authenticating [OF c2(2)] by (auto split: if_splits)
    have g: "granted mem \<Longrightarrow> granted m1" "granted m1 \<Longrightarrow> granted m3"
      using granted_copy_ex [OF c1] c3 granted_copy_ex by (auto split: if_splits)
    show ?thesis
    proof (cases o3)
      case False
      then show ?thesis using p c1 o1 c2(1) c3 a3 g by (auto simp: tls1_P_hash_pass_def)
    next
      case True
      obtain c4 where c4: "tls1_update_seeds label seed1 seed2 c2 = (True, c4)" "authenticating K (A @ label @ seed1 @ seed2) c4"
        using update_seeds_authenticating [OF c2(2) l] by blast
      obtain c5 where "HMAC_Final m3 c4 =
          ((True, rfc2104 (block_size md) H K (A @ label @ seed1 @ seed2), md_size md), c5, m3)"
        using final_authenticating [OF c4(2)] by blast
      then show ?thesis using p c1 o1 c2(1) c3 True c4(1) a3 g by (auto simp: tls1_P_hash_pass_def)
    qed
  qed
  then show "if ok then hmac = rfc2104 (block_size md) H K (A @ label @ seed1 @ seed2) \<and> len = md_size md \<and>
      (md_size md < n \<longrightarrow> authenticating K A ctx_tmp') else \<not> granted mem"
    "granted mem \<Longrightarrow> granted mem'" by simp_all
qed

text \<open>The loop ends: every pass uses up \<open>md_size md\<close> bytes, which is not zero.\<close>

lemma tls1_P_hash_loop_eq:
  fixes K seed1 seed2 label
  defines "mac \<equiv> rfc2104 (block_size md) H K" and "seed \<equiv> label @ seed1 @ seed2"
  assumes i: "authenticating K [] ctx_init" and l: "length label < 2 ^ 64" "length seed1 < 2 ^ 64" "length seed2 < 2 ^ 64"
    and "0 < n" "out \<noteq> []"
  shows "\<exists>ok bs' mem'. tls1_P_hash_loop (md_size md) label seed1 seed2 ctx_init bs out (rfc5246_A mac seed n) ctx ctx_tmp mem =
      Some (ok, bs', mem') \<and>
    (ok \<longrightarrow> bs' = bs @ map2 (XOR) out (take (length out) (concat (map (\<lambda>i. mac (rfc5246_A mac seed i @ seed))
      [n..<n + (length out + md_size md - 1) div md_size md])))) \<and> (granted mem \<longrightarrow> ok \<and> granted mem')"
  using assms(7,8)
proof (induction "length out" arbitrary: n bs out ctx ctx_tmp mem rule: less_induct)
  case less
  let ?d = "md_size md" let ?A = "rfc5246_A mac seed" let ?L = "length out"
  have d: "0 < ?d" "?d < 2 ^ 64" using sizes by (simp_all add: EVP_MAX_MD_SIZE_def)
  have mac: "length (mac m) = ?d" for m by (simp add: mac_def)
  have A: "length (?A n) < 2 ^ 64" using less.prems(1) d by (cases n) (simp_all add: mac)
  obtain ok hmac len c t m where p: "tls1_P_hash_pass ?d label seed1 seed2 ctx_init ?L (?A n) ctx ctx_tmp mem = ((ok, hmac, len), c, t, m)"
    by (metis surj_pair)
  note pe = tls1_P_hash_pass_eq [OF i l A p, folded mac_def seed_def]
  show ?case
  proof (cases ok)
    case False
    then show ?thesis using p pe by (subst tls1_P_hash_loop.simps) (simp, blast)
  next
    case True
    then have h: "hmac = mac (?A n @ seed)" "len = ?d" "?d < ?L \<Longrightarrow> authenticating K (?A n) t" using pe(1) by simp_all
    let ?x = "map2 (XOR) (take (min ?L ?d) out) (take (min ?L ?d) hmac)"
    have s: "[n..<n + (?L + ?d - 1) div ?d] = n # [n + 1..<n + 1 + (?L - min ?L ?d + ?d - 1) div ?d]"
      using ceil_div_step [of ?L ?d] less.prems(2) d by (simp add: upt_conv_Cons del: upt_Suc)
    have t: "(if ?L < ?d then ?L else ?d) = min ?L ?d" by simp
    show ?thesis
    proof (cases "?L \<le> ?d")
      case L: True
      then have s1: "[n..<n + (?L + ?d - 1) div ?d] = [n]" using ceil_div_step [of ?L ?d] less.prems(2) d by simp
      have "tls1_P_hash_loop ?d label seed1 seed2 ctx_init bs out (?A n) ctx ctx_tmp mem = Some (True, bs @ map2 (XOR) out (take ?L hmac), m)"
        using p True h(2) L by (subst tls1_P_hash_loop.simps) (simp add: t)
      then show ?thesis
        using pe(2) h(1) unfolding s1 by auto
    next
      case False
      then obtain t' where f: "HMAC_Final m t = ((True, ?A (Suc n), ?d), t', m)"
        using final_authenticating [OF h(3), of m] by (auto simp: mac_def)
      have len: "length (?A (Suc n)) = ?d" by (simp add: mac)
      have "length (drop ?d out) < ?L" "drop ?d out \<noteq> []" using False d by simp_all
      from less.hyps [OF this(1) _ this(2), of "Suc n" "bs @ ?x" c t' m] obtain ok' bs' mem' where
        r: "tls1_P_hash_loop ?d label seed1 seed2 ctx_init (bs @ ?x) (drop ?d out) (?A (Suc n)) c t' m = Some (ok', bs', mem')"
          "ok' \<longrightarrow> bs' = (bs @ ?x) @ map2 (XOR) (drop ?d out) (take (length (drop ?d out)) (concat (map (\<lambda>i. mac (?A i @ seed))
             [Suc n..<Suc n + (length (drop ?d out) + ?d - 1) div ?d])))" "granted m \<longrightarrow> ok' \<and> granted mem'" by auto
      have x: "?x @ map2 (XOR) (drop ?d out) ys = map2 (XOR) out (hmac @ ys)" for ys
      proof -
        have "map2 (XOR) (take ?d out @ drop ?d out) (hmac @ ys) = ?x @ map2 (XOR) (drop ?d out) ys"
          using False by (subst zip_append) (simp_all add: h mac min_def)
        then show ?thesis by simp
      qed
      have "tls1_P_hash_loop ?d label seed1 seed2 ctx_init bs out (?A n) ctx ctx_tmp mem = Some (ok', bs', mem')"
        using p True h(2) False f r(1) len by (subst tls1_P_hash_loop.simps) (simp add: min_def)
      moreover have "length out - min (length out) ?d = length out - ?d" by simp
      ultimately show ?thesis
        using r(2,3) pe(2) x False unfolding s by (auto simp: h mac del: upt_Suc)
    qed
  qed
qed

lemma length_P_hash: "length (rfc5246_P_hash (md_size md) (rfc2104 (block_size md) H s) seed L) = L"
  using ceil_div_enough [of "md_size md" L] sizes
  by (simp add: rfc5246_P_hash_def length_concat_same [where d = "md_size md"] del: upt_Suc)

lemma tls1_P_hash_eq:
  fixes secret seed1 seed2 label
  defines "mac \<equiv> rfc2104 (block_size md) H secret"
  assumes "length secret < 2 ^ 64" and l: "length label < 2 ^ 64" "length seed1 < 2 ^ 64" "length seed2 < 2 ^ 64"
    and "out \<noteq> []"
  shows "\<exists>ok bs mem'. tls1_P_hash mem out md secret label seed1 seed2 = Some (ok, bs, mem') \<and>
    (ok \<longrightarrow> bs = map2 (XOR) out (rfc5246_P_hash (md_size md) mac (label @ seed1 @ seed2) (length out))) \<and>
    (granted mem \<longrightarrow> ok \<and> granted mem')"
proof -
  obtain o1 ci m1 where c1: "HMAC_Init_ex mem HMAC_CTX_init (Some secret) (Some md) = (o1, ci, m1)" by (metis surj_pair)
  have a1: "if o1 then authenticating secret [] ci else \<not> granted mem"
    using init_authenticating [OF usable_init _ _ refl _ c1] assms(2) by (auto split: if_splits)
  obtain o2 c m2 where c2: "HMAC_CTX_copy_ex m1 HMAC_CTX_init ci = (o2, c, m2)" by (metis surj_pair)
  note g = granted_Init_ex [OF c1] granted_copy_ex [OF c2]
  show ?thesis
  proof (cases "o1 \<and> o2")
    case False
    then have "\<not> granted mem" using a1 g copy_authenticating [OF _ c2] by (auto split: if_splits)
    then show ?thesis using False c1 c2 by (auto simp: tls1_P_hash_def)
  next
    case True
    then have i: "authenticating secret [] ci" "authenticating secret [] c"
      using a1 copy_authenticating [OF _ c2] by auto
    obtain c3 where c3: "tls1_update_seeds label seed1 seed2 c = (True, c3)" "authenticating secret (label @ seed1 @ seed2) c3"
      using update_seeds_authenticating [OF i(2) l] by auto
    obtain c4 where c4: "HMAC_Final m2 c3 = ((True, mac (label @ seed1 @ seed2), md_size md), c4, m2)"
      using final_authenticating [OF c3(2)] by (auto simp: mac_def)
    have "tls1_P_hash mem out md secret label seed1 seed2 =
        tls1_P_hash_loop (md_size md) label seed1 seed2 ci [] out (rfc5246_A mac (label @ seed1 @ seed2) 1) c4 HMAC_CTX_init m2"
      using True c1 c2 c3(1) c4 by (simp add: tls1_P_hash_def mac_def)
    moreover have "granted mem \<longrightarrow> granted m2" using g by blast
    ultimately show ?thesis
      using tls1_P_hash_loop_eq [OF i(1) l zero_less_one assms(6), of "[]" c4 HMAC_CTX_init m2, folded mac_def]
      by (auto simp: rfc5246_P_hash_def add.commute simp del: upt_Suc)
  qed
qed

end

section \<open>Properties\<close>

text \<open>
  C27.  The TLS key derivation returns with every method of the table.  Unless an allocation is refused it
  succeeds with the PRF of RFC 5246, section 5, under the hash of the method; with the combined
  method it is the PRF of RFC 4346, MD5 and SHA-1 each under their half of the secret, and the halves
  share the middle byte of a secret of odd length.\<close>

theorem tls1_prf_is_rfc:
  assumes "(md, H) \<in> set evp_methods" "length secret < 2 ^ 64" "length label < 2 ^ 64" "length seed1 < 2 ^ 64"
    "length seed2 < 2 ^ 64"
  shows "\<exists>ok out mem'. CRYPTO_tls1_prf mem md L secret label seed1 seed2 = Some (ok, out, mem') \<and> (granted mem \<longrightarrow> ok) \<and>
    (ok \<longrightarrow> out =
      (if md_type md = md_type EVP_md5_sha1
       then rfc4346_PRF (rfc2104 64 (rfc_digest rfc1321_compress (md_h MD5_Init))) (rfc2104 64 (fips_sha1 (md_h SHA1_Init)))
              secret label (seed1 @ seed2) L
       else rfc5246_PRF (md_size md) (rfc2104 (block_size md) H secret) label (seed1 @ seed2) L))"
proof (cases "L = 0")
  case True
  then show ?thesis
    by (auto simp: CRYPTO_tls1_prf_def rfc4346_PRF_def rfc5246_PRF_def rfc5246_P_hash_def Let_def)
next
  case False
  let ?P = "\<lambda>md H s. rfc5246_P_hash (md_size md) (rfc2104 (block_size md) H s) (label @ seed1 @ seed2) L"
  have p: "\<exists>ok bs mem'. tls1_P_hash mem out md s label seed1 seed2 = Some (ok, bs, mem') \<and>
      (ok \<longrightarrow> bs = map2 (XOR) out (?P md H s)) \<and> (granted mem \<longrightarrow> ok \<and> granted mem')"
    if "(md, H) \<in> set evp_methods" "length s < 2 ^ 64" "length out = L" for md H s out mem
    using evp_digest.tls1_P_hash_eq [OF methods_keep_contract [OF that(1)] that(2) assms(3-5), of out mem] False that(3)
    by auto
  have len: "length (?P md H s) = L" if "(md, H) \<in> set evp_methods" for md H s
    using evp_digest.length_P_hash [OF methods_keep_contract [OF that]] by simp
  have zero: "map2 (XOR) (replicate L 0) xs = xs" if "length xs = L" for xs :: "u8 list"
    using that by (intro nth_equalityI) simp_all
  show ?thesis
  proof (cases "md_type md = md_type EVP_md5_sha1")
    case False
    obtain ok bs mem' where "tls1_P_hash mem (replicate L 0) md secret label seed1 seed2 = Some (ok, bs, mem')"
      "ok \<longrightarrow> bs = map2 (XOR) (replicate L 0) (?P md H secret)" "granted mem \<longrightarrow> ok \<and> granted mem'"
      using p [OF assms(1,2), of "replicate L 0" mem] by auto
    then show ?thesis
      using False \<open>L \<noteq> 0\<close> by (simp add: CRYPTO_tls1_prf_def same_digest_def rfc5246_PRF_def zero len [OF assms(1)])
  next
    case True
    let ?n = "length secret - length secret div 2"
    have n: "?n = (length secret + 1) div 2" by presburger
    have S2: "take ?n (drop (length secret - ?n) secret) = drop (length secret - ?n) secret" by simp
    have l: "length (take ?n secret) < 2 ^ 64" "length (drop (length secret - ?n) secret) < 2 ^ 64"
      using assms(2) by simp_all
    obtain ok bs m where P5: "tls1_P_hash mem (replicate L 0) EVP_md5 (take ?n secret) label seed1 seed2 = Some (ok, bs, m)"
      "ok \<longrightarrow> bs = map2 (XOR) (replicate L 0) (?P EVP_md5 (rfc_digest rfc1321_compress (md_h MD5_Init)) (take ?n secret))"
      "granted mem \<longrightarrow> ok \<and> granted m"
      using p [OF in_methods(3) l(1), of "replicate L 0" mem] by auto
    show ?thesis
    proof (cases ok)
      case False
      then show ?thesis using True P5 \<open>L \<noteq> 0\<close> by (auto simp: CRYPTO_tls1_prf_def same_digest_def)
    next
      case ok: True
      then have bs: "bs = ?P EVP_md5 (rfc_digest rfc1321_compress (md_h MD5_Init)) (take ?n secret)"
        using P5(2) by (simp add: zero len [OF in_methods(3)])
      then have "length bs = L" using len [OF in_methods(3)] by simp
      then obtain ok2 bs2 m2 where "tls1_P_hash m bs EVP_sha1 (drop (length secret - ?n) secret) label seed1 seed2 = Some (ok2, bs2, m2)"
        "ok2 \<longrightarrow> bs2 = map2 (XOR) bs (?P EVP_sha1 (fips_sha1 (md_h SHA1_Init)) (drop (length secret - ?n) secret))"
        "granted m \<longrightarrow> ok2 \<and> granted m2"
        using p [OF in_methods(2) l(2), of bs m] by auto
      moreover have "CRYPTO_tls1_prf mem md L secret label seed1 seed2 =
          tls1_P_hash m bs EVP_sha1 (drop (length secret - ?n) secret) label seed1 seed2"
        using True ok P5(1) \<open>L \<noteq> 0\<close> unfolding CRYPTO_tls1_prf_def by (simp add: same_digest_def S2 Let_def)
      moreover have "md_size EVP_md5 = 16" "md_size EVP_sha1 = 20" "block_size EVP_md5 = 64" "block_size EVP_sha1 = 64"
        by (simp_all add: EVP_md5_def EVP_sha1_def)
      ultimately show ?thesis
        using True P5(3) ok unfolding bs rfc4346_PRF_def Let_def n by auto
    qed
  qed
qed

theorem tls1_prf_is_rfc_witness:
  "fst (the (CRYPTO_tls1_prf [] EVP_sha256 48 [1, 2] [3] [4] [5])) \<and>
   fst (snd (the (CRYPTO_tls1_prf [] EVP_sha256 48 [1, 2] [3] [4] [5]))) =
     rfc5246_PRF 32 (rfc2104 64 (fips_sha256 (md_h SHA256_Init) 32) [1, 2]) [3] [4, 5] 48"
  using tls1_prf_is_rfc [OF in_methods(1), of "[1, 2]" "[3]" "[4]" "[5]" "[]" 48]
  by (auto simp: EVP_sha256_def EVP_md5_sha1_def SHA256_DIGEST_LENGTH_def)

end
