(* ===== verification/Siphash.thy ===== *)
theory Siphash
  imports Blocks
begin

unbundle bit_operations_syntax

text \<open>
  SipHash-2-4 (\<open>crypto/siphash/siphash.c\<close>) and the function its authors define.  The code copies
  words from memory with \<open>memcpy\<close>; the machine is little-endian.
\<close>

section \<open>The code\<close>

definition siphash_round :: "u64 list \<Rightarrow> u64 list" where
  "siphash_round v =
     (let v = v[0 := v ! 0 + v ! 1];
          v = v[2 := v ! 2 + v ! 3];
          v = v[1 := push_bit 13 (v ! 1) OR drop_bit (64 - 13) (v ! 1)];
          v = v[3 := push_bit 16 (v ! 3) OR drop_bit (64 - 16) (v ! 3)];
          v = v[1 := v ! 1 XOR v ! 0];
          v = v[3 := v ! 3 XOR v ! 2];
          v = v[0 := push_bit 32 (v ! 0) OR drop_bit 32 (v ! 0)];
          v = v[2 := v ! 2 + v ! 1];
          v = v[0 := v ! 0 + v ! 3];
          v = v[1 := push_bit 17 (v ! 1) OR drop_bit (64 - 17) (v ! 1)];
          v = v[3 := push_bit 21 (v ! 3) OR drop_bit (64 - 21) (v ! 3)];
          v = v[1 := v ! 1 XOR v ! 2];
          v = v[3 := v ! 3 XOR v ! 0]
      in v[2 := push_bit 32 (v ! 2) OR drop_bit 32 (v ! 2)])"

text \<open>What \<open>memcpy\<close> into a word of eight bytes reads.\<close>

definition le_u64 :: "u8 list \<Rightarrow> u64" where
  "le_u64 p = of_nat (be_nat (rev (take 8 p)))"

function siphash_loop :: "u64 list \<Rightarrow> u8 list \<Rightarrow> u64 list \<times> u8 list" where
  "siphash_loop v inp =
     (if 8 \<le> length inp then
        let m = le_u64 inp;
            v = v[3 := v ! 3 XOR m];
            v = siphash_round v;
            v = siphash_round v;
            v = v[0 := v ! 0 XOR m]
        in siphash_loop v (drop 8 inp)
      else (v, inp))"
  by pat_completeness auto
termination by (relation "measure (\<lambda>(_, inp). length inp)") auto

declare siphash_loop.simps [simp del]

definition SIPHASH_24 :: "u64 \<times> u64 \<Rightarrow> u8 list \<Rightarrow> u64" where
  "SIPHASH_24 key inp =
     (let orig_input_len = length inp;
          v = [fst key XOR 0x736f6d6570736575, snd key XOR 0x646f72616e646f6d,
               fst key XOR 0x6c7967656e657261, snd key XOR 0x7465646279746573];
          (v, inp) = siphash_loop v inp;
          last_block = blit (replicate 8 0) 0 inp;
          last_block = last_block[7 := of_nat orig_input_len AND 0xff];
          v = v[3 := v ! 3 XOR le_u64 last_block];
          v = siphash_round v;
          v = siphash_round v;
          v = v[0 := v ! 0 XOR le_u64 last_block];
          v = v[2 := v ! 2 XOR 0xff];
          v = siphash_round v;
          v = siphash_round v;
          v = siphash_round v;
          v = siphash_round v
      in v ! 0 XOR v ! 1 XOR v ! 2 XOR v ! 3)"

section \<open>SipHash\<close>

definition sipround :: "u64 \<times> u64 \<times> u64 \<times> u64 \<Rightarrow> u64 \<times> u64 \<times> u64 \<times> u64" where
  "sipround = (\<lambda>(v0, v1, v2, v3).
     let v0 = v0 + v1; v1 = word_rotl 13 v1 XOR v0; v0 = word_rotl 32 v0;
         v2 = v2 + v3; v3 = word_rotl 16 v3 XOR v2;
         v0 = v0 + v3; v3 = word_rotl 21 v3 XOR v0;
         v2 = v2 + v1; v1 = word_rotl 17 v1 XOR v2; v2 = word_rotl 32 v2
     in (v0, v1, v2, v3))"

definition sip_compress :: "nat \<Rightarrow> u64 \<times> u64 \<times> u64 \<times> u64 \<Rightarrow> u8 list \<Rightarrow> u64 \<times> u64 \<times> u64 \<times> u64" where
  "sip_compress c = (\<lambda>(v0, v1, v2, v3) b.
     let m = le_u64 b; (v0, v1, v2, v3) = (sipround ^^ c) (v0, v1, v2, v3 XOR m) in (v0 XOR m, v1, v2, v3))"

text \<open>Zeros, and the length modulo 256 in the last byte of the last word.\<close>

definition sip_padded :: "u8 list \<Rightarrow> u8 list" where
  "sip_padded m = m @ replicate (7 - length m mod 8) 0 @ [of_nat (length m)]"

definition siphash :: "nat \<Rightarrow> nat \<Rightarrow> u64 \<times> u64 \<Rightarrow> u8 list \<Rightarrow> u64" where
  "siphash c d = (\<lambda>(k0, k1) m.
     let (v0, v1, v2, v3) = fold_blocks 8 (sip_compress c)
           (k0 XOR 0x736f6d6570736575, k1 XOR 0x646f72616e646f6d, k0 XOR 0x6c7967656e657261, k1 XOR 0x7465646279746573)
           (sip_padded m);
         (v0, v1, v2, v3) = (sipround ^^ d) (v0, v1, v2 XOR 0xff, v3)
     in v0 XOR v1 XOR v2 XOR v3)"

section \<open>The code computes SipHash-2-4\<close>

fun sip_list :: "u64 \<times> u64 \<times> u64 \<times> u64 \<Rightarrow> u64 list" where
  "sip_list (v0, v1, v2, v3) = [v0, v1, v2, v3]"

lemma rotations:
  "push_bit 13 a OR drop_bit 51 a = word_rotl 13 (a :: u64)" "push_bit 16 a OR drop_bit 48 a = word_rotl 16 a"
  "push_bit 17 a OR drop_bit 47 a = word_rotl 17 a" "push_bit 21 a OR drop_bit 43 a = word_rotl 21 a"
  "push_bit 32 a OR drop_bit 32 a = word_rotl 32 a"
proof -
  have "push_bit n a OR drop_bit (64 - n) a = word_rotl n a" if "0 < n" "n < 64" for n
    using rotate_left [of n a] that by (simp add: word_rotl_eq_word_rotr)
  from this [of 13] this [of 16] this [of 17] this [of 21] this [of 32] show
    "push_bit 13 a OR drop_bit 51 a = word_rotl 13 a" "push_bit 16 a OR drop_bit 48 a = word_rotl 16 a"
    "push_bit 17 a OR drop_bit 47 a = word_rotl 17 a" "push_bit 21 a OR drop_bit 43 a = word_rotl 21 a"
    "push_bit 32 a OR drop_bit 32 a = word_rotl 32 a" by simp_all
qed

lemma siphash_round_eq: "siphash_round (sip_list v) = sip_list (sipround v)"
  by (cases v rule: sip_list.cases) (simp add: siphash_round_def sipround_def rotations Let_def numeral_2_eq_2 numeral_3_eq_3)

lemma sip_list_sel:
  "sip_list (a, b, c, d) ! 0 = a" "sip_list (a, b, c, d) ! 1 = b" "sip_list (a, b, c, d) ! 2 = c" "sip_list (a, b, c, d) ! 3 = d"
  "(sip_list (a, b, c, d))[0 := x] = sip_list (x, b, c, d)" "(sip_list (a, b, c, d))[2 := x] = sip_list (a, b, x, d)"
  "(sip_list (a, b, c, d))[3 := x] = sip_list (a, b, c, x)"
  by (simp_all add: numeral_2_eq_2 numeral_3_eq_3)

text \<open>What the code does with one word.\<close>

lemma siphash_word:
  "(let m = le_u64 b; v = sip_list s; v = v[3 := v ! 3 XOR m]; v = siphash_round v; v = siphash_round v in v[0 := v ! 0 XOR m]) =
   sip_list (sip_compress 2 s b)"
proof -
  obtain v0 v1 v2 v3 where s: "s = (v0, v1, v2, v3)" by (cases s)
  obtain w0 w1 w2 w3 where w: "sipround (sipround (v0, v1, v2, v3 XOR le_u64 b)) = (w0, w1, w2, w3)" by (metis surj_pair)
  show ?thesis
    unfolding s Let_def sip_list_sel siphash_round_eq w
    by (simp add: sip_compress_def numeral_2_eq_2 w)
qed

lemma le_u64_take: "le_u64 (take 8 p) = le_u64 p"
  by (simp add: le_u64_def)

lemma sip_compress_take: "sip_compress c s (take 8 p) = sip_compress c s p"
  by (cases s) (simp add: sip_compress_def le_u64_take)

lemma fold_blocks_append:
  "length a = bs * n \<Longrightarrow> 0 < bs \<Longrightarrow> fold_blocks bs f s (a @ b) = fold_blocks bs f (fold_blocks bs f s a) b"
proof (induction n arbitrary: a s)
  case (Suc n)
  then have "a = take bs a @ drop bs a" "length (take bs a) = bs" "length (drop bs a) = bs * n" by simp_all
  with Suc show ?case by (metis append_assoc fold_blocks_step)
qed (simp add: fold_blocks_short)

text \<open>The loop takes the whole words of the message.\<close>

lemma siphash_loop_eq:
  "siphash_loop (sip_list s) inp =
   (sip_list (fold_blocks 8 (sip_compress 2) s (take (8 * (length inp div 8)) inp)), drop (8 * (length inp div 8)) inp)"
proof (induction "length inp" arbitrary: s inp rule: less_induct)
  case less
  show ?case
  proof (cases "8 \<le> length inp")
    case True
    then have d: "length inp div 8 = Suc (length (drop 8 inp) div 8)"
      by (simp add: le_div_geq)
    have t: "take (8 * Suc n) inp = take 8 inp @ take (8 * n) (drop 8 inp)" "drop (8 * Suc n) inp = drop (8 * n) (drop 8 inp)" for n
      using take_add [of 8 "8 * n" inp] by (simp_all add: add.commute)
    have "siphash_loop (sip_list s) inp = siphash_loop (sip_list (sip_compress 2 s inp)) (drop 8 inp)"
      using True siphash_word [of inp s] by (subst siphash_loop.simps) (simp only: Let_def if_True)
    moreover have "length (drop 8 inp) < length inp" using True by simp
    ultimately show ?thesis
      using True less by (simp only: d t) (simp add: fold_blocks_step sip_compress_take)
  next
    case False
    then show ?thesis by (simp add: siphash_loop.simps fold_blocks_short)
  qed
qed

lemma siphash_last:
  fixes m :: "u8 list"
  defines "r \<equiv> drop (8 * (length m div 8)) m"
  shows "(blit (replicate 8 0) 0 r)[7 := of_nat (length m) AND 0xff] = r @ replicate (7 - length m mod 8) 0 @ [of_nat (length m)]"
proof -
  have l: "length r = length m mod 8" unfolding r_def by (simp add: minus_mult_div_eq_mod)
  then have r: "length r \<le> 7" by simp
  have m: "(0xff :: u8) = -1" by simp
  have "blit (replicate 8 0) 0 r = r @ replicate (8 - length r) 0" using r by (simp add: blit_def)
  moreover have "8 - length r = Suc (7 - length r)" using r by simp
  ultimately have "blit (replicate 8 0) 0 r = (r @ replicate (7 - length r) 0) @ [0]"
    using replicate_append_same [of "7 - length r" "0 :: u8"] by simp
  moreover have "length (r @ replicate (7 - length r) (0 :: u8)) = 7" using r by simp
  ultimately have "(blit (replicate 8 0) 0 r)[7 := x] = (r @ replicate (7 - length r) 0) @ [x]" for x
    by (metis list_update_length)
  then show ?thesis unfolding l [symmetric] by (simp add: m)
qed

section \<open>Properties\<close>

text \<open>
  C28.  The code computes SipHash-2-4 for messages of every length, the bytes after the last whole word
  padded with zeros and the length.\<close>

theorem siphash_24: "SIPHASH_24 key m = siphash 2 4 key m"
proof -
  obtain k0 k1 where key: "key = (k0, k1)" by (cases key)
  let ?iv = "(k0 XOR 0x736f6d6570736575, k1 XOR 0x646f72616e646f6d, k0 XOR 0x6c7967656e657261, k1 XOR 0x7465646279746573)"
  let ?q = "8 * (length m div 8)"
  let ?last = "drop ?q m @ replicate (7 - length m mod 8) 0 @ [of_nat (length m)]"
  have "length ?last = 8"
    by (simp add: minus_mult_div_eq_mod less_imp_le)
  moreover have "fold_blocks 8 f s (take ?q m @ b) = fold_blocks 8 f (fold_blocks 8 f s (take ?q m)) b" for f and s :: "u64 \<times> u64 \<times> u64 \<times> u64" and b
    by (rule fold_blocks_append [of _ _ "length m div 8"]) simp_all
  moreover have "sip_padded m = take ?q m @ ?last" by (simp add: sip_padded_def flip: append_assoc)
  ultimately have p: "fold_blocks 8 (sip_compress 2) ?iv (sip_padded m) =
      sip_compress 2 (fold_blocks 8 (sip_compress 2) ?iv (take ?q m)) ?last"
    using fold_blocks_step [of 8 ?last "sip_compress 2" _ "[]"] by (simp add: fold_blocks_short)
  obtain v0 v1 v2 v3 where v: "fold_blocks 8 (sip_compress 2) ?iv (sip_padded m) = (v0, v1, v2, v3)" by (metis surj_pair)
  obtain w0 w1 w2 w3 where w: "(sipround ^^ 4) (v0, v1, v2 XOR 0xff, v3) = (w0, w1, w2, w3)" by (metis surj_pair)
  have w': "sipround (sipround (sipround (sipround (v0, v1, v2 XOR 0xff, v3)))) = (w0, w1, w2, w3)"
    using w by (simp add: eval_nat_numeral)
  have loop: "siphash_loop [fst key XOR 0x736f6d6570736575, snd key XOR 0x646f72616e646f6d,
      fst key XOR 0x6c7967656e657261, snd key XOR 0x7465646279746573] m =
      (sip_list (fold_blocks 8 (sip_compress 2) ?iv (take ?q m)), drop ?q m)"
    using siphash_loop_eq [of ?iv m] by (simp add: key)
  have "SIPHASH_24 key m =
    (let v = sip_list (v0, v1, v2, v3); v = v[2 := v ! 2 XOR 0xff]; v = siphash_round v; v = siphash_round v;
       v = siphash_round v; v = siphash_round v in v ! 0 XOR v ! 1 XOR v ! 2 XOR v ! 3)"
    by (simp only: SIPHASH_24_def Let_def loop prod.case siphash_last siphash_word [unfolded Let_def] p [symmetric] v)
  also have "\<dots> = w0 XOR w1 XOR w2 XOR w3"
    unfolding Let_def sip_list_sel siphash_round_eq w' ..
  finally show ?thesis unfolding key siphash_def by (simp add: v w Let_def)
qed

end
