(* ===== verification/Chacha.thy ===== *)
theory Chacha
  imports Md32
begin

unbundle bit_operations_syntax

text \<open>
  ChaCha20 and HChaCha20 as \<open>crypto/chacha/chacha.c\<close> has them without assembly, and RFC 8439.
  Words are read from and written to memory in little-endian order, also by the \<open>memcpy\<close> calls of
  \<open>CRYPTO_hchacha20\<close>, which assume such a machine.
\<close>

section \<open>The code\<close>

definition U8TO32_LITTLE :: "u8 list \<Rightarrow> u32" where
  "U8TO32_LITTLE p =
     ucast (p ! 0) OR push_bit 8 (ucast (p ! 1)) OR push_bit 16 (ucast (p ! 2)) OR push_bit 24 (ucast (p ! 3))"

definition U32TO8_LITTLE :: "u32 \<Rightarrow> u8 list" where
  "U32TO8_LITTLE v =
     [ucast (drop_bit 0 v AND 0xff), ucast (drop_bit 8 v AND 0xff), ucast (drop_bit 16 v AND 0xff), ucast (drop_bit 24 v AND 0xff)]"

definition chacha_sigma :: "u8 list" where
  "chacha_sigma = map (\<lambda>c. of_nat (of_char c)) ''expand 32-byte k''"

definition QUARTERROUND :: "nat \<Rightarrow> nat \<Rightarrow> nat \<Rightarrow> nat \<Rightarrow> u32 list \<Rightarrow> u32 list" where
  "QUARTERROUND a b c d x =
     (let x = x[a := x ! a + x ! b]; x = x[d := ROTATE (x ! d XOR x ! a) 16];
          x = x[c := x ! c + x ! d]; x = x[b := ROTATE (x ! b XOR x ! c) 12];
          x = x[a := x ! a + x ! b]; x = x[d := ROTATE (x ! d XOR x ! a) 8];
          x = x[c := x ! c + x ! d]
      in x[b := ROTATE (x ! b XOR x ! c) 7])"

definition chacha_two_rounds :: "u32 list \<Rightarrow> u32 list" where
  "chacha_two_rounds x =
     (let x = QUARTERROUND 0 4 8 12 x;
          x = QUARTERROUND 1 5 9 13 x;
          x = QUARTERROUND 2 6 10 14 x;
          x = QUARTERROUND 3 7 11 15 x;
          x = QUARTERROUND 0 5 10 15 x;
          x = QUARTERROUND 1 6 11 12 x;
          x = QUARTERROUND 2 7 8 13 x
      in QUARTERROUND 3 4 9 14 x)"

definition CRYPTO_hchacha20 :: "u8 list \<Rightarrow> u8 list \<Rightarrow> u8 list" where
  "CRYPTO_hchacha20 key nonce =
     (let x = map (\<lambda>i. U8TO32_LITTLE (drop (4 * i) chacha_sigma)) [0..<4] @
              map (\<lambda>i. U8TO32_LITTLE (drop (4 * i) key)) [0..<8] @
              map (\<lambda>i. U8TO32_LITTLE (drop (4 * i) nonce)) [0..<4];
          x = for_loop 0 20 2 (\<lambda>i. chacha_two_rounds) x
      in concat (map (\<lambda>i. U32TO8_LITTLE (x ! i)) [0..<4]) @ concat (map (\<lambda>i. U32TO8_LITTLE (x ! (12 + i))) [0..<4]))"

function chacha_rounds :: "nat \<Rightarrow> u32 list \<Rightarrow> u32 list" where
  "chacha_rounds i x = (if 0 < i then chacha_rounds (i - 2) (chacha_two_rounds x) else x)"
  by pat_completeness auto
termination by (relation "measure fst") auto

declare chacha_rounds.simps [simp del]

definition chacha_core :: "u32 list \<Rightarrow> u8 list" where
  "chacha_core inp =
     (let x = chacha_rounds 20 inp;
          x = for_loop 0 16 1 (\<lambda>i x. x[i := x ! i + inp ! i]) x
      in concat (map (\<lambda>i. U32TO8_LITTLE (x ! i)) [0..<16]))"

definition chacha_input :: "u8 list \<Rightarrow> u8 list \<Rightarrow> u32 \<Rightarrow> u32 list" where
  "chacha_input key nonce counter =
     [U8TO32_LITTLE (drop 0 chacha_sigma), U8TO32_LITTLE (drop 4 chacha_sigma),
      U8TO32_LITTLE (drop 8 chacha_sigma), U8TO32_LITTLE (drop 12 chacha_sigma),
      U8TO32_LITTLE (drop 0 key), U8TO32_LITTLE (drop 4 key), U8TO32_LITTLE (drop 8 key), U8TO32_LITTLE (drop 12 key),
      U8TO32_LITTLE (drop 16 key), U8TO32_LITTLE (drop 20 key), U8TO32_LITTLE (drop 24 key), U8TO32_LITTLE (drop 28 key),
      counter,
      U8TO32_LITTLE (drop 0 nonce), U8TO32_LITTLE (drop 4 nonce), U8TO32_LITTLE (drop 8 nonce)]"

text \<open>The loop, with the bytes written so far; \<open>inp\<close> is the rest of \<open>in\<close>.\<close>

function chacha_loop :: "u32 list \<Rightarrow> u8 list \<Rightarrow> u8 list \<Rightarrow> u8 list" where
  "chacha_loop st out inp =
     (if 0 < length inp then
        let todo = 64;
            todo = (if length inp < todo then length inp else todo);
            buf = chacha_core st
        in chacha_loop (st[12 := st ! 12 + 1]) (out @ map (\<lambda>i. inp ! i XOR buf ! i) [0..<todo]) (drop todo inp)
      else out)"
  by pat_completeness auto
termination by (relation "measure (\<lambda>(_, _, inp). length inp)") auto

declare chacha_loop.simps [simp del]

definition CRYPTO_chacha_20 :: "u8 list \<Rightarrow> u8 list \<Rightarrow> u8 list \<Rightarrow> u32 \<Rightarrow> u8 list" where
  "CRYPTO_chacha_20 inp key nonce counter = chacha_loop (chacha_input key nonce counter) [] inp"

section \<open>RFC 8439\<close>

definition rfc8439_quarter :: "u32 \<times> u32 \<times> u32 \<times> u32 \<Rightarrow> u32 \<times> u32 \<times> u32 \<times> u32" where
  "rfc8439_quarter = (\<lambda>(a, b, c, d).
     let a = a + b; d = word_rotl 16 (d XOR a);
         c = c + d; b = word_rotl 12 (b XOR c);
         a = a + b; d = word_rotl 8 (d XOR a);
         c = c + d; b = word_rotl 7 (b XOR c)
     in (a, b, c, d))"

definition rfc8439_qround :: "nat \<times> nat \<times> nat \<times> nat \<Rightarrow> u32 list \<Rightarrow> u32 list" where
  "rfc8439_qround = (\<lambda>(i, j, k, l) st.
     let (a, b, c, d) = rfc8439_quarter (st ! i, st ! j, st ! k, st ! l) in st[i := a, j := b, k := c, l := d])"

text \<open>The columns and then the diagonals of the state as a matrix of four rows.\<close>

definition rfc8439_inner_block :: "u32 list \<Rightarrow> u32 list" where
  "rfc8439_inner_block =
     fold rfc8439_qround (map (\<lambda>i. (i, 4 + i, 8 + i, 12 + i)) [0..<4] @
       map (\<lambda>i. (i, 4 + (i + 1) mod 4, 8 + (i + 2) mod 4, 12 + (i + 3) mod 4)) [0..<4])"

definition rfc8439_serialize :: "u32 list \<Rightarrow> u8 list" where
  "rfc8439_serialize ws = concat (map (\<lambda>w. rev (be_bytes 4 (unat w))) ws)"

definition rfc8439_state :: "u8 list \<Rightarrow> u32 \<Rightarrow> u8 list \<Rightarrow> u32 list" where
  "rfc8439_state key counter nonce =
     le_words 4 (chacha_sigma @ key @ rev (be_bytes 4 (unat counter)) @ nonce)"

definition rfc8439_block :: "u8 list \<Rightarrow> u32 \<Rightarrow> u8 list \<Rightarrow> u8 list" where
  "rfc8439_block key counter nonce =
     (let st = rfc8439_state key counter nonce in rfc8439_serialize (map2 (+) ((rfc8439_inner_block ^^ 10) st) st))"

definition rfc8439_key_stream :: "u8 list \<Rightarrow> u32 \<Rightarrow> u8 list \<Rightarrow> nat \<Rightarrow> u8 list" where
  "rfc8439_key_stream key counter nonce n =
     concat (map (\<lambda>j. rfc8439_block key (counter + of_nat j) nonce) [0..<n])"

definition rfc8439_encrypt :: "u8 list \<Rightarrow> u32 \<Rightarrow> u8 list \<Rightarrow> u8 list \<Rightarrow> u8 list" where
  "rfc8439_encrypt key counter nonce m =
     map2 (XOR) m (rfc8439_key_stream key counter nonce ((length m + 63) div 64))"

text \<open>HChaCha20 keeps the first and the last row of the state after the rounds.\<close>

definition hchacha20_spec :: "u8 list \<Rightarrow> u8 list \<Rightarrow> u8 list" where
  "hchacha20_spec key nonce =
     (let st = (rfc8439_inner_block ^^ 10) (le_words 4 (chacha_sigma @ key @ nonce))
      in rfc8439_serialize (take 4 st @ drop 12 st))"

section \<open>The code computes RFC 8439\<close>

lemma little_endian_words:
  "4 \<le> length p \<Longrightarrow> U8TO32_LITTLE p = of_nat (be_nat (rev (take 4 p)))"
  "U32TO8_LITTLE v = rev (be_bytes 4 (unat v))"
  using c2l_le [of p] l2c_le [of v] l2c_be [of v]
  by (simp_all add: HOST_c2l_le_def U8TO32_LITTLE_def U32TO8_LITTLE_def HOST_l2c_le_def)

lemma length_serialize [simp]: "length (rfc8439_serialize ws) = 4 * length ws"
  by (induction ws) (simp_all add: rfc8439_serialize_def)

lemma length_QUARTERROUND [simp]: "length (QUARTERROUND a b c d x) = length x"
  by (simp add: QUARTERROUND_def Let_def)

lemma QUARTERROUND_eq:
  assumes "distinct [a, b, c, d]" "a < length x" "b < length x" "c < length x" "d < length x"
  shows "QUARTERROUND a b c d x = rfc8439_qround (a, b, c, d) x"
  using assms
  by (intro nth_equalityI)
    (auto simp: QUARTERROUND_def rfc8439_qround_def rfc8439_quarter_def Let_def ROTATE_rotl nth_list_update)

lemma length_qround [simp]: "length (rfc8439_qround ijkl x) = length x"
  by (simp add: rfc8439_qround_def split: prod.splits)

lemma length_two_rounds [simp]: "length (chacha_two_rounds x) = length x"
  by (simp add: chacha_two_rounds_def)

lemma two_rounds_eq: "length x = 16 \<Longrightarrow> chacha_two_rounds x = rfc8439_inner_block x"
proof -
  assume x: "length x = 16"
  have "[0..<4] = [0, 1, 2, 3 :: nat]" by (simp add: upt_rec)
  then show ?thesis
    using x by (simp add: chacha_two_rounds_def rfc8439_inner_block_def QUARTERROUND_eq Let_def)
qed

lemma length_sigma [simp]: "length chacha_sigma = 16"
  by (simp add: chacha_sigma_def)

lemma rounds_power:
  assumes "length x = 16"
  shows "chacha_rounds (2 * n) x = (rfc8439_inner_block ^^ n) x" "length ((rfc8439_inner_block ^^ n) x) = 16"
proof -
  have "chacha_rounds (2 * n) x = (rfc8439_inner_block ^^ n) x \<and> length ((rfc8439_inner_block ^^ n) x) = 16"
    using assms
  proof (induction n arbitrary: x)
    case (Suc n)
    have "length (rfc8439_inner_block x) = 16" using Suc.prems two_rounds_eq [of x] length_two_rounds [of x] by simp
    from Suc.IH [OF this] Suc.prems show ?case
      by (subst chacha_rounds.simps) (simp add: two_rounds_eq funpow_swap1)
  qed (simp add: chacha_rounds.simps)
  then show "chacha_rounds (2 * n) x = (rfc8439_inner_block ^^ n) x" "length ((rfc8439_inner_block ^^ n) x) = 16" by simp_all
qed

lemma hchacha_rounds:
  assumes "length x = 16"
  shows "for_loop 0 20 2 (\<lambda>i. chacha_two_rounds) x = (rfc8439_inner_block ^^ 10) x"
proof -
  have "for_loop i (i + 2 * n) 2 (\<lambda>i. chacha_two_rounds) x = (rfc8439_inner_block ^^ n) x" for i n
    using assms
  proof (induction n arbitrary: i x)
    case (Suc n)
    have "length (rfc8439_inner_block x) = 16" using Suc.prems two_rounds_eq [of x] length_two_rounds [of x] by simp
    from Suc.IH [OF this, of "i + 2"] Suc.prems show ?case
      by (subst for_loop.simps) (simp add: two_rounds_eq funpow_swap1)
  qed (simp add: for_loop.simps)
  from this [of 0 10] show ?thesis by simp
qed

lemma add_loop:
  assumes "length x = n" "length y = n"
  shows "for_loop 0 n 1 (\<lambda>i x. x[i := x ! i + y ! i]) x = map2 (+) x (y :: u32 list)"
proof -
  have f: "for_loop 0 n 1 (\<lambda>i x. x[i := x ! i + y ! i]) x = fold (\<lambda>i x. x[i := x ! i + y ! i]) [0..<n] x"
    using for_loop_fold [of 1 "\<lambda>i x. x[i := x ! i + y ! i]" 0 "\<lambda>i x. x[i := x ! i + y ! i]" n] by simp
  have "k \<le> n \<Longrightarrow> fold (\<lambda>i x. x[i := x ! i + y ! i]) [0..<k] x = map2 (+) (take k x) (take k y) @ drop k x" for k
  proof (induction k)
    case (Suc k)
    then have k: "k < length x" "k < length y" using assms by simp_all
    have "drop k x = x ! k # drop (Suc k) x" "take (Suc k) x = take k x @ [x ! k]"
      "take (Suc k) y = take k y @ [y ! k]"
      using k by (simp_all add: Cons_nth_drop_Suc take_Suc_conv_app_nth)
    then show ?case
      using Suc.IH Suc.prems k by (simp add: list_update_append nth_append)
  qed simp
  from this [of n] show ?thesis unfolding f using assms by simp
qed

lemma input_state:
  assumes "length key = 32" "length nonce = 12"
  shows "chacha_input key nonce counter = rfc8439_state key counter nonce"
proof -
  have "unat counter < 2 ^ 32" using unsigned_less [of counter] by simp
  then show ?thesis
    using assms little_endian_words(1)
    by (simp add: chacha_input_def rfc8439_state_def le_words_def upt_rec be_nat_be_bytes)
qed

lemma core_block:
  assumes "length st = 16"
  shows "chacha_core st = rfc8439_serialize (map2 (+) ((rfc8439_inner_block ^^ 10) st) st)"
proof -
  have r: "chacha_rounds 20 st = (rfc8439_inner_block ^^ 10) st" "length ((rfc8439_inner_block ^^ 10) st) = 16"
    using rounds_power [OF assms, of 10] by simp_all
  have "map (\<lambda>i. U32TO8_LITTLE (x ! i)) [0..<16] = map U32TO8_LITTLE x" if "length x = 16" for x
    using that by (intro nth_equalityI) simp_all
  then show ?thesis
    using add_loop [OF r(2) assms] r(2) assms little_endian_words(2) [abs_def]
    by (simp add: chacha_core_def r(1) rfc8439_serialize_def Let_def)
qed

lemma length_state [simp]: "length (rfc8439_state key counter nonce) = 16"
  by (simp add: rfc8439_state_def le_words_def)

lemma length_block [simp]: "length (rfc8439_block key counter nonce) = 64"
  using rounds_power(2) [OF length_state, of 10 key counter nonce] by (simp add: rfc8439_block_def Let_def)

lemma length_key_stream [simp]: "length (rfc8439_key_stream key counter nonce n) = 64 * n"
  by (induction n) (simp_all add: rfc8439_key_stream_def)

lemma key_stream_append:
  "rfc8439_key_stream key counter nonce (m + n) =
   rfc8439_key_stream key counter nonce m @ rfc8439_key_stream key (counter + of_nat m) nonce n"
proof -
  have "map (\<lambda>j. rfc8439_block key (counter + of_nat j) nonce) [m..<m + n] =
      map (\<lambda>j. rfc8439_block key (counter + of_nat m + of_nat j) nonce) [0..<n]"
    by (rule nth_equalityI) (simp_all add: add.assoc)
  then show ?thesis
    unfolding rfc8439_key_stream_def by (simp only: upt_add_eq_append [OF le0] map_append concat_append)
qed

text \<open>Only enough of the key stream matters.\<close>

lemma encrypt_enough:
  assumes "(length m + 63) div 64 \<le> n"
  shows "rfc8439_encrypt key counter nonce m = map2 (XOR) m (rfc8439_key_stream key counter nonce n)"
proof -
  obtain k where n: "n = (length m + 63) div 64 + k" using assms le_Suc_ex by blast
  have l: "length m \<le> 64 * ((length m + 63) div 64)" by linarith
  show ?thesis
    unfolding n key_stream_append rfc8439_encrypt_def
    using l by (intro nth_equalityI) (auto simp: nth_append)
qed

lemma length_encrypt [simp]: "length (rfc8439_encrypt key counter nonce m) = length m"
  unfolding rfc8439_encrypt_def by simp

text \<open>Encryption in two calls, the first of whole blocks.\<close>

lemma encrypt_append:
  assumes "length a = 64 * k"
  shows "rfc8439_encrypt key counter nonce (a @ b) =
    rfc8439_encrypt key counter nonce a @ rfc8439_encrypt key (counter + of_nat k) nonce b"
proof -
  have "(length (a @ b) + 63) div 64 = k + (length b + 63) div 64" using assms by simp
  then show ?thesis
    using assms encrypt_enough [of a k key counter nonce]
    by (simp add: rfc8439_encrypt_def [of _ _ _ "a @ b"] rfc8439_encrypt_def [of _ _ _ b] key_stream_append)
qed

lemma encrypt_twice: "rfc8439_encrypt key counter nonce (rfc8439_encrypt key counter nonce m) = m"
proof -
  let ?s = "rfc8439_key_stream key counter nonce ((length m + 63) div 64)"
  have "length m \<le> length ?s" by simp
  moreover have "rfc8439_encrypt key counter nonce (rfc8439_encrypt key counter nonce m) =
      map2 (XOR) (map2 (XOR) m ?s) ?s"
    by (subst (1) rfc8439_encrypt_def) (simp add: rfc8439_encrypt_def)
  ultimately show ?thesis by (intro nth_equalityI) (simp_all add: xor.assoc)
qed

lemma chacha_loop_eq:
  assumes "length key = 32" "length nonce = 12"
  shows "chacha_loop (rfc8439_state key counter nonce) out inp = out @ rfc8439_encrypt key counter nonce inp"
proof (induction "length inp" arbitrary: counter out inp rule: less_induct)
  case less
  let ?st = "rfc8439_state key counter nonce"
  have next_state: "?st[12 := ?st ! 12 + 1] = rfc8439_state key (counter + 1) nonce"
    using assms unfolding input_state [OF assms, symmetric] by (simp add: chacha_input_def)
  have buf: "chacha_core ?st = rfc8439_block key counter nonce"
    by (simp add: core_block rfc8439_block_def Let_def)
  let ?n = "min 64 (length inp)"
  show ?case
  proof (cases "inp = []")
    case True
    then show ?thesis by (simp add: chacha_loop.simps rfc8439_encrypt_def)
  next
    case False
    let ?part = "map (\<lambda>i. inp ! i XOR rfc8439_block key counter nonce ! i) [0..<?n]"
    have p: "?part = rfc8439_encrypt key counter nonce (take 64 inp)"
      using False encrypt_enough [of "take 64 inp" 1 key counter nonce]
      by (intro nth_equalityI) (simp_all add: rfc8439_key_stream_def)
    have t: "(if length inp < 64 then length inp else 64) = ?n" by simp
    have d: "drop ?n inp = drop 64 inp" by (cases "64 \<le> length inp") simp_all
    have "length (drop ?n inp) < length inp" using False by simp
    from less [OF this, of "counter + 1" "out @ ?part"] have
      "chacha_loop ?st out inp = out @ ?part @ rfc8439_encrypt key (counter + 1) nonce (drop 64 inp)"
      using False by (subst chacha_loop.simps) (simp add: next_state buf t d)
    moreover have "rfc8439_encrypt key counter nonce inp =
        rfc8439_encrypt key counter nonce (take 64 inp) @ rfc8439_encrypt key (counter + 1) nonce (drop 64 inp)"
    proof (cases "64 \<le> length inp")
      case True
      then have "length (take 64 inp) = 64 * 1" by simp
      from encrypt_append [OF this, of key counter nonce "drop 64 inp"] show ?thesis by simp
    next
      case False
      then show ?thesis by (simp add: rfc8439_encrypt_def [of _ _ _ "[]"])
    qed
    ultimately show ?thesis unfolding p by simp
  qed
qed

section \<open>Properties\<close>

lemma hchacha20_eq:
  assumes "length key = 32" "length nonce = 16"
  shows "CRYPTO_hchacha20 key nonce = hchacha20_spec key nonce"
proof -
  let ?x = "le_words 4 (chacha_sigma @ key @ nonce) :: u32 list"
  let ?y = "(rfc8439_inner_block ^^ 10) ?x"
  have x: "map (\<lambda>i. U8TO32_LITTLE (drop (4 * i) chacha_sigma)) [0..<4] @ map (\<lambda>i. U8TO32_LITTLE (drop (4 * i) key)) [0..<8] @
      map (\<lambda>i. U8TO32_LITTLE (drop (4 * i) nonce)) [0..<4] = ?x"
    using assms little_endian_words(1) by (simp add: le_words_def upt_rec)
  have l: "length ?x = 16" by (simp add: le_words_def)
  have y: "length ?y = 16" using rounds_power(2) [OF l] .
  have "map (\<lambda>i. U32TO8_LITTLE (?y ! i)) [0..<4] = map U32TO8_LITTLE (take 4 ?y)"
    "map (\<lambda>i. U32TO8_LITTLE (?y ! (12 + i))) [0..<4] = map U32TO8_LITTLE (drop 12 ?y)"
    using y by (auto intro!: nth_equalityI)
  then show ?thesis
    using little_endian_words(2) [abs_def]
    by (simp add: CRYPTO_hchacha20_def hchacha20_spec_def x hchacha_rounds [OF l] rfc8439_serialize_def Let_def)
qed

text \<open>The quarter round of section 2.1.1 of RFC 8439.\<close>

lemma quarter_round_test_vector:
  "QUARTERROUND 0 1 2 3 [0x11111111, 0x01020304, 0x9b8d6f43, 0x01234567] = [0xea2a92f4, 0xcb1cf8ce, 0x4581472e, 0x5881c4bb]"
  by code_simp

text \<open>
  C29.  The unrolled ChaCha20 is the cipher of RFC 8439, with the block counter counting modulo
  \<open>2 ^ 32\<close>; applying it again with the same key, nonce and counter gives the input back, and a
  message may be cut after whole blocks when the counter goes on.\<close>

theorem chacha_is_rfc8439:
  assumes "length key = 32" "length nonce = 12"
  shows "CRYPTO_chacha_20 m key nonce counter = rfc8439_encrypt key counter nonce m \<and>
    CRYPTO_chacha_20 (CRYPTO_chacha_20 m key nonce counter) key nonce counter = m \<and>
    (length a = 64 * k \<longrightarrow> CRYPTO_chacha_20 (a @ b) key nonce counter =
      CRYPTO_chacha_20 a key nonce counter @ CRYPTO_chacha_20 b key nonce (counter + of_nat k))"
proof -
  have "CRYPTO_chacha_20 m key nonce counter = rfc8439_encrypt key counter nonce m" for m counter
    using chacha_loop_eq [OF assms, of counter "[]" m] by (simp add: CRYPTO_chacha_20_def input_state [OF assms])
  then show ?thesis by (simp add: encrypt_twice encrypt_append)
qed

theorem chacha_is_rfc8439_witness:
  "CRYPTO_chacha_20 (CRYPTO_chacha_20 [1, 2, 3] (replicate 32 7) (replicate 12 0) 1) (replicate 32 7) (replicate 12 0) 1 = [1, 2, 3] \<and>
   CRYPTO_chacha_20 (replicate 64 0 @ [5]) (replicate 32 7) (replicate 12 0) 0xffffffff =
     CRYPTO_chacha_20 (replicate 64 0) (replicate 32 7) (replicate 12 0) 0xffffffff @
     CRYPTO_chacha_20 [5] (replicate 32 7) (replicate 12 0) 0"
proof -
  note c = chacha_is_rfc8439 [OF length_replicate length_replicate]
  have "length (replicate 64 (0 :: u8)) = 64 * 1" "(0xffffffff :: u32) + of_nat 1 = 0" by simp_all
  then show ?thesis
    using c [of "[1, 2, 3]" 7 0 1] c [where m = "[]" and a = "replicate 64 0" and k = 1 and b = "[5]"] by metis
qed

end
