(* ===== verification/Err.thy ===== *)
theory Err
  imports Blocks
begin

unbundle bit_operations_syntax

text \<open>
  The error queue of a thread (\<open>crypto/err/err.c\<close>): a ring of sixteen places of which fifteen are
  used.  \<open>err_queue\<close> is the queue it stands for, oldest error first.  Formatting error codes for a
  reader, which is left to the C library, is not modelled.
\<close>

section \<open>State\<close>

definition ERR_NUM_ERRORS :: nat where "ERR_NUM_ERRORS = 16"
definition ERR_FLAG_STRING :: nat where "ERR_FLAG_STRING = 1"
definition ERR_LIB_SYS :: nat where "ERR_LIB_SYS = 2"

definition ERR_PACK :: "nat \<Rightarrow> nat \<Rightarrow> u32" where
  "ERR_PACK lib reason = push_bit 24 (of_nat lib AND 0xff) OR (of_nat reason AND 0xfff)"

definition ERR_GET_LIB :: "u32 \<Rightarrow> nat" where
  "ERR_GET_LIB packed_error = unat (drop_bit 24 packed_error AND 0xff)"

definition ERR_GET_REASON :: "u32 \<Rightarrow> nat" where
  "ERR_GET_REASON packed_error = unat (packed_error AND 0xfff)"

text \<open>Strings without their terminator.\<close>

record err_error =
  err_file :: "u8 list option"
  err_data :: "u8 list option"
  err_packed :: u32
  err_line :: "16 word"
  err_mark :: bool

record ERR_STATE =
  err_errors :: "err_error list"
  err_top :: nat
  err_bottom :: nat
  to_free :: "u8 list option"

definition no_error :: err_error where
  "no_error = \<lparr>err_file = None, err_data = None, err_packed = 0, err_line = 0, err_mark = False\<rparr>"

definition err_clear :: "err_error \<Rightarrow> err_error" where
  "err_clear error = no_error"

definition err_copy :: "bool list \<Rightarrow> err_error \<Rightarrow> err_error \<Rightarrow> err_error \<times> bool list" where
  "err_copy mem dst src =
     (let dst = err_clear dst;
          dst = dst\<lparr>err_file := err_file src\<rparr>;
          (dst, mem) = (case err_data src of
              None \<Rightarrow> (dst, mem)
            | Some d \<Rightarrow> (let (ok, mem) = mem_next mem in (dst\<lparr>err_data := (if ok then Some d else None)\<rparr>, mem)));
          dst = dst\<lparr>err_packed := err_packed src\<rparr>;
          dst = dst\<lparr>err_line := err_line src\<rparr>
      in (dst, mem))"

text \<open>
  The state is created when it is first needed; that fails when its memory is refused or when it
  cannot be stored for the thread.
\<close>

definition err_get_state :: "bool list \<Rightarrow> ERR_STATE option \<Rightarrow> ERR_STATE option \<times> bool list" where
  "err_get_state mem state =
     (case state of
        Some s \<Rightarrow> (Some s, mem)
      | None \<Rightarrow>
          let (ok, mem) = mem_next mem
          in if \<not> ok then (None, mem)
             else
               let (ok, mem) = mem_next mem
               in if \<not> ok then (None, mem)
                  else (Some \<lparr>err_errors = replicate ERR_NUM_ERRORS no_error, err_top = 0, err_bottom = 0, to_free = None\<rparr>, mem))"

section \<open>Reading\<close>

text \<open>
  The packed error, what is stored at \<open>file\<close> and \<open>line\<close> when both are given, and at \<open>data\<close> and
  \<open>flags\<close> when \<open>data\<close> is.
\<close>

type_synonym err_values = "u32 \<times> (u8 list \<times> nat) option \<times> (u8 list \<times> nat) option"

definition get_error_values :: "bool \<Rightarrow> bool \<Rightarrow> bool \<Rightarrow> bool \<Rightarrow> ERR_STATE option \<Rightarrow> err_values \<times> ERR_STATE option" where
  "get_error_values inc last_err file_line data state =
     (case state of
        None \<Rightarrow> ((0, None, None), None)
      | Some s \<Rightarrow>
          if err_bottom s = err_top s then ((0, None, None), Some s)
          else
            let i = (if last_err then err_top s else (err_bottom s + 1) mod ERR_NUM_ERRORS);
                error = err_errors s ! i;
                ret = err_packed error;
                fl = (if file_line then
                        (case err_file error of None \<Rightarrow> Some ([78, 65], 0) | Some f \<Rightarrow> Some (f, unat (err_line error)))
                      else None);
                (d, error, s) =
                  (if data then
                     (case err_data error of
                        None \<Rightarrow> (Some ([], 0), error, s)
                      | Some str \<Rightarrow>
                          (Some (str, ERR_FLAG_STRING),
                           if inc then (error\<lparr>err_data := None\<rparr>, s\<lparr>to_free := Some str\<rparr>) else (error, s)))
                   else (None, error, s));
                s = (if inc then s\<lparr>err_errors := (err_errors s)[i := err_clear error], err_bottom := i\<rparr> else s)
            in ((ret, fl, d), Some s))"

definition err_read :: "bool \<Rightarrow> bool \<Rightarrow> bool \<Rightarrow> bool \<Rightarrow> bool list \<Rightarrow> ERR_STATE option \<Rightarrow> err_values \<times> ERR_STATE option \<times> bool list" where
  "err_read inc last_err file_line data mem state =
     (let (state, mem) = err_get_state mem state;
          (r, state) = get_error_values inc last_err file_line data state
      in (r, state, mem))"

definition ERR_get_error where "ERR_get_error = err_read True False False False"
definition ERR_get_error_line where "ERR_get_error_line = err_read True False True False"
definition ERR_get_error_line_data where "ERR_get_error_line_data = err_read True False True True"
definition ERR_peek_error where "ERR_peek_error = err_read False False False False"
definition ERR_peek_error_line where "ERR_peek_error_line = err_read False False True False"
definition ERR_peek_error_line_data where "ERR_peek_error_line_data = err_read False False True True"
definition ERR_peek_last_error where "ERR_peek_last_error = err_read False True False False"
definition ERR_peek_last_error_line where "ERR_peek_last_error_line = err_read False True True False"
definition ERR_peek_last_error_line_data where "ERR_peek_last_error_line_data = err_read False True True True"

section \<open>Writing\<close>

definition ERR_clear_error :: "bool list \<Rightarrow> ERR_STATE option \<Rightarrow> ERR_STATE option \<times> bool list" where
  "ERR_clear_error mem state =
     (let (state, mem) = err_get_state mem state
      in case state of
           None \<Rightarrow> (None, mem)
         | Some s \<Rightarrow>
             let s = s\<lparr>err_errors := map err_clear (err_errors s)\<rparr>;
                 s = s\<lparr>to_free := None\<rparr>
             in (Some (s\<lparr>err_top := 0, err_bottom := 0\<rparr>), mem))"

text \<open>\<open>errno\<close> is the reason of system errors that are put without one.\<close>

definition ERR_put_error ::
    "bool list \<Rightarrow> ERR_STATE option \<Rightarrow> nat \<Rightarrow> nat \<Rightarrow> nat \<Rightarrow> u8 list option \<Rightarrow> nat \<Rightarrow> ERR_STATE option \<times> bool list" where
  "ERR_put_error mem state errno library reason file line =
     (let (state, mem) = err_get_state mem state
      in case state of
           None \<Rightarrow> (None, mem)
         | Some s \<Rightarrow>
             let reason = (if library = ERR_LIB_SYS \<and> reason = 0 then errno else reason);
                 s = s\<lparr>err_top := (err_top s + 1) mod ERR_NUM_ERRORS\<rparr>;
                 s = (if err_top s = err_bottom s then s\<lparr>err_bottom := (err_bottom s + 1) mod ERR_NUM_ERRORS\<rparr> else s);
                 error = err_clear (err_errors s ! err_top s);
                 error = error\<lparr>err_file := file\<rparr>;
                 error = error\<lparr>err_line := of_nat line\<rparr>;
                 error = error\<lparr>err_packed := ERR_PACK library reason\<rparr>
             in (Some (s\<lparr>err_errors := (err_errors s)[err_top s := error]\<rparr>), mem))"

definition err_set_error_data :: "u8 list \<Rightarrow> bool list \<Rightarrow> ERR_STATE option \<Rightarrow> ERR_STATE option \<times> bool list" where
  "err_set_error_data data mem state =
     (let (state, mem) = err_get_state mem state
      in case state of
           None \<Rightarrow> (None, mem)
         | Some s \<Rightarrow>
             if err_top s = err_bottom s then (Some s, mem)
             else (Some (s\<lparr>err_errors := (err_errors s)[err_top s := (err_errors s ! err_top s)\<lparr>err_data := Some data\<rparr>]\<rparr>), mem))"

text \<open>
  The loop over the arguments: \<open>alloced\<close> bytes and one for the terminator are allocated, \<open>buf\<close> holds
  the bytes written.  \<open>None\<close> when the buffer was given up.
\<close>

fun err_add_loop :: "size_t \<Rightarrow> u8 list \<Rightarrow> u8 list option list \<Rightarrow> bool list \<Rightarrow> u8 list option \<times> bool list" where
  "err_add_loop alloced buf [] mem = (Some buf, mem)"
| "err_add_loop alloced buf (None # args) mem = err_add_loop alloced buf args mem"
| "err_add_loop alloced buf (Some substr # args) mem =
     (let new_len = size_add (length buf) (length substr)
      in if new_len > alloced then
           if size_add (size_add alloced 20) 1 < alloced then (None, mem)
           else
             let alloced = size_add new_len 20;
                 (ok, mem) = mem_next mem
             in if \<not> ok then (None, mem) else err_add_loop alloced (buf @ substr) args mem
         else err_add_loop alloced (buf @ substr) args mem)"

definition err_add_error_vdata :: "u8 list option list \<Rightarrow> bool list \<Rightarrow> ERR_STATE option \<Rightarrow> ERR_STATE option \<times> bool list" where
  "err_add_error_vdata args mem state =
     (let alloced = 80;
          (ok, mem) = mem_next mem
      in if \<not> ok then (state, mem)
         else
           case err_add_loop alloced [] args mem of
             (None, mem) \<Rightarrow> (state, mem)
           | (Some buf, mem) \<Rightarrow> err_set_error_data buf mem state)"

definition ERR_set_mark :: "bool list \<Rightarrow> ERR_STATE option \<Rightarrow> bool \<times> ERR_STATE option \<times> bool list" where
  "ERR_set_mark mem state =
     (let (state, mem) = err_get_state mem state
      in case state of
           None \<Rightarrow> (False, None, mem)
         | Some s \<Rightarrow>
             if err_bottom s = err_top s then (False, Some s, mem)
             else (True, Some (s\<lparr>err_errors := (err_errors s)[err_top s := (err_errors s ! err_top s)\<lparr>err_mark := True\<rparr>]\<rparr>), mem))"

text \<open>The loop of \<open>ERR_pop_to_mark\<close>; it ends after at most fifteen passes when the indices are in range.\<close>

partial_function (option) err_pop_loop :: "ERR_STATE \<Rightarrow> (bool \<times> ERR_STATE) option" where
  "err_pop_loop s =
     (if err_bottom s \<noteq> err_top s then
        (let error = err_errors s ! err_top s
         in if err_mark error then
              Some (True, s\<lparr>err_errors := (err_errors s)[err_top s := error\<lparr>err_mark := False\<rparr>]\<rparr>)
            else
              (let s = s\<lparr>err_errors := (err_errors s)[err_top s := err_clear error]\<rparr>
               in err_pop_loop (if err_top s = 0 then s\<lparr>err_top := ERR_NUM_ERRORS - 1\<rparr> else s\<lparr>err_top := err_top s - 1\<rparr>)))
      else Some (False, s))"

definition ERR_pop_to_mark :: "bool list \<Rightarrow> ERR_STATE option \<Rightarrow> (bool \<times> ERR_STATE option \<times> bool list) option" where
  "ERR_pop_to_mark mem state =
     (let (state, mem) = err_get_state mem state
      in case state of
           None \<Rightarrow> Some (False, None, mem)
         | Some s \<Rightarrow> (case err_pop_loop s of None \<Rightarrow> None | Some (r, s) \<Rightarrow> Some (r, Some s, mem)))"

section \<open>Saving and restoring\<close>

text \<open>Copying the errors in their places, one by one.\<close>

fun err_save_loop :: "err_error list \<Rightarrow> bool list \<Rightarrow> err_error list \<times> bool list" where
  "err_save_loop [] mem = ([], mem)"
| "err_save_loop (e # es) mem =
     (let (c, mem) = err_copy mem no_error e;
          (cs, mem) = err_save_loop es mem
      in (c # cs, mem))"

definition ERR_save_state :: "bool list \<Rightarrow> ERR_STATE option \<Rightarrow> err_error list option \<times> ERR_STATE option \<times> bool list" where
  "ERR_save_state mem state =
     (let (state, mem) = err_get_state mem state
      in case state of
           None \<Rightarrow> (None, None, mem)
         | Some s \<Rightarrow>
             if err_top s = err_bottom s then (None, Some s, mem)
             else
               let (ok, mem) = mem_next mem
               in if \<not> ok then (None, Some s, mem)
                  else
                    let num_errors = (if err_top s \<ge> err_bottom s then err_top s - err_bottom s
                                      else ERR_NUM_ERRORS + err_top s - err_bottom s);
                        (ok, mem) = mem_next mem
                    in if \<not> ok then (None, Some s, mem)
                       else
                         let (es, mem) = err_save_loop
                               (map (\<lambda>i. err_errors s ! ((err_bottom s + i + 1) mod ERR_NUM_ERRORS)) [0..<num_errors]) mem
                         in (Some es, Some s, mem))"

fun err_restore_loop :: "err_error list \<Rightarrow> nat \<Rightarrow> err_error list \<Rightarrow> bool list \<Rightarrow> err_error list \<times> bool list" where
  "err_restore_loop dst i [] mem = (dst, mem)"
| "err_restore_loop dst i (e # es) mem =
     (let (c, mem) = err_copy mem (dst ! i) e
      in err_restore_loop (dst[i := c]) (i + 1) es mem)"

definition ERR_restore_state :: "bool list \<Rightarrow> ERR_STATE option \<Rightarrow> err_error list option \<Rightarrow> ERR_STATE option \<times> bool list" where
  "ERR_restore_state mem state saved =
     (case saved of
        None \<Rightarrow> ERR_clear_error mem state
      | Some es \<Rightarrow>
          if length es = 0 then ERR_clear_error mem state
          else
            let (state, mem) = err_get_state mem state
            in case state of
                 None \<Rightarrow> (None, mem)
               | Some s \<Rightarrow>
                   let (errors, mem) = err_restore_loop (err_errors s) 0 es mem
                   in (Some (s\<lparr>err_errors := errors, err_top := length es - 1, err_bottom := ERR_NUM_ERRORS - 1\<rparr>), mem))"

section \<open>The queue\<close>

text \<open>What a ring of sixteen places holds: \<open>n\<close> elements after place \<open>b\<close>.\<close>

definition ring_view :: "'a list \<Rightarrow> nat \<Rightarrow> nat \<Rightarrow> 'a list" where
  "ring_view xs b n = map (\<lambda>k. xs ! ((b + k + 1) mod 16)) [0..<n]"

lemma length_ring_view [simp]: "length (ring_view xs b n) = n"
  by (simp add: ring_view_def)

lemma ring_view_nth: "k < n \<Longrightarrow> ring_view xs b n ! k = xs ! ((b + k + 1) mod 16)"
  by (simp add: ring_view_def)

lemma ring_view_0 [simp]: "ring_view xs b 0 = []"
  by (simp add: ring_view_def)

lemma ring_view_Suc: "ring_view xs b (Suc n) = ring_view xs b n @ [xs ! ((b + n + 1) mod 16)]"
  by (simp add: ring_view_def)

lemma ring_view_Cons: "ring_view xs b (Suc n) = xs ! ((b + 1) mod 16) # ring_view xs ((b + 1) mod 16) n"
proof -
  have "((b + 1) mod 16 + k + 1) mod 16 = (b + Suc k + 1) mod 16" for k
    by (simp only: add.assoc mod_add_left_eq) simp
  then show ?thesis by (simp add: ring_view_def map_upt_Suc del: upt_Suc)
qed

lemma places_differ:
  assumes "k < n" "n < 16"
  shows "(b + k + 1) mod 16 \<noteq> (b + n + 1) mod (16 :: nat)"
proof -
  have "b + n + 1 - 16 < b + k + 1" using assms(2) by linarith
  then show ?thesis using mod_window [of "b + n + 1" 16 "b + k + 1"] assms by auto
qed

lemma ring_view_other:
  assumes "\<And>k. k < n \<Longrightarrow> (b + k + 1) mod 16 \<noteq> i"
  shows "ring_view (xs[i := x]) b n = ring_view xs b n"
  unfolding ring_view_def using assms by (intro map_cong refl) (metis atLeastLessThan_iff nth_list_update_neq set_upt)

text \<open>Writing behind the last element, over the last element, and over the first.\<close>

lemma ring_view_write:
  assumes "length xs = 16" "n < 16"
  shows "ring_view (xs[(b + n + 1) mod 16 := x]) b (Suc n) = ring_view xs b n @ [x]"
proof -
  have "(b + k + 1) mod 16 \<noteq> (b + n + 1) mod 16" if "k < n" for k
    using places_differ [OF that assms(2)] .
  then show ?thesis using assms(1) by (simp add: ring_view_Suc ring_view_other)
qed

lemma ring_view_first:
  assumes "n < 16"
  shows "ring_view (xs[(b + 1) mod 16 := x]) ((b + 1) mod 16) n = ring_view xs ((b + 1) mod 16) n"
proof (rule ring_view_other)
  fix k assume "k < n"
  then have "(b + 0 + 1) mod 16 \<noteq> (b + Suc k + 1) mod 16" using assms by (intro places_differ) simp_all
  moreover have "((b + 1) mod 16 + k + 1) mod 16 = (b + Suc k + 1) mod 16"
    by (simp only: add.assoc mod_add_left_eq) simp
  ultimately show "((b + 1) mod 16 + k + 1) mod 16 \<noteq> (b + 1) mod 16" by simp
qed

definition err_wf :: "ERR_STATE \<Rightarrow> bool" where
  "err_wf s \<longleftrightarrow> length (err_errors s) = 16 \<and> err_top s < 16 \<and> err_bottom s < 16"

definition err_count :: "ERR_STATE \<Rightarrow> nat" where
  "err_count s = (err_top s + 16 - err_bottom s) mod 16"

definition err_queue :: "ERR_STATE \<Rightarrow> err_error list" where
  "err_queue s = ring_view (err_errors s) (err_bottom s) (err_count s)"

lemma err_places:
  assumes "err_wf s"
  shows "err_count s < 16" "err_top s = (err_bottom s + err_count s) mod 16"
    "err_bottom s = err_top s \<longleftrightarrow> err_count s = 0"
proof -
  have b: "err_top s < 16" "err_bottom s < 16" using assms by (simp_all add: err_wf_def)
  have "err_count s = (if err_bottom s \<le> err_top s then err_top s - err_bottom s else err_top s + 16 - err_bottom s)"
    using b by (auto simp: err_count_def le_mod_geq)
  then show "err_count s < 16" "err_top s = (err_bottom s + err_count s) mod 16"
    "err_bottom s = err_top s \<longleftrightarrow> err_count s = 0"
    using b by (auto simp: le_mod_geq split: if_splits)
qed

lemma err_queue_empty: "err_wf s \<Longrightarrow> err_bottom s = err_top s \<longleftrightarrow> err_queue s = []"
  using err_places(3) [of s] by (simp add: err_queue_def flip: length_0_conv)

lemma err_queue_cases:
  assumes "err_wf s" "err_bottom s \<noteq> err_top s"
  obtains n where "err_count s = Suc n" "n < 15" "err_top s = (err_bottom s + n + 1) mod 16"
    "err_queue s = ring_view (err_errors s) (err_bottom s) n @ [err_errors s ! err_top s]"
    "err_queue s = err_errors s ! ((err_bottom s + 1) mod 16) # ring_view (err_errors s) ((err_bottom s + 1) mod 16) n"
proof -
  obtain n where n: "err_count s = Suc n" using err_places(3) [OF assms(1)] assms(2) by (cases "err_count s") auto
  then have t: "n < 15" "err_top s = (err_bottom s + n + 1) mod 16" using err_places(1,2) [OF assms(1)] by simp_all
  show thesis
    by (rule that [OF n t]) (simp_all only: err_queue_def n ring_view_Suc t ring_view_Cons [symmetric])
qed

text \<open>A state given by its places.\<close>

lemma err_queueI:
  assumes "n < 16" "err_top s = (err_bottom s + n) mod 16" "err_bottom s < 16"
  shows "err_queue s = ring_view (err_errors s) (err_bottom s) n"
proof -
  have "err_count s = n"
    unfolding err_count_def using assms by (cases "err_bottom s + n < 16") (auto simp: le_mod_geq)
  then show ?thesis by (simp add: err_queue_def)
qed

section \<open>The operations on the queue\<close>

lemma next_place: "((b + n) mod 16 + 1) mod 16 = (b + n + 1) mod (16 :: nat)"
  by (simp only: mod_add_left_eq)

definition queue_put :: "err_error \<Rightarrow> err_error list \<Rightarrow> err_error list" where
  "queue_put e q = (if length q = 15 then tl q else q) @ [e]"

lemma put_queue:
  assumes "err_wf s"
  obtains s' where "ERR_put_error mem (Some s) errno library reason file line = (Some s', mem)" "err_wf s'"
    "err_queue s' = queue_put \<lparr>err_file = file, err_data = None,
       err_packed = ERR_PACK library (if library = ERR_LIB_SYS \<and> reason = 0 then errno else reason), err_line = of_nat line, err_mark = False\<rparr>
       (err_queue s)"
proof -
  define e where "e = \<lparr>err_file = file, err_data = None,
     err_packed = ERR_PACK library (if library = ERR_LIB_SYS \<and> reason = 0 then errno else reason), err_line = of_nat line, err_mark = False\<rparr>"
  define n where "n = err_count s"
  define b where "b = err_bottom s"
  define t where "t = (b + n + 1) mod 16"
  have n: "n < 16" "err_top s = (b + n) mod 16" "b < 16" "length (err_errors s) = 16"
    using err_places(1,2) [OF assms] assms by (simp_all add: n_def b_def err_wf_def)
  have top: "(err_top s + 1) mod 16 = t" by (simp only: n(2) next_place t_def)
  have full: "t = b \<longleftrightarrow> n = 15"
  proof
    assume "t = b"
    then have "(b + n + 1) mod 16 = (b + 16) mod 16" using n(3) by (simp add: t_def)
    moreover have "b + 16 - 16 < b + n + 1" "b + n + 1 \<le> b + 16" using n(1) by simp_all
    ultimately show "n = 15" using mod_window [of "b + 16" 16 "b + n + 1"] by simp
  next
    assume "n = 15" then show "t = b" using n(3) by (simp add: t_def)
  qed
  define s' where "s' = s\<lparr>err_top := t, err_bottom := (if t = b then (b + 1) mod 16 else b), err_errors := (err_errors s)[t := e]\<rparr>"
  have "ERR_put_error mem (Some s) errno library reason file line = (Some s', mem)"
    using top unfolding ERR_put_error_def err_get_state_def s'_def e_def ERR_NUM_ERRORS_def
    by (simp add: Let_def b_def err_clear_def no_error_def)
  moreover have "err_wf s'" using n by (simp add: err_wf_def s'_def t_def)
  moreover have "err_queue s' = queue_put e (err_queue s)"
  proof (cases "n = 15")
    case False
    then have "err_queue s' = ring_view (err_errors s') b (Suc n)"
      using n full by (subst err_queueI [of "Suc n"]) (simp_all add: s'_def t_def)
    also have "\<dots> = ring_view (err_errors s) b n @ [e]"
      using ring_view_write [OF n(4,1), of b e] by (simp add: s'_def t_def)
    finally show ?thesis using False by (simp add: queue_put_def err_queue_def n_def b_def)
  next
    case True
    let ?b = "(b + 1) mod 16"
    have t: "t = b" "(?b + 14 + 1) mod 16 = b" "(?b + 15) mod 16 = b"
      using full True n(3) by (simp_all only: add.assoc mod_add_left_eq) simp_all
    have "err_queue s' = ring_view (err_errors s') ?b (Suc 14)"
      using t by (subst err_queueI [of 15]) (simp_all add: s'_def)
    also have "\<dots> = ring_view (err_errors s) ?b 14 @ [e]"
      using ring_view_write [OF n(4), of 14 ?b e] t by (simp add: s'_def)
    also have "ring_view (err_errors s) ?b 14 = tl (ring_view (err_errors s) b (Suc 14))"
      by (simp only: ring_view_Cons list.sel)
    finally show ?thesis using True by (simp add: queue_put_def err_queue_def n_def b_def)
  qed
  ultimately show thesis using that [of s'] unfolding e_def by blast
qed

text \<open>The last element is changed in its place.\<close>

definition queue_last :: "(err_error \<Rightarrow> err_error) \<Rightarrow> err_error list \<Rightarrow> err_error list" where
  "queue_last f q = (if q = [] then [] else butlast q @ [f (last q)])"

lemma last_queue:
  assumes "err_wf s" "err_bottom s \<noteq> err_top s"
  shows "err_wf (s\<lparr>err_errors := (err_errors s)[err_top s := f (err_errors s ! err_top s)]\<rparr>)"
    "err_queue (s\<lparr>err_errors := (err_errors s)[err_top s := f (err_errors s ! err_top s)]\<rparr>) = queue_last f (err_queue s)"
    "last (err_queue s) = err_errors s ! err_top s"
proof -
  obtain n where n: "err_count s = Suc n" "n < 15" "err_top s = (err_bottom s + n + 1) mod 16"
    "err_queue s = ring_view (err_errors s) (err_bottom s) n @ [err_errors s ! err_top s]"
    using err_queue_cases [OF assms] by blast
  have "err_queue (s\<lparr>err_errors := (err_errors s)[err_top s := x]\<rparr>) = ring_view (err_errors s) (err_bottom s) n @ [x]" for x
    using n assms(1) ring_view_write [of "err_errors s" n "err_bottom s" x]
    by (simp add: err_queue_def err_count_def err_wf_def)
  then show "err_queue (s\<lparr>err_errors := (err_errors s)[err_top s := f (err_errors s ! err_top s)]\<rparr>) = queue_last f (err_queue s)"
    using n(4) by (simp add: queue_last_def)
  show "err_wf (s\<lparr>err_errors := (err_errors s)[err_top s := f (err_errors s ! err_top s)]\<rparr>)"
    using assms(1) by (simp add: err_wf_def)
  show "last (err_queue s) = err_errors s ! err_top s" using n(4) by simp
qed

text \<open>What a reading function returns of an error.\<close>

definition shown :: "bool \<Rightarrow> bool \<Rightarrow> err_error \<Rightarrow> err_values" where
  "shown file_line data e =
     (err_packed e,
      if file_line then Some (case err_file e of None \<Rightarrow> ([78, 65], 0) | Some f \<Rightarrow> (f, unat (err_line e))) else None,
      if data then Some (case err_data e of None \<Rightarrow> ([], 0) | Some d \<Rightarrow> (d, ERR_FLAG_STRING)) else None)"

lemma get_queue:
  assumes "err_wf s"
  obtains s' where "get_error_values True False fl d (Some s) =
      (case err_queue s of [] \<Rightarrow> (0, None, None) | e # _ \<Rightarrow> shown fl d e, Some s')" "err_wf s'" "err_queue s' = tl (err_queue s)"
proof (cases "err_bottom s = err_top s")
  case True
  then show thesis
    using that [of s] assms err_queue_empty [OF assms] by (simp add: get_error_values_def)
next
  case False
  let ?b = "(err_bottom s + 1) mod 16"
  let ?e = "err_errors s ! ?b"
  obtain n where n: "err_count s = Suc n" "n < 15" "err_top s = (err_bottom s + n + 1) mod 16"
    "err_queue s = ?e # ring_view (err_errors s) ?b n"
    using err_queue_cases [OF assms False] by blast
  define s' where "s' = s\<lparr>err_errors := (err_errors s)[?b := no_error], err_bottom := ?b,
    to_free := (if d \<and> err_data ?e \<noteq> None then err_data ?e else to_free s)\<rparr>"
  have "get_error_values True False fl d (Some s) = (shown fl d ?e, Some s')"
    using False by (auto simp: get_error_values_def ERR_NUM_ERRORS_def s'_def shown_def err_clear_def Let_def split: option.splits)
  moreover have "err_wf s'" using assms by (simp add: err_wf_def s'_def)
  moreover have "(?b + n) mod 16 = (err_bottom s + n + 1) mod 16" by (simp add: mod_simps add_ac)
  then have "err_queue s' = ring_view (err_errors s') ?b n"
    using n(2,3) by (subst err_queueI [of n]) (simp_all add: s'_def)
  then have "err_queue s' = ring_view (err_errors s) ?b n"
    using ring_view_first [of n "err_errors s" "err_bottom s" no_error] n(2) by (simp add: s'_def)
  ultimately show thesis using that [of s'] n(4) by simp
qed

lemma peek_queue:
  assumes "err_wf s"
  shows "get_error_values False last_err fl d (Some s) =
    (if err_queue s = [] then (0, None, None) else shown fl d (if last_err then last (err_queue s) else hd (err_queue s)), Some s)"
proof (cases "err_bottom s = err_top s")
  case True
  then show ?thesis using err_queue_empty [OF assms] by (simp add: get_error_values_def)
next
  case False
  have "hd (err_queue s) = err_errors s ! ((err_bottom s + 1) mod 16)" "err_queue s \<noteq> []"
    using err_queue_cases [OF assms False] by (metis list.sel(1), metis list.distinct(1))
  then show ?thesis
    using False last_queue(3) [OF assms False]
    by (auto simp: get_error_values_def ERR_NUM_ERRORS_def shown_def Let_def split: option.splits)
qed

text \<open>Errors are dropped from the end up to a marked one, which loses its mark.\<close>

definition queue_pop :: "err_error list \<Rightarrow> bool \<times> err_error list" where
  "queue_pop q =
     (case dropWhile (\<lambda>e. \<not> err_mark e) (rev q) of
        [] \<Rightarrow> (False, [])
      | e # es \<Rightarrow> (True, rev es @ [e\<lparr>err_mark := False\<rparr>]))"

lemma pop_queue:
  assumes "err_wf s"
  shows "\<exists>s'. err_pop_loop s = Some (fst (queue_pop (err_queue s)), s') \<and> err_wf s' \<and> err_queue s' = snd (queue_pop (err_queue s))"
  using assms
proof (induction "err_count s" arbitrary: s rule: less_induct)
  case less
  show ?case
  proof (cases "err_bottom s = err_top s")
    case True
    then show ?thesis
      using less.prems err_queue_empty [OF less.prems] by (subst err_pop_loop.simps) (simp add: queue_pop_def)
  next
    case False
    let ?e = "err_errors s ! err_top s"
    obtain n where n: "err_count s = Suc n" "n < 15" "err_top s = (err_bottom s + n + 1) mod 16"
      "err_queue s = ring_view (err_errors s) (err_bottom s) n @ [?e]"
      using err_queue_cases [OF less.prems False] by blast
    show ?thesis
    proof (cases "err_mark ?e")
      case True
      then show ?thesis
        using False last_queue(1,2) [OF less.prems False, of "err_mark_update (\<lambda>_. False)"] n(4)
        by (subst err_pop_loop.simps) (simp add: queue_pop_def queue_last_def)
    next
      case unmarked: False
      define s' where "s' = s\<lparr>err_errors := (err_errors s)[err_top s := no_error], err_top := (err_bottom s + n) mod 16\<rparr>"
      have b: "err_bottom s < 16" using less.prems by (simp add: err_wf_def)
      have "(if err_top s = 0 then 15 else err_top s - 1) = (err_bottom s + n) mod 16"
        using n(3) by (simp add: mod_Suc)
      then have step: "err_pop_loop s = err_pop_loop s'"
        using False unmarked by (subst err_pop_loop.simps) (auto simp: s'_def err_clear_def ERR_NUM_ERRORS_def Let_def)
      have wf: "err_wf s'" using less.prems by (simp add: err_wf_def s'_def)
      have q: "err_queue s' = ring_view (err_errors s) (err_bottom s) n"
      proof -
        have "(err_bottom s + k + 1) mod 16 \<noteq> err_top s" if "k < n" for k
          using places_differ [OF that, of "err_bottom s"] n(2,3) by simp
        then show ?thesis
          using n(2) b by (subst err_queueI [of n]) (simp_all add: s'_def ring_view_other)
      qed
      then have "length (err_queue s') = n" "length (err_queue s) = Suc n" using n(4) by simp_all
      then have "err_count s' < err_count s" by (simp add: err_queue_def)
      from less.hyps [OF this wf] show ?thesis
        unfolding step using unmarked n(4) q by (simp add: queue_pop_def)
    qed
  qed
qed

text \<open>A saved error has lost its mark, and its data when their memory was refused.\<close>

definition saved_as :: "err_error \<Rightarrow> err_error \<Rightarrow> bool" where
  "saved_as e c \<longleftrightarrow> c = e\<lparr>err_mark := False\<rparr> \<or> c = e\<lparr>err_mark := False, err_data := None\<rparr>"

lemma copy_saved:
  assumes "err_copy mem dst e = (c, mem')"
  shows "saved_as e c" "granted mem \<Longrightarrow> c = e\<lparr>err_mark := False\<rparr>" "granted mem \<Longrightarrow> granted mem'"
  using assms granted_next
  by (cases e; auto simp: err_copy_def err_clear_def no_error_def saved_as_def Let_def case_prod_beta split: option.splits if_splits)+

lemma save_loop:
  assumes "err_save_loop es mem = (cs, mem')"
  shows "list_all2 saved_as es cs" "granted mem \<Longrightarrow> cs = map (err_mark_update (\<lambda>_. False)) es" "granted mem \<Longrightarrow> granted mem'"
proof -
  have "list_all2 saved_as es cs \<and> (granted mem \<longrightarrow> cs = map (err_mark_update (\<lambda>_. False)) es \<and> granted mem')"
    using assms
  proof (induction es arbitrary: mem cs mem')
    case (Cons e es)
    obtain c m where c: "err_copy mem no_error e = (c, m)" by (metis surj_pair)
    obtain r m2 where r: "err_save_loop es m = (r, m2)" by (metis surj_pair)
    have "cs = c # r" "mem' = m2" using Cons.prems c r by simp_all
    then show ?case using Cons.IH [OF r] copy_saved [OF c] by auto
  qed simp
  then show "list_all2 saved_as es cs" "granted mem \<Longrightarrow> cs = map (err_mark_update (\<lambda>_. False)) es" "granted mem \<Longrightarrow> granted mem'"
    by simp_all
qed

lemma restore_loop:
  assumes "err_restore_loop dst i es mem = (r, mem')" "i + length es \<le> length dst"
  shows "\<exists>cs. r = take i dst @ cs @ drop (i + length es) dst \<and> list_all2 saved_as es cs \<and>
    (granted mem \<longrightarrow> cs = map (err_mark_update (\<lambda>_. False)) es)"
  using assms
proof (induction es arbitrary: dst i mem)
  case (Cons e es)
  obtain c m where c: "err_copy mem (dst ! i) e = (c, m)" by (metis surj_pair)
  have i: "i < length dst" "i + 1 + length es \<le> length (dst[i := c])" using Cons.prems(2) by simp_all
  have "err_restore_loop (dst[i := c]) (i + 1) es m = (r, mem')" using Cons.prems(1) c by simp
  from Cons.IH [OF this i(2)] obtain cs where cs: "r = take (i + 1) (dst[i := c]) @ cs @ drop (i + 1 + length es) (dst[i := c])"
    "list_all2 saved_as es cs" "granted m \<longrightarrow> cs = map (err_mark_update (\<lambda>_. False)) es" by blast
  have "take (i + 1) (dst[i := c]) = take i dst @ [c]" using i(1) by (simp add: take_Suc_conv_app_nth)
  with cs copy_saved [OF c] show ?case by (intro exI [of _ "c # cs"]) simp
qed simp

lemma save_queue:
  assumes "err_wf s" "ERR_save_state mem (Some s) = (r, state, mem')"
  shows "state = Some s"
    and "case r of None \<Rightarrow> err_queue s = [] \<or> \<not> granted mem | Some es \<Rightarrow> es \<noteq> [] \<and> list_all2 saved_as (err_queue s) es"
    and "granted mem \<Longrightarrow> err_queue s \<noteq> [] \<Longrightarrow> r = Some (map (err_mark_update (\<lambda>_. False)) (err_queue s))"
proof -
  let ?n = "if err_top s \<ge> err_bottom s then err_top s - err_bottom s else ERR_NUM_ERRORS + err_top s - err_bottom s"
  have b: "err_top s < 16" "err_bottom s < 16" using assms(1) by (simp_all add: err_wf_def)
  then have "?n = err_count s" by (auto simp: err_count_def ERR_NUM_ERRORS_def le_mod_geq)
  then have q: "map (\<lambda>i. err_errors s ! ((err_bottom s + i + 1) mod ERR_NUM_ERRORS)) [0..<?n] = err_queue s"
    by (simp add: err_queue_def ring_view_def ERR_NUM_ERRORS_def)
  obtain ok1 m1 where m1: "mem_next mem = (ok1, m1)" by (metis surj_pair)
  obtain ok2 m2 where m2: "mem_next m1 = (ok2, m2)" by (metis surj_pair)
  obtain es m3 where es: "err_save_loop (err_queue s) m2 = (es, m3)" by (metis surj_pair)
  have g: "granted mem \<Longrightarrow> ok1 \<and> ok2 \<and> granted m2"
    using granted_next [of mem] granted_next [of m1] m1 m2 by simp
  have "(r, state, mem') = (if err_top s = err_bottom s then (None, Some s, mem) else if \<not> ok1 then (None, Some s, m1)
      else if \<not> ok2 then (None, Some s, m2) else (Some es, Some s, m3))"
    using assms(2) m1 m2 unfolding ERR_save_state_def err_get_state_def
    by (simp only: Let_def option.case prod.case q es)
  moreover have "es \<noteq> []" if "err_top s \<noteq> err_bottom s"
    using that save_loop(1) [OF es] err_queue_empty [OF assms(1)] by auto
  ultimately show "state = Some s"
    "case r of None \<Rightarrow> err_queue s = [] \<or> \<not> granted mem | Some es \<Rightarrow> es \<noteq> [] \<and> list_all2 saved_as (err_queue s) es"
    "granted mem \<Longrightarrow> err_queue s \<noteq> [] \<Longrightarrow> r = Some (map (err_mark_update (\<lambda>_. False)) (err_queue s))"
    using g save_loop [OF es] err_queue_empty [OF assms(1)] by (auto split: if_splits)
qed

lemma restore_queue:
  assumes "err_wf s" "es \<noteq> []" "length es < 16" "ERR_restore_state mem (Some s) (Some es) = (state, mem')"
  obtains s' where "state = Some s'" "err_wf s'" "list_all2 saved_as es (err_queue s')"
    "granted mem \<Longrightarrow> err_queue s' = map (err_mark_update (\<lambda>_. False)) es"
proof -
  obtain r m where r: "err_restore_loop (err_errors s) 0 es mem = (r, m)" by (metis surj_pair)
  have l: "length (err_errors s) = 16" using assms(1) by (simp add: err_wf_def)
  obtain cs where cs: "r = cs @ drop (length es) (err_errors s)" "list_all2 saved_as es cs"
    "granted mem \<longrightarrow> cs = map (err_mark_update (\<lambda>_. False)) es"
    using restore_loop [OF r] assms(3) l by auto
  have n: "length cs = length es" "0 < length es" using cs(2) assms(2) by (auto dest: list_all2_lengthD)
  define s' where "s' = s\<lparr>err_errors := r, err_top := length es - 1, err_bottom := 15\<rparr>"
  have "state = Some s'"
    using assms(4) r n(2) by (simp add: ERR_restore_state_def err_get_state_def s'_def ERR_NUM_ERRORS_def split: if_splits)
  moreover have "err_wf s'" using n assms(3) l cs(1) by (simp add: err_wf_def s'_def)
  moreover have "err_queue s' = cs"
  proof -
    obtain j where "length es = Suc j" using n(2) by (cases "length es") auto
    then have "(15 + length es) mod 16 = length es - 1" using assms(3) by simp
    then have "err_queue s' = ring_view r 15 (length es)"
      using assms(3) by (subst err_queueI [of "length es"]) (simp_all add: s'_def)
    moreover have "(15 + k + 1) mod 16 = k" if "k < length es" for k using that assms(3) by simp
    then have "ring_view r 15 (length es) = cs"
      using n(1) by (intro nth_equalityI) (simp_all add: ring_view_nth cs(1) nth_append)
    ultimately show ?thesis by simp
  qed
  ultimately show thesis using that [of s'] cs(2,3) by simp
qed

section \<open>Programs\<close>

datatype err_op =
    Op_put nat nat nat "u8 list option" nat
  | Op_get
  | Op_peek
  | Op_peek_last
  | Op_clear
  | Op_data "u8 list option list"
  | Op_mark
  | Op_pop

datatype err_result = R_done | R_values err_values | R_flag bool

fun err_step :: "err_op \<Rightarrow> ERR_STATE option \<Rightarrow> bool list \<Rightarrow> (err_result \<times> ERR_STATE option \<times> bool list) option" where
  "err_step (Op_put errno library reason file line) state mem =
     Some (R_done, ERR_put_error mem state errno library reason file line)"
| "err_step Op_get state mem = (case ERR_get_error_line_data mem state of (r, st) \<Rightarrow> Some (R_values r, st))"
| "err_step Op_peek state mem = (case ERR_peek_error_line_data mem state of (r, st) \<Rightarrow> Some (R_values r, st))"
| "err_step Op_peek_last state mem = (case ERR_peek_last_error_line_data mem state of (r, st) \<Rightarrow> Some (R_values r, st))"
| "err_step Op_clear state mem = Some (R_done, ERR_clear_error mem state)"
| "err_step (Op_data args) state mem = Some (R_done, err_add_error_vdata args mem state)"
| "err_step Op_mark state mem = (case ERR_set_mark mem state of (r, st) \<Rightarrow> Some (R_flag r, st))"
| "err_step Op_pop state mem = (case ERR_pop_to_mark mem state of None \<Rightarrow> None | Some (r, st) \<Rightarrow> Some (R_flag r, st))"

fun err_run :: "err_op list \<Rightarrow> ERR_STATE option \<Rightarrow> bool list \<Rightarrow> (err_result list \<times> ERR_STATE option \<times> bool list) option" where
  "err_run [] state mem = Some ([], state, mem)"
| "err_run (p # ps) state mem =
     (case err_step p state mem of
        None \<Rightarrow> None
      | Some (r, state, mem) \<Rightarrow>
          (case err_run ps state mem of None \<Rightarrow> None | Some (rs, st) \<Rightarrow> Some (r # rs, st)))"

text \<open>The strings that are not null.\<close>

fun given :: "'a option list \<Rightarrow> 'a list" where
  "given [] = []"
| "given (None # xs) = given xs"
| "given (Some x # xs) = x # given xs"

fun queue_step :: "err_op \<Rightarrow> err_error list \<Rightarrow> err_result \<times> err_error list" where
  "queue_step (Op_put errno library reason file line) q =
     (R_done, queue_put \<lparr>err_file = file, err_data = None,
        err_packed = ERR_PACK library (if library = ERR_LIB_SYS \<and> reason = 0 then errno else reason),
        err_line = of_nat line, err_mark = False\<rparr> q)"
| "queue_step Op_get q = (R_values (case q of [] \<Rightarrow> (0, None, None) | e # _ \<Rightarrow> shown True True e), tl q)"
| "queue_step Op_peek q = (R_values (if q = [] then (0, None, None) else shown True True (hd q)), q)"
| "queue_step Op_peek_last q = (R_values (if q = [] then (0, None, None) else shown True True (last q)), q)"
| "queue_step Op_clear q = (R_done, [])"
| "queue_step (Op_data args) q = (R_done, queue_last (err_data_update (\<lambda>_. Some (concat (given args)))) q)"
| "queue_step Op_mark q = (R_flag (q \<noteq> []), queue_last (err_mark_update (\<lambda>_. True)) q)"
| "queue_step Op_pop q = (R_flag (fst (queue_pop q)), snd (queue_pop q))"

fun queue_run :: "err_op list \<Rightarrow> err_error list \<Rightarrow> err_result list \<times> err_error list" where
  "queue_run [] q = ([], q)"
| "queue_run (p # ps) q = (let (r, q) = queue_step p q; (rs, q) = queue_run ps q in (r # rs, q))"

text \<open>The strings given as data fit in memory.\<close>

fun op_fits :: "err_op \<Rightarrow> bool" where
  "op_fits (Op_data args) \<longleftrightarrow> length (concat (given args)) + 200 < 2 ^ 64"
| "op_fits _ \<longleftrightarrow> True"

definition state_wf :: "ERR_STATE option \<Rightarrow> bool" where
  "state_wf state = (case state of None \<Rightarrow> True | Some s \<Rightarrow> err_wf s)"

definition state_queue :: "ERR_STATE option \<Rightarrow> err_error list" where
  "state_queue state = (case state of None \<Rightarrow> [] | Some s \<Rightarrow> err_queue s)"

lemma get_state_queue:
  assumes "granted mem" "state_wf state"
  obtains s mem' where "err_get_state mem state = (Some s, mem')" "granted mem'" "err_wf s" "err_queue s = state_queue state"
proof (cases state)
  case None
  let ?s = "\<lparr>err_errors = replicate ERR_NUM_ERRORS no_error, err_top = 0, err_bottom = 0, to_free = None\<rparr>"
  have "err_wf ?s" by (simp add: err_wf_def ERR_NUM_ERRORS_def)
  moreover from this have "err_queue ?s = []" using err_queue_empty [of ?s] by simp
  moreover have "err_get_state mem state = (Some ?s, snd (mem_next (snd (mem_next mem))))"
    using granted_next [OF assms(1)] granted_next [OF granted_next(2) [OF assms(1)]] None
    by (simp add: err_get_state_def case_prod_beta Let_def)
  ultimately show thesis
    using that None granted_next(2) [OF granted_next(2) [OF assms(1)]] by (simp add: state_queue_def)
next
  case (Some s)
  then show thesis using that [of s mem] assms by (simp add: err_get_state_def state_wf_def state_queue_def)
qed

lemma add_loop_data:
  assumes "granted mem" "alloced + 21 < 2 ^ 64" "length buf + length (concat (given args)) + 41 < 2 ^ 64"
  shows "\<exists>mem'. err_add_loop alloced buf args mem = (Some (buf @ concat (given args)), mem') \<and> granted mem'"
  using assms
proof (induction args arbitrary: alloced buf mem)
  case (Cons a args)
  show ?case
  proof (cases a)
    case None
    then show ?thesis using Cons by simp
  next
    case (Some str)
    then have l: "length buf + length str + length (concat (given args)) + 41 < 2 ^ 64"
      using Cons.prems(3) by simp
    then have sizes: "size_add (length buf) (length str) = length buf + length str"
      "size_add (length buf + length str) 20 = length buf + length str + 20"
      "\<not> size_add (size_add alloced 20) 1 < alloced"
      using Cons.prems(2) by (simp_all add: size_add_exact)
    obtain ok m where m: "mem_next mem = (ok, m)" by (metis surj_pair)
    then have ok: "ok" "granted m" using granted_next [OF Cons.prems(1)] by simp_all
    have "\<exists>mem'. err_add_loop (length buf + length str + 20) (buf @ str) args m =
        (Some ((buf @ str) @ concat (given args)), mem') \<and> granted mem'"
      using l ok by (intro Cons.IH) simp_all
    moreover have "\<exists>mem'. err_add_loop alloced (buf @ str) args mem =
        (Some ((buf @ str) @ concat (given args)), mem') \<and> granted mem'"
      using l Cons.prems by (intro Cons.IH) simp_all
    ultimately show ?thesis
      using Some sizes m ok by (auto simp: Let_def)
  qed
qed simp

lemma step_queue:
  assumes "granted mem" "state_wf state" "op_fits p"
  shows "\<exists>state' mem'. err_step p state mem = Some (fst (queue_step p (state_queue state)), state', mem') \<and>
    granted mem' \<and> state_wf state' \<and> state_queue state' = snd (queue_step p (state_queue state))"
proof -
  obtain s m where s: "err_get_state mem state = (Some s, m)" "granted m" "err_wf s" "err_queue s = state_queue state"
    using get_state_queue [OF assms(1,2)] .
  have get: "err_get_state m (Some s) = (Some s, m)" for m by (simp add: err_get_state_def)
  note empty = err_queue_empty [OF s(3)] and peek = peek_queue [OF s(3)]
  note reads = ERR_get_error_line_data_def ERR_peek_error_line_data_def ERR_peek_last_error_line_data_def err_read_def
  have some: "state_wf (Some s') \<longleftrightarrow> err_wf s'" "state_queue (Some s') = err_queue s'" for s'
    by (simp_all add: state_wf_def state_queue_def)
  show ?thesis
  proof (cases p)
    case (Op_put en lib rs f l)
    obtain s' where "ERR_put_error m (Some s) en lib rs f l = (Some s', m)" "err_wf s'"
      "err_queue s' = snd (queue_step p (err_queue s))" using put_queue [OF s(3), of m en lib rs f l] Op_put
      by (metis queue_step.simps(1) snd_conv)
    moreover have "ERR_put_error mem state en lib rs f l = ERR_put_error m (Some s) en lib rs f l"
      by (simp add: ERR_put_error_def s(1) get)
    ultimately show ?thesis using s Op_put by (simp add: some)
  next
    case Op_get
    obtain s' where "get_error_values True False True True (Some s) =
        (case err_queue s of [] \<Rightarrow> (0, None, None) | e # _ \<Rightarrow> shown True True e, Some s')" "err_wf s'" "err_queue s' = tl (err_queue s)"
      by (rule get_queue [OF s(3)])
    with s Op_get show ?thesis by (simp add: reads some)
  next
    case Op_peek
    then show ?thesis using s by (auto simp: reads peek some)
  next
    case Op_peek_last
    then show ?thesis using s by (auto simp: reads peek some)
  next
    case Op_clear
    let ?s = "s\<lparr>err_errors := map err_clear (err_errors s), to_free := None, err_top := 0, err_bottom := 0\<rparr>"
    have "err_wf ?s" using s(3) by (simp add: err_wf_def)
    moreover from this have "err_queue ?s = []" using err_queue_empty [of ?s] by simp
    ultimately show ?thesis using s(1,2) Op_clear by (simp add: ERR_clear_error_def some)
  next
    case (Op_data args)
    obtain ok m0 where m0: "mem_next mem = (ok, m0)" by (metis surj_pair)
    then have m0': "ok" "granted m0" using granted_next [OF assms(1)] by simp_all
    obtain m1 where m1: "err_add_loop 80 [] args m0 = (Some (concat (given args)), m1)" "granted m1"
      using add_loop_data [OF m0'(2), of 80 "[]" args] assms(3) Op_data by auto
    obtain s1 m2 where s1: "err_get_state m1 state = (Some s1, m2)" "granted m2" "err_wf s1" "err_queue s1 = state_queue state"
      using get_state_queue [OF m1(2) assms(2)] .
    show ?thesis
      using Op_data m0 m0'(1) m1(1) s1 last_queue(1,2) [OF s1(3), of "err_data_update (\<lambda>_. Some (concat (given args)))"]
        err_queue_empty [OF s1(3)]
      by (cases "err_bottom s1 = err_top s1") (auto simp: err_add_error_vdata_def err_set_error_data_def queue_last_def some)
  next
    case Op_mark
    then show ?thesis
      using s last_queue(1,2) [OF s(3), of "err_mark_update (\<lambda>_. True)"] empty
      by (cases "err_bottom s = err_top s") (auto simp: ERR_set_mark_def queue_last_def some)
  next
    case Op_pop
    then show ?thesis using s pop_queue [OF s(3)] by (auto simp: ERR_pop_to_mark_def some)
  qed
qed

text \<open>No program makes the queue longer than fifteen.\<close>

lemma queue_length: "state_wf state \<Longrightarrow> length (state_queue state) \<le> 15"
  using err_places(1) by (cases state) (fastforce simp: state_wf_def state_queue_def err_queue_def)+

section \<open>Properties\<close>

text \<open>
  C32.  While memory is granted, every program of puts, reads, marks and pops on the error state of a thread
  ends, and behaves like the same program on a queue of at most fifteen errors: a put on a full queue
  drops the oldest one, popping to a mark drops the newest ones down to the marked one, and every read
  returns what the queue shows.\<close>

theorem errors_are_a_queue:
  assumes "granted mem" "state_wf state" "\<forall>p\<in>set ps. op_fits p"
  shows "\<exists>state' mem'. err_run ps state mem = Some (fst (queue_run ps (state_queue state)), state', mem') \<and>
    state_wf state' \<and> state_queue state' = snd (queue_run ps (state_queue state)) \<and> length (state_queue state') \<le> 15"
  using assms
proof (induction ps arbitrary: state mem)
  case Nil
  then show ?case by (simp add: queue_length)
next
  case (Cons p ps)
  obtain state' mem' where s: "err_step p state mem = Some (fst (queue_step p (state_queue state)), state', mem')"
    "granted mem'" "state_wf state'" "state_queue state' = snd (queue_step p (state_queue state))"
    using step_queue [OF Cons.prems(1,2), of p] Cons.prems(3) by (meson list.set_intros(1))
  then show ?case using Cons.IH [OF s(2,3)] Cons.prems(3) by (auto simp: case_prod_beta)
qed

theorem errors_are_a_queue_witness:
  "\<exists>state mem. err_run [Op_put 0 16 100 None 7, Op_mark, Op_put 0 11 2 None 8, Op_data [Some [104], None, Some [105]], Op_peek_last, Op_pop, Op_get, Op_get] None [] =
    Some ([R_done, R_flag True, R_done, R_done, R_values (0x0b000002, Some ([78, 65], 0), Some ([104, 105], 1)), R_flag True,
           R_values (0x10000064, Some ([78, 65], 0), Some ([], 0)), R_values (0, None, None)], state, mem)"
  using errors_are_a_queue [of "[]" None "[Op_put 0 16 100 None 7, Op_mark, Op_put 0 11 2 None 8, Op_data [Some [104], None, Some [105]], Op_peek_last, Op_pop, Op_get, Op_get]"]
  by (auto simp: state_wf_def state_queue_def queue_put_def queue_last_def queue_pop_def shown_def ERR_PACK_def ERR_FLAG_STRING_def ERR_LIB_SYS_def)

text \<open>
  C33.  A saved queue is restored in order, whatever has happened to the state in between: the errors lose
  their marks, and their data only where memory was refused.\<close>

theorem saved_errors_restored:
  assumes "err_wf s" "ERR_save_state mem (Some s) = (Some es, state, mem')" "err_wf s'"
  shows "state = Some s \<and> (\<exists>s2 mem3. ERR_restore_state mem2 (Some s') (Some es) = (Some s2, mem3) \<and> err_wf s2 \<and>
      list_all2 (\<lambda>e c. c = e\<lparr>err_mark := False, err_data := err_data c\<rparr> \<and> err_data c \<in> {err_data e, None}) (err_queue s) (err_queue s2) \<and>
      (granted mem \<and> granted mem2 \<longrightarrow> err_queue s2 = map (err_mark_update (\<lambda>_. False)) (err_queue s)))"
proof -
  note save = save_queue [OF assms(1,2)]
  have es: "es \<noteq> []" "list_all2 saved_as (err_queue s) es" using save(2) by simp_all
  then have len: "length es < 16" using err_places(1) [OF assms(1)] by (auto simp: err_queue_def dest: list_all2_lengthD)
  obtain st mem3 where r: "ERR_restore_state mem2 (Some s') (Some es) = (st, mem3)" by (metis surj_pair)
  obtain s2 where s2: "st = Some s2" "err_wf s2" "list_all2 saved_as es (err_queue s2)"
    "granted mem2 \<Longrightarrow> err_queue s2 = map (err_mark_update (\<lambda>_. False)) es"
    using restore_queue [OF assms(3) es(1) len r] by metis
  have trans: "saved_as e c \<Longrightarrow> saved_as c d \<Longrightarrow> d = e\<lparr>err_mark := False, err_data := err_data d\<rparr> \<and> err_data d \<in> {err_data e, None}" for e c d
    by (auto simp: saved_as_def)
  have "list_all2 (\<lambda>e c. c = e\<lparr>err_mark := False, err_data := err_data c\<rparr> \<and> err_data c \<in> {err_data e, None}) (err_queue s) (err_queue s2)"
    using list_all2_trans [OF trans es(2) s2(3)] .
  moreover have "err_queue s2 = map (err_mark_update (\<lambda>_. False)) (err_queue s)" if "granted mem" "granted mem2"
    using that save(3) s2(4) es by (cases "err_queue s") (auto simp: comp_def)
  ultimately show ?thesis using save(1) r s2(1,2) by auto
qed

theorem saved_errors_restored_witness:
  "let s = \<lparr>err_errors = replicate 16 (no_error\<lparr>err_mark := True, err_data := Some [1]\<rparr>), err_top = 1, err_bottom = 0, to_free = None\<rparr>
   in ERR_save_state [] (Some s) = (Some [no_error\<lparr>err_data := Some [1]\<rparr>], Some s, []) \<and>
     (\<exists>s2 mem. ERR_restore_state [] (Some s) (Some [no_error\<lparr>err_data := Some [1]\<rparr>]) = (Some s2, mem) \<and>
       err_queue s2 = [no_error\<lparr>err_data := Some [1]\<rparr>])"
proof -
  define s where "s = \<lparr>err_errors = replicate 16 (no_error\<lparr>err_mark := True, err_data := Some [1]\<rparr>), err_top = 1, err_bottom = 0, to_free = None\<rparr>"
  have wf: "err_wf s" by (simp add: err_wf_def s_def)
  have q: "err_queue s = [no_error\<lparr>err_mark := True, err_data := Some [1]\<rparr>]"
    by (subst err_queueI [of 1]) (simp_all add: s_def ring_view_def)
  have save: "ERR_save_state [] (Some s) = (Some [no_error\<lparr>err_data := Some [1]\<rparr>], Some s, [])"
    by (simp add: ERR_save_state_def err_get_state_def s_def mem_next_def err_copy_def err_clear_def no_error_def Let_def)
  show ?thesis
    using saved_errors_restored [OF wf save wf, of "[]"] save q
    unfolding s_def [symmetric] Let_def by (auto simp: no_error_def)
qed

end
