(* ===== verification/Bio_Pair.thy ===== *)
theory Bio_Pair
  imports Prelude
begin

unbundle bit_operations_syntax

text \<open>
  BIO pairs (\<open>crypto/bio/pair.c\<close>) with the calls of \<open>crypto/bio/bio.c\<close> that lead to them: two ends,
  each with a ring buffer for what it writes and its peer reads.  An operation takes its own end and
  the peer.
\<close>

section \<open>State\<close>

definition BIO_FLAGS_READ :: u32 where "BIO_FLAGS_READ = 0x01"
definition BIO_FLAGS_WRITE :: u32 where "BIO_FLAGS_WRITE = 0x02"
definition BIO_FLAGS_IO_SPECIAL :: u32 where "BIO_FLAGS_IO_SPECIAL = 0x04"
definition BIO_FLAGS_RWS :: u32 where "BIO_FLAGS_RWS = BIO_FLAGS_READ OR BIO_FLAGS_WRITE OR BIO_FLAGS_IO_SPECIAL"
definition BIO_FLAGS_SHOULD_RETRY :: u32 where "BIO_FLAGS_SHOULD_RETRY = 0x08"
definition kRetryFlags :: u32 where "kRetryFlags = BIO_FLAGS_RWS OR BIO_FLAGS_SHOULD_RETRY"

text \<open>\<open>bb_peer\<close> says whether there is a peer; it is always the other end.\<close>

record bio_bio =
  bb_peer :: bool
  bb_closed :: bool
  bb_len :: nat
  bb_offset :: nat
  bb_size :: nat
  bb_buf :: "u8 list option"
  bb_request :: nat

record BIO =
  bio_init :: bool
  bio_shutdown :: int
  bio_flags :: u32
  retry_reason :: int
  num_read :: nat
  num_write :: nat
  bio_ptr :: bio_bio

abbreviation bio_ptr_map :: "(bio_bio \<Rightarrow> bio_bio) \<Rightarrow> BIO \<Rightarrow> BIO" where
  "bio_ptr_map f bio \<equiv> bio\<lparr>bio_ptr := f (bio_ptr bio)\<rparr>"

definition BIO_set_retry_read :: "BIO \<Rightarrow> BIO" where
  "BIO_set_retry_read bio = bio\<lparr>bio_flags := bio_flags bio OR BIO_FLAGS_READ OR BIO_FLAGS_SHOULD_RETRY\<rparr>"

definition BIO_set_retry_write :: "BIO \<Rightarrow> BIO" where
  "BIO_set_retry_write bio = bio\<lparr>bio_flags := bio_flags bio OR BIO_FLAGS_WRITE OR BIO_FLAGS_SHOULD_RETRY\<rparr>"

definition BIO_clear_retry_flags :: "BIO \<Rightarrow> BIO" where
  "BIO_clear_retry_flags bio = bio\<lparr>bio_flags := bio_flags bio AND NOT kRetryFlags, retry_reason := 0\<rparr>"

definition BIO_should_read :: "BIO \<Rightarrow> bool" where
  "BIO_should_read bio \<longleftrightarrow> bio_flags bio AND BIO_FLAGS_READ \<noteq> 0"

definition BIO_should_write :: "BIO \<Rightarrow> bool" where
  "BIO_should_write bio \<longleftrightarrow> bio_flags bio AND BIO_FLAGS_WRITE \<noteq> 0"

definition BIO_should_retry :: "BIO \<Rightarrow> bool" where
  "BIO_should_retry bio \<longleftrightarrow> bio_flags bio AND BIO_FLAGS_SHOULD_RETRY \<noteq> 0"

text \<open>\<open>bio_new\<close> inside \<open>BIO_new\<close>: two allocations.\<close>

definition bio_new :: "bool list \<Rightarrow> bio_bio option \<times> bool list" where
  "bio_new mem =
     (let (ok, mem) = mem_next mem
      in if \<not> ok then (None, mem)
         else (Some \<lparr>bb_peer = False, bb_closed = False, bb_len = 0, bb_offset = 0, bb_size = 17 * 1024, bb_buf = None, bb_request = 0\<rparr>, mem))"

definition BIO_new :: "bool list \<Rightarrow> BIO option \<times> bool list" where
  "BIO_new mem =
     (let (ok, mem) = mem_next mem
      in if \<not> ok then (None, mem)
         else case bio_new mem of
                (None, mem) \<Rightarrow> (None, mem)
              | (Some b, mem) \<Rightarrow>
                  (Some \<lparr>bio_init = False, bio_shutdown = 1, bio_flags = 0, retry_reason = 0, num_read = 0, num_write = 0, bio_ptr = b\<rparr>, mem))"

section \<open>Reading and writing\<close>

text \<open>
  The loops, which the asserted invariant ends after at most two passes: \<open>rest\<close> bytes are still to
  be copied, \<open>out\<close> has been read.
\<close>

partial_function (option) bio_read_loop :: "bio_bio \<Rightarrow> nat \<Rightarrow> u8 list \<Rightarrow> (u8 list \<times> bio_bio) option" where
  "bio_read_loop b rest out =
     (let chunk = (if bb_offset b + rest \<le> bb_size b then rest else bb_size b - bb_offset b);
          out = out @ take chunk (drop (bb_offset b) (case bb_buf b of None \<Rightarrow> [] | Some buf \<Rightarrow> buf));
          b = b\<lparr>bb_len := bb_len b - chunk\<rparr>;
          b = (if bb_len b \<noteq> 0 then
                 let b = b\<lparr>bb_offset := bb_offset b + chunk\<rparr>
                 in if bb_offset b = bb_size b then b\<lparr>bb_offset := 0\<rparr> else b
               else b\<lparr>bb_offset := 0\<rparr>);
          rest = rest - chunk
      in if rest \<noteq> 0 then bio_read_loop b rest out else Some (out, b))"

text \<open>The result, the bytes stored at \<open>buf\<close> and both ends; \<open>nonnull\<close> says that \<open>buf\<close> is no null pointer.\<close>

definition bio_read :: "BIO \<Rightarrow> BIO \<Rightarrow> bool \<Rightarrow> nat \<Rightarrow> (int \<times> u8 list \<times> BIO \<times> BIO) option" where
  "bio_read bio peer nonnull sz =
     (let bio = BIO_clear_retry_flags bio
      in if \<not> bio_init bio then Some (0, [], bio, peer)
         else
           let peer = bio_ptr_map (bb_request_update (\<lambda>_. 0)) peer;
               peer_b = bio_ptr peer
           in if \<not> nonnull \<or> sz = 0 then Some (0, [], bio, peer)
              else if bb_len peer_b = 0 then
                if bb_closed peer_b then Some (0, [], bio, peer)
                else
                  let bio = BIO_set_retry_read bio;
                      peer_b = (if sz \<le> bb_size peer_b then peer_b\<lparr>bb_request := sz\<rparr>
                                else peer_b\<lparr>bb_request := bb_size peer_b\<rparr>)
                  in Some (-1, [], bio, peer\<lparr>bio_ptr := peer_b\<rparr>)
              else
                let sz = (if bb_len peer_b < sz then bb_len peer_b else sz);
                    rest = sz
                in case bio_read_loop peer_b rest [] of
                     None \<Rightarrow> None
                   | Some (out, peer_b) \<Rightarrow> Some (int sz, out, bio, peer\<lparr>bio_ptr := peer_b\<rparr>))"

partial_function (option) bio_write_loop :: "bio_bio \<Rightarrow> nat \<Rightarrow> u8 list \<Rightarrow> bio_bio option" where
  "bio_write_loop b rest data =
     (let write_offset = bb_offset b + bb_len b;
          write_offset = (if write_offset \<ge> bb_size b then write_offset - bb_size b else write_offset);
          chunk = (if write_offset + rest \<le> bb_size b then rest else bb_size b - write_offset);
          b = b\<lparr>bb_buf := map_option (\<lambda>buf. blit buf write_offset (take chunk data)) (bb_buf b)\<rparr>;
          b = b\<lparr>bb_len := bb_len b + chunk\<rparr>;
          rest = rest - chunk;
          data = drop chunk data
      in if rest \<noteq> 0 then bio_write_loop b rest data else Some b)"

definition bio_write :: "BIO \<Rightarrow> BIO \<Rightarrow> u8 list option \<Rightarrow> nat \<Rightarrow> (int \<times> BIO \<times> BIO) option" where
  "bio_write bio peer buf num =
     (let bio = BIO_clear_retry_flags bio
      in case buf of
           None \<Rightarrow> Some (0, bio, peer)
         | Some data \<Rightarrow>
             if \<not> bio_init bio \<or> num = 0 then Some (0, bio, peer)
             else
               let bio = bio_ptr_map (bb_request_update (\<lambda>_. 0)) bio;
                   b = bio_ptr bio
               in if bb_closed b then Some (-1, bio, peer)
                  else if bb_len b = bb_size b then Some (-1, BIO_set_retry_write bio, peer)
                  else
                    let num = (if num > bb_size b - bb_len b then bb_size b - bb_len b else num);
                        rest = num
                    in case bio_write_loop b rest data of
                         None \<Rightarrow> None
                       | Some b \<Rightarrow> Some (int num, bio\<lparr>bio_ptr := b\<rparr>, peer))"

text \<open>The calls of \<open>bio.c\<close>; the length is an \<open>int\<close>.\<close>

definition BIO_read :: "BIO \<Rightarrow> BIO \<Rightarrow> bool \<Rightarrow> int \<Rightarrow> (int \<times> u8 list \<times> BIO \<times> BIO) option" where
  "BIO_read bio peer nonnull len =
     (if \<not> bio_init bio then Some (-2, [], bio, peer)
      else if len \<le> 0 then Some (0, [], bio, peer)
      else case bio_read bio peer nonnull (nat len) of
             None \<Rightarrow> None
           | Some (ret, out, bio, peer) \<Rightarrow>
               Some (ret, out, if ret > 0 then bio\<lparr>num_read := size_add (num_read bio) (nat ret)\<rparr> else bio, peer))"

definition BIO_write :: "BIO \<Rightarrow> BIO \<Rightarrow> u8 list option \<Rightarrow> int \<Rightarrow> (int \<times> BIO \<times> BIO) option" where
  "BIO_write bio peer inp inl =
     (if \<not> bio_init bio then Some (-2, bio, peer)
      else if inl \<le> 0 then Some (0, bio, peer)
      else case bio_write bio peer inp (nat inl) of
             None \<Rightarrow> None
           | Some (ret, bio, peer) \<Rightarrow>
               Some (ret, if ret > 0 then bio\<lparr>num_write := size_add (num_write bio) (nat ret)\<rparr> else bio, peer))"

declare bio_read_loop.simps [code] bio_write_loop.simps [code]

section \<open>Pairing and control\<close>

definition bio_destroy_pair :: "BIO \<Rightarrow> BIO \<Rightarrow> BIO \<times> BIO" where
  "bio_destroy_pair bio peer_bio =
     (if \<not> bb_peer (bio_ptr bio) then (bio, peer_bio)
      else
        let peer_bio = bio_ptr_map (bb_peer_update (\<lambda>_. False)) peer_bio;
            peer_bio = peer_bio\<lparr>bio_init := False\<rparr>;
            peer_bio = bio_ptr_map (\<lambda>b. b\<lparr>bb_len := 0, bb_offset := 0\<rparr>) peer_bio;
            bio = bio_ptr_map (bb_peer_update (\<lambda>_. False)) bio;
            bio = bio\<lparr>bio_init := False\<rparr>;
            bio = bio_ptr_map (\<lambda>b. b\<lparr>bb_len := 0, bb_offset := 0\<rparr>) bio
        in (bio, peer_bio))"

text \<open>The buffer of one end; \<open>junk\<close> is what a new one holds.\<close>

definition bio_make_buf :: "(nat \<Rightarrow> u8) \<Rightarrow> bool list \<Rightarrow> bio_bio \<Rightarrow> nat \<Rightarrow> bool \<times> bio_bio \<times> bool list" where
  "bio_make_buf junk mem b writebuf_len =
     (if bb_buf b = None then
        let b = (if writebuf_len \<noteq> 0 then b\<lparr>bb_size := writebuf_len\<rparr> else b);
            (ok, mem) = mem_next mem
        in if \<not> ok then (False, b, mem)
           else (True, b\<lparr>bb_buf := Some (map junk [0..<bb_size b]), bb_len := 0, bb_offset := 0\<rparr>, mem)
      else (True, b, mem))"

definition bio_make_pair ::
    "(nat \<Rightarrow> u8) \<Rightarrow> bool list \<Rightarrow> BIO \<Rightarrow> BIO \<Rightarrow> nat \<Rightarrow> nat \<Rightarrow> bool \<times> BIO \<times> BIO \<times> bool list" where
  "bio_make_pair junk mem bio1 bio2 writebuf1_len writebuf2_len =
     (let b1 = bio_ptr bio1; b2 = bio_ptr bio2
      in if bb_peer b1 \<or> bb_peer b2 then (False, bio1, bio2, mem)
         else
           let (ok, b1, mem) = bio_make_buf junk mem b1 writebuf1_len
           in if \<not> ok then (False, bio1\<lparr>bio_ptr := b1\<rparr>, bio2, mem)
              else
                let (ok, b2, mem) = bio_make_buf junk mem b2 writebuf2_len
                in if \<not> ok then (False, bio1\<lparr>bio_ptr := b1\<rparr>, bio2\<lparr>bio_ptr := b2\<rparr>, mem)
                   else
                     let b1 = b1\<lparr>bb_peer := True, bb_closed := False, bb_request := 0\<rparr>;
                         b2 = b2\<lparr>bb_peer := True, bb_closed := False, bb_request := 0\<rparr>
                     in (True, bio1\<lparr>bio_ptr := b1, bio_init := True\<rparr>, bio2\<lparr>bio_ptr := b2, bio_init := True\<rparr>, mem))"

definition BIO_new_bio_pair :: "(nat \<Rightarrow> u8) \<Rightarrow> bool list \<Rightarrow> nat \<Rightarrow> nat \<Rightarrow> (BIO \<times> BIO) option \<times> bool list" where
  "BIO_new_bio_pair junk mem writebuf1_len writebuf2_len =
     (let (bio1, mem) = BIO_new mem;
          (bio2, mem) = BIO_new mem
      in case (bio1, bio2) of
           (Some bio1, Some bio2) \<Rightarrow>
             (let (ok, bio1, bio2, mem) = bio_make_pair junk mem bio1 bio2 writebuf1_len writebuf2_len
              in (if ok then Some (bio1, bio2) else None, mem))
         | _ \<Rightarrow> (None, mem))"

datatype bio_cmd =
    BIO_C_GET_WRITE_BUF_SIZE | BIO_C_GET_WRITE_GUARANTEE | BIO_C_GET_READ_REQUEST | BIO_C_RESET_READ_REQUEST
  | BIO_C_SHUTDOWN_WR | BIO_CTRL_GET_CLOSE | BIO_CTRL_SET_CLOSE | BIO_CTRL_PENDING | BIO_CTRL_WPENDING
  | BIO_CTRL_FLUSH | BIO_CTRL_EOF | BIO_other_command

text \<open>\<open>ptr\<close> is the other end for \<open>BIO_CTRL_EOF\<close>, or the null pointer.\<close>

fun bio_ctrl :: "BIO \<Rightarrow> BIO \<Rightarrow> bio_cmd \<Rightarrow> int \<Rightarrow> BIO option \<Rightarrow> int \<times> BIO" where
  "bio_ctrl bio peer BIO_C_GET_WRITE_BUF_SIZE num ptr = (int (bb_size (bio_ptr bio)), bio)"
| "bio_ctrl bio peer BIO_C_GET_WRITE_GUARANTEE num ptr =
     (let b = bio_ptr bio
      in (if \<not> bb_peer b \<or> bb_closed b then 0 else int (bb_size b) - int (bb_len b), bio))"
| "bio_ctrl bio peer BIO_C_GET_READ_REQUEST num ptr = (int (bb_request (bio_ptr bio)), bio)"
| "bio_ctrl bio peer BIO_C_RESET_READ_REQUEST num ptr = (1, bio_ptr_map (bb_request_update (\<lambda>_. 0)) bio)"
| "bio_ctrl bio peer BIO_C_SHUTDOWN_WR num ptr = (1, bio_ptr_map (bb_closed_update (\<lambda>_. True)) bio)"
| "bio_ctrl bio peer BIO_CTRL_GET_CLOSE num ptr = (bio_shutdown bio, bio)"
| "bio_ctrl bio peer BIO_CTRL_SET_CLOSE num ptr = (1, bio\<lparr>bio_shutdown := num\<rparr>)"
| "bio_ctrl bio peer BIO_CTRL_PENDING num ptr =
     (if bb_peer (bio_ptr bio) then (int (bb_len (bio_ptr peer)), bio) else (0, bio))"
| "bio_ctrl bio peer BIO_CTRL_WPENDING num ptr =
     (if bb_buf (bio_ptr bio) \<noteq> None then (int (bb_len (bio_ptr bio)), bio) else (0, bio))"
| "bio_ctrl bio peer BIO_CTRL_FLUSH num ptr = (1, bio)"
| "bio_ctrl bio peer BIO_CTRL_EOF num ptr =
     (case ptr of
        None \<Rightarrow> (1, bio)
      | Some other_bio \<Rightarrow> (if bb_len (bio_ptr other_bio) = 0 \<and> bb_closed (bio_ptr other_bio) then 1 else 0, bio))"
| "bio_ctrl bio peer BIO_other_command num ptr = (0, bio)"

definition BIO_shutdown_wr :: "BIO \<Rightarrow> BIO \<Rightarrow> int \<times> BIO" where
  "BIO_shutdown_wr bio peer = bio_ctrl bio peer BIO_C_SHUTDOWN_WR 0 None"

definition BIO_ctrl_get_read_request :: "BIO \<Rightarrow> BIO \<Rightarrow> int" where
  "BIO_ctrl_get_read_request bio peer = fst (bio_ctrl bio peer BIO_C_GET_READ_REQUEST 0 None)"

definition BIO_ctrl_get_write_guarantee :: "BIO \<Rightarrow> BIO \<Rightarrow> int" where
  "BIO_ctrl_get_write_guarantee bio peer = fst (bio_ctrl bio peer BIO_C_GET_WRITE_GUARANTEE 0 None)"

section \<open>The ring buffer\<close>

definition ring_ok :: "bio_bio \<Rightarrow> bool" where
  "ring_ok b \<longleftrightarrow> (case bb_buf b of None \<Rightarrow> False | Some buf \<Rightarrow> length buf = bb_size b) \<and>
     bb_len b \<le> bb_size b \<and> bb_offset b < bb_size b"

definition contents :: "bio_bio \<Rightarrow> u8 list" where
  "contents b = map (\<lambda>k. the (bb_buf b) ! ((bb_offset b + k) mod bb_size b)) [0..<bb_len b]"

lemma length_contents [simp]: "length (contents b) = bb_len b"
  by (simp add: contents_def)

lemma contents_nth: "k < bb_len b \<Longrightarrow> contents b ! k = the (bb_buf b) ! ((bb_offset b + k) mod bb_size b)"
  by (simp add: contents_def)

lemma ring_okE:
  assumes "ring_ok b"
  obtains buf where "bb_buf b = Some buf" "length buf = bb_size b" "bb_len b \<le> bb_size b" "bb_offset b < bb_size b"
  using assms by (auto simp: ring_ok_def split: option.splits)

definition ring_get :: "nat \<Rightarrow> bio_bio \<Rightarrow> bio_bio" where
  "ring_get n b = b\<lparr>bb_len := bb_len b - n, bb_offset := (if bb_len b = n then 0 else (bb_offset b + n) mod bb_size b)\<rparr>"

lemma ring_get_ok:
  assumes "ring_ok b" "n \<le> bb_len b"
  shows "ring_ok (ring_get n b)" "contents (ring_get n b) = drop n (contents b)"
proof -
  obtain buf where b: "bb_buf b = Some buf" "length buf = bb_size b" "bb_len b \<le> bb_size b" "bb_offset b < bb_size b"
    using ring_okE [OF assms(1)] .
  have "bb_len b - n \<le> bb_size b" using b(3) by linarith
  then show "ring_ok (ring_get n b)" using b by (simp add: ring_ok_def ring_get_def)
  have "contents (ring_get n b) ! k = contents b ! (n + k)" if "k < bb_len b - n" for k
  proof -
    have "contents (ring_get n b) ! k = the (bb_buf b) ! (((bb_offset b + n) mod bb_size b + k) mod bb_size b)"
      using that by (subst contents_nth) (auto simp: ring_get_def)
    also have "\<dots> = contents b ! (n + k)"
      using that by (subst contents_nth) (simp_all add: mod_add_left_eq add.assoc)
    finally show ?thesis .
  qed
  then show "contents (ring_get n b) = drop n (contents b)"
    by (intro nth_equalityI) (simp_all add: ring_get_def assms(2))
qed

lemma read_chunk:
  assumes "ring_ok b" "n \<le> bb_len b" "bb_offset b + n \<le> bb_size b"
  shows "take n (drop (bb_offset b) (case bb_buf b of None \<Rightarrow> [] | Some buf \<Rightarrow> buf)) = take n (contents b)"
proof -
  obtain buf where b: "bb_buf b = Some buf" "length buf = bb_size b"
    using ring_okE [OF assms(1)] by metis
  have "buf ! (bb_offset b + k) = contents b ! k" if "k < n" for k
    using that assms(2,3) b(1) by (simp add: contents_nth)
  then show ?thesis
    using assms(2,3) by (intro nth_equalityI) (simp_all add: b)
qed

lemma read_pass:
  assumes "ring_ok b" "0 < n" "n \<le> bb_len b" "bb_offset b + n \<le> bb_size b"
  shows "(let b = b\<lparr>bb_len := bb_len b - n\<rparr>
      in if bb_len b \<noteq> 0 then
           let b = b\<lparr>bb_offset := bb_offset b + n\<rparr>
           in if bb_offset b = bb_size b then b\<lparr>bb_offset := 0\<rparr> else b
         else b\<lparr>bb_offset := 0\<rparr>) = ring_get n b"
  using assms by (auto simp: ring_get_def Let_def)

lemma ring_get_add:
  assumes "ring_ok b" "m < n" "n \<le> bb_len b"
  shows "ring_get (n - m) (ring_get m b) = ring_get n b"
proof -
  have "((bb_offset b + m) mod bb_size b + (n - m)) mod bb_size b = (bb_offset b + n) mod bb_size b"
    using mod_add_left_eq [of "bb_offset b + m" "bb_size b" "n - m"] assms(2) by simp
  then show ?thesis using assms(2,3) by (auto simp: ring_get_def)
qed

lemma bio_read_loop_straight:
  assumes "ring_ok b" "0 < n" "n \<le> bb_len b" "bb_offset b + n \<le> bb_size b"
  shows "bio_read_loop b n out = Some (out @ take n (contents b), ring_get n b)"
  using assms(4) read_pass [OF assms] read_chunk [OF assms(1,3,4)]
  by (subst bio_read_loop.simps) (simp add: Let_def)

lemma bio_read_loop_eq:
  assumes "ring_ok b" "0 < n" "n \<le> bb_len b"
  shows "bio_read_loop b n out = Some (out @ take n (contents b), ring_get n b)"
proof (cases "bb_offset b + n \<le> bb_size b")
  case True
  then show ?thesis by (rule bio_read_loop_straight [OF assms])
next
  case False
  define c b' where "c = bb_size b - bb_offset b" and "b' = ring_get c b"
  have o: "bb_offset b < bb_size b" "bb_len b \<le> bb_size b" using ring_okE [OF assms(1)] by auto
  have c: "0 < c" "c \<le> bb_len b" "bb_offset b + c \<le> bb_size b" "c < n"
    using False assms(2,3) o by (auto simp: c_def)
  have b': "ring_ok b'" "contents b' = drop c (contents b)"
    using ring_get_ok [OF assms(1) c(2)] by (simp_all add: b'_def)
  have "bb_offset b' = 0" using c o by (simp add: b'_def ring_get_def c_def)
  then have rest: "0 < n - c" "n - c \<le> bb_len b'" "bb_offset b' + (n - c) \<le> bb_size b'"
    using c assms(3) o by (auto simp: b'_def ring_get_def)
  have "bio_read_loop b n out = bio_read_loop b' (n - c) (out @ take c (contents b))"
    using False c(4) read_pass [OF assms(1) c(1-3)] read_chunk [OF assms(1) c(2,3)]
    by (subst bio_read_loop.simps) (simp add: Let_def b'_def flip: c_def)
  also have "\<dots> = Some ((out @ take c (contents b)) @ take (n - c) (contents b'), ring_get (n - c) b')"
    by (rule bio_read_loop_straight [OF b'(1) rest])
  also have "(out @ take c (contents b)) @ take (n - c) (contents b') = out @ take n (contents b)"
    using take_add [of c "n - c" "contents b"] c(4) by (simp add: b'(2))
  also have "ring_get (n - c) b' = ring_get n b"
    unfolding b'_def by (rule ring_get_add [OF assms(1) c(4) assms(3)])
  finally show ?thesis .
qed

section \<open>Writing to the ring\<close>

lemma mod_once: "a < s \<Longrightarrow> b \<le> s \<Longrightarrow> (a + b) mod s = (if a + b < s then a + b else a + b - (s::nat))"
  by (auto simp: le_mod_geq)

text \<open>One pass of the loop: \<open>d\<close> fits between the write position and the end of the array.\<close>

definition ring_put :: "u8 list \<Rightarrow> bio_bio \<Rightarrow> bio_bio" where
  "ring_put d b = b\<lparr>bb_buf := map_option (\<lambda>buf. blit buf ((bb_offset b + bb_len b) mod bb_size b) d) (bb_buf b),
     bb_len := bb_len b + length d\<rparr>"

lemma nth_blit:
  assumes "off + length xs \<le> length b" "i < length b"
  shows "blit b off xs ! i = (if off \<le> i \<and> i < off + length xs then xs ! (i - off) else b ! i)"
  using assms by (auto simp: blit_def nth_append)

lemma ring_put_ok:
  assumes "ring_ok b" "bb_len b + length d \<le> bb_size b" "(bb_offset b + bb_len b) mod bb_size b + length d \<le> bb_size b"
  shows "ring_ok (ring_put d b)" "contents (ring_put d b) = contents b @ d"
proof -
  define w where "w = (bb_offset b + bb_len b) mod bb_size b"
  obtain buf where b: "bb_buf b = Some buf" "length buf = bb_size b" "bb_len b \<le> bb_size b" "bb_offset b < bb_size b"
    using ring_okE [OF assms(1)] .
  have w: "w + length d \<le> length buf" using assms(3) by (simp add: w_def b(2))
  have w': "w = (if bb_offset b + bb_len b < bb_size b then bb_offset b + bb_len b else bb_offset b + bb_len b - bb_size b)"
    unfolding w_def by (rule mod_once [OF b(4,3)])
  show "ring_ok (ring_put d b)"
    using assms(2) w b by (simp add: ring_ok_def ring_put_def w_def)
  have "contents (ring_put d b) ! k = (contents b @ d) ! k" if k: "k < bb_len b + length d" for k
  proof -
    define p where "p = (bb_offset b + k) mod bb_size b"
    have p': "p = (if bb_offset b + k < bb_size b then bb_offset b + k else bb_offset b + k - bb_size b)"
      unfolding p_def using k assms(2) by (intro mod_once b(4)) simp
    have "p < bb_size b" using b(4) by (simp add: p_def)
    have "contents (ring_put d b) ! k = blit buf w d ! p"
      using k by (subst contents_nth) (simp_all add: ring_put_def b(1) w_def p_def)
    also have "\<dots> = (if w \<le> p \<and> p < w + length d then d ! (p - w) else buf ! p)"
      using nth_blit [OF w] \<open>p < bb_size b\<close> b(2) by simp
    also have "\<dots> = (contents b @ d) ! k"
    proof (cases "k < bb_len b")
      case True
      have "\<not> (w \<le> p \<and> p < w + length d)"
        unfolding p' w' using True k assms(2) b(3,4) by (auto split: if_splits)
      then show ?thesis using True by (auto simp: nth_append contents_nth b(1) p_def)
    next
      case False
      have "w \<le> p \<and> p < w + length d \<and> p - w = k - bb_len b"
        using False k assms(2,3) b(3,4) w unfolding p' w' b(2) by (auto split: if_splits)
      then show ?thesis using False by (simp add: nth_append)
    qed
    finally show ?thesis .
  qed
  then show "contents (ring_put d b) = contents b @ d"
    by (intro nth_equalityI) (simp_all add: ring_put_def)
qed

lemma write_offset:
  assumes "ring_ok b"
  shows "(if bb_offset b + bb_len b \<ge> bb_size b then bb_offset b + bb_len b - bb_size b else bb_offset b + bb_len b)
    = (bb_offset b + bb_len b) mod bb_size b"
proof -
  obtain "bb_offset b < bb_size b" "bb_len b \<le> bb_size b" using ring_okE [OF assms] .
  from mod_once [OF this] show ?thesis by simp
qed

lemma bio_write_loop_straight:
  assumes "ring_ok b" "0 < n" "bb_len b + n \<le> bb_size b"
    "(bb_offset b + bb_len b) mod bb_size b + n \<le> bb_size b" "n \<le> length data"
  shows "bio_write_loop b n data = Some (ring_put (take n data) b)"
  using assms(2,4,5)
  by (subst bio_write_loop.simps) (simp add: Let_def ring_put_def write_offset [OF assms(1)] min_absorb2)

lemma ring_put_frame:
  assumes "ring_ok b"
  shows "ring_put d b = b\<lparr>bb_buf := Some (the (bb_buf (ring_put d b))), bb_len := bb_len b + length d\<rparr>"
proof -
  obtain buf where "bb_buf b = Some buf" using ring_okE [OF assms] .
  then show ?thesis by (simp add: ring_put_def)
qed

lemma bio_write_loop_ok:
  assumes b: "ring_ok b" and n: "0 < n" "bb_len b + n \<le> bb_size b" "n \<le> length data"
  obtains buf b' where "bio_write_loop b n data = Some b'" "b' = b\<lparr>bb_buf := Some buf, bb_len := bb_len b + n\<rparr>"
    "ring_ok b'" "contents b' = contents b @ take n data"
proof (cases "(bb_offset b + bb_len b) mod bb_size b + n \<le> bb_size b")
  case True
  show ?thesis
  proof (rule that)
    show "bio_write_loop b n data = Some (ring_put (take n data) b)"
      by (rule bio_write_loop_straight [OF b n(1,2) True n(3)])
    show "ring_put (take n data) b = b\<lparr>bb_buf := Some (the (bb_buf (ring_put (take n data) b))), bb_len := bb_len b + n\<rparr>"
      using ring_put_frame [OF b, of "take n data"] n(3) by (simp add: min_absorb2)
    show "ring_ok (ring_put (take n data) b)" "contents (ring_put (take n data) b) = contents b @ take n data"
      using ring_put_ok [OF b, of "take n data"] n(2,3) True by simp_all
  qed
next
  case False
  define w c b1 where "w = (bb_offset b + bb_len b) mod bb_size b" and "c = bb_size b - w"
    and "b1 = ring_put (take c data) b"
  obtain o: "bb_offset b < bb_size b" using ring_okE [OF b] .
  have w: "w < bb_size b" using o by (simp add: w_def)
  have c: "c < n" "0 < c" "c \<le> length data" "w + c = bb_size b"
    using False w n(3) by (auto simp: c_def w_def)
  have b1: "ring_ok b1" "contents b1 = contents b @ take c data"
    using ring_put_ok [OF b, of "take c data"] c n(2) by (simp_all add: b1_def w_def)
  have f: "bb_len b1 = bb_len b + c" "bb_size b1 = bb_size b" "bb_offset b1 = bb_offset b"
    using c(3) by (simp_all add: b1_def ring_put_def)
  have w1: "(bb_offset b1 + bb_len b1) mod bb_size b1 = 0"
    using mod_add_left_eq [of "bb_offset b + bb_len b" "bb_size b" c] c(4) by (simp add: f w_def add.assoc)
  have rest: "0 < n - c" "bb_len b1 + (n - c) \<le> bb_size b1"
    "(bb_offset b1 + bb_len b1) mod bb_size b1 + (n - c) \<le> bb_size b1" "n - c \<le> length (drop c data)"
    using c n w1 by (simp_all add: f)
  let ?b' = "ring_put (take (n - c) (drop c data)) b1"
  have "bio_write_loop b n data = bio_write_loop b1 (n - c) (drop c data)"
    using False c by (subst bio_write_loop.simps)
      (simp add: Let_def b1_def ring_put_def min_absorb2 write_offset [OF b] flip: w_def c_def)
  also have "\<dots> = Some ?b'" by (rule bio_write_loop_straight [OF b1(1) rest])
  finally have loop: "bio_write_loop b n data = Some ?b'" .
  have frame: "?b' = b1\<lparr>bb_buf := Some (the (bb_buf ?b')), bb_len := bb_len b + n\<rparr>"
    using ring_put_frame [OF b1(1), of "take (n - c) (drop c data)"] rest(4) c(1) f(1) by (simp add: min_absorb2)
  show ?thesis
  proof (rule that [OF loop])
    show "?b' = b\<lparr>bb_buf := Some (the (bb_buf ?b')), bb_len := bb_len b + n\<rparr>"
      by (subst frame) (simp add: b1_def ring_put_def)
    show "ring_ok ?b'" "contents ?b' = contents b @ take n data"
      using ring_put_ok [OF b1(1), of "take (n - c) (drop c data)"] rest c(1) take_add [of c "n - c" data] b1(2)
      by simp_all
  qed
qed

section \<open>The two calls\<close>

lemma ring_frame [simp]:
  "ring_ok (b\<lparr>bb_request := r\<rparr>) = ring_ok b" "contents (b\<lparr>bb_request := r\<rparr>) = contents b"
  "ring_ok (b\<lparr>bb_closed := c\<rparr>) = ring_ok b" "contents (b\<lparr>bb_closed := c\<rparr>) = contents b"
  by (auto simp: ring_ok_def contents_def split: option.splits)

lemma contents_empty [simp]: "contents b = [] \<longleftrightarrow> bb_len b = 0" "[] = contents b \<longleftrightarrow> bb_len b = 0"
  by (metis length_contents length_0_conv)+

lemma retry_flags [simp]:
  "bio_ptr (BIO_clear_retry_flags bio) = bio_ptr bio" "bio_init (BIO_clear_retry_flags bio) = bio_init bio"
  "bio_ptr (BIO_set_retry_read bio) = bio_ptr bio" "bio_init (BIO_set_retry_read bio) = bio_init bio"
  "bio_ptr (BIO_set_retry_write bio) = bio_ptr bio" "bio_init (BIO_set_retry_write bio) = bio_init bio"
  by (simp_all add: BIO_clear_retry_flags_def BIO_set_retry_read_def BIO_set_retry_write_def)

lemma or_and_nonzero: "z \<noteq> 0 \<Longrightarrow> x AND z = z \<Longrightarrow> (w OR x) AND z \<noteq> (0::u32)"
  by (simp add: bit.conj_disj_distrib2 or_eq_0_iff)

lemma retry_set [simp]:
  "BIO_should_read (BIO_set_retry_read bio)" "BIO_should_retry (BIO_set_retry_read bio)"
  "BIO_should_write (BIO_set_retry_write bio)" "BIO_should_retry (BIO_set_retry_write bio)"
  by (simp_all add: BIO_should_read_def BIO_should_write_def BIO_should_retry_def BIO_set_retry_read_def
      BIO_set_retry_write_def or_and_nonzero BIO_FLAGS_READ_def BIO_FLAGS_WRITE_def BIO_FLAGS_SHOULD_RETRY_def)

text \<open>A read of an end that is ready, in each case.\<close>

lemma BIO_read_cases:
  assumes "bio_init bio" "ring_ok (bio_ptr peer)" "0 < n"
  shows "BIO_read bio peer True n =
    (let p = bio_ptr peer; k = min (bb_len p) (nat n); bio' = BIO_clear_retry_flags bio
     in if bb_len p = 0
        then if bb_closed p then Some (0, [], bio', bio_ptr_map (bb_request_update (\<lambda>_. 0)) peer)
             else Some (-1, [], BIO_set_retry_read bio', bio_ptr_map (bb_request_update (\<lambda>_. min (nat n) (bb_size p))) peer)
        else Some (int k, take k (contents p), bio'\<lparr>num_read := size_add (num_read bio) k\<rparr>,
               peer\<lparr>bio_ptr := ring_get k (p\<lparr>bb_request := 0\<rparr>)\<rparr>))"
proof (cases "bb_len (bio_ptr peer) = 0")
  case True
  then show ?thesis
    using assms by (auto simp: BIO_read_def bio_read_def Let_def min_def)
next
  case False
  let ?k = "min (bb_len (bio_ptr peer)) (nat n)" let ?p = "(bio_ptr peer)\<lparr>bb_request := 0\<rparr>"
  have k: "0 < ?k" using False assms(3) by simp
  have "bio_read_loop ?p ?k [] = Some (take ?k (contents ?p), ring_get ?k ?p)"
    using bio_read_loop_eq [of ?p ?k "[]"] assms(2) k by simp
  moreover have "(if bb_len (bio_ptr peer) < nat n then bb_len (bio_ptr peer) else nat n) = ?k" by simp
  moreover have "num_read (BIO_clear_retry_flags bio) = num_read bio" by (simp add: BIO_clear_retry_flags_def)
  ultimately show ?thesis
    using assms False k by (simp add: BIO_read_def bio_read_def Let_def min_def cong: if_cong)
qed

text \<open>A write to an end that is ready.\<close>

lemma BIO_write_cases:
  assumes "bio_init bio" "ring_ok (bio_ptr bio)" "0 < n" "nat n \<le> length d"
  obtains
    (closed) bio' where "BIO_write bio peer (Some d) n = Some (-1, bio', peer)" "bb_closed (bio_ptr bio)"
      "bio_ptr bio' = (bio_ptr bio)\<lparr>bb_request := 0\<rparr>" "bio_init bio'"
  | (full) bio' where "BIO_write bio peer (Some d) n = Some (-1, bio', peer)" "\<not> bb_closed (bio_ptr bio)"
      "bb_len (bio_ptr bio) = bb_size (bio_ptr bio)" "bio_ptr bio' = (bio_ptr bio)\<lparr>bb_request := 0\<rparr>" "bio_init bio'"
      "BIO_should_write bio'" "BIO_should_retry bio'"
  | (wrote) bio' k where "BIO_write bio peer (Some d) n = Some (int k, bio', peer)" "\<not> bb_closed (bio_ptr bio)"
      "k = min (nat n) (bb_size (bio_ptr bio) - bb_len (bio_ptr bio))" "0 < k"
      "ring_ok (bio_ptr bio')" "contents (bio_ptr bio') = contents (bio_ptr bio) @ take k d" "bio_init bio'"
      "bb_closed (bio_ptr bio') = False" "bb_peer (bio_ptr bio') = bb_peer (bio_ptr bio)"
      "bb_size (bio_ptr bio') = bb_size (bio_ptr bio)"
proof (cases "bb_closed (bio_ptr bio)")
  case True
  show ?thesis
    by (rule closed [OF _ True, of "bio_ptr_map (bb_request_update (\<lambda>_. 0)) (BIO_clear_retry_flags bio)"])
      (use assms True in \<open>simp_all add: BIO_write_def bio_write_def Let_def\<close>)
next
  case open': False
  let ?b = "(bio_ptr bio)\<lparr>bb_request := 0\<rparr>"
  let ?bio = "bio_ptr_map (bb_request_update (\<lambda>_. 0)) (BIO_clear_retry_flags bio)"
  show ?thesis
  proof (cases "bb_len ?b = bb_size ?b")
    case True
    show ?thesis
      by (rule full [of "BIO_set_retry_write ?bio", OF _ open'])
        (use assms True open' in \<open>simp_all add: BIO_write_def bio_write_def Let_def\<close>)
  next
    case False
    define k where "k = min (nat n) (bb_size (bio_ptr bio) - bb_len (bio_ptr bio))"
    have len: "bb_len ?b < bb_size ?b" using ring_okE [OF assms(2)] False by fastforce
    then have k: "0 < k" "bb_len ?b + k \<le> bb_size ?b" "k \<le> length d" using assms(3,4) by (auto simp: k_def)
    have "ring_ok ?b" using assms(2) by simp
    from bio_write_loop_ok [OF this k]
    obtain buf b' where b': "bio_write_loop ?b k d = Some b'" "b' = ?b\<lparr>bb_buf := Some buf, bb_len := bb_len ?b + k\<rparr>"
      "ring_ok b'" "contents b' = contents ?b @ take k d" .
    let ?w = "?bio\<lparr>bio_ptr := b'\<rparr>"
    have "(if nat n > bb_size ?b - bb_len ?b then bb_size ?b - bb_len ?b else nat n) = k"
      by (simp add: k_def)
    then have w: "BIO_write bio peer (Some d) n = Some (int k, ?w\<lparr>num_write := size_add (num_write ?w) k\<rparr>, peer)"
      using assms k(1) open' len b'(1)
      by (simp add: BIO_write_def bio_write_def Let_def cong: if_cong)
    show ?thesis
      by (rule wrote [OF w open' k_def k(1)])
        (use assms(1) b' open' in \<open>simp_all add: k_def\<close>)
  qed
qed

section \<open>A pair in use\<close>

text \<open>
  The two ends, with what each was given to write and what its peer has read of it.  The ends are
  \<open>True\<close> and \<open>False\<close>, so that \<open>\<not> i\<close> is the peer of \<open>i\<close>.
\<close>

record pair_state =
  ends :: "bool \<Rightarrow> BIO"
  accepted :: "bool \<Rightarrow> u8 list"
  delivered :: "bool \<Rightarrow> u8 list"

definition new_pair :: "BIO \<times> BIO \<Rightarrow> pair_state" where
  "new_pair p = \<lparr>ends = (\<lambda>i. if i then fst p else snd p), accepted = (\<lambda>_. []), delivered = (\<lambda>_. [])\<rparr>"

inductive pair_step :: "pair_state \<Rightarrow> pair_state \<Rightarrow> bool" where
  pair_write:
    "BIO_write (ends s i) (ends s (\<not> i)) (Some d) n = Some (ret, b, p) \<Longrightarrow> nat n \<le> length d \<Longrightarrow>
     pair_step s (s\<lparr>ends := (ends s)(i := b, \<not> i := p),
       accepted := (accepted s)(i := accepted s i @ take (nat ret) d)\<rparr>)"
| pair_read:
    "BIO_read (ends s i) (ends s (\<not> i)) nonnull n = Some (ret, out, b, p) \<Longrightarrow>
     pair_step s (s\<lparr>ends := (ends s)(i := b, \<not> i := p),
       delivered := (delivered s)(\<not> i := delivered s (\<not> i) @ out)\<rparr>)"
| pair_ctrl:
    "bio_ctrl (ends s i) (ends s (\<not> i)) cmd num ptr = (ret, b) \<Longrightarrow>
     pair_step s (s\<lparr>ends := (ends s)(i := b)\<rparr>)"

inductive pair_reach :: "pair_state \<Rightarrow> bool" where
  pair_new: "BIO_new_bio_pair junk mem w1 w2 = (Some p, mem') \<Longrightarrow> pair_reach (new_pair p)"
| pair_step: "pair_reach s \<Longrightarrow> pair_step s s' \<Longrightarrow> pair_reach s'"

definition end_ok :: "BIO \<Rightarrow> bool" where
  "end_ok bio \<longleftrightarrow> bio_init bio \<and> bb_peer (bio_ptr bio) \<and> ring_ok (bio_ptr bio)"

definition pair_inv :: "pair_state \<Rightarrow> bool" where
  "pair_inv s \<longleftrightarrow> (\<forall>i. end_ok (ends s i) \<and> accepted s i = delivered s i @ contents (bio_ptr (ends s i)))"

lemma bio_make_buf_fresh:
  assumes "bio_make_buf junk mem b w = (True, b', mem')" "bb_buf b = None" "0 < bb_size b"
  shows "ring_ok b'" "bb_len b' = 0" "contents b' = []"
  using assms by (auto simp: bio_make_buf_def ring_ok_def Let_def split: prod.splits if_splits)

lemma new_pair_inv:
  assumes "BIO_new_bio_pair junk mem w1 w2 = (Some p, mem')"
  shows "pair_inv (new_pair p)"
proof -
  obtain b1 b2 m1 m2 where new: "BIO_new mem = (Some b1, m1)" "BIO_new m1 = (Some b2, m2)"
    using assms by (auto simp: BIO_new_bio_pair_def Let_def split: prod.splits option.splits)
  have fresh: "bb_buf (bio_ptr b) = None" "0 < bb_size (bio_ptr b)" if "BIO_new m = (Some b, m')" for b m m'
    using that by (auto simp: BIO_new_def bio_new_def Let_def split: prod.splits option.splits if_splits)
  obtain bio1 bio2 where p: "p = (bio1, bio2)" "bio_make_pair junk m2 b1 b2 w1 w2 = (True, bio1, bio2, mem')"
    using assms new by (auto simp: BIO_new_bio_pair_def split: prod.splits if_splits)
  obtain c1 m3 c2 where c: "bio_make_buf junk m2 (bio_ptr b1) w1 = (True, c1, m3)"
    "bio_make_buf junk m3 (bio_ptr b2) w2 = (True, c2, mem')"
    "bio1 = b1\<lparr>bio_ptr := c1\<lparr>bb_peer := True, bb_closed := False, bb_request := 0\<rparr>, bio_init := True\<rparr>"
    "bio2 = b2\<lparr>bio_ptr := c2\<lparr>bb_peer := True, bb_closed := False, bb_request := 0\<rparr>, bio_init := True\<rparr>"
    using p(2) by (auto simp: bio_make_pair_def Let_def split: prod.splits if_splits)
  note r1 = bio_make_buf_fresh [OF c(1) fresh [OF new(1)]]
  note r2 = bio_make_buf_fresh [OF c(2) fresh [OF new(2)]]
  have e: "ring_ok (b\<lparr>bb_peer := x\<rparr>) = ring_ok b" "contents (b\<lparr>bb_peer := x\<rparr>) = contents b" for b x
    by (auto simp: ring_ok_def contents_def split: option.splits)
  show ?thesis
    using r1 r2 by (auto simp: pair_inv_def new_pair_def end_ok_def p(1) c(3,4) e)
qed

lemma pair_inv_frame:
  assumes "pair_inv s" "end_ok b" "contents (bio_ptr b) = contents (bio_ptr (ends s i))"
  shows "pair_inv (s\<lparr>ends := (ends s)(i := b)\<rparr>)"
  using assms by (auto simp: pair_inv_def)

lemma ring_get_frame: "bb_peer (ring_get n b) = bb_peer b" "bb_closed (ring_get n b) = bb_closed b"
  "bb_size (ring_get n b) = bb_size b"
  by (simp_all add: ring_get_def)

lemma pair_write_inv:
  assumes inv: "pair_inv s" and w: "BIO_write (ends s i) (ends s (\<not> i)) (Some d) n = Some (ret, b, p)" "nat n \<le> length d"
  shows "pair_inv (s\<lparr>ends := (ends s)(i := b, \<not> i := p), accepted := (accepted s)(i := accepted s i @ take (nat ret) d)\<rparr>)"
proof (cases "0 < n")
  case False
  have "bio_init (ends s i)" using inv by (simp add: pair_inv_def end_ok_def)
  then have "b = ends s i" "p = ends s (\<not> i)" "ret = 0" using w(1) False by (simp_all add: BIO_write_def)
  then show ?thesis using inv by (auto simp: pair_inv_def)
next
  case True
  have ok: "bio_init (ends s i)" "ring_ok (bio_ptr (ends s i))" "bb_peer (bio_ptr (ends s i))"
    using inv by (simp_all add: pair_inv_def end_ok_def)
  show ?thesis
    by (rule BIO_write_cases [OF ok(1,2) True w(2), of "ends s (\<not> i)"])
      (use w(1) ok inv in \<open>auto simp: pair_inv_def end_ok_def\<close>)
qed

lemma pair_read_inv:
  assumes inv: "pair_inv s" and r: "BIO_read (ends s i) (ends s (\<not> i)) nonnull n = Some (ret, out, b, p)"
  shows "pair_inv (s\<lparr>ends := (ends s)(i := b, \<not> i := p), delivered := (delivered s)(\<not> i := delivered s (\<not> i) @ out)\<rparr>)"
proof (cases "0 < n \<and> nonnull")
  case False
  have ok: "bio_init (ends s i)" using inv by (simp add: pair_inv_def end_ok_def)
  have "out = []" "end_ok b" "end_ok p" "contents (bio_ptr b) = contents (bio_ptr (ends s i))"
    "contents (bio_ptr p) = contents (bio_ptr (ends s (\<not> i)))"
    using r False ok inv by (auto simp: BIO_read_def bio_read_def Let_def pair_inv_def end_ok_def split: if_splits)
  then show ?thesis using inv by (auto simp: pair_inv_def)
next
  case True
  have ok: "bio_init (ends s i)" "ring_ok (bio_ptr (ends s (\<not> i)))" using inv by (simp_all add: pair_inv_def end_ok_def)
  let ?q = "bio_ptr (ends s (\<not> i))"
  let ?k = "min (bb_len ?q) (nat n)"
  have e: "end_ok b" "end_ok p" "contents (bio_ptr b) = contents (bio_ptr (ends s i))" "contents ?q = out @ contents (bio_ptr p)"
    using r True BIO_read_cases [OF ok, of n] inv ring_get_ok [of "?q\<lparr>bb_request := 0\<rparr>" ?k]
    by (auto simp: Let_def pair_inv_def end_ok_def ring_get_frame split: if_splits)
  then show ?thesis using inv by (auto simp: pair_inv_def)
qed

lemma pair_ctrl_inv:
  assumes inv: "pair_inv s" and c: "bio_ctrl (ends s i) (ends s (\<not> i)) cmd num ptr = (ret, b)"
  shows "pair_inv (s\<lparr>ends := (ends s)(i := b)\<rparr>)"
proof (rule pair_inv_frame [OF inv])
  have ok: "end_ok (ends s i)" using inv by (simp add: pair_inv_def)
  show "end_ok b" "contents (bio_ptr b) = contents (bio_ptr (ends s i))"
    using c ok by (cases cmd; auto simp: Let_def end_ok_def split: if_splits option.splits)+
qed

lemma pair_reach_inv: "pair_reach s \<Longrightarrow> pair_inv s"
proof (induction rule: pair_reach.induct)
  case (pair_new junk mem w1 w2 p mem')
  then show ?case by (rule new_pair_inv)
next
  case (pair_step s s')
  from pair_step(2,3) show ?case
    by (cases rule: pair_step.cases) (auto intro: pair_write_inv pair_read_inv pair_ctrl_inv)
qed

text \<open>After a shutdown nothing more is accepted, and the end stays closed.\<close>

lemma closed_stays:
  assumes "pair_inv s" "pair_step s s'" "bb_closed (bio_ptr (ends s i))"
  shows "bb_closed (bio_ptr (ends s' i)) \<and> accepted s' i = accepted s i"
  using assms(2)
proof (cases rule: pair_step.cases)
  case (pair_write j d n ret b p)
  have ok: "bio_init (ends s j)" "ring_ok (bio_ptr (ends s j))" using assms(1) by (simp_all add: pair_inv_def end_ok_def)
  have "p = ends s (\<not> j) \<and> (bb_closed (bio_ptr (ends s j)) \<longrightarrow> bb_closed (bio_ptr b) \<and> nat ret = 0)"
  proof (cases "0 < n")
    case False
    then show ?thesis using pair_write(2) ok by (auto simp: BIO_write_def)
  next
    case True
    show ?thesis
      by (rule BIO_write_cases [OF ok True pair_write(3), of "ends s (\<not> j)"]) (use pair_write(2) in auto)
  qed
  then show ?thesis using pair_write(1) assms(3) by (cases "j = i") auto
next
  case (pair_read j nonnull n ret out b p)
  have ok: "bio_init (ends s j)" "ring_ok (bio_ptr (ends s (\<not> j)))" using assms(1) by (simp_all add: pair_inv_def end_ok_def)
  have "bb_closed (bio_ptr b) = bb_closed (bio_ptr (ends s j)) \<and> bb_closed (bio_ptr p) = bb_closed (bio_ptr (ends s (\<not> j)))"
  proof (cases "0 < n \<and> nonnull")
    case False
    then show ?thesis using pair_read(2) ok by (auto simp: BIO_read_def bio_read_def Let_def split: if_splits)
  next
    case True
    then show ?thesis
      using pair_read(2) BIO_read_cases [OF ok, of n] by (auto simp: Let_def ring_get_frame split: if_splits)
  qed
  then show ?thesis using pair_read(1) assms(3) by (cases "j = i") auto
next
  case (pair_ctrl j cmd num ptr ret b)
  have "bb_closed (bio_ptr (ends s j)) \<Longrightarrow> bb_closed (bio_ptr b)"
    using pair_ctrl(2) by (cases cmd) (auto simp: Let_def split: if_splits option.splits)
  then show ?thesis using pair_ctrl(1) assms(3) by (cases "j = i") auto
qed

text \<open>
  C30.  Two ends made by \<open>BIO_new_bio_pair\<close> and used by any calls, in any order, with any arguments:
  what an end's peer has read is an initial part of what the end has accepted, in order and with
  nothing lost or repeated; the rest, which both ends' pending counts give, fits in the buffer.
\<close>

theorem pair_stream:
  assumes "pair_reach s"
  shows "\<exists>unread. accepted s i = delivered s i @ unread \<and> length unread \<le> bb_size (bio_ptr (ends s i)) \<and>
    bio_ctrl (ends s i) (ends s (\<not> i)) BIO_CTRL_WPENDING num ptr = (int (length unread), ends s i) \<and>
    bio_ctrl (ends s (\<not> i)) (ends s i) BIO_CTRL_PENDING num ptr = (int (length unread), ends s (\<not> i))"
proof -
  have "pair_inv s" by (rule pair_reach_inv [OF assms])
  then have "end_ok (ends s i)" "end_ok (ends s (\<not> i))" "accepted s i = delivered s i @ contents (bio_ptr (ends s i))"
    by (simp_all add: pair_inv_def)
  then show ?thesis
    by (intro exI [of _ "contents (bio_ptr (ends s i))"]) (auto simp: end_ok_def ring_ok_def split: option.splits)
qed

text \<open>A pair with four bytes in each direction, after a write of three bytes and a read of two.\<close>

lemma pair_example:
  obtains s where "pair_reach s" "accepted s True = [1, 2, 3]" "delivered s True = [1, 2]"
proof -
  define p where "p = the (fst (BIO_new_bio_pair (\<lambda>_. 0) [] 4 4))"
  have new: "BIO_new_bio_pair (\<lambda>_. 0) [] 4 4 = (Some p, [])"
    by (simp add: p_def BIO_new_bio_pair_def BIO_new_def bio_new_def bio_make_pair_def bio_make_buf_def mem_next_def Let_def)
  have fresh: "bio_init (fst p)" "ring_ok (bio_ptr (fst p))" "\<not> bb_closed (bio_ptr (fst p))"
    "bb_len (bio_ptr (fst p)) = 0" "bb_size (bio_ptr (fst p)) = 4"
    by (simp_all add: p_def BIO_new_bio_pair_def BIO_new_def bio_new_def bio_make_pair_def bio_make_buf_def
        mem_next_def Let_def ring_ok_def)
  obtain b where w: "BIO_write (fst p) (snd p) (Some [1, 2, 3]) 3 = Some (3, b, snd p)"
    by (rule BIO_write_cases [OF fresh(1,2), of 3 "[1, 2, 3]" "snd p"]) (use fresh in auto)
  let ?s0 = "new_pair p"
  have "pair_reach ?s0" by (rule pair_new [OF new])
  moreover have w: "BIO_write (ends ?s0 True) (ends ?s0 (\<not> True)) (Some [1, 2, 3]) 3 = Some (3, b, snd p)"
    using w by (simp add: new_pair_def)
  define s1 where "s1 = ?s0\<lparr>ends := (ends ?s0)(True := b, \<not> True := snd p), accepted := (accepted ?s0)(True := [1, 2, 3])\<rparr>"
  have "pair_step ?s0 s1" using pair_write [OF w] by (simp add: s1_def new_pair_def)
  ultimately have s1: "pair_reach s1" "accepted s1 True = [1, 2, 3]" "delivered s1 True = []"
    by (auto intro: pair_step simp: s1_def new_pair_def)
  have inv: "pair_inv s1" by (rule pair_reach_inv [OF s1(1)])
  then have c: "contents (bio_ptr (ends s1 True)) = [1, 2, 3]" using s1(2,3) by (simp add: pair_inv_def)
  then have len: "bb_len (bio_ptr (ends s1 True)) = 3" by (metis length_contents length_Cons list.size(3) numeral_3_eq_3)
  have "bio_init (ends s1 False)" "ring_ok (bio_ptr (ends s1 True))" using inv by (simp_all add: pair_inv_def end_ok_def)
  from BIO_read_cases [OF this, of 2] obtain b p'
    where "BIO_read (ends s1 False) (ends s1 (\<not> False)) True 2 = Some (2, [1, 2], b, p')"
    by (auto simp: Let_def c len)
  from that [OF pair_step [OF s1(1) pair_read [OF this]]] show ?thesis using s1(2,3) by simp
qed

lemma pair_stream_witness:
  "\<exists>s::pair_state. accepted s True = [1, 2, 3] \<and> delivered s True = [1, 2] \<and>
     bio_ctrl (ends s False) (ends s True) BIO_CTRL_PENDING 0 None = (1, ends s False)"
proof -
  obtain s where "pair_reach s" "accepted s True = [1, 2, 3]" "delivered s True = [1, 2]" by (rule pair_example)
  moreover from this pair_stream [OF this(1), of True 0 None]
  have "bio_ctrl (ends s False) (ends s True) BIO_CTRL_PENDING 0 None = (1, ends s False)" by auto
  ultimately show ?thesis by blast
qed

text \<open>
  C31.  In such a pair a read of the peer returns the next bytes that were written, as many as there
  are or were asked for; with none it reports the end of the stream when the writer has shut down and a
  retry otherwise.  A write takes what fits, and fails when the end has shut down or, with a retry, when
  the buffer is full.
\<close>

theorem pair_progress:
  assumes "pair_reach s" "0 < n" "nat n \<le> length d"
  shows "\<exists>unread. accepted s i = delivered s i @ unread \<and>
    (\<exists>ret out b p. BIO_read (ends s (\<not> i)) (ends s i) True n = Some (ret, out, b, p) \<and>
       out = take (nat n) unread \<and>
       (if unread \<noteq> [] then ret = int (length out) \<and> 0 < ret
        else if bb_closed (bio_ptr (ends s i)) then ret = 0
        else ret = -1 \<and> BIO_should_retry b \<and> BIO_should_read b)) \<and>
    (\<exists>ret b p. BIO_write (ends s i) (ends s (\<not> i)) (Some d) n = Some (ret, b, p) \<and>
       (if bb_closed (bio_ptr (ends s i)) then ret = -1
        else if length unread = bb_size (bio_ptr (ends s i)) then ret = -1 \<and> BIO_should_retry b \<and> BIO_should_write b
        else ret = min n (int (bb_size (bio_ptr (ends s i)) - length unread)) \<and> 0 < ret))"
proof (intro exI [of _ "contents (bio_ptr (ends s i))"] conjI)
  have inv: "pair_inv s" by (rule pair_reach_inv [OF assms(1)])
  show "accepted s i = delivered s i @ contents (bio_ptr (ends s i))" using inv by (simp add: pair_inv_def)
  have ok: "bio_init (ends s (\<not> i))" "bio_init (ends s i)" "ring_ok (bio_ptr (ends s i))"
    using inv by (simp_all add: pair_inv_def end_ok_def)
  let ?p = "bio_ptr (ends s i)"
  show "\<exists>ret out b p. BIO_read (ends s (\<not> i)) (ends s i) True n = Some (ret, out, b, p) \<and>
       out = take (nat n) (contents ?p) \<and>
       (if contents ?p \<noteq> [] then ret = int (length out) \<and> 0 < ret
        else if bb_closed ?p then ret = 0 else ret = -1 \<and> BIO_should_retry b \<and> BIO_should_read b)"
    using BIO_read_cases [OF ok(1,3) assms(2)] assms(2)
    by (auto simp: Let_def min_def)
  show "\<exists>ret b p. BIO_write (ends s i) (ends s (\<not> i)) (Some d) n = Some (ret, b, p) \<and>
       (if bb_closed ?p then ret = -1
        else if length (contents ?p) = bb_size ?p then ret = -1 \<and> BIO_should_retry b \<and> BIO_should_write b
        else ret = min n (int (bb_size ?p - length (contents ?p))) \<and> 0 < ret)"
    by (rule BIO_write_cases [OF ok(2,3) assms(2,3), of "ends s (\<not> i)"]) (use assms(2) in \<open>auto simp: min_def\<close>)
qed

lemma pair_progress_witness:
  "\<exists>(s::pair_state) b p. accepted s True = [1, 2, 3] \<and> BIO_read (ends s False) (ends s True) True 5 = Some (1, [3], b, p)"
proof -
  obtain s where "pair_reach s" "accepted s True = [1, 2, 3]" "delivered s True = [1, 2]" by (rule pair_example)
  moreover from this pair_progress [OF this(1), of 5 "[0, 0, 0, 0, 0]" True]
  have "\<exists>b p. BIO_read (ends s False) (ends s True) True 5 = Some (1, [3], b, p)" by auto
  ultimately show ?thesis by blast
qed

end
