(* ===== verification/Spec2Isabelle.thy ===== *)
theory Spec2Isabelle
  imports Cbb_Errors Ber_Search Set_Of Names Base64 Buf Stack Lhash Digests Rc4 Hkdf Pbkdf Tls_Kdf Siphash Chacha Err Bio_Pair
begin

text \<open>
  A verification library for the C core of BoringSSL-GRPC, the cryptography library of the
  application (\<open>src/Artable/Pods/BoringSSL-GRPC/src\<close>, below which all file names here are).  Its
  readers and writers of structured data, its containers, and its hash functions with what is
  built on them are translated from the C code, one definition per C function and with its
  guards, early returns and buffers, and proved to do what their callers rely on.

  How the code is modelled.
  \<^item> An integer has its width: \<open>u8\<close>, \<open>u16\<close>, \<open>u32\<close> and \<open>u64\<close> are words, with the wrap-around of the
    machine.  A \<open>size_t\<close> is a word where its overflow matters, and else a \<open>nat\<close> whose additions
    that may wrap are written \<open>size_add\<close> (64 bits).
  \<^item> A function that fails returns \<open>None\<close> or \<open>False\<close> with the state it leaves behind.  Where the C
    code would be undefined (an access outside an object), the model returns \<open>None\<close> as well.
  \<^item> State is passed: a structure is a record, an operation returns it updated.
  \<^item> The C library is a parameter.  The outcomes of coming allocations are a list (\<open>mem\<close>, an empty
    list granting all), the contents of fresh memory an arbitrary function, \<open>qsort\<close> any function
    that sorts.  \<open>granted mem\<close> says that no allocation is refused.
  \<^item> A loop is recursion on what it consumes.  Those whose end needs an argument are
    \<open>partial_function (option)\<close>, where \<open>None\<close> is not returning; each is proved to return.  The one
    bound in the code, \<open>kMaxDepth\<close> of the BER conversion, is its own; no fuel is added to any
    definition.

  The parts, and how they call one another.

  Interfaces.  \<open>Prelude\<close> has the machine types, byte order, allocation and shared lemmas.  \<open>Codec\<close>
  states what a reader promises (\<open>prefix_parser\<close>) and what a reader and its reference encoding
  promise together (\<open>codec\<close>); \<open>Compare\<close> the contract of comparison functions (\<open>comparator\<close>).

  Byte strings (\<open>crypto/bytestring\<close>).  \<open>Cbs\<close> and \<open>Cbs_Asn1\<close> are the readers of \<open>cbs.c\<close>; \<open>Asn1_Ints\<close>
  says which contents the typed ones accept.  \<open>Cbb\<close> is the builder of \<open>cbb.c\<close>, an object with a
  growable buffer and a chain of open children; \<open>Cbb_Spec\<close> has its invariant \<open>cbb_wf\<close> and its
  specification, a stack of byte strings, which \<open>Cbb_Ops\<close> shows every operation to refine.
  \<open>Cbb_Asn1\<close> has the ASN.1 writers with \<open>asn1_compat.c\<close>, \<open>Cbb_Asn1_Spec\<close> their reference encodings;
  \<open>Cbb_Roundtrip\<close> puts writers and readers together (\<open>cbb_writer\<close>, \<open>cbb_codec\<close>), and \<open>Cbb_Progress\<close>
  shows when the builder succeeds (\<open>total_codec\<close>), \<open>Cbb_Errors\<close> what it does after a failure.  On these rest \<open>Oid\<close> (object identifiers and
  their text), \<open>Set_Of\<close> (the order of a SET OF), \<open>Unicode\<close> (\<open>unicode.c\<close>: UTF-8, Latin-1, UCS-2,
  UTF-32) with \<open>Mbstring\<close> (\<open>crypto/asn1/a_mbstr.c\<close>: conversion of ASN.1
  strings) and \<open>Names\<close> (\<open>crypto/x509v3/v3_utl.c\<close>: checks of a certificate against a name), and \<open>Ber\<close> with \<open>Ber_Spec\<close> and \<open>Ber_Search\<close>
  (\<open>ber.c\<close>: BER to DER, and what the search for BER finds).

  Memory and containers.  \<open>Mem\<close> is \<open>crypto/mem.c\<close> over a heap of blocks; \<open>Buf\<close>
  (\<open>crypto/buf/buf.c\<close>), \<open>Stack\<close> (\<open>crypto/stack/stack.c\<close>) and \<open>Lhash\<close> (\<open>crypto/lhash/lhash.c\<close>, with
  its contract \<open>keyed_set\<close>) are built on the allocator.  \<open>Err\<close> is the ring of errors of
  \<open>crypto/err/err.c\<close>, \<open>Bio_Pair\<close> the two connected ends of \<open>crypto/bio/pair.c\<close> with their ring
  buffers and the calls of \<open>crypto/bio/bio.c\<close>.  \<open>Base64\<close> is \<open>crypto/base64/base64.c\<close>, whose
  decoder uses the constant-time helpers of \<open>crypto/internal.h\<close> (\<open>Consttime\<close>).

  Digests (\<open>crypto/fipsmodule\<close>).  \<open>Blocks\<close> states what a block function promises its collector
  (\<open>block_function\<close>) and what its loop promises (\<open>block_loop\<close>).  \<open>Collector\<close> has what the two
  collectors share; \<open>Md32\<close> is the one of \<open>digest/md32_common.h\<close>, and \<open>Sha512\<close> has its own.  \<open>Sha2\<close>
  is the compression function of FIPS 180-4 and the proof that rounds which rename their
  variables and keep sixteen words of the schedule compute it (\<open>sha2_window\<close>, \<open>sha2_rounds\<close>);
  \<open>Sha256\<close>, \<open>Sha512\<close>, \<open>Sha1\<close>, \<open>Md4\<close> and \<open>Md5\<close> are the digests and \<open>Digests\<close> what they promise.
  \<open>Evp\<close> is the digest interface (\<open>digest/digests.c\<close>, \<open>digest/digest.c\<close>): its contract \<open>evp_digest\<close>
  is interpreted on all eight methods of the table, and \<open>Hmac\<close> (\<open>hmac/hmac.c\<close>), \<open>Hkdf\<close>
  (\<open>crypto/hkdf/hkdf.c\<close>), \<open>Pbkdf\<close> (\<open>crypto/evp/pbkdf.c\<close>) and \<open>Tls_Kdf\<close> (\<open>tls/kdf.c\<close>) are proved once
  for every method that keeps it.

  Ciphers.  \<open>Rc4\<close> (\<open>crypto/rc4/rc4.c\<close>), \<open>Chacha\<close> (\<open>crypto/chacha/chacha.c\<close>), \<open>Siphash\<close>
  (\<open>crypto/siphash/siphash.c\<close>).

  What is shown.  The properties are numbered C1 to C40 and stand in the theory of the component
  they are about, those of the byte-string library here.
  \<^item> Readers accept exactly the reference encodings (C5, C6, C8, C12); what writers produce is
    read back (C7, C11, C17, C18); character strings keep their characters when they are converted
    (C9), and a certificate is accepted for a host exactly if one of its names matches (C10).
  \<^item> The builder refines its stack of byte strings (C3), renders the message it is given (C2),
    succeeds whenever the message fits (C1), and keeps its errors (C4); a SET OF is sorted (C13).
  \<^item> BER is converted to the DER rendering of the same items, which is DER at every depth (C14),
    and no well-formed input is refused (C15); but the search takes BER before a last DER child for
    DER (C16).
  \<^item> The unrolled block functions are those of the standards (C19 to C21), and the digests, HMAC
    and the derivations on top give the values of FIPS 180-4 and the RFCs for every message, key
    and cutting into calls (C22 to C27); so do SipHash and ChaCha20 (C28, C29).
  \<^item> A BIO pair delivers what was accepted, in order (C30), and its calls make progress (C31);
    the ring of errors is a queue (C32), which can be saved (C33); RC4 keys stay permutations (C34).
  \<^item> The hash table refines a partial function (C35, C36), the stack finds what it holds once
    sorted (C37) unless an element is replaced (C38), and the allocator has its bounds (C39) and
    wipes what it releases (C40).
  Where a property has hypotheses, the theorem after it applies it to a concrete input.

  Not modelled.  Assembly and what depends on it: the accelerated variants of the digests and
  ciphers, and the inner loops of the big numbers and elliptic curves (\<open>crypto/fipsmodule/bn\<close>,
  \<open>ec\<close>).  AES with its modes, GCM, Poly1305 and the public-key algorithms.  The structures of
  \<open>crypto/asn1\<close> and \<open>crypto/x509\<close> other than strings, which are driven by tables of templates with
  untyped memory; the check of names takes a certificate's names as decoded.
  Formatting through \<open>printf\<close>, files, sockets, threads and locks, which only call the system.  The
  rest of the repository is C++, Objective-C and Swift: TLS (\<open>ssl\<close>), gRPC, Firebase, and the
  application.
\<close>

text \<open>Concrete elements are evaluated with these.\<close>

lemmas der_eval = der_element_def der_header_def der_len_enc_def
  asn1_tag_enc_def CBS_ASN1_TAG_NUMBER_MASK_def

lemma eoc_bytes: "OPENSSL_memcmp [a, b] [0, 0] 2 = 0 \<longleftrightarrow> a = 0 \<and> b = 0"
  by (simp add: numeral_2_eq_2) (auto simp: word_uint_eq_iff)

text \<open>A fresh builder whose allocations succeed, run to its end.\<close>

lemma fresh_build:
  assumes "items_ok is" "items_fit is" "length (render is) < 2 ^ 64" "cap < 2 ^ 64"
  obtains c c1 c2 where "CBB_init [] fresh cap = (True, c)" "build 0 is c = (True, c1)"
    "CBB_finish 0 True c1 = (Some (render is), c2)"
proof -
  obtain ok c where c: "CBB_init [] fresh cap = (ok, c)" by force
  have ok: "ok" "cbb_capacity (length (render is)) c"
    using CBB_init_capacity [of "length (render is)" cap fresh] assms c by simp_all
  with CBB_init_spec [OF _ assms(4), of "[]" fresh c] c
    build_finish [OF _ ok(2) _ _ assms(1,2)] that show thesis
    by (metis order_refl prod.collapse)
qed

text \<open>
  C1.  A message of nested length-prefixed and ASN.1 children is built whenever it can be:
  in a fresh builder whose allocations succeed, if every child's contents fit their prefix
  and the whole fits in memory, all calls succeed and \<open>CBB_finish\<close> returns exactly the
  rendering of the message.\<close>

theorem build_total:
  assumes "items_ok is" "items_fit is" "length (render is) < 2 ^ 64" "cap < 2 ^ 64"
  shows "fst (CBB_init [] fresh cap) \<and> fst (build 0 is (snd (CBB_init [] fresh cap))) \<and>
    fst (CBB_finish 0 True (snd (build 0 is (snd (CBB_init [] fresh cap))))) = Some (render is)"
  by (rule fresh_build [OF assms, of fresh]) simp

theorem build_total_witness:
  "fst (CBB_finish 0 True (snd (build 0 [Element 0x20000010 [Bytes [1, 2], Prefixed 2 [Bytes [9]]], Bytes [7]]
     (snd (CBB_init [] (\<lambda>_. 0) 4))))) = Some [0x30, 5, 1, 2, 0, 1, 9, 7]"
proof -
  let ?is = "[Element 0x20000010 [Bytes [1, 2], Prefixed 2 [Bytes [9]]], Bytes [7]]"
  have r: "render ?is = [0x30, 5, 1, 2, 0, 1, 9, 7]"
    by (simp add: der_eval be_bytes_numeral)
  have ok: "items_ok ?is" "items_fit ?is" by simp_all
  show ?thesis
    using build_total [OF ok, of 4 "\<lambda>_. 0"] unfolding r by simp
qed

text \<open>
  C2.  Whatever the allocator does and whether or not the items fit: when all calls and
  \<open>CBB_finish\<close> succeed, the message returned is the rendering, and every length that a prefix
  announces was small enough for it.\<close>

theorem built_is_rendering:
  assumes "CBB_init mem fresh cap = (True, c)" "cap < 2 ^ 64" "items_ok is"
    and "build 0 is c = (True, c1)" "CBB_finish 0 outs c1 = (Some out, c2)"
  shows "out = render is \<and> items_fit is"
  using finish_build [OF CBB_init_spec(1-3) [OF assms(1,2)] assms(3-5)] .

theorem built_is_rendering_witness:
  "\<exists>c c1 c2 out. CBB_init [] (\<lambda>_. 0) 1 = (True, c) \<and>
     build 0 [Prefixed 1 [Bytes [7, 8]]] c = (True, c1) \<and>
     CBB_finish 0 True c1 = (Some out, c2) \<and> out = [2, 7, 8]"
proof -
  let ?is = "[Prefixed 1 [Bytes [7, 8]]]"
  have r: "render ?is = [2, 7, 8]" by (simp add: be_bytes_numeral)
  obtain c c1 c2 where
    "CBB_init [] (\<lambda>_. 0) 1 = (True, c)" "build 0 ?is c = (True, c1)"
    "CBB_finish 0 True c1 = (Some (render ?is), c2)"
    by (rule fresh_build [of ?is 1 "\<lambda>_. 0"]) (simp_all add: r)
  moreover from built_is_rendering [OF this(1) _ _ this(2,3)] have "render ?is = [2, 7, 8]"
    unfolding r by simp
  ultimately show ?thesis by metis
qed

text \<open>
  C3.  \<open>CBB_flush\<close> refines the abstract builder.  On success the children above depth \<open>d\<close>
  are closed, innermost first, each by the prefix for its length put before its contents; on
  failure the whole builder is unusable from then on, or the handle was already stale.  The
  representation invariant holds after the call in either case.\<close>

theorem flush_refines:
  assumes "cbb_wf c" "CBB_flush d c = (ok, c')"
  shows "cbb_wf c' \<and>
    (if ok then d \<le> length (cbb_chain c) \<and> cbb_chain c' = take d (cbb_chain c) \<and>
       cbb_view c' = close_to d (cbb_view c)
     else \<not> cbb_live c' \<or> length (cbb_chain c) < d)"
  using CBB_flush_spec [OF assms(1), of d] assms(2) by (cases ok) (auto simp: flushed_def)

theorem flush_refines_witness:
  "let b = \<lparr>b_buf = [0, 7, 8, 0], b_len = 3, b_cap = 4, b_can_resize = True, b_error = False,
            b_mem = [], b_fresh = \<lambda>_. 0\<rparr>;
       c = \<lparr>cbb_base = Some b, cbb_chain = [\<lparr>c_offset = 0, c_pending_len_len = 1, c_pending_is_asn1 = False\<rparr>]\<rparr>;
       c' = c\<lparr>cbb_base := Some (b\<lparr>b_buf := [2, 7, 8, 0]\<rparr>), cbb_chain := []\<rparr>
   in CBB_flush 0 c = (True, c') \<and> cbb_wf c' \<and> open_levels (close_to 0 (cbb_view c)) = [[2, 7, 8]]"
proof -
  define b where "b = \<lparr>b_buf = [0, 7, 8, 0], b_len = 3, b_cap = 4, b_can_resize = True,
    b_error = False, b_mem = [], b_fresh = \<lambda>_. 0\<rparr>"
  define c where "c = \<lparr>cbb_base = Some b,
    cbb_chain = [\<lparr>c_offset = 0, c_pending_len_len = 1, c_pending_is_asn1 = False\<rparr>]\<rparr>"
  define c' where "c' = c\<lparr>cbb_base := Some (b\<lparr>b_buf := [2, 7, 8, 0]\<rparr>), cbb_chain := []\<rparr>"
  have wf: "cbb_wf c" by (simp add: cbb_wf_def c_def b_def buffer_wf_def child_wf_def child_end_def)
  have fl: "CBB_flush 0 c = (True, c')"
    by (simp add: CBB_flush.simps c_def c'_def b_def on_base_def andthen_def size_add_def cbb_flush_prefix_def)
  have "open_levels (cbb_view c') = [[2, 7, 8]]"
    by (simp add: cbb_view_def view_def c'_def c_def b_def b_written_def)
  with flush_refines [OF wf fl] fl show ?thesis by (simp add: b_def c_def c'_def Let_def)
qed

text \<open>
  C4.  Errors stick.  Whatever is called on a builder that has failed (or was finished or cleaned
  up), any number of times, it stays unusable: every writer fails and leaves it as it is, and
  \<open>CBB_finish\<close> and \<open>CBB_finish_i2d\<close> give no output, so a caller may check the last call only.
  \<open>CBB_discard_child\<close>, which returns nothing, and \<open>CBB_did_write\<close> do not look at the error:
  \<open>CBB_did_write\<close> returns one whenever the length is within the capacity of the buffer.\<close>

theorem builder_error_sticks:
  assumes "\<not> cbb_live c" "rtranclp cbb_step c c'"
  shows "\<not> cbb_live c' \<and> (\<forall>d f. cbb_write_call d f \<longrightarrow> f c' = (False, c')) \<and>
    CBB_finish d outs c' = (None, c') \<and> CBB_finish_i2d d c' outp = (- 1, I2d_none) \<and>
    (fst (CBB_did_write d n c') \<longleftrightarrow> (\<exists>b. cbb_base c' = Some b \<and> length (cbb_chain c') = d \<and>
       b_len b \<le> size_add (b_len b) n \<and> size_add (b_len b) n \<le> b_cap b))"
proof -
  have c': "\<not> cbb_live c'" using failed_steps [OF assms(2,1)] .
  then show ?thesis
    using failed_writer [OF c'] failed_finish [OF c'] did_write_returns [of d n c'] by (simp add: CBB_finish_i2d_def)
qed

theorem builder_error_sticks_witness:
  "\<exists>b. let c = \<lparr>cbb_base = Some b, cbb_chain = []\<rparr>; c' = snd (CBB_did_write 0 2 c)
     in CBB_add_bytes 0 [1, 2, 3] (snd (CBB_init_fixed [] (\<lambda>_. 0) [0, 0])) = (False, c) \<and>
        fst (CBB_did_write 0 2 c) \<and> CBB_add_u8 0 1 c' = (False, c') \<and> CBB_finish 0 True c' = (None, c')"
proof -
  obtain b where b: "CBB_add_bytes 0 [1, 2, 3] (snd (CBB_init_fixed [] (\<lambda>_. 0) [0, 0])) =
      (False, \<lparr>cbb_base = Some b, cbb_chain = []\<rparr>)" "b_error b" "b_len b = 0" "b_cap b = 2"
    by (simp add: CBB_init_fixed_def cbb_init_def mem_next_def CBB_add_bytes_def
        CBB_flush.simps andthen_def on_base_def cbb_buffer_add_def cbb_buffer_reserve_def size_add_def
        cbb_buffer_err_def Let_def)
  define c where "c = \<lparr>cbb_base = Some b, cbb_chain = []\<rparr>"
  have "\<not> cbb_live c" using b(2) by (simp add: cbb_live_def c_def)
  note sticks = builder_error_sticks [OF this]
  have "fst (CBB_did_write 0 2 c)"
    using sticks [OF rtranclp.rtrancl_refl, of 0 _ _ 2] b(3,4) by (simp add: c_def size_add_def)
  moreover have "rtranclp cbb_step c (snd (CBB_did_write 0 2 c))" using cbb_step.did_write by blast
  note later = sticks [OF this]
  have "CBB_add_u8 0 1 (snd (CBB_did_write 0 2 c)) = (False, snd (CBB_did_write 0 2 c))"
    using later cbb_write_call.intros(5) by blast
  ultimately show ?thesis using b(1) later by (auto simp: c_def Let_def intro!: exI [of _ b])
qed

text \<open>
  C5.  The DER element reader accepts exactly the DER encodings: it returns an element, its tag
  and the length of its header if and only if the input starts with the canonical header of that
  tag and length, followed by the contents.\<close>

theorem der_element_reader:
  "CBS_get_any_asn1_element s = Some ((out, tag, hl), r) \<longleftrightarrow>
   (\<exists>c. length c < 2 ^ 32 \<and> out = der_element tag c \<and> hl = length (der_header tag (length c)) \<and>
      s = der_element tag c @ r)"
  by (rule CBS_get_any_asn1_element_iff)

text \<open>
  C6.  An INTEGER is read as the 64-bit value \<open>v\<close> if and only if its contents are the shortest
  two's complement form of \<open>v\<close>; that form is minimal in the sense of X.690.\<close>

theorem int64_reader:
  "(CBS_get_asn1_int64 s = Some (v, r) \<longleftrightarrow> s = der_element CBS_ASN1_INTEGER (asn1_int_contents v) @ r) \<and>
   minimal_int (asn1_int_contents v)"
proof -
  have "u64_enc v \<noteq> []" by (metis length_u64_enc list.size(3) zero_neq_numeral)
  then show ?thesis using int_strip_minimal by (simp add: CBS_get_asn1_int64_iff asn1_int_contents_def)
qed

text \<open>
  C7.  Any list of 64-bit integers is written as DER in a fresh builder and read back
  unchanged.\<close>

theorem int64_round_trip:
  assumes "length (concat (map (\<lambda>v. der_element CBS_ASN1_INTEGER (asn1_int_contents v)) vs)) < 2 ^ 64"
    and "cap < 2 ^ 64"
  shows "\<exists>c c1 c2 out. CBB_init [] fresh cap = (True, c) \<and> put_all CBB_add_asn1_int64 0 vs c = (True, c1) \<and>
    CBB_finish 0 True c1 = (Some out, c2) \<and> parse_many CBS_get_asn1_int64 out = Some vs"
  by (rule asn1_int64.total_round_trip [of vs cap fresh]) (use assms in \<open>auto simp: list.pred_True\<close>)

theorem int64_round_trip_witness:
  "\<exists>c c1 c2 out. CBB_init [] (\<lambda>_. 0) 0 = (True, c) \<and>
    put_all CBB_add_asn1_int64 0 [- 129, 0, 128] c = (True, c1) \<and>
    CBB_finish 0 True c1 = (Some out, c2) \<and> parse_many CBS_get_asn1_int64 out = Some [- 129, 0, 128]"
  by (rule int64_round_trip) (simp_all add: der_eval CBS_ASN1_INTEGER_def asn1_int_contents_def u64_enc_def be_bytes_numeral)

text \<open>
  C8.  A UTF-8 reader succeeds if and only if the input starts with the encoding of a code point
  (no surrogate, no noncharacter, at most 10FFFF), in its shortest form; it returns that code point and
  the rest of the input.\<close>

theorem utf8_reader:
  "cbs_get_utf8 s = Some (u, r) \<longleftrightarrow> code_point (unat u) \<and> s = utf8_enc (unat u) @ r"
  by (rule utf8.parse_iff)

text \<open>
  Any list of code points is written as UTF-8 in a fresh builder, with as many octets as
  \<open>cbb_get_utf8_len\<close> announces, and read back unchanged; the writer refuses anything else.\<close>

theorem utf8_round_trip:
  assumes "list_all (\<lambda>u. code_point (unat u)) us" "length us < 2 ^ 61" "cap < 2 ^ 64"
  shows "\<exists>c c1 c2 out. CBB_init [] fresh cap = (True, c) \<and> put_all cbb_add_utf8 0 us c = (True, c1) \<and>
    CBB_finish 0 True c1 = (Some out, c2) \<and> length out = sum_list (map cbb_get_utf8_len us) \<and>
    parse_many cbs_get_utf8 out = Some us"
proof -
  have len: "length (concat (map (\<lambda>u. utf8_enc (unat u)) us)) = sum_list (map cbb_get_utf8_len us)"
    using assms(1) by (induction us) (simp_all add: cbb_get_utf8_len_eq)
  have "sum_list (map cbb_get_utf8_len us) \<le> 4 * length us"
    by (induction us) (simp_all add: cbb_get_utf8_len_def)
  then have "length (concat (map (\<lambda>u. utf8_enc (unat u)) us)) < 2 ^ 64" using assms(2) len by simp
  from utf8.total_round_trip [OF assms(1) this assms(3), of fresh] show ?thesis unfolding len [symmetric] by metis
qed

text \<open>Concrete identifiers are evaluated with these.\<close>

lemmas oid_eval = decimal.simps [of "numeral w" for w] decimal.simps [of "Suc 0"]
  base128_high.simps [of "numeral w" for w] base128_enc_def

text \<open>
  C11.  An OBJECT IDENTIFIER in dotted decimal form is encoded by \<open>CBB_add_asn1_oid_from_text\<close>
  and printed back by \<open>CBS_asn1_oid_to_text\<close> as the same text, with a terminating zero.\<close>

theorem oid_round_trip:
  assumes "oid_valid ns" "length (dotted ns) < 2 ^ 64 - 1" "length (oid_enc ns) < 2 ^ 64" "cap < 2 ^ 64"
  shows "\<exists>c c1 c2 out. CBB_init [] fresh cap = (True, c) \<and>
    CBB_add_asn1_oid_from_text 0 (dotted ns) c = (True, c1) \<and> CBB_finish 0 True c1 = (Some out, c2) \<and>
    CBS_asn1_oid_to_text [] fresh' out = Some (dotted ns @ [0])"
proof -
  obtain c where c: "CBB_init [] fresh cap = (True, c)"
    using CBB_init_capacity [of 0 cap fresh] by (metis le0 prod.collapse)
  obtain c1 c2 where "CBB_add_asn1_oid_from_text 0 (dotted ns) c = (True, c1)"
    "CBB_finish 0 True c1 = (Some (oid_enc ns), c2)"
    by (rule writes_finish_total [OF oid_from_text_writes [OF assms(1)] c assms(4,3)])
  with c oid_to_text_complete [OF assms(1,2), of fresh'] show ?thesis by blast
qed

theorem oid_round_trip_witness:
  "\<exists>c c1 c2 out. CBB_init [] (\<lambda>_. 0) 8 = (True, c) \<and>
    CBB_add_asn1_oid_from_text 0 (dotted [1, 2, 840, 113549]) c = (True, c1) \<and> CBB_finish 0 True c1 = (Some out, c2) \<and>
    CBS_asn1_oid_to_text [] (\<lambda>_. 0) out = Some (dotted [1, 2, 840, 113549] @ [0])"
proof -
  let ?ns = "[1, 2, 840, 113549] :: u64 list"
  have "length (dotted ?ns) < 2 ^ 64 - 1" "length (oid_enc ?ns) < 2 ^ 64"
    by (simp_all add: oid_eval)
  then show ?thesis by (intro oid_round_trip) simp_all
qed

text \<open>
  C12.  Whatever \<open>CBS_asn1_oid_to_text\<close> prints, its input was the one encoding of the identifier
  printed: malformed and non-minimal encodings, and components over 64 bits, are refused.\<close>

theorem oid_printer_sound:
  assumes "CBS_asn1_oid_to_text mem fresh cbs = Some t"
  shows "\<exists>ns. oid_valid ns \<and> cbs = oid_enc ns \<and> t = dotted ns @ [0]"
  by (rule oid_to_text_sound [OF assms]) blast

theorem oid_printer_sound_witness:
  "CBS_asn1_oid_to_text [] (\<lambda>_. 0) [0x2a, 3] = Some [0x31, 0x2e, 0x32, 0x2e, 0x33, 0] \<and>
   (\<exists>ns. oid_valid ns \<and> [0x2a, 3] = oid_enc ns \<and> [0x31, 0x2e, 0x32, 0x2e, 0x33, 0] = dotted ns @ [0])"
proof -
  have "CBS_asn1_oid_to_text [] (\<lambda>_. 0) (oid_enc [1, 2, 3]) = Some (dotted [1, 2, 3] @ [0])"
    by (rule oid_to_text_complete) (simp_all add: oid_eval)
  then have t: "CBS_asn1_oid_to_text [] (\<lambda>_. 0) [0x2a, 3] = Some [0x31, 0x2e, 0x32, 0x2e, 0x33, 0]"
    by (simp add: oid_eval)
  from t oid_printer_sound [OF t] show ?thesis by (rule conjI)
qed

text \<open>
  C13.  \<open>CBB_flush_asn1_set_of\<close> sorts the elements of a SET OF.  When it succeeds, the contents
  of the element under construction were a sequence of DER elements; they have become the same
  elements in ascending lexicographic order, and the enclosing levels and the invariant are as before.\<close>

theorem set_of_sorted:
  assumes "cbb_wf c" "CBB_flush_asn1_set_of d c = (True, c')"
  shows "cbb_wf c' \<and>
    (\<exists>es. parse_many CBS_get_any_asn1_element (last (open_levels (close_to d (cbb_view c)))) = Some es \<and>
       open_levels (cbb_view c') =
         butlast (open_levels (close_to d (cbb_view c))) @ [concat (sort (map fst es))])"
proof -
  from assms(2) obtain c1 where c1: "CBB_flush d c = (True, c1)" "set_of_body d c1 = (True, c')"
    by (auto simp: set_of_eq andthen_ok)
  have fl: "cbb_wf c1" "cbb_live c1" "length (cbb_chain c1) = d" "cbb_view c1 = close_to d (cbb_view c)"
    using CBB_flush_spec [OF assms(1), of d] c1(1) by (simp_all add: flushed_def min_absorb2)
  from set_of_body_spec [OF fl(1-3)] c1(2) fl(4) show ?thesis
    by (auto simp: sort_level_def)
qed

theorem set_of_sorted_witness:
  "let b = \<lparr>b_buf = [4, 1, 9, 4, 1, 3], b_len = 6, b_cap = 6, b_can_resize = True, b_error = False,
            b_mem = [], b_fresh = \<lambda>_. 0\<rparr>
   in \<exists>c'. CBB_flush_asn1_set_of 0 \<lparr>cbb_base = Some b, cbb_chain = []\<rparr> = (True, c') \<and>
        open_levels (cbb_view c') = [[4, 1, 3, 4, 1, 9]]"
proof -
  define b where "b = \<lparr>b_buf = [4, 1, 9, 4, 1, 3], b_len = 6, b_cap = 6, b_can_resize = True,
    b_error = False, b_mem = [], b_fresh = \<lambda>_. (0 :: u8)\<rparr>"
  define c where "c = \<lparr>cbb_base = Some b, cbb_chain = []\<rparr>"
  let ?es = "[([4, 1, 9], 4, 2), ([4, 1, 3], 4, 2)] :: (CBS \<times> u32 \<times> size_t) list"
  have wf: "cbb_wf c" "cbb_live c" by (simp_all add: cbb_wf_def c_def b_def buffer_wf_def cbb_live_def)
  have v: "cbb_view c = \<lparr>open_levels = [[4, 1, 9, 4, 1, 3]], open_kinds = [], all_fit = True\<rparr>"
    by (simp add: cbb_view_def view_def c_def b_def b_written_def)
  have el: "CBS_get_any_asn1_element (4 # 1 # x # s) = Some (([4, 1, x], 4, 2), s)" for x s
    by (simp add: ber_eval)
  have es: "parse_many CBS_get_any_asn1_element [4, 1, 9, 4, 1, 3] = Some ?es"
    by (simp add: parse_many.simps el)
  have data: "CBB_data 0 c = Some [4, 1, 9, 4, 1, 3]"
    by (simp add: CBB_data_def c_def b_def cbb_start_def)
  have "fst (rewrite_elements 0 ?es c)"
    using rewrite_elements_spec [OF wf(1), of b 0 ?es] es
    by (simp add: v) (simp add: c_def b_def set_of_alloc_base mem_next_def)
  then have "fst (set_of_body 0 c)"
    by (simp add: set_of_body_def data es size_max_def sizeof_CBS_def)
  then obtain c' where fl: "CBB_flush_asn1_set_of 0 c = (True, c')"
    by (cases "set_of_body 0 c") (simp add: set_of_eq CBB_flush.simps c_def b_def)
  from set_of_sorted [OF wf(1) fl] have "open_levels (cbb_view c') = [[4, 1, 3, 4, 1, 9]]"
    by (simp add: v close_to_same es)
  with fl show ?thesis by (auto simp: Let_def c_def b_def)
qed

text \<open>
  C14.  What \<open>CBS_asn1_ber_to_der\<close> converts, under any behaviour of the allocator: the input is
  a sequence of well-formed BER elements nested at most 2048 deep, the output is their DER
  rendering, with every length fitting its field, and is DER at every depth: all headers are the
  canonical ones, and there is no element of indefinite length and no constructed string.  The whole
  input has been consumed, not only its first element.\<close>

theorem ber_to_der_converted:
  assumes "CBS_asn1_ber_to_der mem fresh s = Some ((out, True), r)" "length s < 2 ^ 64"
  shows "\<exists>is. ber_items s 0 False 0 = Some (is, []) \<and> r = [] \<and> out = render is \<and> items_fit is \<and>
    der_data out \<and> \<not> contains_ber out"
  by (rule ber_to_der_output [OF assms])

theorem ber_to_der_converted_witness:
  "CBS_asn1_ber_to_der [] (\<lambda>_. 0) [0x30, 0x80, 4, 1, 9, 0, 0] = Some (([0x30, 3, 4, 1, 9], True), []) \<and>
   der_data [0x30, 3, 4, 1, 9]"
proof -
  have r: "render [Element 0x20000010 [Element 4 [Bytes [9]]]] = [0x30, 3, 4, 1, 9]"
    by (simp add: der_eval)
  have "CBS_asn1_ber_to_der [] (\<lambda>_. 0) [0x30, 0x80, 4, 1, 9, 0, 0] =
      Some ((render [Element 0x20000010 [Element 4 [Bytes [9]]]], True), [])"
    by (rule ber_to_der_total [where r = "[]"])
       (simp_all add: r cbs_find_ber_def find_ber_loop.simps ber_items.simps is_eoc_def eoc_bytes der_eval ber_eval)
  then have c: "CBS_asn1_ber_to_der [] (\<lambda>_. 0) [0x30, 0x80, 4, 1, 9, 0, 0] = Some (([0x30, 3, 4, 1, 9], True), [])"
    by (simp only: r)
  from ber_to_der_converted [OF c] have "der_data [0x30, 3, 4, 1, 9]" by fastforce
  with c show ?thesis by (rule conjI)
qed



text \<open>
  C16.  The search for BER overlooks it: of an element made of elements of definite length, none a
  constructed string, it reports what it reports for the contents of the last constructed one,
  because each call resets the result of the one before.  So when that one holds no BER,
  \<open>CBS_asn1_ber_to_der\<close> returns the input as it is, as if it were DER, even if one of the elements
  before holds BER.\<close>

theorem ber_overlooked:
  assumes "t AND CBS_ASN1_CONSTRUCTED \<noteq> 0" "\<not> is_string_type t" "length (elements es) < 2 ^ 32"
    and "\<forall>(t, c)\<in>set (constructed_of es). \<not> is_string_type t \<and> cbs_find_ber c 2 \<noteq> None"
    and "constructed_of es \<noteq> []" "cbs_find_ber (snd (last (constructed_of es))) 2 = Some found"
  shows "cbs_find_ber (der_element t (elements es)) 0 = Some found \<and>
    (contains_ber (der_element t (elements es)) \<longleftrightarrow> (\<exists>(t, c)\<in>set (constructed_of es). contains_ber c)) \<and>
    (\<not> found \<longrightarrow> CBS_asn1_ber_to_der mem fresh (der_element t (elements es)) =
      Some ((der_element t (elements es), False), []))"
  using ber_to_der_siblings(1,2) [OF assms(1-5)] ber_to_der_siblings(3) [OF assms(1-5), of mem fresh] assms(6) by auto

theorem ber_overlooked_witness:
  "CBS_asn1_ber_to_der [] (\<lambda>_. 0) [0x30, 8, 0x30, 4, 0x30, 0x80, 0, 0, 0x30, 0] =
     Some (([0x30, 8, 0x30, 4, 0x30, 0x80, 0, 0, 0x30, 0], False), []) \<and>
   contains_ber [0x30, 8, 0x30, 4, 0x30, 0x80, 0, 0, 0x30, 0] \<and>
   cbs_find_ber [0x30, 8, 0x30, 0, 0x30, 4, 0x30, 0x80, 0, 0] 0 = Some True"
proof -
  let ?seq = "0x20000010 :: u32" and ?ber = "[0x30, 0x80, 0, 0] :: u8 list"
  have seq: "?seq AND CBS_ASN1_CONSTRUCTED \<noteq> 0" "\<not> is_string_type ?seq" by (simp_all add: ber_eval)
  have ber: "contains_ber ?ber" using contains_ber.indefinite [OF seq(1), of "[0, 0]"] by (simp add: der_eval)
  have es: "der_element ?seq (elements [(?seq, ?ber), (?seq, [])]) = [0x30, 8, 0x30, 4, 0x30, 0x80, 0, 0, 0x30, 0]"
    "der_element ?seq (elements [(?seq, []), (?seq, ?ber)]) = [0x30, 8, 0x30, 0, 0x30, 4, 0x30, 0x80, 0, 0]"
    by (simp_all add: elements_def der_eval)
  have con: "constructed_of [(?seq, ?ber), (?seq, [])] = [(?seq, ?ber), (?seq, [])]"
    "constructed_of [(?seq, []), (?seq, ?ber)] = [(?seq, []), (?seq, ?ber)]"
    using seq(1) by (simp_all add: constructed_of_def)
  have found: "cbs_find_ber [] 2 = Some False" "cbs_find_ber ?ber 2 = Some True"
    by (simp_all add: cbs_find_ber_def find_ber_loop.simps ber_eval)
  have len: "length (elements [(?seq, ?ber), (?seq, [])]) < 2 ^ 32" "length (elements [(?seq, []), (?seq, ?ber)]) < 2 ^ 32"
    by (simp_all add: elements_def der_eval)
  from ber_overlooked [OF seq len(1), unfolded con es, where found = False and mem = "[]" and fresh = "\<lambda>_. 0"]
    ber_overlooked [OF seq len(2), unfolded con es, where found = True]
  show ?thesis using seq(2) found ber by auto
qed

end
